(* ===== verification/Prelude.thy ===== *)
theory Prelude
  imports Complex_Main "HOL-Library.Word" "HOL-Library.AList"
begin

text \<open>
  Shared vocabulary of the development: the Python exception classes as values, the error monad
  on \<open>exn + 'a\<close>, byte strings, the standard library's \<open>int.to_bytes\<close> and
  \<open>int.from_bytes\<close>, strict UTF-8 validation, and the lemma collections that the component
  theories add to (\<open>result_simps\<close> for the monad, \<open>byte_simps\<close> for encoders).

  Python dictionaries that keep insertion order are association lists with distinct keys:
  \<open>AList.update\<close> is \<open>d[k] = v\<close> (an existing key keeps its position), \<open>map_of\<close>
  is \<open>d.get\<close>. A slice \<open>data[a:b]\<close> is \<open>take (b - a) (drop a data)\<close>.
\<close>

named_theorems result_simps
named_theorems byte_simps

subsection \<open>Exceptions as values\<close>

datatype exn =
    IndexError | KeyError | TypeError | ValueError | OverflowError | UnicodeError
  | StructError | RecursionError | NotImplementedError | RuntimeError | AttributeError
  | FileNotFound | OsError | TimeoutError | ConnectionError
  | FrameTooLarge | AuthorizationRevoked
  | ResetInProgress | MissingIdentity | IdentityError
  | PairedClientsError | PairedClientsFull | TlsTrustError | OtherException | CancelledError

type_synonym 'a result = "exn + 'a"

definition rbind :: "('e + 'a) \<Rightarrow> ('a \<Rightarrow> 'e + 'b) \<Rightarrow> 'e + 'b" where
  "rbind m f = (case m of Inl e \<Rightarrow> Inl e | Inr x \<Rightarrow> f x)"

lemma rbind_Inl [simp, result_simps]: "rbind (Inl e) f = Inl e"
  by (simp add: rbind_def)

lemma rbind_Inr [simp, result_simps]: "rbind (Inr x) f = f x"
  by (simp add: rbind_def)

lemma rbind_eq_Inr [result_simps]: "rbind m f = Inr y \<longleftrightarrow> (\<exists>x. m = Inr x \<and> f x = Inr y)"
  by (cases m) auto

lemma rbind_eq_Inl [result_simps]:
  "rbind m f = Inl e \<longleftrightarrow> m = Inl e \<or> (\<exists>x. m = Inr x \<and> f x = Inl e)"
  by (cases m) auto

lemma rbind_cong [fundef_cong]:
  "m = m' \<Longrightarrow> (\<And>x. m' = Inr x \<Longrightarrow> f x = f' x) \<Longrightarrow> rbind m f = rbind m' f'"
  by (cases m') auto

definition returns :: "('e + 'a) \<Rightarrow> bool" where
  "returns m \<longleftrightarrow> (case m of Inl _ \<Rightarrow> False | Inr _ \<Rightarrow> True)"

lemma returns_simps [simp, result_simps]: "\<not> returns (Inl e)" "returns (Inr x)"
  by (simp_all add: returns_def)

lemma returns_iff [result_simps]: "returns m \<longleftrightarrow> (\<exists>x. m = Inr x)"
  by (cases m) simp_all

subsection \<open>Bytes and integers\<close>

type_synonym byte = "8 word"
type_synonym bytes = "byte list"

text \<open>\<open>int.from_bytes(bs, "little")\<close> and \<open>x.to_bytes(n, "little")\<close> (for a value that fits).\<close>

primrec le_nat :: "bytes \<Rightarrow> nat" where
  "le_nat [] = 0"
| "le_nat (b # bs) = unat b + 256 * le_nat bs"

primrec le_bytes :: "nat \<Rightarrow> nat \<Rightarrow> bytes" where
  "le_bytes 0 x = []"
| "le_bytes (Suc n) x = word_of_nat (x mod 256) # le_bytes n (x div 256)"

definition be_nat :: "bytes \<Rightarrow> nat" where
  "be_nat bs = le_nat (rev bs)"

definition be_bytes :: "nat \<Rightarrow> nat \<Rightarrow> bytes" where
  "be_bytes n x = rev (le_bytes n x)"

text \<open>The checked conversion: a negative or too large value raises \<open>OverflowError\<close>.\<close>

definition to_bytes_le :: "nat \<Rightarrow> int \<Rightarrow> bytes result" where
  "to_bytes_le n x =
     (if 0 \<le> x \<and> x < 256 ^ n then Inr (le_bytes n (nat x)) else Inl OverflowError)"

text \<open>\<open>bytes([x])\<close>: one byte, \<open>ValueError\<close> outside 0..255.\<close>

definition byte_lit :: "int \<Rightarrow> bytes result" where
  "byte_lit x = (if 0 \<le> x \<and> x < 256 then Inr [word_of_nat (nat x)] else Inl ValueError)"

lemma unat_byte [simp, byte_simps]: "x < 256 \<Longrightarrow> unat (word_of_nat x :: byte) = x"
  by (simp add: unat_of_nat)

lemma unat_byte_less [simp]: "unat (b :: byte) < 256"
  using unsigned_less [of b] by simp

lemma length_le_bytes [simp, byte_simps]: "length (le_bytes n x) = n"
  by (induction n arbitrary: x) simp_all

lemma le_bytes_numeral [byte_simps]:
  "le_bytes (numeral k) x = word_of_nat (x mod 256) # le_bytes (pred_numeral k) (x div 256)"
  by (simp only: numeral_eq_Suc [of k] le_bytes.simps)

lemma length_be_bytes [simp, byte_simps]: "length (be_bytes n x) = n"
  by (simp add: be_bytes_def)

lemma le_nat_le_bytes [byte_simps]: "x < 256 ^ n \<Longrightarrow> le_nat (le_bytes n x) = x"
proof (induction n arbitrary: x)
  case (Suc n)
  have "x div 256 < 256 ^ n"
    using Suc.prems by (simp add: less_mult_imp_div_less mult.commute)
  then show ?case using Suc.IH by (simp add: unat_of_nat)
qed simp

lemma be_nat_be_bytes [byte_simps]: "x < 256 ^ n \<Longrightarrow> be_nat (be_bytes n x) = x"
  by (simp add: be_nat_def be_bytes_def le_nat_le_bytes)

lemma le_nat_bound: "le_nat bs < 256 ^ length bs"
proof (induction bs)
  case (Cons b bs)
  have "unat b + 256 * le_nat bs < 256 + 256 * le_nat bs" by simp
  also have "\<dots> \<le> 256 * 256 ^ length bs" using Cons.IH by simp
  finally show ?case by simp
qed simp

lemma be_nat_bound: "be_nat bs < 256 ^ length bs"
  using le_nat_bound [of "rev bs"] by (simp add: be_nat_def)

lemma le_bytes_le_nat: "le_bytes (length bs) (le_nat bs) = bs"
proof (induction bs)
  case (Cons b bs)
  have "(unat b + 256 * le_nat bs) div 256 = le_nat bs" by simp
  moreover have "(word_of_nat ((unat b + 256 * le_nat bs) mod 256) :: byte) = b"
    by simp
  ultimately show ?case using Cons.IH by simp
qed simp

lemma be_bytes_be_nat: "length bs = n \<Longrightarrow> be_bytes n (be_nat bs) = bs"
  using le_bytes_le_nat [of "rev bs"] by (simp add: be_bytes_def be_nat_def)

subsection \<open>Strings\<close>

text \<open>
  A Python \<open>str\<close> is modelled by the bytes of its UTF-8 encoding, one \<open>char\<close> per byte, so
  ASCII literals of the source are string literals here; a decoded value always satisfies
  \<open>utf8_valid\<close>.
\<close>

definition bytes_of :: "string \<Rightarrow> bytes" where
  "bytes_of s = map (\<lambda>c. word_of_nat (of_char c)) s"

definition string_of :: "bytes \<Rightarrow> string" where
  "string_of bs = map (\<lambda>b. char_of (unat b)) bs"

lemma length_bytes_of [simp]: "length (bytes_of s) = length s"
  by (simp add: bytes_of_def)

lemma length_string_of [simp]: "length (string_of bs) = length bs"
  by (simp add: string_of_def)

lemma string_of_bytes_of [simp, byte_simps]: "string_of (bytes_of s) = s"
  by (induction s) (simp_all add: string_of_def bytes_of_def)

lemma bytes_of_string_of [simp, byte_simps]: "bytes_of (string_of bs) = bs"
  by (induction bs) (simp_all add: string_of_def bytes_of_def)

lemma bytes_of_inject [simp]: "bytes_of s = bytes_of t \<longleftrightarrow> s = t"
  by (metis string_of_bytes_of)

text \<open>\<open>bytes.decode("utf-8")\<close> in strict mode accepts exactly the well-formed sequences.\<close>

definition utf8_cont :: "byte \<Rightarrow> bool" where
  "utf8_cont b \<longleftrightarrow> 0x80 \<le> b \<and> b \<le> 0xBF"

fun utf8_valid :: "bytes \<Rightarrow> bool" where
  "utf8_valid [] = True"
| "utf8_valid (a # r) =
    (if a \<le> 0x7F then utf8_valid r
     else if 0xC2 \<le> a \<and> a \<le> 0xDF then
       (case r of b # r' \<Rightarrow> utf8_cont b \<and> utf8_valid r' | _ \<Rightarrow> False)
     else if 0xE0 \<le> a \<and> a \<le> 0xEF then
       (case r of b # c # r' \<Rightarrow>
          utf8_cont b \<and> (a = 0xE0 \<longrightarrow> 0xA0 \<le> b) \<and> (a = 0xED \<longrightarrow> b \<le> 0x9F)
          \<and> utf8_cont c \<and> utf8_valid r'
        | _ \<Rightarrow> False)
     else if 0xF0 \<le> a \<and> a \<le> 0xF4 then
       (case r of b # c # d # r' \<Rightarrow>
          utf8_cont b \<and> (a = 0xF0 \<longrightarrow> 0x90 \<le> b) \<and> (a = 0xF4 \<longrightarrow> b \<le> 0x8F)
          \<and> utf8_cont c \<and> utf8_cont d \<and> utf8_valid r'
        | _ \<Rightarrow> False)
     else False)"

definition decode_utf8 :: "bytes \<Rightarrow> string result" where
  "decode_utf8 bs = (if utf8_valid bs then Inr (string_of bs) else Inl UnicodeError)"

lemma utf8_valid_ascii: "\<forall>b \<in> set bs. b \<le> 0x7F \<Longrightarrow> utf8_valid bs"
  by (induction bs) auto

text \<open>
  Code points: \<open>py_chars\<close> splits a string before every byte that starts a character, so
  \<open>len\<close>, slices and \<open>str.strip\<close> count characters as Python does.
\<close>

definition char_cont :: "char \<Rightarrow> bool" where
  "char_cont c \<longleftrightarrow> (0x80 :: nat) \<le> of_char c \<and> (of_char c :: nat) < 0xC0"

function py_chars :: "string \<Rightarrow> string list" where
  "py_chars [] = []"
| "py_chars (c # s) = (c # takeWhile char_cont s) # py_chars (dropWhile char_cont s)"
  by pat_completeness auto
termination
  by (relation "measure length") (simp_all add: le_imp_less_Suc length_dropWhile_le)

definition py_len :: "string \<Rightarrow> nat" where
  "py_len s = length (py_chars s)"

definition py_prefix :: "nat \<Rightarrow> string \<Rightarrow> string" where
  "py_prefix n s = concat (take n (py_chars s))"

text \<open>The characters that \<open>str.isspace\<close> accepts, in UTF-8.\<close>

definition py_space :: "string \<Rightarrow> bool" where
  "py_space ch \<longleftrightarrow>
     (let n = map of_char ch :: nat list
      in n \<in> set (map (\<lambda>k. [k]) ([9, 10, 11, 12, 13, 28, 29, 30, 31, 32])
           @ [[0xC2, 0x85], [0xC2, 0xA0], [0xE1, 0x9A, 0x80], [0xE2, 0x80, 0xA8], [0xE2, 0x80, 0xA9],
              [0xE2, 0x80, 0xAF], [0xE2, 0x81, 0x9F], [0xE3, 0x80, 0x80]]
           @ map (\<lambda>k. [0xE2, 0x80, k]) [0x80..<0x8B]))"

definition py_strip :: "string \<Rightarrow> string" where
  "py_strip s = concat (rev (dropWhile py_space (rev (dropWhile py_space (py_chars s)))))"

lemma concat_py_chars [simp]: "concat (py_chars s) = s"
  by (induction s rule: py_chars.induct) simp_all

lemma py_chars_nonempty: "ch \<in> set (py_chars s) \<Longrightarrow> ch \<noteq> []"
  by (induction s rule: py_chars.induct) auto

text \<open>Regrouping a run of characters gives the same characters.\<close>

definition py_char :: "string \<Rightarrow> bool" where
  "py_char ch \<longleftrightarrow> (\<exists>c s. ch = c # s \<and> list_all char_cont s)"

lemma py_chars_char: "ch \<in> set (py_chars s) \<Longrightarrow> py_char ch"
  by (induction s rule: py_chars.induct)
    (auto simp: py_char_def list_all_iff dest: set_takeWhileD)

fun py_chunks :: "string list \<Rightarrow> bool" where
  "py_chunks [] = True"
| "py_chunks (ch # cs) = (py_char ch \<and> list_all (\<lambda>ch'. py_char ch' \<and> \<not> char_cont (hd ch')) cs)"

lemma py_chars_starts:
  "list_all (\<lambda>ch. py_char ch \<and> \<not> char_cont (hd ch)) (py_chars (dropWhile char_cont s))"
proof (induction "length s" arbitrary: s rule: less_induct)
  case less
  show ?case
  proof (cases "dropWhile char_cont s")
    case (Cons d t)
    have "length t < length s" using length_dropWhile_le [of char_cont s] Cons by simp
    from less [OF this] Cons show ?thesis
      by (auto simp: py_char_def list_all_iff dest: set_takeWhileD)
        (metis dropWhile_eq_Cons_conv)
  next
    case Nil
    show ?thesis by (simp only: Nil py_chars.simps list.pred_inject)
  qed
qed

lemma takeWhile_split:
  "list_all P xs \<Longrightarrow> ys = [] \<or> \<not> P (hd ys) \<Longrightarrow> takeWhile P (xs @ ys) = xs \<and> dropWhile P (xs @ ys) = ys"
  by (cases ys) (simp_all add: list_all_iff)

lemma py_chunks_chars: "py_chunks (py_chars s)"
  using py_chars_starts [of "tl s"]
  by (cases s) (auto simp: py_char_def list_all_iff dest: set_takeWhileD)

lemma py_chars_concat: "py_chunks cs \<Longrightarrow> py_chars (concat cs) = cs"
proof (induction cs)
  case (Cons ch cs)
  obtain c s where ch: "ch = c # s" "list_all char_cont s" using Cons.prems by (auto simp: py_char_def)
  have starts: "concat cs = [] \<or> \<not> char_cont (hd (concat cs))"
    using Cons.prems by (cases cs) (auto simp: py_char_def)
  moreover have "takeWhile char_cont (s @ concat cs) = s" "dropWhile char_cont (s @ concat cs) = concat cs"
    using takeWhile_split [OF ch(2) starts] by simp_all
  moreover have "py_chunks cs" using Cons.prems by (cases cs) auto
  ultimately show ?case using Cons.IH by (simp add: ch(1))
qed simp

lemma py_chunks_take: "py_chunks cs \<Longrightarrow> py_chunks (take n cs)"
  by (cases cs; cases n) (auto simp: list_all_iff dest: in_set_takeD)

lemma py_len_prefix [simp]: "py_len (py_prefix n s) = min n (py_len s)"
  by (simp add: py_prefix_def py_len_def py_chars_concat py_chunks_take py_chunks_chars min.commute)

lemma py_len_0 [simp]: "py_len s = 0 \<longleftrightarrow> s = []"
  by (cases s) (simp_all add: py_len_def)

subsection \<open>Ordered dictionaries\<close>

lemma map_of_update_eq [simp]: "map_of (AList.update k v al) k = Some v"
  by (simp add: update_conv)

lemma update_append_fresh: "k \<notin> fst ` set al \<Longrightarrow> AList.update k v al = al @ [(k, v)]"
  by (induction al) auto

lemma filter_append_length: "length (filter P (xs @ ys)) = length (filter P xs) + length (filter P ys)"
  by simp

end
