(* ===== verification/Framing.thy ===== *)
theory Framing
  imports Prelude
begin

text \<open>
  \<^verbatim>\<open>companion/protocol/framing.py\<close>: the bounded incremental parser that splits the TCP
  byte stream into Companion frames. The generator \<open>FrameParser.feed\<close> is modelled by
  \<open>feed_next\<close>, its run to the next \<open>yield\<close> (or to its end, or to the
  \<open>FrameTooLarge\<close> it raises), and \<open>feed\<close>, the run a caller gets who consumes every
  frame. Shown: the split of the stream into receive chunks does not change the frames, the parser
  reads back what a sender writes, and it never retains more than one header and one bounded payload.
\<close>

definition MAX_APPLICATION_PAYLOAD :: nat where
  "MAX_APPLICATION_PAYLOAD = 1048576"

definition MAX_WIRE_PAYLOAD :: nat where
  "MAX_WIRE_PAYLOAD = MAX_APPLICATION_PAYLOAD + 16"

definition FRAME_HEADER_SIZE :: nat where
  "FRAME_HEADER_SIZE = 4"

datatype frame = CompanionFrame (frame_header: bytes) (frame_payload: bytes)

record frame_parser =
  fp_max :: nat
  fp_buffer :: bytes
  fp_size :: "nat option"

definition new_parser :: "int \<Rightarrow> frame_parser result" where
  "new_parser max_payload =
     (if max_payload < 0 then Inl ValueError
      else Inr \<lparr>fp_max = nat max_payload, fp_buffer = [], fp_size = None\<rparr>)"

definition fp_clear :: "frame_parser \<Rightarrow> frame_parser" where
  "fp_clear p = p\<lparr>fp_buffer := [], fp_size := None\<rparr>"

text \<open>\<open>_take\<close>: move up to \<open>target\<close> buffered bytes from the input.\<close>

definition fp_take :: "frame_parser \<Rightarrow> bytes \<Rightarrow> nat \<Rightarrow> frame_parser \<times> bytes" where
  "fp_take p incoming target =
     (let missing = target - length (fp_buffer p);
          k = min missing (length incoming)
      in (p\<lparr>fp_buffer := fp_buffer p @ take k incoming\<rparr>, drop k incoming))"

datatype feed_outcome = Yielded frame | Exhausted | TooLarge

text \<open>The part of the loop body below the header: fill the frame and yield it.\<close>

definition feed_body :: "frame_parser \<Rightarrow> bytes \<Rightarrow> nat \<Rightarrow> feed_outcome \<times> frame_parser \<times> bytes" where
  "feed_body p incoming want =
     (let (p1, rest) = fp_take p incoming want
      in if length (fp_buffer p1) < want then (Exhausted, p1, rest)
         else (Yielded (CompanionFrame (take FRAME_HEADER_SIZE (fp_buffer p1))
                          (drop FRAME_HEADER_SIZE (fp_buffer p1))), fp_clear p1, rest))"

text \<open>One iteration of the \<open>while position < len(incoming)\<close> loop.\<close>

definition feed_next :: "frame_parser \<Rightarrow> bytes \<Rightarrow> feed_outcome \<times> frame_parser \<times> bytes" where
  "feed_next p incoming =
     (if incoming = [] then (Exhausted, p, [])
      else case fp_size p of
        Some want \<Rightarrow> feed_body p incoming want
      | None \<Rightarrow>
          (let (p1, rest) = fp_take p incoming FRAME_HEADER_SIZE
           in if length (fp_buffer p1) < FRAME_HEADER_SIZE then (Exhausted, p1, rest)
              else let payload_size = be_nat (take 3 (drop 1 (fp_buffer p1)))
                   in if fp_max p1 < payload_size then (TooLarge, fp_clear p1, rest)
                      else feed_body (p1\<lparr>fp_size := Some (FRAME_HEADER_SIZE + payload_size)\<rparr>)
                             rest (FRAME_HEADER_SIZE + payload_size)))"

definition fp_idle :: "frame_parser \<Rightarrow> bool" where
  "fp_idle p \<longleftrightarrow> fp_buffer p = [] \<and> fp_size p = None"

lemma fp_idle_clear [simp]: "fp_idle (fp_clear p)"
  by (simp add: fp_idle_def fp_clear_def)

lemma feed_body_Yielded:
  "feed_body p inc want = (Yielded f, p', rest) \<Longrightarrow> fp_idle p' \<and> length rest \<le> length inc"
  by (auto simp: feed_body_def fp_take_def Let_def split: if_splits)

lemma fp_take_idle: "fp_idle p \<Longrightarrow> fp_take p inc n = (p\<lparr>fp_buffer := take n inc\<rparr>, drop n inc)"
  by (simp add: fp_take_def fp_idle_def min_def)

lemma feed_next_Yielded:
  assumes "feed_next p inc = (Yielded f, p', rest)"
  shows "fp_idle p'" and "length rest \<le> length inc"
    and "fp_idle p \<Longrightarrow> length rest < length inc"
proof -
  show "fp_idle p'"
    using assms by (auto simp: feed_next_def Let_def dest: feed_body_Yielded
        split: if_splits option.splits prod.splits)
  show "length rest \<le> length inc"
    using assms by (force simp: feed_next_def Let_def fp_take_def dest: feed_body_Yielded
        split: if_splits option.splits prod.splits)
  show "length rest < length inc" if "fp_idle p"
    using assms that by (auto simp: feed_next_def Let_def fp_take_idle FRAME_HEADER_SIZE_def
        fp_idle_def [of p] dest!: feed_body_Yielded split: if_splits option.splits)
qed

lemma feed_next_decreases:
  "feed_next p inc = (Yielded f, p', rest) \<Longrightarrow>
     2 * length rest + (if fp_idle p' then 0 else 1) < 2 * length inc + (if fp_idle p then 0 else 1)"
  using feed_next_Yielded [of p inc f p' rest] by auto

text \<open>The generator run to exhaustion: the frames, the parser left behind, and whether
  \<open>FrameTooLarge\<close> ended it.\<close>

function feed :: "frame_parser \<Rightarrow> bytes \<Rightarrow> frame list \<times> frame_parser \<times> bool" where
  "feed p incoming =
     (case feed_next p incoming of
        (Exhausted, p', rest) \<Rightarrow> ([], p', False)
      | (TooLarge, p', rest) \<Rightarrow> ([], p', True)
      | (Yielded f, p', rest) \<Rightarrow>
          (let (fs, p'', err) = feed p' rest in (f # fs, p'', err)))"
  by pat_completeness auto
termination
  by (relation "measure (\<lambda>(p, inc). 2 * length inc + (if fp_idle p then 0 else 1))")
    (auto dest!: feed_next_decreases [OF sym] split: if_splits)

declare feed.simps [simp del]

text \<open>A connection feeds one received chunk after another and stops at an error.\<close>

fun feed_chunks :: "frame_parser \<Rightarrow> bytes list \<Rightarrow> frame list \<times> frame_parser \<times> bool" where
  "feed_chunks p [] = ([], p, False)"
| "feed_chunks p (c # cs) =
     (let (fs, p', err) = feed p c
      in if err then (fs, p', True)
         else let (gs, p'', err') = feed_chunks p' cs in (fs @ gs, p'', err'))"

subsection \<open>The reference parser: one byte at a time\<close>

definition fp_inv :: "frame_parser \<Rightarrow> bool" where
  "fp_inv p \<longleftrightarrow>
     (case fp_size p of
        None \<Rightarrow> length (fp_buffer p) < FRAME_HEADER_SIZE
      | Some t \<Rightarrow> FRAME_HEADER_SIZE \<le> length (fp_buffer p) \<and> length (fp_buffer p) < t
          \<and> t = FRAME_HEADER_SIZE + be_nat (take 3 (drop 1 (fp_buffer p)))
          \<and> t \<le> FRAME_HEADER_SIZE + fp_max p)"

datatype byte_outcome = More frame_parser | Done frame frame_parser | Refused frame_parser

definition ref_byte :: "frame_parser \<Rightarrow> byte \<Rightarrow> byte_outcome" where
  "ref_byte p b =
     (let buf = fp_buffer p @ [b]; n = be_nat (take 3 (drop 1 buf));
          p' = p\<lparr>fp_buffer := buf\<rparr>; whole = CompanionFrame (take 4 buf) (drop 4 buf)
      in if length buf < 4 then More p'
         else if length buf = 4 \<and> fp_max p < n then Refused (fp_clear p')
         else if length buf < 4 + n then More (p'\<lparr>fp_size := Some (4 + n)\<rparr>)
         else Done whole (fp_clear p'))"

fun ref_feed :: "frame_parser \<Rightarrow> bytes \<Rightarrow> frame list \<times> frame_parser \<times> bool" where
  "ref_feed p [] = ([], p, False)"
| "ref_feed p (b # bs) =
     (case ref_byte p b of
        More p' \<Rightarrow> ref_feed p' bs
      | Refused p' \<Rightarrow> ([], p', True)
      | Done f p' \<Rightarrow> (let (fs, p'', err) = ref_feed p' bs in (f # fs, p'', err)))"

lemma fp_take_Cons:
  "length (fp_buffer p) < n \<Longrightarrow>
     fp_take p (b # inc) n = fp_take (p\<lparr>fp_buffer := fp_buffer p @ [b]\<rparr>) inc n"
  by (cases "n - length (fp_buffer p)")
    (auto simp: fp_take_def Let_def dest: arg_cong [where f = "\<lambda>k. k - 1"])

lemma fp_take_full [simp]: "n \<le> length (fp_buffer p) \<Longrightarrow> fp_take p inc n = (p, inc)"
  by (simp add: fp_take_def)

lemma fp_take_none [simp]: "fp_take p [] n = (p, [])"
  by (simp add: fp_take_def)

lemma ref_byte_inv:
  assumes "fp_inv p"
  shows "ref_byte p b = More p' \<Longrightarrow> fp_inv p'" "ref_byte p b = Done f p' \<Longrightarrow> fp_inv p'"
    "ref_byte p b = Refused p' \<Longrightarrow> fp_inv p'"
  using assms by (auto simp: ref_byte_def fp_inv_def fp_clear_def Let_def FRAME_HEADER_SIZE_def
      split: if_splits option.splits)

lemma feed_next_More:
  assumes "fp_inv p" "ref_byte p b = More p'"
  shows "feed_next p (b # inc) = feed_next p' inc"
proof -
  let ?q = "p\<lparr>fp_buffer := fp_buffer p @ [b]\<rparr>"
  show ?thesis
  proof (cases "fp_size p")
    case None
    then have "length (fp_buffer p) < 4" using assms(1) by (simp add: fp_inv_def FRAME_HEADER_SIZE_def)
    then show ?thesis
      using assms(2) None
      by (auto simp: ref_byte_def Let_def feed_next_def FRAME_HEADER_SIZE_def fp_take_Cons
          feed_body_def split: if_splits)
  next
    case (Some t)
    then have "p' = ?q" "length (fp_buffer p) < t" "fp_size ?q = Some t"
      using assms by (auto simp: fp_inv_def ref_byte_def Let_def FRAME_HEADER_SIZE_def split: if_splits)
    then show ?thesis
      using Some assms ref_byte_inv(1) [OF assms] by (auto simp: feed_next_def feed_body_def fp_take_Cons fp_inv_def)
  qed
qed

lemma feed_next_Done:
  assumes "fp_inv p" "ref_byte p b = Done f p'"
  shows "feed_next p (b # inc) = (Yielded f, p', inc)"
  using assms
  by (auto simp: ref_byte_def Let_def feed_next_def FRAME_HEADER_SIZE_def fp_take_Cons fp_inv_def
          feed_body_def fp_clear_def split: if_splits option.splits)

lemma feed_next_Refused:
  assumes "fp_inv p" "ref_byte p b = Refused p'"
  shows "feed_next p (b # inc) = (TooLarge, p', inc)"
  using assms
  by (auto simp: ref_byte_def Let_def feed_next_def FRAME_HEADER_SIZE_def fp_take_Cons fp_inv_def
          feed_body_def fp_clear_def split: if_splits option.splits)

lemma feed_eq_ref_feed: "fp_inv p \<Longrightarrow> feed p bs = ref_feed p bs"
proof (induction bs arbitrary: p)
  case Nil
  then show ?case by (simp add: feed.simps feed_next_def)
next
  case (Cons b bs)
  show ?case
  proof (cases "ref_byte p b")
    case (More p')
    have "feed p (b # bs) = feed p' bs"
      using feed_next_More [OF Cons.prems More, of bs]
      by (simp add: feed.simps [of p "b # bs"] feed.simps [of p' bs])
    then show ?thesis using More Cons.IH ref_byte_inv(1) [OF Cons.prems More] by simp
  next
    case (Done f p')
    then show ?thesis
      using feed_next_Done [OF Cons.prems Done] Cons.IH ref_byte_inv(2) [OF Cons.prems Done]
      by (simp add: feed.simps [of p "b # bs"])
  next
    case (Refused p')
    then show ?thesis
      using feed_next_Refused [OF Cons.prems Refused] by (simp add: feed.simps [of p "b # bs"])
  qed
qed

lemma ref_feed_append:
  "ref_feed p (xs @ ys) =
     (let (fs, p', err) = ref_feed p xs
      in if err then (fs, p', True)
         else let (gs, p'', err') = ref_feed p' ys in (fs @ gs, p'', err'))"
  by (induction xs arbitrary: p)
    (auto simp: Let_def split: byte_outcome.splits prod.splits)

lemma ref_byte_max:
  "ref_byte p b = More p' \<Longrightarrow> fp_max p' = fp_max p"
  "ref_byte p b = Done f p' \<Longrightarrow> fp_max p' = fp_max p"
  "ref_byte p b = Refused p' \<Longrightarrow> fp_max p' = fp_max p"
  by (auto simp: ref_byte_def Let_def fp_clear_def split: if_splits)

lemma ref_feed_inv: "fp_inv p \<Longrightarrow> ref_feed p bs = (fs, p', err) \<Longrightarrow> fp_inv p'"
  by (induction bs arbitrary: p fs)
    (auto dest: ref_byte_inv simp: Let_def split: byte_outcome.splits prod.splits)

lemma ref_feed_max: "ref_feed p bs = (fs, p', err) \<Longrightarrow> fp_max p' = fp_max p"
  by (induction bs arbitrary: p fs)
    (fastforce dest: ref_byte_max simp: Let_def split: byte_outcome.splits prod.splits)+

lemma fp_inv_bound: "fp_inv p \<Longrightarrow> length (fp_buffer p) < FRAME_HEADER_SIZE + max 1 (fp_max p)"
  by (auto simp: fp_inv_def FRAME_HEADER_SIZE_def split: option.splits)

lemma fp_inv_idle: "fp_idle p \<Longrightarrow> fp_inv p"
  by (simp add: fp_idle_def fp_inv_def FRAME_HEADER_SIZE_def)

lemma feed_chunks_ref: "fp_inv p \<Longrightarrow> feed_chunks p cs = ref_feed p (concat cs)"
proof (induction cs arbitrary: p)
  case (Cons c cs)
  then show ?case
    by (auto simp: feed_eq_ref_feed ref_feed_append Let_def dest: ref_feed_inv split: prod.splits)
qed simp

subsection \<open>What a sender writes\<close>

definition frame_bytes :: "frame \<Rightarrow> bytes" where
  "frame_bytes f = frame_header f @ frame_payload f"

definition frame_ok :: "nat \<Rightarrow> frame \<Rightarrow> bool" where
  "frame_ok m f \<longleftrightarrow> length (frame_header f) = 4 \<and> length (frame_payload f) \<le> m
     \<and> be_nat (drop 1 (frame_header f)) = length (frame_payload f)"

text \<open>Header and payload that \<open>send_to_client\<close> writes: the type code and the payload length in
  three big-endian bytes (\<open>OverflowError\<close> where they do not fit).\<close>

definition make_frame :: "nat \<Rightarrow> bytes \<Rightarrow> frame result" where
  "make_frame type_code payload =
     rbind (byte_lit (int type_code)) (\<lambda>t.
       if length payload < 256 ^ 3
       then Inr (CompanionFrame (t @ be_bytes 3 (length payload)) payload)
       else Inl OverflowError)"

lemma make_frame_ok: "make_frame t payload = Inr f \<Longrightarrow> length payload \<le> m \<Longrightarrow> frame_ok m f"
  by (auto simp: make_frame_def byte_lit_def frame_ok_def rbind_eq_Inr be_nat_be_bytes split: if_splits)

lemma ref_feed_partial:
  assumes "length buf + length bs < 4 + n" "length buf \<ge> 4" "be_nat (take 3 (drop 1 buf)) = n" "n \<le> m"
  shows "ref_feed \<lparr>fp_max = m, fp_buffer = buf, fp_size = Some (4 + n)\<rparr> (bs @ [b]) =
      (if length buf + length bs + 1 = 4 + n
       then ([CompanionFrame (take 4 buf) (drop 4 buf @ bs @ [b])],
             \<lparr>fp_max = m, fp_buffer = [], fp_size = None\<rparr>, False)
       else ([], \<lparr>fp_max = m, fp_buffer = buf @ bs @ [b], fp_size = Some (4 + n)\<rparr>, False))"
  using assms
proof (induction bs arbitrary: buf)
  case Nil
  then show ?case by (auto simp: ref_byte_def Let_def fp_clear_def)
next
  case (Cons c bs)
  then have "ref_byte \<lparr>fp_max = m, fp_buffer = buf, fp_size = Some (4 + n)\<rparr> c
      = More \<lparr>fp_max = m, fp_buffer = buf @ [c], fp_size = Some (4 + n)\<rparr>"
    by (auto simp: ref_byte_def Let_def)
  then show ?case using Cons.prems Cons.IH [of "buf @ [c]"] by simp
qed

lemma ref_feed_frame:
  assumes "frame_ok (fp_max p) f" "fp_idle p"
  shows "ref_feed p (frame_bytes f) = ([f], p, False)"
proof -
  obtain t a b c pay where f: "f = CompanionFrame [t, a, b, c] pay"
    using assms(1) by (cases f) (auto simp: frame_ok_def length_Suc_conv eval_nat_numeral)
  obtain m where p: "p = \<lparr>fp_max = m, fp_buffer = [], fp_size = None\<rparr>"
    using assms(2) by (cases p) (simp add: fp_idle_def)
  let ?n = "length pay"
  have n: "be_nat [a, b, c] = ?n" "?n \<le> fp_max p" using assms(1) by (simp_all add: frame_ok_def f)
  have head: "ref_feed p ([t, a, b, c] @ pay) =
     (if pay = [] then ([f], p, False)
      else ref_feed \<lparr>fp_max = fp_max p, fp_buffer = [t, a, b, c], fp_size = Some (4 + ?n)\<rparr> pay)"
    using n by (auto simp: p ref_byte_def Let_def f fp_clear_def)
  show ?thesis
  proof (cases pay rule: rev_cases)
    case Nil
    then show ?thesis using head by (simp add: frame_bytes_def f)
  next
    case (snoc bs b')
    then show ?thesis
      using head n ref_feed_partial [of "[t, a, b, c]" bs ?n m b'] p
      by (simp add: frame_bytes_def f)
  qed
qed

lemma ref_feed_frames:
  "\<forall>f \<in> set fs. frame_ok (fp_max p) f \<Longrightarrow> fp_idle p \<Longrightarrow>
     ref_feed p (concat (map frame_bytes fs)) = (fs, p, False)"
  by (induction fs) (auto simp: ref_feed_append ref_feed_frame)

lemma new_parser_idle: "new_parser m = Inr p \<Longrightarrow> fp_idle p \<and> fp_max p = nat m"
  by (auto simp: new_parser_def fp_idle_def split: if_splits)

subsection \<open>Properties\<close>

text \<open>C31: However the network splits the stream into receive chunks, a parser in a consistent state
  yields the same frames, ends in the same state and raises \<open>FrameTooLarge\<close> in the same cases
  as for the whole stream at once.\<close>

theorem feed_chunk_invariant:
  assumes "fp_inv p"
  shows "feed_chunks p cs = feed p (concat cs)"
  using assms by (simp add: feed_chunks_ref feed_eq_ref_feed)

theorem feed_chunk_invariant_witness:
  "feed_chunks \<lparr>fp_max = 2, fp_buffer = [8, 0], fp_size = None\<rparr> [[0], [], [1, 7, 9]]
     = feed \<lparr>fp_max = 2, fp_buffer = [8, 0], fp_size = None\<rparr> [0, 1, 7, 9]"
  using feed_chunk_invariant [of "\<lparr>fp_max = 2, fp_buffer = [8, 0], fp_size = None\<rparr>" "[[0], [], [1, 7, 9]]"]
  by (simp add: fp_inv_def FRAME_HEADER_SIZE_def)

text \<open>A fresh parser reads back exactly the frames a sender wrote, however the bytes are
  chunked, as long as every payload is within the parser's limit.\<close>

theorem feed_roundtrip:
  assumes "new_parser m = Inr p" and "\<forall>f \<in> set fs. frame_ok (nat m) f"
    and "concat cs = concat (map frame_bytes fs)"
  shows "feed_chunks p cs = (fs, p, False)"
  using assms new_parser_idle [OF assms(1)] by (simp add: feed_chunks_ref fp_inv_idle ref_feed_frames)

theorem feed_roundtrip_witness:
  "feed_chunks \<lparr>fp_max = 2, fp_buffer = [], fp_size = None\<rparr> [[8, 0, 0], [1, 7, 3], [0, 0, 0]]
     = ([CompanionFrame [8, 0, 0, 1] [7], CompanionFrame [3, 0, 0, 0] []],
        \<lparr>fp_max = 2, fp_buffer = [], fp_size = None\<rparr>, False)"
  by (rule feed_roundtrip [of 2])
    (simp_all add: new_parser_def frame_ok_def frame_bytes_def be_nat_def)

text \<open>C37: Between calls the parser never retains more than a header and one permitted payload,
  whatever the peer sends; a header that declares more is refused as soon as its four bytes are in,
  with nothing of the payload retained.\<close>

theorem feed_bounded:
  assumes "new_parser m = Inr p"
  shows "(case feed_chunks p cs of (fs, p', err) \<Rightarrow>
            fp_inv p' \<and> length (fp_buffer p') \<le> FRAME_HEADER_SIZE + nat m)
    \<and> (nat m < be_nat [a, b, c] \<longrightarrow> feed p (t # a # b # c # rest) = ([], p, True))"
proof -
  note idle = new_parser_idle [OF assms]
  obtain fs p' err where run: "ref_feed p (concat cs) = (fs, p', err)" by (metis prod_cases3)
  have "fp_inv p'" "fp_max p' = nat m"
    using ref_feed_inv [OF _ run] ref_feed_max [OF run] idle by (simp_all add: fp_inv_idle)
  then have "case feed_chunks p cs of (fs, p', err) \<Rightarrow>
      fp_inv p' \<and> length (fp_buffer p') \<le> FRAME_HEADER_SIZE + nat m"
    using run idle fp_inv_bound [of p'] by (simp add: feed_chunks_ref fp_inv_idle)
  moreover have "feed p (t # a # b # c # rest) = ([], p, True)" if "nat m < be_nat [a, b, c]"
    using that idle
    by (cases p) (simp add: feed_eq_ref_feed fp_inv_idle ref_byte_def fp_idle_def Let_def fp_clear_def)
  ultimately show ?thesis by blast
qed

theorem feed_bounded_witness:
  "feed \<lparr>fp_max = 1, fp_buffer = [], fp_size = None\<rparr> [8, 0, 1, 0, 5]
     = ([], \<lparr>fp_max = 1, fp_buffer = [], fp_size = None\<rparr>, True)"
  using feed_bounded [of 1 "\<lparr>fp_max = 1, fp_buffer = [], fp_size = None\<rparr>" "[]" 0 1 0 8 "[5]"]
  by (simp add: new_parser_def be_nat_def)

end
