(* ===== verification/Repeater.thy ===== *)
theory Repeater
  imports Prelude
begin

text \<open>
  \<^verbatim>\<open>companion/repeater.py\<close>: the driver that repeats a held key. Each repeat task is a
  coroutine; it is cut at its awaits (the two sleeps and the send) into \<open>run_state\<close>s, and
  \<open>run_resume\<close> carries it from one to the next. Tasks are numbered in order of creation. What
  lies outside is an argument of the step: the clock, the answer of \<open>should_continue\<close>
  (\<open>None\<close> when it raises) and whether the send returned. A cancelled task gets its
  \<open>CancelledError\<close> at the await it resumes from, as asyncio delivers it; the send of the server
  (a shielded wait) does not swallow it. Shown: at most one key repeats, a generation is never reused,
  is reported as stopped exactly once and sends nothing afterwards nor after its deadline.
\<close>

record repeat_config =
  rc_initial_delay :: rat
  rc_interval :: rat
  rc_max_hold :: rat

definition default_repeat :: repeat_config where
  "default_repeat = \<lparr>rc_initial_delay = 35 / 100, rc_interval = 18 / 100, rc_max_hold = 10\<rparr>"

datatype run_state = NotStarted | InitialDelay | Sending | IntervalDelay | Finished

record run =
  rn_key :: string
  rn_generation :: nat
  rn_state :: run_state
  rn_deadline :: rat
  rn_cancelled :: bool

record repeater =
  rp_config :: repeat_config
  rp_tasks :: "(string \<times> nat) list"
  rp_generations :: "(string \<times> nat) list"
  rp_next :: nat
  rp_runs :: "run list"

definition new_repeater :: "repeat_config \<Rightarrow> repeater" where
  "new_repeater cfg = \<lparr>rp_config = cfg, rp_tasks = [], rp_generations = [], rp_next = 0, rp_runs = []\<rparr>"

datatype repeat_event = SendClick string nat rat | NotifyStop nat

definition notify_stop :: "nat option \<Rightarrow> repeat_event list" where
  "notify_stop g = (case g of None \<Rightarrow> [] | Some n \<Rightarrow> [NotifyStop n])"

definition repeater_active :: "repeater \<Rightarrow> bool" where
  "repeater_active r \<longleftrightarrow> rp_tasks r \<noteq> []"

subsection \<open>Public operations\<close>

definition cancel_task :: "nat \<Rightarrow> repeater \<Rightarrow> repeater" where
  "cancel_task i r =
     (if i < length (rp_runs r) then r\<lparr>rp_runs := (rp_runs r)[i := (rp_runs r ! i)\<lparr>rn_cancelled := True\<rparr>]\<rparr> else r)"

definition repeater_cancel :: "string \<Rightarrow> repeater \<Rightarrow> nat option \<times> nat option \<times> repeat_event list \<times> repeater" where
  "repeater_cancel key r =
     (let gen = map_of (rp_generations r) key;
          task = map_of (rp_tasks r) key;
          r1 = r\<lparr>rp_generations := AList.delete key (rp_generations r), rp_tasks := AList.delete key (rp_tasks r)\<rparr>
      in (gen, task, notify_stop gen, case task of None \<Rightarrow> r1 | Some i \<Rightarrow> cancel_task i r1))"

fun cancel_all :: "string list \<Rightarrow> repeater \<Rightarrow> nat list \<times> repeat_event list \<times> repeater" where
  "cancel_all [] r = ([], [], r)"
| "cancel_all (key # keys) r =
     (let (_, task, ev, r1) = repeater_cancel key r; (tasks, evs, r2) = cancel_all keys r1
      in (case task of None \<Rightarrow> tasks | Some i \<Rightarrow> i # tasks, ev @ evs, r2))"

definition repeater_start :: "string \<Rightarrow> repeater \<Rightarrow> nat \<times> repeat_event list \<times> repeater" where
  "repeater_start key r =
     (case map_of (rp_tasks r) key of
        Some _ \<Rightarrow> (the (map_of (rp_generations r) key), [], r)
      | None \<Rightarrow>
          (let (_, ev, r1) = cancel_all (map fst (rp_tasks r)) r;
               generation = Suc (rp_next r1);
               task = length (rp_runs r1)
           in (generation, ev, r1\<lparr>rp_next := generation,
                 rp_runs := rp_runs r1 @ [\<lparr>rn_key = key, rn_generation = generation, rn_state = NotStarted,
                                           rn_deadline = 0, rn_cancelled = False\<rparr>],
                 rp_tasks := AList.update key task (rp_tasks r1),
                 rp_generations := AList.update key generation (rp_generations r1)\<rparr>)))"

definition repeater_stop :: "string \<Rightarrow> repeater \<Rightarrow> nat option \<times> repeat_event list \<times> repeater" where
  "repeater_stop key r = (let (gen, _, ev, r1) = repeater_cancel key r in (gen, ev, r1))"

definition stop_all_now :: "repeater \<Rightarrow> nat list \<times> repeat_event list \<times> repeater" where
  "stop_all_now r = cancel_all (remdups (map fst (rp_tasks r) @ map fst (rp_generations r))) r"

subsection \<open>The repeat task\<close>

definition set_run :: "nat \<Rightarrow> run \<Rightarrow> repeater \<Rightarrow> repeater" where
  "set_run i rn r = r\<lparr>rp_runs := (rp_runs r)[i := rn]\<rparr>"

text \<open>The \<open>finally\<close> clause: give up the slot if it is still this task's.\<close>

definition run_finally :: "nat \<Rightarrow> run \<Rightarrow> repeater \<Rightarrow> repeat_event list \<times> repeater" where
  "run_finally i rn r =
     (let r1 = set_run i (rn\<lparr>rn_state := Finished\<rparr>) r
      in if map_of (rp_tasks r1) (rn_key rn) = Some i
         then (notify_stop (map_of (rp_generations r1) (rn_key rn)),
               r1\<lparr>rp_tasks := AList.delete (rn_key rn) (rp_tasks r1),
                  rp_generations := AList.delete (rn_key rn) (rp_generations r1)\<rparr>)
         else ([], r1))"

text \<open>The head of the \<open>while\<close> loop, up to the send.\<close>

definition alive :: "bool option \<Rightarrow> bool" where
  "alive answer \<longleftrightarrow> answer = Some True"

definition run_loop_head :: "nat \<Rightarrow> run \<Rightarrow> rat \<Rightarrow> bool option \<Rightarrow> repeater \<Rightarrow> repeat_event list \<times> repeater" where
  "run_loop_head i rn now answer r =
     (if now < rn_deadline rn \<and> alive answer
      then ([SendClick (rn_key rn) (rn_generation rn) now], set_run i (rn\<lparr>rn_state := Sending\<rparr>) r)
      else run_finally i rn r)"

definition run_resume :: "nat \<Rightarrow> rat \<Rightarrow> bool option \<Rightarrow> bool \<Rightarrow> repeater \<Rightarrow> repeat_event list \<times> repeater" where
  "run_resume i now answer sent r =
     (if length (rp_runs r) \<le> i then ([], r)
      else let rn = rp_runs r ! i
        in case rn_state rn of
          NotStarted \<Rightarrow>
            if rn_cancelled rn then ([], set_run i (rn\<lparr>rn_state := Finished\<rparr>) r)
            else ([], set_run i (rn\<lparr>rn_state := InitialDelay, rn_deadline := now + rc_max_hold (rp_config r)\<rparr>) r)
        | Sending \<Rightarrow>
            if rn_cancelled rn \<or> \<not> sent then run_finally i rn r
            else ([], set_run i (rn\<lparr>rn_state := IntervalDelay\<rparr>) r)
        | Finished \<Rightarrow> ([], r)
        | _ \<Rightarrow> if rn_cancelled rn then run_finally i rn r else run_loop_head i rn now answer r)"

subsection \<open>Runs\<close>

datatype repeat_call = RepStart string | RepStop string | RepStopAll | RepResume nat rat "bool option" bool

fun repeat_step :: "repeat_call \<Rightarrow> repeater \<Rightarrow> repeat_event list \<times> repeater" where
  "repeat_step (RepStart key) r = snd (repeater_start key r)"
| "repeat_step (RepStop key) r = snd (repeater_stop key r)"
| "repeat_step RepStopAll r = snd (stop_all_now r)"
| "repeat_step (RepResume i now answer sent) r = run_resume i now answer sent r"

inductive repeat_reach :: "repeater \<Rightarrow> repeat_event list \<Rightarrow> bool" where
  repeat_init: "repeat_reach (new_repeater cfg) []"
| repeat_next: "repeat_reach r evs \<Longrightarrow> repeat_step call r = (ev, r') \<Longrightarrow> repeat_reach r' (evs @ ev)"

definition stopped :: "repeat_event list \<Rightarrow> nat list" where
  "stopped evs = concat (map (\<lambda>e. case e of NotifyStop g \<Rightarrow> [g] | _ \<Rightarrow> []) evs)"

lemma stopped_simps [simp]:
  "stopped [] = []" "stopped (xs @ ys) = stopped xs @ stopped ys" "stopped (NotifyStop g # evs) = g # stopped evs"
  "stopped (SendClick k g t # evs) = stopped evs" "stopped (notify_stop None) = []" "stopped (notify_stop (Some g)) = [g]"
  by (simp_all add: stopped_def notify_stop_def)

subsection \<open>Invariant\<close>

text \<open>The one slot: empty, or one key with its task and generation, the task neither cancelled nor
  finished. Every other task is on its way out.\<close>

definition slot :: "repeater \<Rightarrow> (string \<times> nat) option" where
  "slot r = (case (rp_tasks r, rp_generations r) of ([(k, i)], [(k', g)]) \<Rightarrow> if k = k' \<and> g = Suc i then Some (k, i) else None
             | _ \<Rightarrow> None)"

definition runs_ok :: "repeater \<Rightarrow> bool" where
  "runs_ok r \<longleftrightarrow> rp_next r = length (rp_runs r) \<and> (\<forall>i < length (rp_runs r). rn_generation (rp_runs r ! i) = Suc i)
     \<and> (\<forall>i < length (rp_runs r). (\<forall>k. (k, i) \<notin> set (rp_tasks r)) \<longrightarrow>
          rn_cancelled (rp_runs r ! i) \<or> rn_state (rp_runs r ! i) = Finished)"

definition slot_ok :: "repeater \<Rightarrow> bool" where
  "slot_ok r \<longleftrightarrow> (rp_tasks r = [] \<and> rp_generations r = [])
     \<or> (\<exists>k i. rp_tasks r = [(k, i)] \<and> rp_generations r = [(k, Suc i)] \<and> i < length (rp_runs r)
          \<and> rn_key (rp_runs r ! i) = k \<and> \<not> rn_cancelled (rp_runs r ! i) \<and> rn_state (rp_runs r ! i) \<noteq> Finished)"

definition repeat_inv :: "repeat_event list \<Rightarrow> repeater \<Rightarrow> bool" where
  "repeat_inv evs r \<longleftrightarrow> runs_ok r \<and> slot_ok r \<and> distinct (stopped evs)
     \<and> set (stopped evs) = {1..rp_next r} - snd ` set (rp_generations r)"

text \<open>A click is sent by the task in the slot, before its deadline.\<close>

definition click_ok :: "repeater \<Rightarrow> repeat_event list \<Rightarrow> bool" where
  "click_ok r ev \<longleftrightarrow> (\<forall>k g t. SendClick k g t \<in> set ev \<longrightarrow>
     ev = [SendClick k g t] \<and> rp_generations r = [(k, g)] \<and> 0 < g \<and> t < rn_deadline (rp_runs r ! (g - 1)))"

lemma empty_cancel:
  "rp_tasks r = [] \<Longrightarrow> rp_generations r = [] \<Longrightarrow> repeater_cancel key r = (None, None, [], r)"
  by (simp add: repeater_cancel_def notify_stop_def)

lemma cancel_inv:
  assumes "repeat_inv evs r" "repeater_cancel key r = (gen, task, ev, r')"
  shows "repeat_inv (evs @ ev) r' \<and> rp_next r' = rp_next r \<and> (\<forall>k g t. SendClick k g t \<notin> set ev)
    \<and> (rp_tasks r' = [] \<or> r' = r) \<and> (map fst (rp_tasks r) = [key] \<longrightarrow> rp_tasks r' = [])"
proof (cases "\<exists>i. rp_tasks r = [(key, i)]")
  case True
  then obtain i where t: "rp_tasks r = [(key, i)]" by blast
  with assms(1) have g: "rp_generations r = [(key, Suc i)]" and i: "i < length (rp_runs r)"
    by (auto simp: repeat_inv_def slot_ok_def)
  have r': "ev = [NotifyStop (Suc i)]"
    "r' = (r\<lparr>rp_generations := [], rp_tasks := []\<rparr>)\<lparr>rp_runs := (rp_runs r)[i := (rp_runs r ! i)\<lparr>rn_cancelled := True\<rparr>]\<rparr>"
    using assms(2) t g i by (auto simp: repeater_cancel_def Let_def notify_stop_def cancel_task_def)
  have "runs_ok r'" using assms(1) t i unfolding r' by (auto simp: repeat_inv_def runs_ok_def nth_list_update)
  moreover have "distinct (stopped (evs @ ev)) \<and> set (stopped (evs @ ev)) = {1..rp_next r}"
    using assms(1) g i r'(1) by (auto simp: repeat_inv_def runs_ok_def)
  ultimately show ?thesis
    unfolding repeat_inv_def using r' by (auto simp: slot_ok_def)
next
  case False
  then have "map_of (rp_tasks r) key = None" "map_of (rp_generations r) key = None"
    "AList.delete key (rp_tasks r) = rp_tasks r" "AList.delete key (rp_generations r) = rp_generations r"
    using assms(1) by (auto simp: repeat_inv_def slot_ok_def)
  then have "ev = []" "r' = r"
    using assms(2) by (auto simp: repeater_cancel_def Let_def notify_stop_def)
  then show ?thesis using assms(1) False by auto
qed

lemma cancel_all_inv:
  "repeat_inv evs r \<Longrightarrow> cancel_all keys r = (tasks, ev, r') \<Longrightarrow>
     repeat_inv (evs @ ev) r' \<and> rp_next r' = rp_next r \<and> (\<forall>k g t. SendClick k g t \<notin> set ev)
     \<and> (set (map fst (rp_tasks r)) \<subseteq> set keys \<longrightarrow> rp_tasks r' = [])"
proof (induction keys arbitrary: evs r tasks ev)
  case (Cons key keys)
  obtain gen task ev1 r1 where c: "repeater_cancel key r = (gen, task, ev1, r1)" by (metis prod_cases4)
  obtain tasks2 ev2 where a: "cancel_all keys r1 = (tasks2, ev2, r')" and ev: "ev = ev1 @ ev2"
    using Cons.prems(2) c by (auto split: prod.splits)
  note one = cancel_inv [OF Cons.prems(1) c]
  then have inv1: "repeat_inv (evs @ ev1) r1" by blast
  note rest = Cons.IH [OF inv1 a]
  have "set (map fst (rp_tasks r1)) \<subseteq> set keys" if "set (map fst (rp_tasks r)) \<subseteq> set (key # keys)"
    using one that Cons.prems(1) by (auto simp: repeat_inv_def slot_ok_def)
  with one rest ev show ?case by auto
qed auto

lemma start_inv:
  assumes "repeat_inv evs r" "repeater_start key r = (g, ev, r')"
  shows "repeat_inv (evs @ ev) r' \<and> (\<forall>k g t. SendClick k g t \<notin> set ev)"
proof (cases "map_of (rp_tasks r) key")
  case (Some i)
  with assms show ?thesis by (auto simp: repeater_start_def)
next
  case None
  obtain tasks ev1 r1 where c: "cancel_all (map fst (rp_tasks r)) r = (tasks, ev1, r1)" by (metis prod_cases3)
  note all = cancel_all_inv [OF assms(1) c]
  then have t: "rp_tasks r1 = []" and inv: "repeat_inv (evs @ ev1) r1" by auto
  then have g: "rp_generations r1 = []" by (auto simp: repeat_inv_def slot_ok_def)
  let ?rn = "\<lparr>rn_key = key, rn_generation = Suc (rp_next r1), rn_state = NotStarted, rn_deadline = 0, rn_cancelled = False\<rparr>"
  have r': "ev = ev1" "r' = r1\<lparr>rp_next := Suc (rp_next r1), rp_runs := rp_runs r1 @ [?rn],
      rp_tasks := [(key, length (rp_runs r1))], rp_generations := [(key, Suc (rp_next r1))]\<rparr>"
    using assms(2) None c t g by (auto simp: repeater_start_def)
  have "runs_ok r'" using inv t unfolding r' by (auto simp: repeat_inv_def runs_ok_def nth_append less_Suc_eq)
  moreover have "slot_ok r'" using inv unfolding r' by (auto simp: repeat_inv_def slot_ok_def runs_ok_def)
  moreover have "set (stopped (evs @ ev)) = {1..rp_next r'} - snd ` set (rp_generations r')" "distinct (stopped (evs @ ev))"
    using inv g unfolding r' by (auto simp: repeat_inv_def)
  ultimately show ?thesis using all r'(1) by (auto simp: repeat_inv_def)
qed

text \<open>Replacing the record of a task by one with the same key, generation and cancel flag.\<close>

lemma set_run_inv:
  assumes "repeat_inv evs r" "i < length (rp_runs r)" "rn_generation rn = Suc i"
    and "rn_key rn = rn_key (rp_runs r ! i)" "rn_cancelled rn = rn_cancelled (rp_runs r ! i)"
    and "rn_state rn = Finished \<Longrightarrow> rn_cancelled rn \<and> (\<forall>k. (k, i) \<notin> set (rp_tasks r))"
    and "rn_state (rp_runs r ! i) \<noteq> Finished"
  shows "repeat_inv evs (set_run i rn r)"
proof -
  have "runs_ok (set_run i rn r)"
    using assms by (auto simp: repeat_inv_def runs_ok_def set_run_def nth_list_update)
  moreover have "slot_ok (set_run i rn r)"
    using assms by (auto simp: repeat_inv_def slot_ok_def set_run_def nth_list_update)
  ultimately show ?thesis using assms(1) by (auto simp: repeat_inv_def set_run_def)
qed

lemma run_finally_inv:
  assumes "repeat_inv evs r" "i < length (rp_runs r)" "rn_state (rp_runs r ! i) \<noteq> Finished"
    and "run_finally i (rp_runs r ! i) r = (ev, r')"
  shows "repeat_inv (evs @ ev) r' \<and> (\<forall>k g t. SendClick k g t \<notin> set ev)"
proof (cases "\<exists>k. rp_tasks r = [(k, i)]")
  case True
  then obtain k where t: "rp_tasks r = [(k, i)]" by blast
  with assms(1) have g: "rp_generations r = [(k, Suc i)]" "rn_key (rp_runs r ! i) = k"
    by (auto simp: repeat_inv_def slot_ok_def)
  have r': "ev = [NotifyStop (Suc i)]"
    "r' = r\<lparr>rp_runs := (rp_runs r)[i := (rp_runs r ! i)\<lparr>rn_state := Finished\<rparr>], rp_tasks := [], rp_generations := []\<rparr>"
    using assms(4) t g by (auto simp: run_finally_def Let_def set_run_def notify_stop_def)
  have "runs_ok r'" using assms(1,2) t unfolding r' by (auto simp: repeat_inv_def runs_ok_def nth_list_update)
  moreover have "slot_ok r'" unfolding r' by (simp add: slot_ok_def)
  ultimately show ?thesis
    using assms(1,2) g r' by (auto simp: repeat_inv_def runs_ok_def)
next
  case False
  then have no: "(k, i) \<notin> set (rp_tasks r)" for k
    using assms(1) by (auto simp: repeat_inv_def slot_ok_def)
  then have "rn_cancelled (rp_runs r ! i)" "rn_generation (rp_runs r ! i) = Suc i"
    using assms(1-3) by (auto simp: repeat_inv_def runs_ok_def)
  then have "repeat_inv evs (set_run i ((rp_runs r ! i)\<lparr>rn_state := Finished\<rparr>) r)"
    using assms no by (intro set_run_inv) auto
  moreover have "map_of (rp_tasks r) (rn_key (rp_runs r ! i)) \<noteq> Some i"
    using no by (meson map_of_SomeD)
  ultimately show ?thesis
    using assms(4) by (auto simp: run_finally_def Let_def set_run_def)
qed

lemma run_resume_inv:
  assumes "repeat_inv evs r" "run_resume i now answer sent r = (ev, r')"
  shows "repeat_inv (evs @ ev) r' \<and> click_ok r ev"
proof (cases "i < length (rp_runs r) \<and> rn_state (rp_runs r ! i) \<noteq> Finished")
  case False
  then have "ev = []" "r' = r" using assms(2) by (auto simp: run_resume_def Let_def split: run_state.splits if_splits)
  then show ?thesis using assms(1) by (simp add: click_ok_def)
next
  case True
  define rn where "rn = rp_runs r ! i"
  have i: "i < length (rp_runs r)" "rn_state rn \<noteq> Finished" "rn_generation rn = Suc i"
    using True assms(1) by (auto simp: rn_def repeat_inv_def runs_ok_def)
  have keep: "repeat_inv evs (set_run i rn' r)"
    if "rn_generation rn' = Suc i" "rn_key rn' = rn_key rn" "rn_cancelled rn' = rn_cancelled rn" "rn_state rn' \<noteq> Finished" for rn'
    using that i assms(1) by (intro set_run_inv) (auto simp: rn_def)
  have fin: ?thesis if "run_finally i rn r = (ev, r')"
    using run_finally_inv [OF assms(1) i(1), of ev r'] that True by (auto simp: rn_def click_ok_def)
  have live: "rp_generations r = [(rn_key rn, Suc i)]" if "\<not> rn_cancelled rn"
    using assms(1) i that by (auto simp: repeat_inv_def runs_ok_def slot_ok_def rn_def)
  have gone: "(k, i) \<notin> set (rp_tasks r)" if "rn_cancelled rn" for k
    using assms(1) that by (auto simp: repeat_inv_def slot_ok_def rn_def)
  have head: ?thesis if "run_loop_head i rn now answer r = (ev, r')" "\<not> rn_cancelled rn"
  proof (cases "now < rn_deadline rn \<and> alive answer")
    case True
    then have "ev = [SendClick (rn_key rn) (Suc i) now]" "r' = set_run i (rn\<lparr>rn_state := Sending\<rparr>) r"
      using that(1) i(3) by (auto simp: run_loop_head_def)
    moreover have "repeat_inv (evs @ [SendClick (rn_key rn) (Suc i) now]) r''" if "repeat_inv evs r''" for r''
      using that by (simp add: repeat_inv_def)
    ultimately show ?thesis using keep [of "rn\<lparr>rn_state := Sending\<rparr>"] i True live [OF that(2)]
      by (auto simp: click_ok_def rn_def)
  next
    case False
    then show ?thesis using that(1) by (intro fin) (simp only: run_loop_head_def if_False)
  qed
  have step: "run_resume i now answer sent r = (case rn_state rn of
          NotStarted \<Rightarrow>
            if rn_cancelled rn then ([], set_run i (rn\<lparr>rn_state := Finished\<rparr>) r)
            else ([], set_run i (rn\<lparr>rn_state := InitialDelay, rn_deadline := now + rc_max_hold (rp_config r)\<rparr>) r)
        | Sending \<Rightarrow>
            if rn_cancelled rn \<or> \<not> sent then run_finally i rn r
            else ([], set_run i (rn\<lparr>rn_state := IntervalDelay\<rparr>) r)
        | Finished \<Rightarrow> ([], r)
        | _ \<Rightarrow> if rn_cancelled rn then run_finally i rn r else run_loop_head i rn now answer r)"
    unfolding run_resume_def Let_def rn_def by (rule if_not_P) (use i(1) in simp)
  show ?thesis
  proof (cases "rn_state rn")
    case NotStarted
    show ?thesis
    proof (cases "rn_cancelled rn")
      case True
      have "repeat_inv evs (set_run i (rn\<lparr>rn_state := Finished\<rparr>) r)"
        using assms(1) i gone True by (intro set_run_inv) (auto simp: rn_def)
      then show ?thesis using assms(2) step NotStarted True by (auto simp: click_ok_def)
    next
      case False
      then show ?thesis
        using assms(2) step NotStarted i keep [of "rn\<lparr>rn_state := InitialDelay, rn_deadline := now + rc_max_hold (rp_config r)\<rparr>"]
        by (auto simp: click_ok_def)
    qed
  next
    case Sending
    show ?thesis
    proof (cases "rn_cancelled rn \<or> \<not> sent")
      case True
      then show ?thesis using assms(2) step Sending by (intro fin) (simp only: run_state.case if_True)
    next
      case False
      then show ?thesis using assms(2) step Sending i keep [of "rn\<lparr>rn_state := IntervalDelay\<rparr>"]
        by (auto simp: click_ok_def)
    qed
  qed (use assms(2) step i(2) fin head in \<open>auto split: if_splits\<close>)
qed

lemma repeat_step_inv:
  assumes "repeat_inv evs r" "repeat_step call r = (ev, r')"
  shows "repeat_inv (evs @ ev) r' \<and> click_ok r ev"
proof (cases call)
  case (RepStart key)
  then obtain g where "repeater_start key r = (g, ev, r')" using assms(2) by (cases "repeater_start key r") auto
  from start_inv [OF assms(1) this] show ?thesis by (auto simp: click_ok_def)
next
  case (RepStop key)
  obtain gen task ev1 r1 where c: "repeater_cancel key r = (gen, task, ev1, r1)" by (metis prod_cases4)
  from cancel_inv [OF assms(1) c] RepStop assms(2) c show ?thesis by (auto simp: repeater_stop_def click_ok_def)
next
  case RepStopAll
  then obtain ts where "stop_all_now r = (ts, ev, r')" using assms(2) by (cases "stop_all_now r") auto
  then show ?thesis
    using cancel_all_inv [OF assms(1)] unfolding stop_all_now_def click_ok_def by blast
next
  case (RepResume i now answer sent)
  with assms(2) run_resume_inv [OF assms(1)] show ?thesis by simp
qed

text \<open>The order in the trace: nothing is sent for a generation once it was reported as stopped.\<close>

definition silent_after_stop :: "repeat_event list \<Rightarrow> bool" where
  "silent_after_stop evs \<longleftrightarrow>
     (\<forall>pre g post. evs = pre @ NotifyStop g # post \<longrightarrow> (\<forall>k t. SendClick k g t \<notin> set post))"

lemma silent_append:
  assumes "silent_after_stop evs" "repeat_inv evs r" "click_ok r ev"
  shows "silent_after_stop (evs @ ev)"
  unfolding silent_after_stop_def
proof (intro allI impI notI)
  fix pre g post k t
  assume split: "evs @ ev = pre @ NotifyStop g # post" and sent: "SendClick k g t \<in> set post"
  consider (old) post1 where "evs = pre @ NotifyStop g # post1" "post = post1 @ ev"
    | (new) pre2 where "ev = pre2 @ NotifyStop g # post"
    using split by (auto simp: append_eq_append_conv2 append_eq_Cons_conv)
  then show False
  proof cases
    case old
    then have "SendClick k g t \<in> set ev" using sent assms(1) by (auto simp: silent_after_stop_def)
    then have "g \<notin> set (stopped evs)" using assms(2,3) by (auto simp: click_ok_def repeat_inv_def)
    then show False using old by simp
  next
    case new
    then have "SendClick k g t \<in> set ev" "NotifyStop g \<in> set ev" using sent by auto
    moreover from this(1) have "ev = [SendClick k g t]" using assms(3) unfolding click_ok_def by blast
    ultimately show False by simp
  qed
qed

lemma repeat_reach_inv: "repeat_reach r evs \<Longrightarrow> repeat_inv evs r \<and> silent_after_stop evs"
proof (induction rule: repeat_reach.induct)
  case (repeat_init cfg)
  then show ?case by (simp add: new_repeater_def repeat_inv_def runs_ok_def slot_ok_def silent_after_stop_def)
next
  case (repeat_next r evs call ev r')
  then show ?case using repeat_step_inv [of evs r call ev r'] silent_append by blast
qed

subsection \<open>Properties\<close>

text \<open>At most one key repeats at any time, with a live task and a generation of its own; every other
  task is cancelled or finished; every generation ever handed out is either the active one or has been
  reported as stopped exactly once.\<close>

theorem repeater_generations:
  assumes "repeat_reach r evs"
  shows "length (rp_tasks r) \<le> 1 \<and> map fst (rp_tasks r) = map fst (rp_generations r)
    \<and> (\<forall>i < length (rp_runs r). i \<notin> snd ` set (rp_tasks r) \<longrightarrow>
         rn_cancelled (rp_runs r ! i) \<or> rn_state (rp_runs r ! i) = Finished)
    \<and> distinct (stopped evs) \<and> set (stopped evs) = {1..rp_next r} - snd ` set (rp_generations r)"
proof -
  have inv: "repeat_inv evs r" using repeat_reach_inv [OF assms] by simp
  have "\<forall>i < length (rp_runs r). i \<notin> snd ` set (rp_tasks r) \<longrightarrow>
         rn_cancelled (rp_runs r ! i) \<or> rn_state (rp_runs r ! i) = Finished"
    using inv unfolding repeat_inv_def runs_ok_def by (metis image_eqI snd_conv)
  then show ?thesis using inv by (auto simp: repeat_inv_def slot_ok_def)
qed

text \<open>C23: A delayed click goes out only for the active key and generation and before that task's deadline,
  which it set to its start plus \<open>max_hold\<close>; once a generation was reported as stopped nothing of it
  is sent any more.\<close>

theorem repeater_clicks:
  assumes "repeat_reach r evs" and "repeat_step call r = (ev, r')"
  shows "(SendClick k g t \<in> set ev \<longrightarrow>
      rp_generations r = [(k, g)] \<and> g \<notin> set (stopped evs) \<and> t < rn_deadline (rp_runs r ! (g - 1)))
    \<and> (evs @ ev = pre @ NotifyStop g # post \<longrightarrow> SendClick k g t \<notin> set post)"
proof -
  have inv: "repeat_inv evs r" "click_ok r ev" "silent_after_stop (evs @ ev)"
    using repeat_reach_inv [OF assms(1)] repeat_step_inv [OF _ assms(2)]
      repeat_reach_inv [OF repeat_next [OF assms]] by auto
  have "g \<notin> set (stopped evs)" if "rp_generations r = [(k, g)]"
    using inv(1) that by (simp add: repeat_inv_def)
  with inv(2,3) show ?thesis by (auto simp: click_ok_def silent_after_stop_def)
qed

subsection \<open>Witnesses\<close>

fun repeat_run :: "repeat_call list \<Rightarrow> repeater \<Rightarrow> repeat_event list \<times> repeater" where
  "repeat_run [] r = ([], r)"
| "repeat_run (call # calls) r =
     (let (ev, r1) = repeat_step call r; (evs, r2) = repeat_run calls r1 in (ev @ evs, r2))"

lemma repeat_run_reach:
  "repeat_reach r evs \<Longrightarrow> repeat_run calls r = (ev, r') \<Longrightarrow> repeat_reach r' (evs @ ev)"
proof (induction calls arbitrary: r evs ev)
  case (Cons call calls)
  obtain ev1 r1 where step: "repeat_step call r = (ev1, r1)" by fastforce
  then obtain ev2 where "repeat_run calls r1 = (ev2, r')" "ev = ev1 @ ev2"
    using Cons.prems(2) by (auto split: prod.splits)
  with Cons.IH [OF repeat_next [OF Cons.prems(1) step]] show ?case by simp
qed simp

text \<open>A hold of UP with one repeat, superseded by DOWN.\<close>

definition sample_calls :: "repeat_call list" where
  "sample_calls = [RepStart ''KEY_UP'', RepResume 0 0 (Some True) True, RepResume 0 1 (Some True) True,
     RepStart ''KEY_DOWN'', RepResume 1 2 (Some True) True]"

definition sample_run :: "repeat_event list \<times> repeater" where
  "sample_run = repeat_run sample_calls (new_repeater default_repeat)"

lemma sample_run_events: "fst sample_run = [SendClick ''KEY_UP'' 1 1, NotifyStop 1]"
  by code_simp

lemma sample_run_reach: "repeat_reach (snd sample_run) [SendClick ''KEY_UP'' 1 1, NotifyStop 1]"
proof -
  have "repeat_run sample_calls (new_repeater default_repeat) = ([SendClick ''KEY_UP'' 1 1, NotifyStop 1], snd sample_run)"
    using sample_run_events by (simp add: sample_run_def prod_eq_iff)
  from repeat_run_reach [OF repeat_init this] show ?thesis by simp
qed

theorem repeater_generations_witness:
  "set (stopped (fst sample_run)) = {1..rp_next (snd sample_run)} - snd ` set (rp_generations (snd sample_run))"
  using repeater_generations [OF sample_run_reach] by (simp only: sample_run_events)

theorem repeater_clicks_witness:
  "rp_generations (snd sample_run) = [(''KEY_DOWN'', 2)] \<and> (3 :: rat) < rn_deadline (rp_runs (snd sample_run) ! 1)"
proof -
  obtain ev r' where step: "repeat_step (RepResume 1 3 (Some True) True) (snd sample_run) = (ev, r')" by fastforce
  have "fst (repeat_step (RepResume 1 3 (Some True) True) (snd sample_run)) = [SendClick ''KEY_DOWN'' 2 3]" by code_simp
  then have "SendClick ''KEY_DOWN'' 2 3 \<in> set ev" unfolding step fst_conv by simp
  with repeater_clicks [OF sample_run_reach step, of "''KEY_DOWN''" 2 3 "[]" "[]"] show ?thesis by simp
qed

end
