(* ===== verification/Opack.thy ===== *)
theory Opack
  imports Prelude
begin

text \<open>
  \<^verbatim>\<open>companion/protocol/opack.py\<close>: the OPACK serialisation of Companion messages.
  \<open>pack_obj\<close> and \<open>unpack_obj\<close> are \<open>_pack\<close> and \<open>_unpack\<close> with their object table
  threaded through; their first argument is the interpreter's remaining recursion budget. A Python
  int decoded from a sized encoding carries its size (\<open>OInt n (Some size)\<close>), as the source's
  \<open>int_1b\<close>, \<open>int_2b\<close> subclasses do. A NaN carries the object identity that Python's
  \<open>in\<close> and dictionary lookup compare it by (the number of bytes left at its decoding).
\<close>

unbundle bit_operations_syntax

subsection \<open>Values\<close>

datatype opack =
    ONone | OBool bool | OUuid bytes | ODatetime | OInt int "nat option"
  | OFloat "64 word" | ONan "64 word" nat | OStr string | OBytes bytes
  | OList "opack list" | ODict "(opack \<times> opack) list"

text \<open>
  Python equality of hashable values through a normal form: bools, ints and floats compare as
  numbers. A finite double is an integer multiple of $2^{-1074}$, so numbers are compared scaled.
\<close>

datatype pykey = KNone | KNum int | KInf bool | KNan nat | KUuid bytes | KDatetime
  | KStr string | KBytes bytes

definition ulp_scale :: int where
  "ulp_scale = 2 ^ 1074"

definition float_exp :: "64 word \<Rightarrow> nat" where
  "float_exp w = unat w div 2 ^ 52 mod 2 ^ 11"

definition float_mant :: "64 word \<Rightarrow> nat" where
  "float_mant w = unat w mod 2 ^ 52"

definition float_neg :: "64 word \<Rightarrow> bool" where
  "float_neg w \<longleftrightarrow> 2 ^ 63 \<le> unat w"

definition is_nan :: "64 word \<Rightarrow> bool" where
  "is_nan w \<longleftrightarrow> float_exp w = 2047 \<and> float_mant w \<noteq> 0"

definition float_key :: "64 word \<Rightarrow> pykey" where
  "float_key w =
     (if float_exp w = 2047 then KInf (float_neg w)
      else let a = (if float_exp w = 0 then int (float_mant w)
                    else (2 ^ 52 + int (float_mant w)) * 2 ^ (float_exp w - 1))
           in KNum (if float_neg w then - a else a))"

fun py_key :: "opack \<Rightarrow> pykey option" where
  "py_key ONone = Some KNone"
| "py_key (OBool b) = Some (KNum (if b then ulp_scale else 0))"
| "py_key (OUuid u) = Some (KUuid u)"
| "py_key ODatetime = Some KDatetime"
| "py_key (OInt n _) = Some (KNum (n * ulp_scale))"
| "py_key (OFloat w) = Some (float_key w)"
| "py_key (ONan w i) = Some (KNan i)"
| "py_key (OStr s) = Some (KStr s)"
| "py_key (OBytes b) = Some (KBytes b)"
| "py_key (OList _) = None"
| "py_key (ODict _) = None"

text \<open>\<open>output[key] = value\<close>: an equal key keeps its place and its object; an unhashable key is a
  \<open>TypeError\<close>.\<close>

fun dict_put :: "pykey \<Rightarrow> opack \<Rightarrow> opack \<Rightarrow> (opack \<times> opack) list \<Rightarrow> (opack \<times> opack) list" where
  "dict_put key k v [] = [(k, v)]"
| "dict_put key k v ((k', v') # d) =
     (if py_key k' = Some key then (k', v) # d else (k', v') # dict_put key k v d)"

definition dict_set :: "opack \<Rightarrow> opack \<Rightarrow> (opack \<times> opack) list \<Rightarrow> (opack \<times> opack) list result" where
  "dict_set k v d = (case py_key k of None \<Rightarrow> Inl TypeError | Some key \<Rightarrow> Inr (dict_put key k v d))"

subsection \<open>Packing\<close>

definition pack_int :: "int \<Rightarrow> nat option \<Rightarrow> bytes result" where
  "pack_int n hint =
     (let unsized = (case hint of None \<Rightarrow> True | Some h \<Rightarrow> h = 0)
      in if n < 0x28 \<and> unsized then byte_lit (n + 8)
         else if (n \<le> 0xFF \<and> unsized) \<or> hint = Some 1
           then rbind (to_bytes_le 1 n) (\<lambda>b. Inr (0x30 # b))
         else if (n \<le> 0xFFFF \<and> unsized) \<or> hint = Some 2
           then rbind (to_bytes_le 2 n) (\<lambda>b. Inr (0x31 # b))
         else if (n \<le> 0xFFFFFFFF \<and> unsized) \<or> hint = Some 4
           then rbind (to_bytes_le 4 n) (\<lambda>b. Inr (0x32 # b))
         else if n \<le> 0xFFFFFFFFFFFFFFFF
           then rbind (to_bytes_le 8 n) (\<lambda>b. Inr (0x33 # b))
         else Inl TypeError)"

definition pack_str :: "bytes \<Rightarrow> bytes result" where
  "pack_str e =
     (let n = length e
      in if n \<le> 0x20 then Inr (word_of_nat (0x40 + n) # e)
         else if n \<le> 0xFF then Inr (0x61 # le_bytes 1 n @ e)
         else if n \<le> 0xFFFF then Inr (0x62 # le_bytes 2 n @ e)
         else if n \<le> 0xFFFFFF then Inr (0x63 # le_bytes 3 n @ e)
         else if n \<le> 0xFFFFFFFF then Inr (0x64 # le_bytes 4 n @ e)
         else Inl TypeError)"

definition pack_bytes :: "bytes \<Rightarrow> bytes result" where
  "pack_bytes e =
     (let n = length e
      in if n \<le> 0x20 then Inr (word_of_nat (0x70 + n) # e)
         else if n \<le> 0xFF then Inr (0x91 # le_bytes 1 n @ e)
         else if n \<le> 0xFFFF then Inr (0x92 # le_bytes 2 n @ e)
         else if n \<le> 0xFFFFFFFF then Inr (0x93 # le_bytes 4 n @ e)
         else if n \<le> 0xFFFFFFFFFFFFFFFF then Inr (0x94 # le_bytes 8 n @ e)
         else Inl TypeError)"

text \<open>The reference or the new table entry (lines 115--131). The source's \<open>packed_bytes\<close> stays
  \<open>None\<close> for an over-long value, and \<open>len(None)\<close> is the \<open>TypeError\<close> above.\<close>

fun index_of :: "bytes \<Rightarrow> bytes list \<Rightarrow> nat" where
  "index_of b [] = 0"
| "index_of b (x # xs) = (if x = b then 0 else Suc (index_of b xs))"

definition pack_ref :: "bytes \<Rightarrow> bytes list \<Rightarrow> bytes \<times> bytes list" where
  "pack_ref packed table =
     (if packed \<in> set table then
        (let i = index_of packed table
         in (if i < 0x21 then [word_of_nat (0xA0 + i)]
             else if i \<le> 0xFF then 0xC1 # le_bytes 1 i
             else if i \<le> 0xFFFF then 0xC2 # le_bytes 2 i
             else if i \<le> 0xFFFFFFFF then 0xC3 # le_bytes 4 i
             else if i \<le> 0xFFFFFFFFFFFFFFFF then 0xC4 # le_bytes 8 i
             else packed), table)
      else (packed, if 1 < length packed then table @ [packed] else table))"

fun pack_seq :: "('a \<Rightarrow> bytes list \<Rightarrow> (bytes \<times> bytes list) result) \<Rightarrow> 'a list \<Rightarrow> bytes list
    \<Rightarrow> (bytes \<times> bytes list) result" where
  "pack_seq f [] table = Inr ([], table)"
| "pack_seq f (x # xs) table =
     rbind (f x table) (\<lambda>(b, table1).
     rbind (pack_seq f xs table1) (\<lambda>(bs, table2). Inr (b @ bs, table2)))"

definition container_head :: "nat \<Rightarrow> nat \<Rightarrow> byte" where
  "container_head base n = word_of_nat (base + min n 0xF)"

definition container_tail :: "nat \<Rightarrow> bytes" where
  "container_tail n = (if 0xF \<le> n then [0x03] else [])"

primrec pack_obj :: "nat \<Rightarrow> opack \<Rightarrow> bytes list \<Rightarrow> (bytes \<times> bytes list) result" where
  "pack_obj 0 = (\<lambda>data table. Inl RecursionError)"
| "pack_obj (Suc depth) = (\<lambda>data table.
     rbind
       (case data of
          ONone \<Rightarrow> Inr ([0x04], table)
        | OBool b \<Rightarrow> Inr ([if b then 1 else 2], table)
        | OUuid u \<Rightarrow> Inr (0x05 # u, table)
        | ODatetime \<Rightarrow> Inl NotImplementedError
        | OInt n hint \<Rightarrow> rbind (pack_int n hint) (\<lambda>b. Inr (b, table))
        | OFloat w \<Rightarrow> Inr (0x36 # le_bytes 8 (unat w), table)
        | ONan w i \<Rightarrow> Inr (0x36 # le_bytes 8 (unat w), table)
        | OStr s \<Rightarrow> rbind (pack_str (bytes_of s)) (\<lambda>b. Inr (b, table))
        | OBytes e \<Rightarrow> rbind (pack_bytes e) (\<lambda>b. Inr (b, table))
        | OList xs \<Rightarrow>
            rbind (pack_seq (pack_obj depth) xs table) (\<lambda>(b, table1).
              Inr (container_head 0xD0 (length xs) # b @ container_tail (length xs), table1))
        | ODict kvs \<Rightarrow>
            rbind (pack_seq (pack_obj depth) (concat (map (\<lambda>(k, v). [k, v]) kvs)) table)
              (\<lambda>(b, table1).
                Inr (container_head 0xE0 (length kvs) # b @ container_tail (length kvs), table1)))
       (\<lambda>(packed, table1). Inr (pack_ref packed table1)))"

definition opack_pack :: "nat \<Rightarrow> opack \<Rightarrow> bytes result" where
  "opack_pack depth data = rbind (pack_obj depth data []) (\<lambda>(b, table). Inr b)"

subsection \<open>Unpacking\<close>

text \<open>\<open>struct.unpack("<f")\<close> widens a single to the double of the same value.\<close>

fun top_bit :: "nat \<Rightarrow> nat" where
  "top_bit n = (if n < 2 then 0 else Suc (top_bit (n div 2)))"

declare top_bit.simps [simp del]

definition widen_float :: "nat \<Rightarrow> 64 word" where
  "widen_float x =
     (let s = x div 2 ^ 31 mod 2; e = x div 2 ^ 23 mod 2 ^ 8; t = x mod 2 ^ 23;
          (e', t') =
            (if e = 255 then (2047, t * 2 ^ 29)
             else if e = 0 \<and> t = 0 then (0, 0)
             else if e = 0 then
               (top_bit t + 874, (t - 2 ^ top_bit t) * 2 ^ (52 - top_bit t))
             else (e + 896, t * 2 ^ 29))
      in word_of_nat (s * 2 ^ 63 + e' * 2 ^ 52 + t'))"

definition float_value :: "64 word \<Rightarrow> nat \<Rightarrow> opack" where
  "float_value w ident = (if is_nan w then ONan w ident else OFloat w)"

text \<open>
  The branches for values that are not containers or references (lines 142--191), for the opcode
  byte and the bytes after it: the value, the rest, and whether the value enters the object table.
  \<open>None\<close> is falling through to the branches below them.
\<close>

definition unpack_scalar :: "nat \<Rightarrow> bytes \<Rightarrow> (opack \<times> bytes \<times> bool) result option" where
  "unpack_scalar op r =
     (if op = 0x01 then Some (Inr (OBool True, r, False))
      else if op = 0x02 then Some (Inr (OBool False, r, False))
      else if op = 0x04 then Some (Inr (ONone, r, False))
      else if op = 0x05 then
        Some (if length (take 16 r) = 16 then Inr (OUuid (take 16 r), drop 16 r, True)
              else Inl ValueError)
      else if op = 0x06 then Some (Inr (OInt (int (le_nat (take 8 r))) None, drop 8 r, True))
      else if 0x08 \<le> op \<and> op \<le> 0x2F then Some (Inr (OInt (int op - 8) None, r, False))
      else if op = 0x35 then
        Some (if length (take 4 r) = 4
              then Inr (float_value (widen_float (le_nat (take 4 r))) (length r), drop 4 r, True)
              else Inl StructError)
      else if op = 0x36 then
        Some (if length (take 8 r) = 8
              then Inr (float_value (word_of_nat (le_nat (take 8 r))) (length r), drop 8 r, True)
              else Inl StructError)
      else if op AND 0xF0 = 0x30 then
        (let noof_bytes = 2 ^ (op AND 0xF)
         in Some (Inr (OInt (int (le_nat (take noof_bytes r))) (Some noof_bytes),
                       drop noof_bytes r, True)))
      else if 0x40 \<le> op \<and> op \<le> 0x60 then
        (let n = op - 0x40
         in Some (rbind (decode_utf8 (take n r)) (\<lambda>s. Inr (OStr s, drop n r, True))))
      else if 0x60 < op \<and> op \<le> 0x64 then
        (let noof_bytes = op AND 0xF; n = le_nat (take noof_bytes r)
         in Some (rbind (decode_utf8 (take n (drop noof_bytes r)))
                   (\<lambda>s. Inr (OStr s, drop (noof_bytes + n) r, True))))
      else if 0x70 \<le> op \<and> op \<le> 0x90 then
        (let n = op - 0x70 in Some (Inr (OBytes (take n r), drop n r, True)))
      else if 0x91 \<le> op \<and> op \<le> 0x94 then
        (let noof_bytes = push_bit ((op AND 0xF) - 1) 1; n = le_nat (take noof_bytes r)
         in Some (Inr (OBytes (take n (drop noof_bytes r)), drop (noof_bytes + n) r, True)))
      else None)"

definition table_add :: "opack \<Rightarrow> opack list \<Rightarrow> opack list" where
  "table_add v table =
     (if \<exists>x \<in> set table. py_key x = py_key v then table else table @ [v])"

type_synonym unpacker = "bytes \<Rightarrow> opack list \<Rightarrow> (opack \<times> bytes \<times> opack list) result"
type_synonym 'a loop_body = "'a \<Rightarrow> bytes \<Rightarrow> opack list \<Rightarrow> ('a \<times> bytes \<times> opack list) result"

text \<open>The loop bodies for a list and for a dictionary.\<close>

definition list_item :: "unpacker \<Rightarrow> opack list loop_body" where
  "list_item f output ptr table =
     rbind (f ptr table) (\<lambda>(v, ptr1, table1). Inr (output @ [v], ptr1, table1))"

definition dict_item :: "unpacker \<Rightarrow> (opack \<times> opack) list loop_body" where
  "dict_item f output ptr table =
     rbind (f ptr table) (\<lambda>(k, ptr1, table1).
     rbind (f ptr1 table1) (\<lambda>(v, ptr2, table2).
     rbind (dict_set k v output) (\<lambda>output'. Inr (output', ptr2, table2))))"

fun unpack_count :: "'a loop_body \<Rightarrow> nat \<Rightarrow> 'a loop_body" where
  "unpack_count g 0 output ptr table = Inr (output, ptr, table)"
| "unpack_count g (Suc n) output ptr table =
     rbind (g output ptr table) (\<lambda>(output1, ptr1, table1). unpack_count g n output1 ptr1 table1)"

text \<open>
  The \<open>while ptr[0] != 0x03\<close> loop. Every element read consumes input
  (\<open>unpack_obj_progress\<close> below), so the test that makes the recursion well founded never fails.
\<close>

function unpack_until :: "'a loop_body \<Rightarrow> 'a loop_body" where
  "unpack_until g output ptr table =
     (if ptr = [] then Inl IndexError
      else if hd ptr = 0x03 then Inr (output, tl ptr, table)
      else rbind (g output ptr table) (\<lambda>(output1, ptr1, table1).
        if length ptr1 < length ptr then unpack_until g output1 ptr1 table1
        else Inl RuntimeError))"
  by pat_completeness auto
termination
  by (relation "measure (\<lambda>(g, output, ptr, table). length ptr)") auto

declare unpack_until.simps [simp del]

definition unpack_loop :: "'a loop_body \<Rightarrow> nat \<Rightarrow> 'a loop_body" where
  "unpack_loop g count = (if count = 0xF then unpack_until g else unpack_count g count)"

definition object_at :: "nat \<Rightarrow> bytes \<Rightarrow> opack list \<Rightarrow> (opack \<times> bytes \<times> opack list) result" where
  "object_at i rest table = (if i < length table then Inr (table ! i, rest, table) else Inl IndexError)"

text \<open>Containers, references and unknown opcodes (lines 192--234), reading nested values with \<open>f\<close>.\<close>

definition unpack_compound :: "unpacker \<Rightarrow> nat \<Rightarrow> unpacker" where
  "unpack_compound f op r table =
     (if op AND 0xF0 = 0xD0 then
        rbind (unpack_loop (list_item f) (op AND 0xF) [] r table)
          (\<lambda>(output, ptr, table1). Inr (OList output, ptr, table1))
      else if op AND 0xE0 = 0xE0 then
        rbind (unpack_loop (dict_item f) (op AND 0xF) [] r table)
          (\<lambda>(output, ptr, table1). Inr (ODict output, ptr, table1))
      else if 0xA0 \<le> op \<and> op \<le> 0xC0 then object_at (op - 0xA0) r table
      else if 0xC1 \<le> op \<and> op \<le> 0xC4 then
        object_at (le_nat (take (op - 0xC0) r)) (drop (op - 0xC0) r) table
      else Inl TypeError)"

primrec unpack_obj :: "nat \<Rightarrow> unpacker" where
  "unpack_obj 0 = (\<lambda>data table. Inl RecursionError)"
| "unpack_obj (Suc depth) = (\<lambda>data table.
     if data = [] then Inl IndexError
     else case unpack_scalar (unat (hd data)) (tl data) of
         Some res \<Rightarrow>
           rbind res (\<lambda>(v, rest, add). Inr (v, rest, if add then table_add v table else table))
       | None \<Rightarrow> unpack_compound (unpack_obj depth) (unat (hd data)) (tl data) table)"

definition opack_unpack :: "nat \<Rightarrow> bytes \<Rightarrow> (opack \<times> bytes) result" where
  "opack_unpack depth data = rbind (unpack_obj depth data []) (\<lambda>(v, rest, table). Inr (v, rest))"

declare pack_obj.simps [simp del] unpack_obj.simps [simp del]

subsection \<open>Every read consumes input\<close>

lemma unpack_scalar_progress:
  "unpack_scalar op r = Some (Inr (v, rest, add)) \<Longrightarrow> length rest \<le> length r"
  by (auto simp: unpack_scalar_def Let_def rbind_eq_Inr split: if_splits)

definition consumes :: "unpacker \<Rightarrow> bool" where
  "consumes f \<longleftrightarrow> (\<forall>d t v r t'. f d t = Inr (v, r, t') \<longrightarrow> length r < length d)"

definition item_consumes :: "'a loop_body \<Rightarrow> bool" where
  "item_consumes g \<longleftrightarrow> (\<forall>a d t a' r t'. g a d t = Inr (a', r, t') \<longrightarrow> length r < length d)"

lemma consumesI:
  "(\<And>d t v r t'. f d t = Inr (v, r, t') \<Longrightarrow> length r < length d) \<Longrightarrow> consumes f"
  unfolding consumes_def by blast

lemma consumesD: "consumes f \<Longrightarrow> f d t = Inr (v, r, t') \<Longrightarrow> length r < length d"
  unfolding consumes_def by blast

lemma item_consumesI:
  "(\<And>a d t a' r t'. g a d t = Inr (a', r, t') \<Longrightarrow> length r < length d) \<Longrightarrow> item_consumes g"
  unfolding item_consumes_def by blast

lemma item_consumesD: "item_consumes g \<Longrightarrow> g a d t = Inr (a', r, t') \<Longrightarrow> length r < length d"
  unfolding item_consumes_def by blast

lemma list_item_consumes: "consumes f \<Longrightarrow> item_consumes (list_item f)"
  by (rule item_consumesI) (auto simp: list_item_def rbind_eq_Inr dest: consumesD)

lemma dict_item_consumes: "consumes f \<Longrightarrow> item_consumes (dict_item f)"
  by (rule item_consumesI) (auto simp: dict_item_def rbind_eq_Inr dest: consumesD intro: less_trans)

lemma unpack_count_le:
  "item_consumes g \<Longrightarrow> unpack_count g n a d t = Inr (a', r, t') \<Longrightarrow> length r \<le> length d"
proof (induction n arbitrary: a d t)
  case (Suc n)
  then obtain a1 d1 t1 where "g a d t = Inr (a1, d1, t1)" "unpack_count g n a1 d1 t1 = Inr (a', r, t')"
    by (auto simp: rbind_eq_Inr)
  with Suc.IH [OF Suc.prems(1) this(2)] Suc.prems(1) show ?case by (auto dest: item_consumesD)
qed simp

lemma unpack_until_le:
  "item_consumes g \<Longrightarrow> unpack_until g a d t = Inr (a', r, t') \<Longrightarrow> length r \<le> length d"
proof (induction g a d t rule: unpack_until.induct)
  case (1 g a d t)
  from "1.prems"(2) consider "d \<noteq> []" "r = tl d"
    | a1 d1 t1 where "d \<noteq> []" "hd d \<noteq> 3" "g a d t = Inr (a1, d1, t1)" "length d1 < length d"
        "unpack_until g a1 d1 t1 = Inr (a', r, t')"
    by (subst (asm) unpack_until.simps) (auto simp: rbind_eq_Inr split: if_splits)
  then show ?case
  proof cases
    case 2
    then show ?thesis using "1.IH" [of "(a1, d1, t1)" a1 "(d1, t1)" d1 t1] "1.prems"(1) by simp
  qed simp
qed

lemma unpack_loop_le:
  "item_consumes g \<Longrightarrow> unpack_loop g n a d t = Inr (a', r, t') \<Longrightarrow> length r \<le> length d"
  by (auto simp: unpack_loop_def dest: unpack_count_le unpack_until_le split: if_splits)

lemma unpack_compound_le:
  assumes "consumes f" "unpack_compound f op d t = Inr (v, r, t')"
  shows "length r \<le> length d"
  using assms(2) unpack_loop_le [OF list_item_consumes [OF assms(1)]]
    unpack_loop_le [OF dict_item_consumes [OF assms(1)]]
  by (auto simp: unpack_compound_def rbind_eq_Inr object_at_def split: if_split_asm)

lemma unpack_obj_progress: "consumes (unpack_obj depth)"
proof (induction depth)
  case 0
  then show ?case by (simp add: consumes_def unpack_obj.simps)
next
  case (Suc depth)
  have "length r < length d" if run: "unpack_obj (Suc depth) d t = Inr (v, r, t')" for d t v r t'
  proof -
    have d: "d \<noteq> []" using run by (auto simp: unpack_obj.simps)
    then have "length r \<le> length (tl d)"
      using run
      by (auto simp: unpack_obj.simps rbind_eq_Inr dest!: unpack_compound_le [OF Suc.IH]
          dest: unpack_scalar_progress split: option.splits)
    then show ?thesis using d by (cases d) simp_all
  qed
  then show ?case by (rule consumesI)
qed

text \<open>So the loop is the loop of the source.\<close>

lemma unpack_until_eq:
  assumes "item_consumes g"
  shows "unpack_until g output ptr table =
     (if ptr = [] then Inl IndexError
      else if hd ptr = 0x03 then Inr (output, tl ptr, table)
      else rbind (g output ptr table) (\<lambda>(output1, ptr1, table1). unpack_until g output1 ptr1 table1))"
  by (subst unpack_until.simps) (auto simp: rbind_def dest: item_consumesD [OF assms] split: sum.splits)

text \<open>The exceptions a malformed message can raise.\<close>

definition decode_errors :: "exn set" where
  "decode_errors = {IndexError, TypeError, ValueError, UnicodeError, StructError, RecursionError}"

definition fails_well :: "unpacker \<Rightarrow> bool" where
  "fails_well f \<longleftrightarrow> (\<forall>d t e. f d t = Inl e \<longrightarrow> e \<in> decode_errors)"

definition item_fails_well :: "'a loop_body \<Rightarrow> bool" where
  "item_fails_well g \<longleftrightarrow> (\<forall>a d t e. g a d t = Inl e \<longrightarrow> e \<in> decode_errors)"

lemma fails_wellI: "(\<And>d t e. f d t = Inl e \<Longrightarrow> e \<in> decode_errors) \<Longrightarrow> fails_well f"
  unfolding fails_well_def by blast

lemma fails_wellD: "fails_well f \<Longrightarrow> f d t = Inl e \<Longrightarrow> e \<in> decode_errors"
  unfolding fails_well_def by blast

lemma item_fails_wellI: "(\<And>a d t e. g a d t = Inl e \<Longrightarrow> e \<in> decode_errors) \<Longrightarrow> item_fails_well g"
  unfolding item_fails_well_def by blast

lemma item_fails_wellD: "item_fails_well g \<Longrightarrow> g a d t = Inl e \<Longrightarrow> e \<in> decode_errors"
  unfolding item_fails_well_def by blast

lemma decode_errors_simps [simp]:
  "IndexError \<in> decode_errors" "TypeError \<in> decode_errors" "ValueError \<in> decode_errors"
  "UnicodeError \<in> decode_errors" "StructError \<in> decode_errors" "RecursionError \<in> decode_errors"
  by (simp_all add: decode_errors_def)

lemma list_item_fails_well: "fails_well f \<Longrightarrow> item_fails_well (list_item f)"
  by (rule item_fails_wellI) (auto simp: list_item_def rbind_eq_Inl dest: fails_wellD)

lemma dict_item_fails_well: "fails_well f \<Longrightarrow> item_fails_well (dict_item f)"
  by (rule item_fails_wellI)
    (auto simp: dict_item_def dict_set_def rbind_eq_Inl dest: fails_wellD split: option.splits)

lemma unpack_count_fails:
  "item_fails_well g \<Longrightarrow> unpack_count g n a d t = Inl e \<Longrightarrow> e \<in> decode_errors"
  by (induction n arbitrary: a d t) (auto simp: rbind_eq_Inl dest: item_fails_wellD)

lemma unpack_until_fails:
  "item_consumes g \<Longrightarrow> item_fails_well g \<Longrightarrow> unpack_until g a d t = Inl e \<Longrightarrow> e \<in> decode_errors"
proof (induction "length d" arbitrary: a d t rule: less_induct)
  case less
  have run: "(if d = [] then Inl IndexError else if hd d = 3 then Inr (a, tl d, t)
      else rbind (g a d t) (\<lambda>(a1, d1, t1). unpack_until g a1 d1 t1)) = Inl e"
    using less.prems(3) unfolding unpack_until_eq [OF less.prems(1), of a d t] .
  show ?case
  proof (cases "g a d t")
    case (Inl e')
    with run less.prems(2) show ?thesis by (auto dest: item_fails_wellD split: if_split_asm)
  next
    case (Inr x)
    obtain a1 d1 t1 where x: "x = (a1, d1, t1)" by (cases x)
    have "length d1 < length d" using item_consumesD [OF less.prems(1) Inr [unfolded x]] .
    from less.hyps [OF this less.prems(1,2), of a1 t1] run show ?thesis
      by (auto simp: Inr x split: if_split_asm)
  qed
qed

lemma unpack_loop_fails:
  "item_consumes g \<Longrightarrow> item_fails_well g \<Longrightarrow> unpack_loop g n a d t = Inl e \<Longrightarrow> e \<in> decode_errors"
  by (auto simp: unpack_loop_def dest: unpack_count_fails unpack_until_fails split: if_splits)

lemma unpack_scalar_fails: "unpack_scalar op r = Some (Inl e) \<Longrightarrow> e \<in> decode_errors"
  by (auto simp: unpack_scalar_def Let_def rbind_eq_Inl decode_utf8_def split: if_splits)

lemma unpack_compound_fails:
  assumes "consumes f" "fails_well f" "unpack_compound f op d t = Inl e"
  shows "e \<in> decode_errors"
proof -
  have "unpack_loop (list_item f) (op AND 0xF) [] d t = Inl e
      \<or> unpack_loop (dict_item f) (op AND 0xF) [] d t = Inl e \<or> e = IndexError \<or> e = TypeError"
    using assms(3) by (auto simp: unpack_compound_def rbind_eq_Inl object_at_def split: if_split_asm)
  then show ?thesis
    using unpack_loop_fails [OF list_item_consumes list_item_fails_well, OF assms(1,2)]
      unpack_loop_fails [OF dict_item_consumes dict_item_fails_well, OF assms(1,2)]
      decode_errors_simps by blast
qed

lemma unpack_obj_fails: "fails_well (unpack_obj depth)"
proof (induction depth)
  case 0
  then show ?case by (simp add: fails_well_def unpack_obj.simps)
next
  case (Suc depth)
  show ?case
    by (rule fails_wellI)
      (auto simp: unpack_obj.simps rbind_eq_Inl dest: unpack_scalar_fails
        unpack_compound_fails [OF unpack_obj_progress Suc.IH] split: option.splits if_split_asm)
qed

subsection \<open>The reference encoding\<close>

text \<open>
  A value's encoding without references, the table entries that \<open>pack\<close> makes for it, the values
  the format can carry, and the value that comes back: an integer of more than one byte returns with
  its encoded size.
\<close>

definition int_size :: "int \<Rightarrow> nat option \<Rightarrow> nat option" where
  "int_size n hint =
     (case hint of Some h \<Rightarrow> Some (if h = 1 \<or> h = 2 \<or> h = 4 then h else 8)
      | None \<Rightarrow> if n < 0x28 then None else if n \<le> 0xFF then Some 1
          else if n \<le> 0xFFFF then Some 2 else if n \<le> 0xFFFFFFFF then Some 4 else Some 8)"

fun canon_scalar :: "opack \<Rightarrow> opack" where
  "canon_scalar (OInt n hint) = OInt n (int_size n hint)"
| "canon_scalar v = v"

fun plain_scalar :: "opack \<Rightarrow> bytes" where
  "plain_scalar ONone = [0x04]"
| "plain_scalar (OBool b) = [if b then 1 else 2]"
| "plain_scalar (OUuid u) = 0x05 # u"
| "plain_scalar (OInt n hint) = (case pack_int n hint of Inr b \<Rightarrow> b | Inl _ \<Rightarrow> [])"
| "plain_scalar (OFloat w) = 0x36 # le_bytes 8 (unat w)"
| "plain_scalar (ONan w i) = 0x36 # le_bytes 8 (unat w)"
| "plain_scalar (OStr s) = (case pack_str (bytes_of s) of Inr b \<Rightarrow> b | Inl _ \<Rightarrow> [])"
| "plain_scalar (OBytes e) = (case pack_bytes e of Inr b \<Rightarrow> b | Inl _ \<Rightarrow> [])"
| "plain_scalar _ = []"

fun scalar_ok :: "opack \<Rightarrow> bool" where
  "scalar_ok ONone = True"
| "scalar_ok (OBool b) = True"
| "scalar_ok (OUuid u) = (length u = 16)"
| "scalar_ok (OInt n hint) = (0 \<le> n \<and> hint \<noteq> Some 0 \<and>
     (case int_size n hint of None \<Rightarrow> True | Some k \<Rightarrow> n < 256 ^ k))"
| "scalar_ok (OFloat w) = (\<not> is_nan w)"
| "scalar_ok (OStr s) = (utf8_valid (bytes_of s) \<and> length s < 2 ^ 32)"
| "scalar_ok (OBytes e) = (length e < 2 ^ 64)"
| "scalar_ok _ = False"

lemma byte_range_cases:
  assumes "\<forall>n \<in> set [0..<256]. P n" and "n < (256 :: nat)"
  shows "P n"
  using assms by simp

lemma int_size_cases:
  assumes "scalar_ok (OInt n hint)"
  obtains (tiny) "hint = None" "n < 0x28" "int_size n hint = None" "pack_int n hint = Inr [word_of_nat (nat n + 8)]"
  | (sized) k op where "int_size n hint = Some k" "n < 256 ^ k" "(k, op) \<in> {(1, 0x30), (2, 0x31), (4, 0x32), (8, 0x33)}"
      "pack_int n hint = Inr (op # le_bytes k (nat n))"
proof (cases hint)
  case None
  consider "n < 0x28" | "0x28 \<le> n" "n \<le> 0xFF" | "0xFF < n" "n \<le> 0xFFFF"
    | "0xFFFF < n" "n \<le> 0xFFFFFFFF" | "0xFFFFFFFF < n" by linarith
  then show ?thesis
  proof cases
    case 1
    then show ?thesis using None assms
      by (intro tiny) (auto simp: int_size_def pack_int_def byte_lit_def nat_add_distrib)
  next
    case 2
    then show ?thesis using None assms
      by (intro sized [of 1 "0x30"]) (auto simp: int_size_def pack_int_def to_bytes_le_def)
  next
    case 3
    then show ?thesis using None assms
      by (intro sized [of 2 "0x31"]) (auto simp: int_size_def pack_int_def to_bytes_le_def)
  next
    case 4
    then show ?thesis using None assms
      by (intro sized [of 4 "0x32"]) (auto simp: int_size_def pack_int_def to_bytes_le_def)
  next
    case 5
    then show ?thesis using None assms
      by (intro sized [of 8 "0x33"]) (auto simp: int_size_def pack_int_def to_bytes_le_def)
  qed
next
  case (Some h)
  consider "h = 1" | "h = 2" | "h = 4" | "h \<noteq> 1" "h \<noteq> 2" "h \<noteq> 4" by blast
  then show ?thesis
  proof cases
    case 1
    then show ?thesis using Some assms
      by (intro sized [of 1 "0x30"]) (auto simp: int_size_def pack_int_def to_bytes_le_def)
  next
    case 2
    then show ?thesis using Some assms
      by (intro sized [of 2 "0x31"]) (auto simp: int_size_def pack_int_def to_bytes_le_def)
  next
    case 3
    then show ?thesis using Some assms
      by (intro sized [of 4 "0x32"]) (auto simp: int_size_def pack_int_def to_bytes_le_def)
  next
    case 4
    then show ?thesis using Some assms
      by (intro sized [of 8 "0x33"]) (auto simp: int_size_def pack_int_def to_bytes_le_def)
  qed
qed

lemma float_value_number [simp]:
  "\<not> is_nan w \<Longrightarrow> float_value w i = OFloat w"
  by (simp add: float_value_def)

lemma word64_roundtrip [simp]: "word_of_nat (le_nat (le_bytes 8 (unat w))) = (w :: 64 word)"
proof -
  have "unat w < 256 ^ 8" using unsigned_less [of w] by simp
  then show ?thesis by (simp add: le_nat_le_bytes)
qed

definition reads_back :: "opack \<Rightarrow> bytes \<Rightarrow> bool" where
  "reads_back v e \<longleftrightarrow> (\<exists>b bs add. e = b # bs \<and> unat b \<noteq> 3 \<and>
     (\<forall>rest. unpack_scalar (unat b) (bs @ rest) = Some (Inr (v, rest, add))))"

lemma reads_backI:
  "unat b \<noteq> 3 \<Longrightarrow> (\<And>rest. unpack_scalar (unat b) (bs @ rest) = Some (Inr (v, rest, add))) \<Longrightarrow>
     reads_back v (b # bs)"
  unfolding reads_back_def by blast

lemma and_nibble_high: "(n :: nat) AND 0xF0 = 16 * (n div 16 mod 16)"
proof -
  have "n AND 0xF0 = n AND push_bit 4 (mask 4)" by (simp add: mask_eq_exp_minus_1 push_bit_eq_mult)
  also have "\<dots> = push_bit 4 (take_bit 4 (drop_bit 4 n))" by (rule bit_eqI) (auto simp: bit_simps)
  finally show ?thesis by (simp add: push_bit_eq_mult take_bit_eq_mod drop_bit_eq_div)
qed

lemma and_top_three: "(n :: nat) AND 0xE0 = 32 * (n div 32 mod 8)"
proof -
  have "n AND 0xE0 = n AND push_bit 5 (mask 3)" by (simp add: mask_eq_exp_minus_1 push_bit_eq_mult)
  also have "\<dots> = push_bit 5 (take_bit 3 (drop_bit 5 n))" by (rule bit_eqI) (auto simp: bit_simps)
  finally show ?thesis by (simp add: push_bit_eq_mult take_bit_eq_mod drop_bit_eq_div)
qed

lemma and_nibble_low [simp]: "(n :: nat) AND 0xF = n mod 16"
proof -
  have "n AND 0xF = take_bit 4 n" by (simp add: take_bit_eq_mask mask_eq_exp_minus_1)
  then show ?thesis by (simp add: take_bit_eq_mod)
qed

lemma opcode_high:
  assumes "(n :: nat) < 256"
  shows "n AND 0xF0 = 0x30 \<longleftrightarrow> 0x30 \<le> n \<and> n \<le> 0x3F"
    and "n AND 0xF0 = 0xD0 \<longleftrightarrow> 0xD0 \<le> n \<and> n \<le> 0xDF"
    and "n AND 0xE0 = 0xE0 \<longleftrightarrow> 0xE0 \<le> n"
proof -
  have "n div 16 < 16" "n div 32 < 8" using assms by simp_all
  then have "n AND 0xF0 = 16 * (n div 16)" "n AND 0xE0 = 32 * (n div 32)"
    unfolding and_nibble_high and_top_three by simp_all
  moreover have "16 * (n div 16) = 0x30 \<longleftrightarrow> n div 16 = 3" "16 * (n div 16) = 0xD0 \<longleftrightarrow> n div 16 = 13"
    "32 * (n div 32) = 0xE0 \<longleftrightarrow> n div 32 = 7" by linarith+
  moreover have "n div 16 = 3 \<longleftrightarrow> 0x30 \<le> n \<and> n \<le> 0x3F" by arith
  moreover have "n div 16 = 13 \<longleftrightarrow> 0xD0 \<le> n \<and> n \<le> 0xDF" by arith
  moreover have "n div 32 = 7 \<longleftrightarrow> 0xE0 \<le> n" using assms by arith
  ultimately show "n AND 0xF0 = 0x30 \<longleftrightarrow> 0x30 \<le> n \<and> n \<le> 0x3F"
    and "n AND 0xF0 = 0xD0 \<longleftrightarrow> 0xD0 \<le> n \<and> n \<le> 0xDF"
    and "n AND 0xE0 = 0xE0 \<longleftrightarrow> 0xE0 \<le> n" by simp_all
qed

declare opcode_high [simp]

lemma unpack_scalar_tiny:
  "n < 0x28 \<Longrightarrow> unpack_scalar (n + 8) r = Some (Inr (OInt (int n) None, r, False))"
  by (simp add: unpack_scalar_def)

lemma unpack_scalar_int:
  "unpack_scalar 0x30 r = Some (Inr (OInt (int (le_nat (take 1 r))) (Some 1), drop 1 r, True))"
  "unpack_scalar 0x31 r = Some (Inr (OInt (int (le_nat (take 2 r))) (Some 2), drop 2 r, True))"
  "unpack_scalar 0x32 r = Some (Inr (OInt (int (le_nat (take 4 r))) (Some 4), drop 4 r, True))"
  "unpack_scalar 0x33 r = Some (Inr (OInt (int (le_nat (take 8 r))) (Some 8), drop 8 r, True))"
  by (simp_all add: unpack_scalar_def)

definition str_after :: "nat \<Rightarrow> nat \<Rightarrow> bytes \<Rightarrow> (opack \<times> bytes \<times> bool) result option" where
  "str_after k n r = Some (rbind (decode_utf8 (take n (drop k r)))
     (\<lambda>s. Inr (OStr s, drop (k + n) r, True)))"

lemma unpack_scalar_str:
  "n \<le> 0x20 \<Longrightarrow> unpack_scalar (0x40 + n) r = str_after 0 n r"
  "unpack_scalar 0x61 r = str_after 1 (le_nat (take 1 r)) r"
  "unpack_scalar 0x62 r = str_after 2 (le_nat (take 2 r)) r"
  "unpack_scalar 0x63 r = str_after 3 (le_nat (take 3 r)) r"
  "unpack_scalar 0x64 r = str_after 4 (le_nat (take 4 r)) r"
  by (simp_all add: unpack_scalar_def str_after_def Let_def)

definition bytes_after :: "nat \<Rightarrow> nat \<Rightarrow> bytes \<Rightarrow> (opack \<times> bytes \<times> bool) result option" where
  "bytes_after k n r = Some (Inr (OBytes (take n (drop k r)), drop (k + n) r, True))"

lemma unpack_scalar_bytes:
  "n \<le> 0x20 \<Longrightarrow> unpack_scalar (0x70 + n) r = bytes_after 0 n r"
  "unpack_scalar 0x91 r = bytes_after 1 (le_nat (take 1 r)) r"
  "unpack_scalar 0x92 r = bytes_after 2 (le_nat (take 2 r)) r"
  "unpack_scalar 0x93 r = bytes_after 4 (le_nat (take 4 r)) r"
  "unpack_scalar 0x94 r = bytes_after 8 (le_nat (take 8 r)) r"
  by (simp_all add: unpack_scalar_def bytes_after_def Let_def)

lemma unpack_scalar_none: "0xA0 \<le> n \<Longrightarrow> n < 256 \<Longrightarrow> unpack_scalar n r = None"
  by (simp add: unpack_scalar_def)

lemma str_after_append [simp]:
  "length p = k \<Longrightarrow> length e = n \<Longrightarrow> utf8_valid e \<Longrightarrow>
     str_after k n (p @ e @ rest) = Some (Inr (OStr (string_of e), rest, True))"
  by (simp add: str_after_def decode_utf8_def)

lemma bytes_after_append [simp]:
  "length p = k \<Longrightarrow> length e = n \<Longrightarrow>
     bytes_after k n (p @ e @ rest) = Some (Inr (OBytes e, rest, True))"
  by (simp add: bytes_after_def)

lemma reads_back_op:
  "n < 256 \<Longrightarrow> n \<noteq> 3 \<Longrightarrow> (\<And>rest. unpack_scalar n (bs @ rest) = Some (Inr (v, rest, add))) \<Longrightarrow>
     reads_back v (word_of_nat n # bs)"
  by (rule reads_backI) simp_all

lemma reads_sized_str:
  assumes "\<And>r. unpack_scalar (unat b) r = str_after k (le_nat (take k r)) r"
    and "utf8_valid e" "length e < 256 ^ k" "unat b \<noteq> 3"
  shows "reads_back (OStr (string_of e)) (b # le_bytes k (length e) @ e)"
  using assms by (intro reads_backI [where add = True]) (simp_all add: le_nat_le_bytes)

lemma reads_sized_bytes:
  assumes "\<And>r. unpack_scalar (unat b) r = bytes_after k (le_nat (take k r)) r"
    and "length e < 256 ^ k" "unat b \<noteq> 3"
  shows "reads_back (OBytes e) (b # le_bytes k (length e) @ e)"
  using assms by (intro reads_backI [where add = True]) (simp_all add: le_nat_le_bytes)

lemma reads_sized_int:
  assumes "\<And>r. unpack_scalar (unat b) r = Some (Inr (OInt (int (le_nat (take k r))) (Some k), drop k r, True))"
    and "n < 256 ^ k" "unat b \<noteq> 3"
  shows "reads_back (OInt (int n) (Some k)) (b # le_bytes k n)"
  using assms by (intro reads_backI [where add = True]) (simp_all add: le_nat_le_bytes)

lemma reads_str:
  assumes "utf8_valid e" "pack_str e = Inr b"
  shows "reads_back (OStr (string_of e)) b"
proof -
  let ?n = "length e"
  have *: "unat (0x61 :: byte) = 0x61" "unat (0x62 :: byte) = 0x62" "unat (0x63 :: byte) = 0x63"
    "unat (0x64 :: byte) = 0x64" by simp_all
  have "?n \<le> 0x20 \<and> b = word_of_nat (0x40 + ?n) # e
    \<or> ?n \<le> 0xFF \<and> b = 0x61 # le_bytes 1 ?n @ e \<or> ?n \<le> 0xFFFF \<and> b = 0x62 # le_bytes 2 ?n @ e
    \<or> ?n \<le> 0xFFFFFF \<and> b = 0x63 # le_bytes 3 ?n @ e \<or> ?n \<le> 0xFFFFFFFF \<and> b = 0x64 # le_bytes 4 ?n @ e"
    using assms(2) unfolding pack_str_def Let_def by (simp split: if_splits del: of_nat_add le_bytes.simps)
  moreover have "reads_back (OStr (string_of e)) (word_of_nat (0x40 + ?n) # e)" if "?n \<le> 0x20"
    using that str_after_append [of "[]" 0 e ?n] assms(1)
    by (intro reads_back_op [where add = True]) (simp_all only: unpack_scalar_str, simp_all)
  moreover have "reads_back (OStr (string_of e)) (0x61 # le_bytes 1 ?n @ e)" if "?n \<le> 0xFF"
    using that assms(1) unpack_scalar_str(2) by (intro reads_sized_str) (simp_all only: *, simp_all)
  moreover have "reads_back (OStr (string_of e)) (0x62 # le_bytes 2 ?n @ e)" if "?n \<le> 0xFFFF"
    using that assms(1) unpack_scalar_str(3) by (intro reads_sized_str) (simp_all only: *, simp_all)
  moreover have "reads_back (OStr (string_of e)) (0x63 # le_bytes 3 ?n @ e)" if "?n \<le> 0xFFFFFF"
    using that assms(1) unpack_scalar_str(4) by (intro reads_sized_str) (simp_all only: *, simp_all)
  moreover have "reads_back (OStr (string_of e)) (0x64 # le_bytes 4 ?n @ e)" if "?n \<le> 0xFFFFFFFF"
    using that assms(1) unpack_scalar_str(5) by (intro reads_sized_str) (simp_all only: *, simp_all)
  ultimately show ?thesis by metis
qed

lemma reads_bytes:
  assumes "pack_bytes e = Inr b"
  shows "reads_back (OBytes e) b"
proof -
  let ?n = "length e"
  have *: "unat (0x91 :: byte) = 0x91" "unat (0x92 :: byte) = 0x92" "unat (0x93 :: byte) = 0x93"
    "unat (0x94 :: byte) = 0x94" by simp_all
  have "?n \<le> 0x20 \<and> b = word_of_nat (0x70 + ?n) # e
    \<or> ?n \<le> 0xFF \<and> b = 0x91 # le_bytes 1 ?n @ e \<or> ?n \<le> 0xFFFF \<and> b = 0x92 # le_bytes 2 ?n @ e
    \<or> ?n \<le> 0xFFFFFFFF \<and> b = 0x93 # le_bytes 4 ?n @ e
    \<or> ?n \<le> 0xFFFFFFFFFFFFFFFF \<and> b = 0x94 # le_bytes 8 ?n @ e"
    using assms unfolding pack_bytes_def Let_def by (simp split: if_splits del: of_nat_add le_bytes.simps)
  moreover have "reads_back (OBytes e) (word_of_nat (0x70 + ?n) # e)" if "?n \<le> 0x20"
    using that bytes_after_append [of "[]" 0 e ?n]
    by (intro reads_back_op [where add = True]) (simp_all only: unpack_scalar_bytes, simp_all)
  moreover have "reads_back (OBytes e) (0x91 # le_bytes 1 ?n @ e)" if "?n \<le> 0xFF"
    using that unpack_scalar_bytes(2) by (intro reads_sized_bytes) (simp_all only: *, simp_all)
  moreover have "reads_back (OBytes e) (0x92 # le_bytes 2 ?n @ e)" if "?n \<le> 0xFFFF"
    using that unpack_scalar_bytes(3) by (intro reads_sized_bytes) (simp_all only: *, simp_all)
  moreover have "reads_back (OBytes e) (0x93 # le_bytes 4 ?n @ e)" if "?n \<le> 0xFFFFFFFF"
    using that unpack_scalar_bytes(4) by (intro reads_sized_bytes) (simp_all only: *, simp_all)
  moreover have "reads_back (OBytes e) (0x94 # le_bytes 8 ?n @ e)" if "?n \<le> 0xFFFFFFFFFFFFFFFF"
    using that unpack_scalar_bytes(5) by (intro reads_sized_bytes) (simp_all only: *, simp_all)
  ultimately show ?thesis by metis
qed

lemma reads_int:
  assumes "scalar_ok (OInt n hint)"
  shows "reads_back (OInt n (int_size n hint)) (plain_scalar (OInt n hint))"
  using assms
proof (cases rule: int_size_cases)
  case tiny
  then have n: "0 \<le> n" "nat n < 0x28" using assms by simp_all
  have "reads_back (OInt (int (nat n)) None) (word_of_nat (nat n + 8) # [])"
    using n by (intro reads_back_op [where add = False]) (simp_all only: unpack_scalar_tiny, simp_all)
  then show ?thesis using tiny n by simp
next
  case (sized k op)
  have n: "nat n < 256 ^ k" "int (nat n) = n" using sized assms by (auto simp: nat_less_iff)
  have *: "unat (0x30 :: byte) = 0x30" "unat (0x31 :: byte) = 0x31" "unat (0x32 :: byte) = 0x32"
    "unat (0x33 :: byte) = 0x33" by simp_all
  have "reads_back (OInt (int (nat n)) (Some k)) (op # le_bytes k (nat n))"
    using sized(3) n(1) unpack_scalar_int
    by (intro reads_sized_int) (auto simp: * simp del: le_nat.simps)
  then show ?thesis using sized n by simp
qed

lemma reads_scalar:
  assumes "scalar_ok v" shows "reads_back (canon_scalar v) (plain_scalar v)"
proof (cases v)
  case (OInt n hint)
  with assms reads_int show ?thesis by simp
next
  case (OStr s)
  with assms have ok: "utf8_valid (bytes_of s)" "length s < 2 ^ 32" by simp_all
  then obtain b where "pack_str (bytes_of s) = Inr b"
    by (cases "pack_str (bytes_of s)") (auto simp: pack_str_def Let_def split: if_splits)
  with reads_str [OF ok(1) this] show ?thesis by (simp add: OStr)
next
  case (OBytes e)
  with assms have "length e < 2 ^ 64" by simp
  then obtain b where "pack_bytes e = Inr b"
    by (cases "pack_bytes e") (auto simp: pack_bytes_def Let_def split: if_splits)
  with reads_bytes [OF this] show ?thesis by (simp add: OBytes)
qed (use assms in \<open>auto simp: unpack_scalar_def intro!: reads_backI\<close>)

text \<open>Containers: the same four notions for every value. \<open>flat\<close> lists a dictionary's keys and
  values in the order they are written.\<close>

definition flat :: "(opack \<times> opack) list \<Rightarrow> opack list" where
  "flat kvs = concat (map (\<lambda>(k, v). [k, v]) kvs)"

fun plain :: "opack \<Rightarrow> bytes" where
  "plain (OList xs) =
     container_head 0xD0 (length xs) # concat (map plain xs) @ container_tail (length xs)"
| "plain (ODict kvs) =
     container_head 0xE0 (length kvs) # concat (map (\<lambda>kv. plain (fst kv) @ plain (snd kv)) kvs)
       @ container_tail (length kvs)"
| "plain v = plain_scalar v"

definition own_entry :: "bytes \<Rightarrow> bytes list" where
  "own_entry b = (if 1 < length b then [b] else [])"

fun entries :: "opack \<Rightarrow> bytes list" where
  "entries (OList xs) = concat (map entries xs) @ own_entry (plain (OList xs))"
| "entries (ODict kvs) =
     concat (map (\<lambda>kv. entries (fst kv) @ entries (snd kv)) kvs) @ own_entry (plain (ODict kvs))"
| "entries v = own_entry (plain_scalar v)"

fun canon :: "opack \<Rightarrow> opack" where
  "canon (OList xs) = OList (map canon xs)"
| "canon (ODict kvs) = ODict (map (\<lambda>kv. (canon (fst kv), canon (snd kv))) kvs)"
| "canon v = canon_scalar v"

text \<open>Well-formed: every scalar has an encoding and a dictionary's keys are hashable and pairwise
  unequal, as in every Python dictionary. \<open>levels\<close> counts the nested calls.\<close>

fun opack_ok :: "opack \<Rightarrow> bool" where
  "opack_ok (OList xs) \<longleftrightarrow> (\<forall>x \<in> set xs. opack_ok x)"
| "opack_ok (ODict kvs) \<longleftrightarrow> (\<forall>kv \<in> set kvs. opack_ok (fst kv) \<and> opack_ok (snd kv))
     \<and> (\<forall>kv \<in> set kvs. py_key (fst kv) \<noteq> None) \<and> distinct (map (py_key \<circ> fst) kvs)"
| "opack_ok v \<longleftrightarrow> scalar_ok v"

fun levels :: "opack \<Rightarrow> nat" where
  "levels (OList xs) = Suc (fold max (map levels xs) 0)"
| "levels (ODict kvs) = Suc (fold max (map (\<lambda>kv. max (levels (fst kv)) (levels (snd kv))) kvs) 0)"
| "levels v = 1"

definition scalar :: "opack \<Rightarrow> bool" where
  "scalar v \<longleftrightarrow> (case v of OList _ \<Rightarrow> False | ODict _ \<Rightarrow> False | _ \<Rightarrow> True)"

lemma scalar_eqs:
  assumes "scalar v"
  shows "plain v = plain_scalar v" "entries v = own_entry (plain v)" "canon v = canon_scalar v"
    "opack_ok v = scalar_ok v" "levels v = 1"
  using assms by (cases v; simp add: scalar_def)+

lemma py_key_canon [simp]: "py_key (canon v) = py_key v"
proof (cases v)
  case (OInt n hint)
  then show ?thesis by simp
qed simp_all

lemma opack_induct [case_names scalar list dict]:
  assumes "\<And>v. scalar v \<Longrightarrow> P v"
    and "\<And>xs. (\<And>x. x \<in> set xs \<Longrightarrow> P x) \<Longrightarrow> P (OList xs)"
    and "\<And>kvs. (\<And>x. x \<in> set (flat kvs) \<Longrightarrow> P x) \<Longrightarrow> P (ODict kvs)"
  shows "P v"
proof (induction v)
  case (OList xs)
  with assms(2) show ?case by blast
next
  case (ODict kvs)
  have "P x" if "x \<in> set (flat kvs)" for x
  proof -
    from that obtain k v where "(k, v) \<in> set kvs" "x = k \<or> x = v" by (auto simp: flat_def)
    with ODict [of "(k, v)"] show ?thesis by auto
  qed
  with assms(3) show ?case by blast
qed (simp_all add: assms(1) scalar_def)

lemma flat_simps [simp]: "flat [] = []" "flat (kv # kvs) = fst kv # snd kv # flat kvs"
  by (simp_all add: flat_def split: prod.splits)

lemma concat_flat:
  "concat (map (\<lambda>kv. f (fst kv) @ f (snd kv)) kvs) = concat (map f (flat kvs))"
  by (induction kvs) simp_all

lemma set_flat: "(\<forall>x \<in> set (flat kvs). Q x) \<longleftrightarrow> (\<forall>kv \<in> set kvs. Q (fst kv) \<and> Q (snd kv))"
  by (induction kvs) auto

lemma fold_max_le [simp]: "fold max xs (a :: nat) \<le> d \<longleftrightarrow> a \<le> d \<and> (\<forall>x \<in> set xs. x \<le> d)"
  by (induction xs arbitrary: a) auto

lemma plain_dict [simp]:
  "plain (ODict kvs) = container_head 0xE0 (length kvs) # concat (map plain (flat kvs))
     @ container_tail (length kvs)"
  by (simp add: concat_flat)

lemma entries_dict [simp]:
  "entries (ODict kvs) = concat (map entries (flat kvs)) @ own_entry (plain (ODict kvs))"
  by (simp only: entries.simps concat_flat)

lemma levels_le [simp]:
  "levels (OList xs) \<le> d \<longleftrightarrow> (case d of 0 \<Rightarrow> False | Suc n \<Rightarrow> \<forall>x \<in> set xs. levels x \<le> n)"
  "levels (ODict kvs) \<le> d \<longleftrightarrow> (case d of 0 \<Rightarrow> False | Suc n \<Rightarrow> \<forall>x \<in> set (flat kvs). levels x \<le> n)"
  by (cases d; auto simp: set_flat)+

lemma levels_pos [simp]: "levels v \<noteq> 0"
  by (cases v) (simp_all add: levels.simps)

declare plain.simps(2) [simp del] entries.simps(2) [simp del] levels.simps(1,2) [simp del]

subsection \<open>Packing writes the reference encoding when nothing repeats\<close>

text \<open>A table the packer can have built, with the entries to come.\<close>

definition table_for :: "bytes list \<Rightarrow> bytes list \<Rightarrow> bool" where
  "table_for table new \<longleftrightarrow> distinct (table @ new) \<and> (\<forall>b \<in> set table. 1 < length b)"

lemma table_for_append:
  "\<forall>b \<in> set new. 1 < length b \<Longrightarrow>
     table_for table (new @ new') \<longleftrightarrow> table_for table new \<and> table_for (table @ new) new'"
  by (auto simp: table_for_def)

lemma entries_long: "b \<in> set (entries v) \<Longrightarrow> 1 < length b"
  by (induction v rule: opack_induct)
    (auto simp: scalar_eqs own_entry_def split: if_splits)

lemma table_for_entries:
  "table_for table (entries x @ new) \<longleftrightarrow> table_for table (entries x) \<and> table_for (table @ entries x) new"
  "table_for table (concat (map entries xs) @ new) \<longleftrightarrow>
     table_for table (concat (map entries xs)) \<and> table_for (table @ concat (map entries xs)) new"
  by (rule table_for_append, use entries_long in fastforce)+

lemma pack_ref_new:
  "table_for table (own_entry b) \<Longrightarrow> pack_ref b table = (b, table @ own_entry b)"
  by (auto simp: pack_ref_def own_entry_def table_for_def split: if_splits)

lemma pack_int_returns: "scalar_ok (OInt n hint) \<Longrightarrow> \<exists>b. pack_int n hint = Inr b"
  by (erule int_size_cases) blast+

lemma pack_scalar:
  assumes "scalar v" "scalar_ok v"
  shows "pack_obj (Suc d) v table = Inr (pack_ref (plain_scalar v) table)"
proof (cases v)
  case (OInt n hint)
  with assms show ?thesis
    using pack_int_returns [of n hint] by (auto simp: pack_obj.simps)
next
  case (OStr s)
  with assms show ?thesis
    by (auto simp: pack_obj.simps pack_str_def Let_def simp del: le_bytes.simps)
next
  case (OBytes e)
  with assms show ?thesis
    by (auto simp: pack_obj.simps pack_bytes_def Let_def simp del: le_bytes.simps)
qed (use assms in \<open>auto simp: pack_obj.simps scalar_def\<close>)

definition packs_as :: "nat \<Rightarrow> opack \<Rightarrow> bool" where
  "packs_as d v \<longleftrightarrow> (\<forall>table. table_for table (entries v) \<longrightarrow>
     pack_obj d v table = Inr (plain v, table @ entries v))"

lemma packs_asI:
  "(\<And>table. table_for table (entries v) \<Longrightarrow> pack_obj d v table = Inr (plain v, table @ entries v))
     \<Longrightarrow> packs_as d v"
  by (simp add: packs_as_def)

lemma packs_asD:
  "packs_as d v \<Longrightarrow> table_for table (entries v) \<Longrightarrow>
     pack_obj d v table = Inr (plain v, table @ entries v)"
  by (simp add: packs_as_def)

lemma pack_seq_plain:
  assumes "\<And>x. x \<in> set xs \<Longrightarrow> packs_as d x" and "table_for table (concat (map entries xs))"
  shows "pack_seq (pack_obj d) xs table
       = Inr (concat (map plain xs), table @ concat (map entries xs))"
  using assms
proof (induction xs arbitrary: table)
  case (Cons x xs)
  then have tab: "table_for table (entries x)" "table_for (table @ entries x) (concat (map entries xs))"
    by (simp_all add: table_for_entries)
  have "pack_obj d x table = Inr (plain x, table @ entries x)"
    using packs_asD [OF Cons.prems(1) tab(1)] by simp
  with Cons.IH [OF _ tab(2)] Cons.prems(1) show ?case by simp
qed simp

lemma pack_obj_plain: "opack_ok v \<Longrightarrow> levels v \<le> d \<Longrightarrow> packs_as d v"
proof (induction v arbitrary: d rule: opack_induct)
  case (scalar v)
  then obtain d' where d: "d = Suc d'" by (cases d) (auto simp: scalar_eqs)
  show ?case
    by (rule packs_asI) (use scalar in \<open>simp add: d pack_scalar scalar_eqs pack_ref_new\<close>)
next
  case (list xs)
  then obtain d' where d: "d = Suc d'" "\<forall>x \<in> set xs. levels x \<le> d'"
    by (cases d) simp_all
  let ?own = "own_entry (plain (OList xs))"
  show ?case
  proof (rule packs_asI)
    fix table assume "table_for table (entries (OList xs))"
    then have tab: "table_for table (concat (map entries xs))" "table_for (table @ concat (map entries xs)) ?own"
      by (simp_all add: table_for_entries)
    have "pack_seq (pack_obj d') xs table
        = Inr (concat (map plain xs), table @ concat (map entries xs))"
      using list d by (intro pack_seq_plain tab) simp
    then show "pack_obj d (OList xs) table = Inr (plain (OList xs), table @ entries (OList xs))"
      using pack_ref_new [OF tab(2)] by (simp add: d pack_obj.simps)
  qed
next
  case (dict kvs)
  then obtain d' where d: "d = Suc d'" "\<forall>x \<in> set (flat kvs). levels x \<le> d'"
    by (cases d) simp_all
  have ok: "\<forall>x \<in> set (flat kvs). opack_ok x" using dict.prems(1) by (auto simp: set_flat)
  let ?own = "own_entry (plain (ODict kvs))"
  show ?case
  proof (rule packs_asI)
    fix table assume "table_for table (entries (ODict kvs))"
    then have tab: "table_for table (concat (map entries (flat kvs)))"
        "table_for (table @ concat (map entries (flat kvs))) ?own"
      by (simp_all add: table_for_entries del: plain_dict)
    have "pack_seq (pack_obj d') (flat kvs) table
        = Inr (concat (map plain (flat kvs)), table @ concat (map entries (flat kvs)))"
      using dict.IH d ok by (intro pack_seq_plain tab) simp
    then show "pack_obj d (ODict kvs) table = Inr (plain (ODict kvs), table @ entries (ODict kvs))"
      using pack_ref_new [OF tab(2)] by (simp add: d pack_obj.simps flat_def [symmetric])
  qed
qed

subsection \<open>Unpacking reads the reference encoding\<close>

definition reads_as :: "nat \<Rightarrow> opack \<Rightarrow> bool" where
  "reads_as d v \<longleftrightarrow> (\<forall>rest table. \<exists>table'.
     unpack_obj d (plain v @ rest) table = Inr (canon v, rest, table'))"

lemma reads_asE:
  assumes "reads_as d v"
  obtains table' where "unpack_obj d (plain v @ rest) table = Inr (canon v, rest, table')"
  using assms unfolding reads_as_def by blast

lemma reads_asI:
  "(\<And>rest table. \<exists>table'. unpack_obj d (plain v @ rest) table = Inr (canon v, rest, table')) \<Longrightarrow>
     reads_as d v"
  by (simp add: reads_as_def)

lemma unpack_scalar_step:
  "reads_back v e \<Longrightarrow> \<exists>table'. unpack_obj (Suc d) (e @ rest) table = Inr (v, rest, table')"
  by (auto simp: reads_back_def unpack_obj.simps)

lemma container_head_unat:
  "unat (container_head 0xD0 n) = 0xD0 + min n 0xF" "unat (container_head 0xE0 n) = 0xE0 + min n 0xF"
  unfolding container_head_def by (subst unat_byte; simp)+

lemma plain_head:
  assumes "opack_ok v" shows "\<exists>b bs. plain v = b # bs \<and> unat b \<noteq> 3"
proof (cases "scalar v")
  case True
  with assms reads_scalar [of v] show ?thesis by (auto simp: scalar_eqs reads_back_def)
qed (cases v; simp add: scalar_def container_head_unat)

lemma unpack_container:
  "unpack_obj (Suc d) (container_head 0xD0 n # r) table =
     rbind (unpack_loop (list_item (unpack_obj d)) (min n 0xF) [] r table)
       (\<lambda>(output, ptr, table1). Inr (OList output, ptr, table1))"
  "unpack_obj (Suc d) (container_head 0xE0 n # r) table =
     rbind (unpack_loop (dict_item (unpack_obj d)) (min n 0xF) [] r table)
       (\<lambda>(output, ptr, table1). Inr (ODict output, ptr, table1))"
proof -
  obtain m where m: "min n 0xF = m" "m < 16" by simp
  have "0xD0 + m = m + 16 * 13" "0xE0 + m = m + 16 * 14" by simp_all
  then have low: "(0xD0 + m) AND 0xF = m" "(0xE0 + m) AND 0xF = m"
    using m(2) unfolding and_nibble_low by (simp_all only: mod_mult_self2 mod_less)
  have high: "(0xD0 + m) AND 0xF0 = 0xD0" "(0xE0 + m) AND 0xF0 \<noteq> 0xD0" "(0xE0 + m) AND 0xE0 = 0xE0"
    using m by (subst opcode_high; simp)+
  have none: "unpack_scalar (0xD0 + m) r = None" "unpack_scalar (0xE0 + m) r = None"
    using m by (simp_all add: unpack_scalar_none)
  show "unpack_obj (Suc d) (container_head 0xD0 n # r) table =
     rbind (unpack_loop (list_item (unpack_obj d)) (min n 0xF) [] r table)
       (\<lambda>(output, ptr, table1). Inr (OList output, ptr, table1))"
    and "unpack_obj (Suc d) (container_head 0xE0 n # r) table =
     rbind (unpack_loop (dict_item (unpack_obj d)) (min n 0xF) [] r table)
       (\<lambda>(output, ptr, table1). Inr (ODict output, ptr, table1))"
    by (simp_all only: unpack_obj.simps unpack_compound_def container_head_unat m(1) none low high
        list.sel option.case if_True if_False list.distinct refl not_Cons_self)
qed

text \<open>A loop body that reads one encoded item, and a run of such items.\<close>

definition reads_item :: "'a loop_body \<Rightarrow> bytes \<Rightarrow> 'a \<Rightarrow> 'a \<Rightarrow> bool" where
  "reads_item g e a a' \<longleftrightarrow> (\<exists>b bs. e = b # bs \<and> unat b \<noteq> 3) \<and>
     (\<forall>rest table. \<exists>table'. g a (e @ rest) table = Inr (a', rest, table'))"

fun reads_items :: "'a loop_body \<Rightarrow> bytes list \<Rightarrow> 'a \<Rightarrow> 'a \<Rightarrow> bool" where
  "reads_items g [] a a' \<longleftrightarrow> a = a'"
| "reads_items g (e # es) a a' \<longleftrightarrow> (\<exists>a1. reads_item g e a a1 \<and> reads_items g es a1 a')"

lemma reads_items_count:
  "reads_items g es a a' \<Longrightarrow>
     \<exists>table'. unpack_count g (length es) a (concat es @ rest) table = Inr (a', rest, table')"
proof (induction es arbitrary: a table)
  case (Cons e es)
  then obtain a1 t1 where "g a (e @ concat es @ rest) table = Inr (a1, concat es @ rest, t1)"
      "reads_items g es a1 a'"
    by (auto simp: reads_item_def) blast
  with Cons.IH [of a1 t1] show ?case by simp
qed simp

lemma reads_items_until:
  "item_consumes g \<Longrightarrow> reads_items g es a a' \<Longrightarrow>
     \<exists>table'. unpack_until g a (concat es @ 3 # rest) table = Inr (a', rest, table')"
proof (induction es arbitrary: a table)
  case Nil
  then show ?case by (simp add: unpack_until.simps)
next
  case (Cons e es)
  from Cons.prems(2) obtain a1 where item: "reads_item g e a a1" and more: "reads_items g es a1 a'"
    by auto
  then obtain t1 where g: "g a (e @ concat es @ 3 # rest) table = Inr (a1, concat es @ 3 # rest, t1)"
    unfolding reads_item_def by blast
  obtain b bs where e: "e = b # bs" "unat b \<noteq> 3" using item unfolding reads_item_def by blast
  then have "b \<noteq> 3" by auto
  with e g Cons.IH [OF Cons.prems(1) more, of t1] show ?case
    by (simp add: unpack_until_eq [OF Cons.prems(1), of a])
qed

lemma reads_items_loop:
  assumes "item_consumes g" "reads_items g es a a'"
  shows "\<exists>table'. unpack_loop g (min (length es) 0xF) a (concat es @ container_tail (length es) @ rest) table
    = Inr (a', rest, table')"
  using reads_items_count [OF assms(2)] reads_items_until [OF assms]
  by (auto simp: unpack_loop_def container_tail_def min_def)

lemma reads_list_items:
  assumes "\<forall>x \<in> set xs. reads_as d x \<and> opack_ok x"
  shows "reads_items (list_item (unpack_obj d)) (map plain xs) acc (acc @ map canon xs)"
  using assms
proof (induction xs arbitrary: acc)
  case (Cons x xs)
  have "reads_item (list_item (unpack_obj d)) (plain x) acc (acc @ [canon x])"
    unfolding reads_item_def
  proof (intro conjI allI)
    show "\<exists>b bs. plain x = b # bs \<and> unat b \<noteq> 3" using Cons.prems plain_head by simp
    show "\<exists>table'. list_item (unpack_obj d) acc (plain x @ rest) table = Inr (acc @ [canon x], rest, table')"
      for rest table
    proof -
      have "reads_as d x" using Cons.prems by simp
      from reads_asE [OF this, of rest table]
      obtain t where "unpack_obj d (plain x @ rest) table = Inr (canon x, rest, t)" .
      then show ?thesis by (simp add: list_item_def)
    qed
  qed
  moreover have "reads_items (list_item (unpack_obj d)) (map plain xs) (acc @ [canon x])
      ((acc @ [canon x]) @ map canon xs)"
    using Cons.prems by (intro Cons.IH) simp
  ultimately show ?case by auto
qed simp

lemma dict_put_fresh:
  "Some key \<notin> (py_key \<circ> fst) ` set d \<Longrightarrow> dict_put key k v d = d @ [(k, v)]"
  by (induction d) (auto simp: image_iff)

lemma reads_dict_items:
  assumes "\<forall>x \<in> set (flat kvs). reads_as d x \<and> opack_ok x"
    and "\<forall>kv \<in> set kvs. py_key (fst kv) \<noteq> None" "distinct (map (py_key \<circ> fst) kvs)"
    and "(py_key \<circ> fst) ` set acc \<inter> (py_key \<circ> fst) ` set kvs = {}"
  shows "reads_items (dict_item (unpack_obj d)) (map (\<lambda>kv. plain (fst kv) @ plain (snd kv)) kvs) acc
     (acc @ map (\<lambda>kv. (canon (fst kv), canon (snd kv))) kvs)"
  using assms
proof (induction kvs arbitrary: acc)
  case (Cons kv kvs)
  obtain k v where kv [simp]: "kv = (k, v)" by (cases kv)
  obtain key where key: "py_key k = Some key" using Cons.prems(2) by auto
  have fresh: "Some key \<notin> (py_key \<circ> fst) ` set acc"
    using Cons.prems(4) key by auto
  have "reads_item (dict_item (unpack_obj d)) (plain k @ plain v) acc (acc @ [(canon k, canon v)])"
    unfolding reads_item_def
  proof (intro conjI allI)
    show "\<exists>b bs. plain k @ plain v = b # bs \<and> unat b \<noteq> 3" using Cons.prems(1) plain_head [of k] by auto
    fix rest table
    have "reads_as d k" "reads_as d v" using Cons.prems(1) by auto
    from reads_asE [OF this(1), of "plain v @ rest" table]
    obtain t1 where t1: "unpack_obj d (plain k @ plain v @ rest) table = Inr (canon k, plain v @ rest, t1)" .
    from reads_asE [OF \<open>reads_as d v\<close>, of rest t1]
    obtain t2 where "unpack_obj d (plain v @ rest) t1 = Inr (canon v, rest, t2)" .
    with t1 fresh show "\<exists>table'. dict_item (unpack_obj d) acc ((plain k @ plain v) @ rest) table
        = Inr (acc @ [(canon k, canon v)], rest, table')"
      by (simp add: dict_item_def dict_set_def key dict_put_fresh)
  qed
  moreover have "reads_items (dict_item (unpack_obj d)) (map (\<lambda>kv. plain (fst kv) @ plain (snd kv)) kvs)
      (acc @ [(canon k, canon v)])
      ((acc @ [(canon k, canon v)]) @ map (\<lambda>kv. (canon (fst kv), canon (snd kv))) kvs)"
    using Cons.prems by (intro Cons.IH) auto
  ultimately show ?case by auto
qed simp

lemma unpack_obj_plain: "opack_ok v \<Longrightarrow> levels v \<le> d \<Longrightarrow> reads_as d v"
proof (induction v arbitrary: d rule: opack_induct)
  case (scalar v)
  then obtain d' where d: "d = Suc d'" by (cases d) (auto simp: scalar_eqs)
  show ?case
    unfolding reads_as_def
    using unpack_scalar_step [OF reads_scalar] scalar by (simp add: d scalar_eqs)
next
  case (list xs)
  then obtain d' where d: "d = Suc d'" "\<forall>x \<in> set xs. levels x \<le> d'" by (cases d) simp_all
  with list have "\<forall>x \<in> set xs. reads_as d' x \<and> opack_ok x" by simp
  note loop = reads_items_loop [OF list_item_consumes [OF unpack_obj_progress] reads_list_items [OF this, of "[]"]]
  show ?case
  proof (rule reads_asI)
    show "\<exists>table'. unpack_obj d (plain (OList xs) @ rest) table = Inr (canon (OList xs), rest, table')"
      for rest table using loop [of rest table] by (auto simp: d unpack_container)
  qed
next
  case (dict kvs)
  then obtain d' where d: "d = Suc d'" "\<forall>x \<in> set (flat kvs). levels x \<le> d'" by (cases d) simp_all
  moreover have "\<forall>x \<in> set (flat kvs). opack_ok x" using dict.prems(1) by (simp add: set_flat)
  ultimately have "\<forall>x \<in> set (flat kvs). reads_as d' x \<and> opack_ok x" using dict.IH by blast
  with dict.prems have "reads_items (dict_item (unpack_obj d')) (map (\<lambda>kv. plain (fst kv) @ plain (snd kv)) kvs) []
     ([] @ map (\<lambda>kv. (canon (fst kv), canon (snd kv))) kvs)"
    by (intro reads_dict_items) simp_all
  note loop = reads_items_loop [OF dict_item_consumes [OF unpack_obj_progress] this]
  show ?case
  proof (rule reads_asI)
    show "\<exists>table'. unpack_obj d (plain (ODict kvs) @ rest) table = Inr (canon (ODict kvs), rest, table')"
      for rest table using loop [of rest table] by (auto simp: d unpack_container concat_flat)
  qed
qed

text \<open>The smallest negative integers are packed, to the bytes of other values.\<close>

lemma pack_negative_int:
  "opack_pack 1 (OInt (- 7) None) = opack_pack 1 (OBool True)"
  "opack_pack 1 (OInt (- 4) None) = opack_pack 1 ONone"
  by (simp_all add: opack_pack_def pack_obj.simps pack_int_def byte_lit_def pack_ref_def)

subsection \<open>Properties\<close>

text \<open>C33: A value whose multi-byte encodings are pairwise different packs to its reference encoding,
  and unpacking that encoding, whatever follows it, returns the value (sized integers carry their
  size) and leaves exactly what follows. The recursion budget needed is the nesting depth.\<close>

theorem opack_roundtrip:
  assumes "opack_ok v" and "distinct (entries v)" and "levels v \<le> d" and "levels v \<le> d'"
  shows "\<exists>bs. opack_pack d v = Inr bs \<and> opack_unpack d' (bs @ rest) = Inr (canon v, rest)"
proof -
  have "pack_obj d v [] = Inr (plain v, entries v)"
    using packs_asD [OF pack_obj_plain [OF assms(1,3)], of "[]"] assms(2) by (simp add: table_for_def)
  moreover obtain t where "unpack_obj d' (plain v @ rest) [] = Inr (canon v, rest, t)"
    using reads_asE [OF unpack_obj_plain [OF assms(1,4)]] by blast
  ultimately show ?thesis by (simp add: opack_pack_def opack_unpack_def)
qed

theorem opack_roundtrip_witness:
  "\<exists>bs. opack_pack 3 (ODict [(OStr ''_i'', OInt 500 None), (OInt 1 None, OList [ONone])]) = Inr bs \<and>
     opack_unpack 3 (bs @ [7]) = Inr (ODict [(OStr ''_i'', OInt 500 (Some 2)), (OInt 1 None, OList [ONone])], [7])"
proof -
  let ?v = "ODict [(OStr ''_i'', OInt 500 None), (OInt 1 None, OList [ONone])]"
  have "opack_ok ?v" by (simp add: int_size_def bytes_of_def)
  moreover have "distinct (entries ?v)"
    by (simp add: own_entry_def pack_int_def pack_str_def to_bytes_le_def byte_lit_def byte_simps
        bytes_of_def container_head_def container_tail_def)
  moreover have "levels ?v \<le> 3" by (simp add: levels.simps del: levels_le)
  moreover have "canon ?v = ODict [(OStr ''_i'', OInt 500 (Some 2)), (OInt 1 None, OList [ONone])]"
    by (simp add: int_size_def)
  ultimately show ?thesis using opack_roundtrip [of ?v 3 3 "[7]"] by simp
qed

text \<open>C32: Whatever bytes arrive, the unpacker ends: it returns a value and a strictly shorter rest,
  or it raises one of the decoding errors (an index out of range, an unknown opcode or an unhashable
  key, a short UUID or float, invalid UTF-8, or too deep a nesting).\<close>

theorem opack_unpack_total:
  "case opack_unpack depth bs of
     Inr (v, rest) \<Rightarrow> length rest < length bs
   | Inl e \<Rightarrow> e \<in> decode_errors"
  using consumesD [OF unpack_obj_progress, of depth bs "[]"] fails_wellD [OF unpack_obj_fails, of depth bs "[]"]
  by (cases "unpack_obj depth bs []") (auto simp: opack_unpack_def)

text \<open>The packer's table and the unpacker's disagree on two kinds of object, so a repeated object
  after one of them comes back wrong: the unpacker counts an empty string, which the packer does not
  (the list of the empty string and twice ''ab'' comes back with an empty third element), and the
  packer counts a container, which the unpacker does not (the reference is out of range).\<close>

theorem opack_tables_disagree:
  "opack_pack 3 (OList [OStr '''', OStr ''ab'', OStr ''ab'']) = Inr [0xD3, 0x40, 0x42, 0x61, 0x62, 0xA0]
   \<and> opack_unpack 3 [0xD3, 0x40, 0x42, 0x61, 0x62, 0xA0] = Inr (OList [OStr '''', OStr ''ab'', OStr ''''], [])
   \<and> opack_pack 3 (OList [OList [OStr ''a''], OStr ''b'', OStr ''b''])
     = Inr [0xD3, 0xD1, 0x41, 0x61, 0x41, 0x62, 0xA2]
   \<and> opack_unpack 3 [0xD3, 0xD1, 0x41, 0x61, 0x41, 0x62, 0xA2] = Inl IndexError"
proof -
  have "opack_pack 3 (OList [OStr '''', OStr ''ab'', OStr ''ab'']) = Inr [0xD3, 0x40, 0x42, 0x61, 0x62, 0xA0]"
    by code_simp
  moreover have "opack_unpack 3 [0xD3, 0x40, 0x42, 0x61, 0x62, 0xA0]
      = Inr (OList [OStr '''', OStr ''ab'', OStr ''''], [])"
    by code_simp
  moreover have "opack_pack 3 (OList [OList [OStr ''a''], OStr ''b'', OStr ''b''])
     = Inr [0xD3, 0xD1, 0x41, 0x61, 0x41, 0x62, 0xA2]"
    by code_simp
  moreover have "opack_unpack 3 [0xD3, 0xD1, 0x41, 0x61, 0x41, 0x62, 0xA2] = Inl IndexError"
    by code_simp
  ultimately show ?thesis by blast
qed

end
