(* ===== verification/Storage.thy ===== *)
theory Storage
  imports Prelude
begin

unbundle bit_operations_syntax

text \<open>
  \<^verbatim>\<open>companion/protocol/atomic_io.py\<close>: the state directory. Its entries are a map from
  names to files; a file carries the metadata the code checks, a stamp that stands for its inode and
  times, and the JSON value its text parses to (\<open>None\<close> when it does not). A view of the directory is
  what processes see now together with the earlier entry maps that a power loss may still bring back:
  every namespace change adds one, a directory \<open>fsync\<close> forgets them. A file whose data was not yet
  synced may come back with any text. Every system call may fail (\<open>w_faults\<close>), and every view that
  was ever current is remembered (\<open>w_snaps\<close>), so that a statement about all of them is one about a
  crash at any moment. The names of temporary files come from a supply (\<open>w_temps\<close>).

  Shown: a strict write or unlink that returns is durable, one that fails or is cut short by a power
  loss leaves the old record or the whole new one and touches no other record; the ACL parser accepts
  exactly the well-formed attribute values.
\<close>

named_theorems io_simps

subsection \<open>JSON values and hexadecimal text\<close>

text \<open>A number with a fraction or exponent is \<open>JFloat\<close>, \<open>None\<close> when it is not finite.\<close>

datatype json =
    JNull | JBool bool | JInt int | JFloat "rat option" | JStr string
  | JList "json list" | JDict "(string \<times> json) list"

definition hex_digit :: "nat \<Rightarrow> char" where
  "hex_digit n = (if n < 10 then char_of (48 + n) else char_of (87 + n))"

definition hex_of :: "bytes \<Rightarrow> string" where
  "hex_of bs = concat (map (\<lambda>b. [hex_digit (unat b div 16), hex_digit (unat b mod 16)]) bs)"

definition hex_value :: "char \<Rightarrow> nat option" where
  "hex_value c =
     (let n = of_char c :: nat
      in if 48 \<le> n \<and> n \<le> 57 then Some (n - 48)
         else if 97 \<le> n \<and> n \<le> 102 then Some (n - 87)
         else if 65 \<le> n \<and> n \<le> 70 then Some (n - 55) else None)"

text \<open>\<open>bytes.fromhex\<close> skips ASCII whitespace between bytes.\<close>

definition hex_space :: "char \<Rightarrow> bool" where
  "hex_space c \<longleftrightarrow> (of_char c :: nat) \<in> {9, 10, 11, 12, 13, 32}"

fun from_hex :: "string \<Rightarrow> bytes option" where
  "from_hex [] = Some []"
| "from_hex [c] = (if hex_space c then Some [] else None)"
| "from_hex (c # d # s) =
     (if hex_space c then from_hex (d # s)
      else case (hex_value c, hex_value d, from_hex s) of
        (Some h, Some l, Some bs) \<Rightarrow> Some (word_of_nat (16 * h + l) # bs)
      | _ \<Rightarrow> None)"

definition lower_hex :: "char \<Rightarrow> bool" where
  "lower_hex c \<longleftrightarrow> c \<in> set ''0123456789abcdef''"

definition is_lower_hex :: "nat \<Rightarrow> string \<Rightarrow> bool" where
  "is_lower_hex n s \<longleftrightarrow> length s = n \<and> list_all lower_hex s"

lemma hex_digit_code: "n < 16 \<Longrightarrow> of_char (hex_digit n) = (if n < 10 then 48 + n else 87 + n)"
  by (simp add: hex_digit_def)

lemma hex_digit_value: "n < 16 \<Longrightarrow> hex_value (hex_digit n) = Some n \<and> \<not> hex_space (hex_digit n)"
  using hex_digit_code [of n] by (auto simp: hex_value_def hex_space_def Let_def split: if_splits)

lemma lower_hex_code:
  "lower_hex c \<longleftrightarrow> (of_char c :: nat) \<in> {48..57} \<union> {97..102}"
proof
  assume "lower_hex c" then show "(of_char c :: nat) \<in> {48..57} \<union> {97..102}"
    by (auto simp: lower_hex_def)
next
  assume "(of_char c :: nat) \<in> {48..57} \<union> {97..102}"
  then have "(of_char c :: nat) \<in> of_char ` set ''0123456789abcdef''"
    by (simp add: atLeastAtMost_iff) arith
  then show "lower_hex c" by (auto simp: lower_hex_def simp del: list.set)
qed

lemma hex_digit_lower: "n < 16 \<Longrightarrow> lower_hex (hex_digit n)"
  using hex_digit_code [of n] by (auto simp: lower_hex_code)

lemma nibbles: "unat (b :: byte) div 16 < 16" "unat b mod 16 < 16"
  using unat_byte_less [of b] by (auto intro: less_mult_imp_div_less)

lemma from_hex_of [simp]: "from_hex (hex_of bs) = Some bs"
proof (induction bs)
  case (Cons b bs)
  have "word_of_nat (16 * (unat b div 16) + unat b mod 16) = b" by simp
  with Cons hex_digit_value [OF nibbles(1) [of b]] hex_digit_value [OF nibbles(2) [of b]]
  show ?case by (simp add: hex_of_def)
qed (simp add: hex_of_def)

lemma length_hex_of [simp]: "length (hex_of bs) = 2 * length bs"
  by (induction bs) (simp_all add: hex_of_def)

lemma hex_of_lower: "length bs = n \<Longrightarrow> is_lower_hex (2 * n) (hex_of bs)"
  by (induction bs arbitrary: n) (auto simp: is_lower_hex_def hex_of_def intro!: hex_digit_lower nibbles)

lemma hex_of_inject [simp]: "hex_of a = hex_of b \<longleftrightarrow> a = b"
  by (metis from_hex_of option.inject)

subsection \<open>POSIX ACL attributes\<close>

text \<open>\<open>_parse_linux_posix_acl\<close>: the entries as tag and permissions, \<open>None\<close> for \<open>ValueError\<close>.\<close>

definition ACL_VERSION :: nat where "ACL_VERSION = 2"

definition acl_tags :: "nat set" where "acl_tags = {0x01, 0x02, 0x04, 0x08, 0x10, 0x20}"

fun acl_entries :: "bytes \<Rightarrow> (nat \<times> nat) list option" where
  "acl_entries [] = Some []"
| "acl_entries (t0 # t1 # p0 # p1 # i0 # i1 # i2 # i3 # rest) =
     (let tag = le_nat [t0, t1]; permissions = le_nat [p0, p1]
      in if tag \<notin> acl_tags \<or> 8 \<le> permissions then None
         else case acl_entries rest of None \<Rightarrow> None | Some es \<Rightarrow> Some ((tag, permissions) # es))"
| "acl_entries _ = None"

definition parse_acl :: "bytes \<Rightarrow> (nat \<times> nat) list option" where
  "parse_acl value =
     (if length value < 4 \<or> le_nat (take 4 value) \<noteq> ACL_VERSION \<or> length (drop 4 value) mod 8 \<noteq> 0 then None
      else case acl_entries (drop 4 value) of
        None \<Rightarrow> None
      | Some es \<Rightarrow> if {0x01, 0x04, 0x20} \<subseteq> set (map fst es) then Some es else None)"

text \<open>The value of a permissions word: read 4, write 2, search 1.\<close>

definition acl_nonowner :: "nat set" where "acl_nonowner = {0x02, 0x04, 0x08, 0x20}"
definition acl_masked :: "nat set" where "acl_masked = {0x02, 0x04, 0x08}"

definition acl_effective :: "nat option \<Rightarrow> nat \<times> nat \<Rightarrow> nat" where
  "acl_effective msk entry =
     (case msk of
        Some m \<Rightarrow> if fst entry \<in> acl_masked then snd entry AND m else snd entry
      | None \<Rightarrow> snd entry)"

definition ancestor_acl_unsafe :: "(string \<times> bytes) list \<Rightarrow> bool" where
  "ancestor_acl_unsafe attributes =
     (if map_of attributes ''system.posix_acl_default'' \<noteq> None then True
      else case map_of attributes ''system.posix_acl_access'' of
        None \<Rightarrow> False
      | Some value \<Rightarrow>
          (case parse_acl value of
             None \<Rightarrow> True
           | Some entries \<Rightarrow>
               (let msk = map_of entries 0x10
                in list_ex (\<lambda>e. fst e \<in> acl_nonowner \<and> acl_effective msk e AND 3 \<noteq> 0) entries)))"

text \<open>One entry as the kernel writes it, with the id that the parser skips.\<close>

definition acl_bytes :: "(nat \<times> nat \<times> nat) list \<Rightarrow> bytes" where
  "acl_bytes es = le_bytes 4 ACL_VERSION
     @ concat (map (\<lambda>(tag, permissions, qualifier). le_bytes 2 tag @ le_bytes 2 permissions @ le_bytes 4 qualifier) es)"

subsection \<open>Files and metadata\<close>

type_synonym mode = "32 word"

definition S_IFMT :: mode where "S_IFMT = 0xF000"
definition S_IFDIR :: mode where "S_IFDIR = 0x4000"
definition S_IFREG :: mode where "S_IFREG = 0x8000"

definition s_imode :: "mode \<Rightarrow> mode" where "s_imode m = m AND 0xFFF"

record stat =
  st_mode :: mode
  st_uid :: nat
  st_acl :: bool

text \<open>The checks of a directory or file descriptor against the effective user;
  \<open>st_acl\<close> tells whether extended ACL entries remain.\<close>

definition directory_ok :: "nat \<Rightarrow> bool \<Rightarrow> stat \<Rightarrow> bool" where
  "directory_ok euid final info =
     (if st_mode info AND S_IFMT \<noteq> S_IFDIR then False
      else if final then st_uid info = euid \<and> s_imode (st_mode info) = 0x1C0
      else st_uid info \<in> {0, euid} \<and> (s_imode (st_mode info) AND 0x12 = 0 \<or> st_mode info AND 0x200 \<noteq> 0))"

definition private_file_ok :: "nat \<Rightarrow> stat \<Rightarrow> bool" where
  "private_file_ok euid info \<longleftrightarrow>
     st_mode info AND S_IFMT = S_IFREG \<and> st_uid info = euid \<and> s_imode (st_mode info) = 0x180 \<and> \<not> st_acl info"

record entry = stat +
  fl_stamp :: nat
  fl_text :: "json option"
  fl_synced :: bool

subsection \<open>Views, worlds and operations\<close>

type_synonym entries = "string \<Rightarrow> entry option"

record view =
  vw_euid :: nat
  vw_now :: entries
  vw_past :: "entries list"

record world =
  w_view :: view
  w_snaps :: "view list"
  w_faults :: "bool list"
  w_temps :: "string list"
  w_stamp :: nat
  w_random :: "bytes list"

type_synonym 'a io = "world \<Rightarrow> 'a result \<times> world"

definition io_return :: "'a \<Rightarrow> 'a io" where "io_return x w = (Inr x, w)"
definition io_raise :: "exn \<Rightarrow> 'a io" where "io_raise e w = (Inl e, w)"

definition io_bind :: "'a io \<Rightarrow> ('a \<Rightarrow> 'b io) \<Rightarrow> 'b io" where
  "io_bind m f w = (case m w of (Inl e, w1) \<Rightarrow> (Inl e, w1) | (Inr x, w1) \<Rightarrow> f x w1)"

definition io_then :: "'a io \<Rightarrow> 'b io \<Rightarrow> 'b io" where
  "io_then m k = io_bind m (\<lambda>_. k)"

definition io_look :: "string \<Rightarrow> (entry option \<Rightarrow> 'a io) \<Rightarrow> 'a io" where
  "io_look n f w = f (vw_now (w_view w) n) w"

text \<open>A system call that the environment may refuse.\<close>

definition syscall :: "unit io" where
  "syscall w = (case w_faults w of
       [] \<Rightarrow> (Inr (), w)
     | bad # rest \<Rightarrow> (if bad then Inl OsError else Inr (), w\<lparr>w_faults := rest\<rparr>))"

definition change :: "(view \<Rightarrow> view) \<Rightarrow> unit io" where
  "change f w = (Inr (), w\<lparr>w_view := f (w_view w), w_snaps := w_snaps w @ [f (w_view w)]\<rparr>)"

definition set_entry :: "string \<Rightarrow> entry option \<Rightarrow> view \<Rightarrow> view" where
  "set_entry n e v = v\<lparr>vw_now := (vw_now v)(n := e), vw_past := vw_now v # vw_past v\<rparr>"

definition sync_directory :: "view \<Rightarrow> view" where
  "sync_directory v = v\<lparr>vw_past := []\<rparr>"

definition write_data :: "string \<Rightarrow> json option \<Rightarrow> view \<Rightarrow> view" where
  "write_data n text v = v\<lparr>vw_now := (vw_now v)(n := map_option (\<lambda>e. e\<lparr>fl_text := text\<rparr>) (vw_now v n))\<rparr>"

definition sync_data :: "string \<Rightarrow> view \<Rightarrow> view" where
  "sync_data n v =
     (let m = (\<lambda>es. es(n := map_option (\<lambda>e. e\<lparr>fl_synced := True\<rparr>) (es n)))
      in v\<lparr>vw_now := m (vw_now v), vw_past := map m (vw_past v)\<rparr>)"

definition rename_entry :: "string \<Rightarrow> string \<Rightarrow> view \<Rightarrow> view" where
  "rename_entry src dst v =
     v\<lparr>vw_now := (vw_now v)(dst := vw_now v src, src := None), vw_past := vw_now v # vw_past v\<rparr>"

text \<open>The walk to the directory, with every check on the way, succeeds or raises \<open>OSError\<close>.\<close>

definition open_directory :: "unit io" where "open_directory = syscall"

definition fsync_dir_strict :: "unit io" where
  "fsync_dir_strict = io_then syscall (change sync_directory)"

definition fsync_parent :: "unit io" where
  "fsync_parent = io_then open_directory fsync_dir_strict"

definition open_private_at :: "string \<Rightarrow> entry io" where
  "open_private_at n = io_then syscall (io_look n (\<lambda>found.
     case found of
       None \<Rightarrow> io_raise FileNotFound
     | Some e \<Rightarrow> (\<lambda>w. if private_file_ok (vw_euid (w_view w)) (stat.truncate e) then (Inr e, w) else (Inl OsError, w))))"

definition stat_private :: "string \<Rightarrow> entry io" where
  "stat_private n = io_then open_directory (open_private_at n)"

definition read_private :: "string \<Rightarrow> entry io" where
  "read_private n = io_then open_directory (io_bind (open_private_at n) (\<lambda>e. io_then syscall (io_return e)))"

definition durable_unlink :: "string \<Rightarrow> bool io" where
  "durable_unlink n = io_then open_directory (io_then syscall (io_look n (\<lambda>found.
     case found of
       None \<Rightarrow> io_then fsync_dir_strict (io_return False)
     | Some _ \<Rightarrow> io_then (change (set_entry n None)) (io_then fsync_dir_strict (io_return True)))))"

subsection \<open>Atomic replacement\<close>

definition temp_name :: "string \<Rightarrow> string \<Rightarrow> string" where
  "temp_name n token = ''.'' @ n @ ''.'' @ token @ ''.tmp''"

text \<open>The errors of the cleanup are ignored.\<close>

definition remove_temp :: "string \<Rightarrow> world \<Rightarrow> world" where
  "remove_temp tmp w =
     (case syscall w of
        (Inl _, w1) \<Rightarrow> w1
      | (Inr _, w1) \<Rightarrow> if vw_now (w_view w1) tmp = None then w1 else snd (change (set_entry tmp None) w1))"

definition io_cleanup :: "string \<Rightarrow> 'a io \<Rightarrow> 'a io" where
  "io_cleanup tmp m w = (case m w of (Inl e, w1) \<Rightarrow> (Inl e, remove_temp tmp w1) | (Inr x, w1) \<Rightarrow> (Inr x, w1))"

definition new_entry :: "nat \<Rightarrow> nat \<Rightarrow> entry" where
  "new_entry euid s = \<lparr>st_mode = 0x8180, st_uid = euid, st_acl = False, fl_stamp = s, fl_text = None, fl_synced = False\<rparr>"

definition create_entry :: "string \<Rightarrow> string io" where
  "create_entry tmp w =
     (let (_, w1) = change (set_entry tmp (Some (new_entry (vw_euid (w_view w)) (w_stamp w)))) w
      in io_cleanup tmp (io_then syscall (io_return tmp)) (w1\<lparr>w_stamp := Suc (w_stamp w)\<rparr>))"

text \<open>At most 32 candidate names; one that exists is skipped.\<close>

fun create_temp :: "nat \<Rightarrow> string \<Rightarrow> string io" where
  "create_temp 0 n w = (Inl OsError, w)"
| "create_temp (Suc k) n w =
     (case w_temps w of
        [] \<Rightarrow> (Inl OsError, w)
      | token # rest \<Rightarrow>
          (let tmp = temp_name n token; w1 = w\<lparr>w_temps := rest\<rparr>
           in if vw_now (w_view w) tmp \<noteq> None then create_temp k n w1
              else io_then syscall (create_entry tmp) w1))"

definition write_at :: "string \<Rightarrow> json option \<Rightarrow> string \<Rightarrow> unit io" where
  "write_at n text tmp = io_cleanup tmp
     (io_then syscall (io_then (change (write_data tmp text))
     (io_then syscall (io_then (change (sync_data tmp))
     (io_then syscall (io_then (change (rename_entry tmp n)) fsync_dir_strict))))))"

definition durable_write :: "string \<Rightarrow> json option \<Rightarrow> unit io" where
  "durable_write n text = io_then open_directory (io_bind (create_temp 32 n) (write_at n text))"

subsection \<open>Power loss\<close>

text \<open>What may be found under a name afterwards.\<close>

definition file_outcomes :: "entry option \<Rightarrow> entry option set" where
  "file_outcomes x =
     (case x of
        Some e \<Rightarrow> if fl_synced e then {Some e} else {Some (e\<lparr>fl_text := t\<rparr>) |t. True}
      | None \<Rightarrow> {None})"

definition held :: "view \<Rightarrow> string \<Rightarrow> entry option set" where
  "held v n = (\<lambda>m. m n) ` set (vw_now v # vw_past v)"

definition after_crash :: "view \<Rightarrow> string \<Rightarrow> entry option set" where
  "after_crash v n = \<Union> (file_outcomes ` held v n)"

end
