(* ===== verification/Durability.thy ===== *)
theory Durability
  imports Storage
begin

text \<open>
  What the operations of \<^verbatim>\<open>atomic_io.py\<close> guarantee, in a small logic of operations on the
  state directory (\<open>safely\<close>) and, for a single record, as an interface: a locale whose
  law is that an operation that returned fixes what can be found after a power loss, with the
  consequence, drawn once, that nothing older ever comes back.
\<close>

subsection \<open>Reasoning about operations\<close>

text \<open>\<open>safely S P m Q\<close>: from a view with \<open>P\<close>, every view that becomes current while \<open>m\<close>
  runs satisfies \<open>S\<close>, and its result and last view satisfy \<open>Q\<close>.\<close>

definition safely :: "(view \<Rightarrow> bool) \<Rightarrow> (view \<Rightarrow> bool) \<Rightarrow> 'a io \<Rightarrow> ('a result \<Rightarrow> view \<Rightarrow> bool) \<Rightarrow> bool" where
  "safely S P m Q \<longleftrightarrow> (\<forall>w r w'. P (w_view w) \<longrightarrow> m w = (r, w') \<longrightarrow>
     (\<exists>new. w_snaps w' = w_snaps w @ new \<and> list_all S new) \<and> Q r (w_view w'))"

lemma safelyI:
  assumes "\<And>w r w'. P (w_view w) \<Longrightarrow> m w = (r, w') \<Longrightarrow>
    (\<exists>new. w_snaps w' = w_snaps w @ new \<and> list_all S new) \<and> Q r (w_view w')"
  shows "safely S P m Q"
  using assms by (auto simp: safely_def)

lemma safelyD:
  assumes "safely S P m Q" "P (w_view w)" "m w = (r, w')"
  obtains new where "w_snaps w' = w_snaps w @ new" "list_all S new" "Q r (w_view w')"
  using assms unfolding safely_def by blast

lemma safely_conseq:
  assumes "safely S P m Q" "\<And>v. P' v \<Longrightarrow> P v" "\<And>r v. Q r v \<Longrightarrow> Q' r v" "\<And>v. S v \<Longrightarrow> S' v"
  shows "safely S' P' m Q'"
proof (rule safelyI)
  fix w r w' assume "P' (w_view w)" "m w = (r, w')"
  then obtain new where "w_snaps w' = w_snaps w @ new" "list_all S new" "Q r (w_view w')"
    using safelyD [OF assms(1)] assms(2) by metis
  then show "(\<exists>new. w_snaps w' = w_snaps w @ new \<and> list_all S' new) \<and> Q' r (w_view w')"
    using assms(3,4) by (auto intro: list.pred_mono_strong)
qed

lemma safely_return: "(\<And>v. P v \<Longrightarrow> Q (Inr x) v) \<Longrightarrow> safely S P (io_return x) Q"
  by (rule safelyI) (auto simp: io_return_def)

lemma safely_raise: "(\<And>v. P v \<Longrightarrow> Q (Inl e) v) \<Longrightarrow> safely S P (io_raise e) Q"
  by (rule safelyI) (auto simp: io_raise_def)

lemma safely_syscall: "(\<And>v. P v \<Longrightarrow> Q (Inr ()) v \<and> Q (Inl OsError) v) \<Longrightarrow> safely S P syscall Q"
  by (rule safelyI) (auto simp: syscall_def split: list.splits if_splits)

lemma safely_change: "(\<And>v. P v \<Longrightarrow> S (f v) \<and> Q (Inr ()) (f v)) \<Longrightarrow> safely S P (change f) Q"
  by (rule safelyI) (auto simp: change_def)

lemma safely_bind:
  assumes "safely S P m R" "\<And>x. safely S (R (Inr x)) (f x) Q" "\<And>e v. R (Inl e) v \<Longrightarrow> Q (Inl e) v"
  shows "safely S P (io_bind m f) Q"
proof (rule safelyI)
  fix w r w' assume pre: "P (w_view w)" and run: "io_bind m f w = (r, w')"
  obtain r1 w1 where m: "m w = (r1, w1)" by fastforce
  obtain new1 where new1: "w_snaps w1 = w_snaps w @ new1" "list_all S new1" "R r1 (w_view w1)"
    using safelyD [OF assms(1) pre m] by metis
  show "(\<exists>new. w_snaps w' = w_snaps w @ new \<and> list_all S new) \<and> Q r (w_view w')"
  proof (cases r1)
    case (Inl e)
    then show ?thesis using run m new1 assms(3) by (auto simp: io_bind_def)
  next
    case (Inr x)
    then have "f x w1 = (r, w')" using run m by (simp add: io_bind_def)
    then obtain new2 where "w_snaps w' = w_snaps w1 @ new2" "list_all S new2" "Q r (w_view w')"
      using safelyD [OF assms(2), of x w1 r w'] new1(3) Inr by metis
    then show ?thesis using new1 by auto
  qed
qed

text \<open>Steps in front of an operation: a system call that changes nothing, a change.\<close>

lemma safely_after_syscall:
  assumes "safely S P k Q" "\<And>v. P v \<Longrightarrow> Q (Inl OsError) v"
  shows "safely S P (io_then syscall k) Q"
  unfolding io_then_def
proof (rule safely_bind [where R = "\<lambda>r v. P v \<and> (\<forall>e. r = Inl e \<longrightarrow> e = OsError)"])
  show "safely S P syscall (\<lambda>r v. P v \<and> (\<forall>e. r = Inl e \<longrightarrow> e = OsError))"
    by (rule safely_syscall) simp
  show "safely S (\<lambda>v. P v \<and> (\<forall>e. (Inr x :: unit result) = Inl e \<longrightarrow> e = OsError)) k Q" for x
    by (rule safely_conseq [OF assms(1)]) simp_all
qed (use assms(2) in simp)

lemma safely_after_change:
  assumes "safely S P' k Q" "\<And>v. P v \<Longrightarrow> S (f v) \<and> P' (f v)"
  shows "safely S P (io_then (change f) k) Q"
  unfolding io_then_def
proof (rule safely_bind [where R = "\<lambda>r v. P' v \<and> r = Inr ()"])
  show "safely S P (change f) (\<lambda>r v. P' v \<and> r = Inr ())" by (rule safely_change) (simp add: assms(2))
  show "safely S (\<lambda>v. P' v \<and> Inr x = Inr ()) k Q" for x :: unit
    by (rule safely_conseq [OF assms(1)]) simp_all
qed simp

lemma safely_fsync:
  "(\<And>v. P v \<Longrightarrow> Q (Inl OsError) v \<and> S (sync_directory v) \<and> Q (Inr ()) (sync_directory v)) \<Longrightarrow>
     safely S P fsync_dir_strict Q"
  unfolding fsync_dir_strict_def by (rule safely_after_syscall) (auto intro: safely_change)

lemma safely_fsync_return:
  assumes "\<And>v. P v \<Longrightarrow> Q (Inl OsError) v \<and> S (sync_directory v) \<and> Q (Inr x) (sync_directory v)"
  shows "safely S P (io_then fsync_dir_strict (io_return x)) Q"
  unfolding io_then_def
proof (rule safely_bind [where R = "\<lambda>r v. case r of Inl e \<Rightarrow> Q (Inl e) v | Inr _ \<Rightarrow> Q (Inr x) v"])
  show "safely S P fsync_dir_strict (\<lambda>r v. case r of Inl e \<Rightarrow> Q (Inl e) v | Inr _ \<Rightarrow> Q (Inr x) v)"
    by (rule safely_fsync) (simp add: assms)
qed (auto intro: safely_return)

lemma safely_look:
  assumes "\<And>v. safely S (\<lambda>u. P u \<and> u = v) (f (vw_now v n)) Q"
  shows "safely S P (io_look n f) Q"
proof (rule safelyI)
  fix w r w' assume pre: "P (w_view w)" and run: "io_look n f w = (r, w')"
  have "f (vw_now (w_view w) n) w = (r, w')" using run by (simp add: io_look_def)
  from safelyD [OF assms [of "w_view w"] _ this] pre
  show "(\<exists>new. w_snaps w' = w_snaps w @ new \<and> list_all S new) \<and> Q r (w_view w')" by blast
qed

lemma safely_cleanup:
  assumes "safely S P m R" "\<And>x v. R (Inr x) v \<Longrightarrow> Q (Inr x) v"
    and "\<And>e v. R (Inl e) v \<Longrightarrow> Q (Inl e) v \<and> S (set_entry tmp None v) \<and> Q (Inl e) (set_entry tmp None v)"
  shows "safely S P (io_cleanup tmp m) Q"
proof (rule safelyI)
  fix w r w' assume pre: "P (w_view w)" and run: "io_cleanup tmp m w = (r, w')"
  obtain r1 w1 where m: "m w = (r1, w1)" by fastforce
  obtain new1 where new1: "w_snaps w1 = w_snaps w @ new1" "list_all S new1" "R r1 (w_view w1)"
    using safelyD [OF assms(1) pre m] by metis
  show "(\<exists>new. w_snaps w' = w_snaps w @ new \<and> list_all S new) \<and> Q r (w_view w')"
  proof (cases r1)
    case (Inr x)
    then show ?thesis using run m new1 assms(2) by (auto simp: io_cleanup_def)
  next
    case (Inl e)
    then have "r = Inl e" "w' = remove_temp tmp w1" using run m by (auto simp: io_cleanup_def)
    moreover have "w_snaps (remove_temp tmp w1) = w_snaps w1 \<and> w_view (remove_temp tmp w1) = w_view w1
        \<or> w_snaps (remove_temp tmp w1) = w_snaps w1 @ [set_entry tmp None (w_view w1)]
          \<and> w_view (remove_temp tmp w1) = set_entry tmp None (w_view w1)"
      by (auto simp: remove_temp_def syscall_def change_def split: list.split)
    ultimately show ?thesis using new1 Inl assms(3) [of e "w_view w1"] by auto
  qed
qed

subsection \<open>What strict operations do to the records\<close>

definition record_name :: "string \<Rightarrow> bool" where
  "record_name n \<longleftrightarrow> n \<noteq> [] \<and> hd n \<noteq> CHR ''.''"

text \<open>Relative to a starting view, only the record \<open>n\<close> may have gained an entry of \<open>E\<close>.\<close>

definition at_most :: "view \<Rightarrow> string \<Rightarrow> entry option set \<Rightarrow> view \<Rightarrow> bool" where
  "at_most v0 n E v \<longleftrightarrow> vw_euid v = vw_euid v0 \<and>
     (\<forall>m. record_name m \<longrightarrow> held v m \<subseteq> held v0 m \<union> (if m = n then E else {}))"

definition written :: "nat \<Rightarrow> json option \<Rightarrow> entry \<Rightarrow> bool" where
  "written euid text e \<longleftrightarrow> fl_text e = text \<and> fl_synced e \<and> private_file_ok euid (stat.truncate e)"

lemma held_set: "held (set_entry n e v) m = (if m = n then insert e (held v m) else held v m)"
  by (auto simp: held_def set_entry_def)

lemma held_sync: "held (sync_directory v) m = {vw_now v m}"
  by (simp add: held_def sync_directory_def)

lemma held_now: "vw_now v m \<in> held v m"
  by (simp add: held_def)

lemma temp_not_record: "record_name m \<Longrightarrow> m \<noteq> temp_name n token"
  by (auto simp: record_name_def temp_name_def)

lemma view_sync: "sync_directory (set_entry n e v) = v\<lparr>vw_now := (vw_now v)(n := e), vw_past := []\<rparr>"
  by (simp add: sync_directory_def set_entry_def)

lemma at_most_refl [simp]: "at_most v0 n E v0"
  by (simp add: at_most_def)

lemma set_euid [simp]: "vw_euid (set_entry n e v) = vw_euid v" "vw_euid (sync_directory v) = vw_euid v"
  by (simp_all add: set_entry_def sync_directory_def)

lemma at_most_sync: "at_most v0 n E v \<Longrightarrow> at_most v0 n E (sync_directory v)"
  using held_now by (fastforce simp: at_most_def held_sync)

lemma at_most_set: "at_most v0 n E v \<Longrightarrow> e \<in> E \<Longrightarrow> at_most v0 n E (set_entry n e v)"
  by (auto simp: at_most_def held_set split: if_splits)

lemma unlink_safely:
  shows "safely (at_most v0 n {None}) (\<lambda>v. v = v0) (durable_unlink n)
    (\<lambda>r v. case r of
       Inr b \<Rightarrow> v = v0\<lparr>vw_now := (vw_now v0)(n := None), vw_past := []\<rparr> \<and> b = (vw_now v0 n \<noteq> None)
     | Inl e \<Rightarrow> e = OsError \<and> at_most v0 n {None} v)" (is "safely ?S _ _ ?Q")
  unfolding durable_unlink_def open_directory_def
proof (intro safely_after_syscall safely_look)
  fix v
  show "safely ?S (\<lambda>u. u = v0 \<and> u = v)
    (case vw_now v n of None \<Rightarrow> io_then fsync_dir_strict (io_return False)
      | Some _ \<Rightarrow> io_then (change (set_entry n None)) (io_then fsync_dir_strict (io_return True))) ?Q"
  proof (cases "vw_now v n")
    case None
    then have "v0\<lparr>vw_now := (vw_now v0)(n := None)\<rparr> = v0" if "v = v0"
      using that by (auto simp: fun_upd_idem)
    with None show ?thesis
      by (auto intro!: safely_fsync_return at_most_sync simp: sync_directory_def)
  next
    case (Some e)
    then show ?thesis
      by (auto intro!: safely_after_change [where P' = "\<lambda>u. u = set_entry n None v0 \<and> v = v0"] safely_fsync_return
          at_most_set at_most_sync simp: view_sync)
  qed
qed simp_all

text \<open>Stages of a replacement: records as before, and a private temporary file.\<close>

definition staged :: "view \<Rightarrow> string \<Rightarrow> entry option set \<Rightarrow> view \<Rightarrow> bool" where
  "staged v0 n E v \<longleftrightarrow> at_most v0 n E v \<and> (\<forall>m. record_name m \<longrightarrow> vw_now v m = vw_now v0 m)"

definition has_temp :: "(entry \<Rightarrow> bool) \<Rightarrow> string \<Rightarrow> view \<Rightarrow> bool" where
  "has_temp C tmp v \<longleftrightarrow> \<not> record_name tmp \<and> (\<exists>e. vw_now v tmp = Some e \<and> C e)"

lemma staged_refl [simp]: "staged v0 n E v0"
  by (simp add: staged_def)

lemma staged_temp:
  "staged v0 n E v \<Longrightarrow> \<not> record_name tmp \<Longrightarrow> staged v0 n E (set_entry tmp e v)"
  by (auto simp: staged_def at_most_def held_set) (auto simp: set_entry_def)

lemma temp_name_temp [simp]: "\<not> record_name (temp_name n token)"
  by (simp add: record_name_def temp_name_def)

lemma staged_data:
  assumes "staged v0 n E v" "\<not> record_name tmp"
  shows "staged v0 n E (write_data tmp text v)" "staged v0 n E (sync_data tmp v)"
proof -
  have "held (write_data tmp text v) m = held v m" "held (sync_data tmp v) m = held v m" if "m \<noteq> tmp" for m
    using that by (auto simp: held_def write_data_def sync_data_def Let_def image_image)
  moreover have "m \<noteq> tmp" if "record_name m" for m using that assms(2) by blast
  ultimately show "staged v0 n E (write_data tmp text v)" "staged v0 n E (sync_data tmp v)"
    using assms by (auto simp: staged_def at_most_def write_data_def sync_data_def Let_def)
qed

lemma temp_data:
  assumes "has_temp (\<lambda>e. private_file_ok k (stat.truncate e)) tmp v"
  shows "has_temp (\<lambda>e. private_file_ok k (stat.truncate e) \<and> fl_text e = text) tmp (write_data tmp text v)"
  using assms by (auto simp: has_temp_def write_data_def stat.truncate_def)

lemma temp_sync:
  assumes "has_temp (\<lambda>e. private_file_ok k (stat.truncate e) \<and> fl_text e = text) tmp v"
  shows "has_temp (written k text) tmp (sync_data tmp v)"
  using assms by (auto simp: has_temp_def written_def sync_data_def stat.truncate_def Let_def)

lemma new_entry_private: "private_file_ok k (stat.truncate (new_entry k s))"
  by (simp add: private_file_ok_def new_entry_def stat.truncate_def S_IFMT_def S_IFREG_def s_imode_def)

text \<open>The record after the rename.\<close>

definition replaced :: "view \<Rightarrow> string \<Rightarrow> json option \<Rightarrow> view \<Rightarrow> bool" where
  "replaced v0 n text v \<longleftrightarrow> vw_euid v = vw_euid v0 \<and> (\<exists>e. written (vw_euid v0) text e
     \<and> (\<forall>m. record_name m \<longrightarrow> vw_now v m = (if m = n then Some e else vw_now v0 m)))"

abbreviation new_files :: "view \<Rightarrow> json option \<Rightarrow> entry option set" where
  "new_files v0 text \<equiv> Some ` {e. written (vw_euid v0) text e}"

lemma rename_replaces:
  assumes "staged v0 n (new_files v0 text) v" "has_temp (written (vw_euid v0) text) tmp v" "record_name n"
  shows "replaced v0 n text (rename_entry tmp n v)" "at_most v0 n (new_files v0 text) (rename_entry tmp n v)"
  using assms held_now
  by (force simp: staged_def has_temp_def replaced_def at_most_def rename_entry_def held_def)+

lemma create_entry_safely:
  assumes "\<not> record_name tmp"
  shows "safely (at_most v0 n E) (staged v0 n E) (create_entry tmp)
    (\<lambda>r v. staged v0 n E v \<and> (case r of Inl e \<Rightarrow> e = OsError
       | Inr t \<Rightarrow> t = tmp \<and> has_temp (\<lambda>e. private_file_ok (vw_euid v0) (stat.truncate e)) tmp v))"
proof (rule safelyI)
  fix w r w' assume pre: "staged v0 n E (w_view w)" and run: "create_entry tmp w = (r, w')"
  define v1 where "v1 = set_entry tmp (Some (new_entry (vw_euid (w_view w)) (w_stamp w))) (w_view w)"
  define w1 where "w1 = w\<lparr>w_view := v1, w_snaps := w_snaps w @ [v1], w_stamp := Suc (w_stamp w)\<rparr>"
  have run1: "io_cleanup tmp (io_then syscall (io_return tmp)) w1 = (r, w')"
    using run by (simp add: create_entry_def change_def w1_def v1_def)
  have v1: "staged v0 n E v1" unfolding v1_def by (rule staged_temp [OF pre assms])
  have euid: "vw_euid (w_view w) = vw_euid v0" using pre by (simp add: staged_def at_most_def)
  have temp: "has_temp (\<lambda>e. private_file_ok (vw_euid v0) (stat.truncate e)) tmp v1"
    using assms by (simp add: has_temp_def v1_def set_entry_def euid new_entry_private)
  have S: "at_most v0 n E v" if "staged v0 n E v" for v using that by (simp add: staged_def)
  have "safely (at_most v0 n E) (\<lambda>v. v = v1) (io_cleanup tmp (io_then syscall (io_return tmp)))
    (\<lambda>r v. staged v0 n E v \<and> (case r of Inl e \<Rightarrow> e = OsError
       | Inr t \<Rightarrow> t = tmp \<and> has_temp (\<lambda>e. private_file_ok (vw_euid v0) (stat.truncate e)) tmp v))"
    by (rule safely_cleanup [where R = "\<lambda>r v. v = v1 \<and> (case r of Inl e \<Rightarrow> e = OsError | Inr t \<Rightarrow> t = tmp)"])
      (auto intro!: safely_after_syscall safely_return staged_temp S simp: v1 temp assms)
  from safelyD [OF this _ run1] obtain new where "w_snaps w' = w_snaps w1 @ new" "list_all (at_most v0 n E) new"
    "staged v0 n E (w_view w')" "case r of Inl e \<Rightarrow> e = OsError
       | Inr t \<Rightarrow> t = tmp \<and> has_temp (\<lambda>e. private_file_ok (vw_euid v0) (stat.truncate e)) tmp (w_view w')"
    by (auto simp: w1_def)
  then show "(\<exists>new. w_snaps w' = w_snaps w @ new \<and> list_all (at_most v0 n E) new) \<and> staged v0 n E (w_view w')
    \<and> (case r of Inl e \<Rightarrow> e = OsError
       | Inr t \<Rightarrow> t = tmp \<and> has_temp (\<lambda>e. private_file_ok (vw_euid v0) (stat.truncate e)) tmp (w_view w'))"
    using S [OF v1] by (auto simp: w1_def)
qed

lemma create_temp_safely:
  "safely (at_most v0 n E) (staged v0 n E) (create_temp k n')
    (\<lambda>r v. staged v0 n E v \<and> (case r of Inl e \<Rightarrow> e = OsError
       | Inr tmp \<Rightarrow> has_temp (\<lambda>e. private_file_ok (vw_euid v0) (stat.truncate e)) tmp v))"
    (is "safely ?S ?P _ ?Q")
proof (induction k)
  case 0
  show ?case by (rule safelyI) (auto simp: staged_def)
next
  case (Suc k)
  show ?case
  proof (rule safelyI)
    fix w r w' assume pre: "?P (w_view w)" and run: "create_temp (Suc k) n' w = (r, w')"
    show "(\<exists>new. w_snaps w' = w_snaps w @ new \<and> list_all ?S new) \<and> ?Q r (w_view w')"
    proof (cases "w_temps w")
      case Nil
      then show ?thesis using run pre by auto
    next
      case (Cons token rest)
      let ?w1 = "w\<lparr>w_temps := rest\<rparr>"
      have made: "safely ?S ?P (io_then syscall (create_entry (temp_name n' token))) ?Q"
        by (rule safely_after_syscall)
          (auto intro: safely_conseq [OF create_entry_safely [OF temp_name_temp]] split: sum.splits)
      show ?thesis
      proof (cases "vw_now (w_view w) (temp_name n' token) = None")
        case True
        then have "io_then syscall (create_entry (temp_name n' token)) ?w1 = (r, w')" using run Cons by simp
        from safelyD [OF made _ this] pre show ?thesis by auto
      next
        case False
        then have "create_temp k n' ?w1 = (r, w')" using run Cons by simp
        from safelyD [OF Suc.IH _ this] pre show ?thesis by auto
      qed
    qed
  qed
qed

lemma write_at_safely:
  assumes "record_name n" "\<not> record_name tmp"
  shows "safely (at_most v0 n (new_files v0 text))
    (\<lambda>v. staged v0 n (new_files v0 text) v \<and> has_temp (\<lambda>e. private_file_ok (vw_euid v0) (stat.truncate e)) tmp v)
    (write_at n text tmp)
    (\<lambda>r v. at_most v0 n (new_files v0 text) v \<and> (case r of Inl e \<Rightarrow> e = OsError
       | Inr _ \<Rightarrow> replaced v0 n text v \<and> vw_past v = []))"
  (is "safely ?S ?P _ ?Q")
proof -
  let ?st = "staged v0 n (new_files v0 text)" and ?k = "vw_euid v0"
  have S: "?S v" if "?st v" for v using that by (simp add: staged_def)
  have temp: "?S (set_entry tmp None v)" if "?S v" for v
    using that assms(2) by (auto simp: at_most_def held_set)
  have sync: "?S (sync_directory v) \<and> replaced v0 n text (sync_directory v) \<and> vw_past (sync_directory v) = []"
    if "replaced v0 n text v" "?S v" for v
    using that at_most_sync [OF that(2)] by (auto simp: replaced_def sync_directory_def)
  let ?R = "\<lambda>r v. ?S v \<and> (case r of Inl e \<Rightarrow> e = OsError | Inr _ \<Rightarrow> replaced v0 n text v \<and> vw_past v = [])"
  have last: "safely ?S (\<lambda>v. replaced v0 n text v \<and> ?S v) fsync_dir_strict ?R"
    by (rule safely_fsync) (use sync in auto)
  have ren: "safely ?S (\<lambda>v. ?st v \<and> has_temp (written ?k text) tmp v)
      (io_then syscall (io_then (change (rename_entry tmp n)) fsync_dir_strict)) ?R"
    by (rule safely_after_syscall, rule safely_after_change [OF last])
      (use rename_replaces [OF _ _ assms(1)] S in auto)
  have fsy: "safely ?S (\<lambda>v. ?st v \<and> has_temp (\<lambda>e. private_file_ok ?k (stat.truncate e) \<and> fl_text e = text) tmp v)
      (io_then syscall (io_then (change (sync_data tmp))
       (io_then syscall (io_then (change (rename_entry tmp n)) fsync_dir_strict)))) ?R"
    by (rule safely_after_syscall, rule safely_after_change [OF ren])
      (use staged_data(2) [OF _ assms(2)] temp_sync S in auto)
  have wri: "safely ?S ?P
      (io_then syscall (io_then (change (write_data tmp text)) (io_then syscall (io_then (change (sync_data tmp))
       (io_then syscall (io_then (change (rename_entry tmp n)) fsync_dir_strict)))))) ?R"
    by (rule safely_after_syscall, rule safely_after_change [OF fsy])
      (use staged_data(1) [OF _ assms(2)] temp_data S in auto)
  show ?thesis
    unfolding write_at_def by (rule safely_cleanup [OF wri]) (use temp in auto)
qed

lemma write_safely:
  assumes "record_name n"
  shows "safely (at_most v0 n (new_files v0 text)) (\<lambda>v. v = v0) (durable_write n text)
    (\<lambda>r v. at_most v0 n (new_files v0 text) v \<and> (case r of Inl e \<Rightarrow> e = OsError
       | Inr _ \<Rightarrow> replaced v0 n text v \<and> vw_past v = []))"
  (is "safely ?S _ _ ?Q")
  unfolding durable_write_def open_directory_def
proof (rule safely_after_syscall, rule safely_bind [where R =
      "\<lambda>r v. staged v0 n (new_files v0 text) v \<and> (case r of Inl e \<Rightarrow> e = OsError
         | Inr tmp \<Rightarrow> has_temp (\<lambda>e. private_file_ok (vw_euid v0) (stat.truncate e)) tmp v)"])
  show "safely ?S (\<lambda>v. v = v0) (create_temp 32 n) (\<lambda>r v. staged v0 n (new_files v0 text) v \<and> (case r of Inl e \<Rightarrow> e = OsError
         | Inr tmp \<Rightarrow> has_temp (\<lambda>e. private_file_ok (vw_euid v0) (stat.truncate e)) tmp v))"
    by (rule safely_conseq [OF create_temp_safely]) auto
next
  fix tmp
  show "safely ?S (\<lambda>v. staged v0 n (new_files v0 text) v \<and> (case Inr tmp of Inl e \<Rightarrow> e = OsError
         | Inr tmp \<Rightarrow> has_temp (\<lambda>e. private_file_ok (vw_euid v0) (stat.truncate e)) tmp v)) (write_at n text tmp) ?Q"
  proof (cases "record_name tmp")
    case True
    then show ?thesis by (intro safelyI) (simp add: has_temp_def)
  next
    case False
    show ?thesis by (rule safely_conseq [OF write_at_safely [OF assms False]]) auto
  qed
qed (auto simp: staged_def)

subsection \<open>One record through any history of operations\<close>

text \<open>\<open>run_ops\<close> executes operations in order and records which of them returned.\<close>

fun run_ops :: "('op \<Rightarrow> 's \<Rightarrow> bool \<times> 's) \<Rightarrow> 'op list \<Rightarrow> 's \<Rightarrow> ('op \<times> bool) list \<times> 's" where
  "run_ops exec [] s = ([], s)"
| "run_ops exec (op # ops) s =
     (let (ok, s1) = exec op s; (done_ops, s2) = run_ops exec ops s1 in ((op, ok) # done_ops, s2))"

locale durable_record =
  fixes exec :: "'op \<Rightarrow> 's \<Rightarrow> bool \<times> 's"
    and found :: "'s \<Rightarrow> 'c set"
    and goal :: "'op \<Rightarrow> 'c"
  assumes commit: "exec op s = (True, s') \<Longrightarrow> found s' = {goal op}"
    and attempt: "exec op s = (ok, s') \<Longrightarrow> found s' \<subseteq> found s \<union> {goal op}"
begin

lemma run_found: "run_ops exec ops s = (done_ops, s') \<Longrightarrow> found s' \<subseteq> found s \<union> goal ` fst ` set done_ops"
proof (induction ops arbitrary: s done_ops)
  case (Cons op ops)
  obtain ok s1 where step: "exec op s = (ok, s1)" by fastforce
  then obtain done1 where "run_ops exec ops s1 = (done1, s')" "done_ops = (op, ok) # done1"
    using Cons.prems by (auto split: prod.splits)
  with Cons.IH [of s1 done1] attempt [OF step] show ?case by auto
qed simp

text \<open>What the last operation that returned has replaced cannot be found any more.\<close>

lemma committed_run:
  assumes "run_ops exec ops s = (done_ops, s')" "done_ops = pre @ (op, True) # post"
  shows "found s' \<subseteq> goal ` insert op (fst ` set post)"
  using assms
proof (induction ops arbitrary: s done_ops pre)
  case (Cons op1 ops)
  obtain ok s1 where step: "exec op1 s = (ok, s1)" by fastforce
  then obtain done1 where rest: "run_ops exec ops s1 = (done1, s')" "done_ops = (op1, ok) # done1"
    using Cons.prems(1) by (auto split: prod.splits)
  show ?case
  proof (cases pre)
    case Nil
    then have "op1 = op" "ok" "done1 = post" using rest(2) Cons.prems(2) by auto
    then show ?thesis using run_found [OF rest(1)] commit [of op1 s s1] step by auto
  next
    case (Cons x pre1)
    with rest(2) Cons.prems(2) have "done1 = pre1 @ (op, True) # post" by simp
    from Cons.IH [OF rest(1) this] show ?thesis .
  qed
qed simp

end

datatype record_op = PutRecord "json option" | DeleteRecord

fun record_goal :: "record_op \<Rightarrow> json option option" where
  "record_goal (PutRecord text) = Some text"
| "record_goal DeleteRecord = None"

definition record_exec :: "string \<Rightarrow> record_op \<Rightarrow> world \<Rightarrow> bool \<times> world" where
  "record_exec n op w =
     (case op of
        PutRecord text \<Rightarrow> (let (r, w1) = durable_write n text w in (returns r, w1))
      | DeleteRecord \<Rightarrow> (let (r, w1) = durable_unlink n w in (returns r, w1)))"

definition record_found :: "string \<Rightarrow> world \<Rightarrow> json option option set" where
  "record_found n w = map_option fl_text ` after_crash (w_view w) n"

lemma after_crash_at_most:
  assumes "at_most v0 n E v" "record_name m" "\<And>x. x \<in> E \<Longrightarrow> file_outcomes x = {x}"
  shows "after_crash v m \<subseteq> after_crash v0 m \<union> (if m = n then E else {})"
  using assms(1,2) assms(3) unfolding after_crash_def at_most_def by (fastforce split: if_splits)

lemma new_files_outcomes: "x \<in> new_files v0 text \<Longrightarrow> file_outcomes x = {x}"
  by (auto simp: file_outcomes_def written_def)

lemma crash_commit: "vw_past v = [] \<Longrightarrow> after_crash v m = file_outcomes (vw_now v m)"
  by (simp add: after_crash_def held_def)

lemma replaced_crash:
  "replaced v0 n text v \<Longrightarrow> vw_past v = [] \<Longrightarrow> record_name n \<Longrightarrow> map_option fl_text ` after_crash v n = {Some text}"
  by (auto simp: crash_commit replaced_def written_def file_outcomes_def)

lemma write_run:
  assumes "durable_write n text w = (r, w')" "record_name n"
  obtains new where "w_snaps w' = w_snaps w @ new"
    "list_all (at_most (w_view w) n (new_files (w_view w) text)) new"
    "at_most (w_view w) n (new_files (w_view w) text) (w_view w')"
    "r = Inl OsError \<or> r = Inr () \<and> replaced (w_view w) n text (w_view w') \<and> vw_past (w_view w') = []"
proof (rule safelyD [OF write_safely [OF assms(2)] refl assms(1)])
  fix new
  assume "w_snaps w' = w_snaps w @ new" "list_all (at_most (w_view w) n (new_files (w_view w) text)) new"
    and "at_most (w_view w) n (new_files (w_view w) text) (w_view w') \<and> (case r of Inl e \<Rightarrow> e = OsError
       | Inr _ \<Rightarrow> replaced (w_view w) n text (w_view w') \<and> vw_past (w_view w') = [])"
  then show thesis by (intro that) (auto split: sum.splits)
qed

lemma unlink_run:
  assumes "durable_unlink n w = (r, w')"
  obtains new where "w_snaps w' = w_snaps w @ new" "list_all (at_most (w_view w) n {None}) new"
    "r = Inl OsError \<and> at_most (w_view w) n {None} (w_view w')
     \<or> (\<exists>b. r = Inr b) \<and> w_view w' = (w_view w)\<lparr>vw_now := (vw_now (w_view w))(n := None), vw_past := []\<rparr>"
proof (rule safelyD [OF unlink_safely refl assms])
  fix new
  assume "w_snaps w' = w_snaps w @ new" "list_all (at_most (w_view w) n {None}) new"
    and "case r of
       Inr b \<Rightarrow> w_view w' = (w_view w)\<lparr>vw_now := (vw_now (w_view w))(n := None), vw_past := []\<rparr>
         \<and> b = (vw_now (w_view w) n \<noteq> None)
     | Inl e \<Rightarrow> e = OsError \<and> at_most (w_view w) n {None} (w_view w')"
  then show thesis by (intro that) (auto split: sum.splits)
qed

lemma record_exec_laws:
  assumes "record_name n" "record_exec n op w = (ok, w')"
  shows "record_found n w' \<subseteq> record_found n w \<union> {record_goal op} \<and> (ok \<longrightarrow> record_found n w' = {record_goal op})"
proof (cases op)
  case (PutRecord data)
  then obtain r where run: "durable_write n data w = (r, w')" "ok = returns r"
    using assms(2) by (auto simp: record_exec_def split: prod.splits)
  obtain new where *: "at_most (w_view w) n (new_files (w_view w) data) (w_view w')"
    "r = Inl OsError \<or> r = Inr () \<and> replaced (w_view w) n data (w_view w') \<and> vw_past (w_view w') = []"
    using write_run [OF run(1) assms(1)] by metis
  have "record_found n w' \<subseteq> record_found n w \<union> {Some data}"
    using after_crash_at_most [OF *(1) assms(1) new_files_outcomes]
    by (fastforce simp: record_found_def written_def)
  moreover have "record_found n w' = {Some data}" if ok
    using *(2) run(2) that replaced_crash [of "w_view w" n data "w_view w'"] assms(1)
    by (auto simp: record_found_def simp del: image_iff)
  ultimately show ?thesis using PutRecord by simp
next
  case DeleteRecord
  then obtain r where run: "durable_unlink n w = (r, w')" "ok = returns r"
    using assms(2) by (auto simp: record_exec_def split: prod.splits)
  obtain new where *: "r = Inl OsError \<and> at_most (w_view w) n {None} (w_view w')
     \<or> (\<exists>b. r = Inr b) \<and> w_view w' = (w_view w)\<lparr>vw_now := (vw_now (w_view w))(n := None), vw_past := []\<rparr>"
    using unlink_run [OF run(1)] by metis
  show ?thesis
  proof (cases r)
    case (Inl e)
    then have "at_most (w_view w) n {None} (w_view w')" using * by simp
    from after_crash_at_most [OF this assms(1)] have "record_found n w' \<subseteq> record_found n w \<union> {None}"
      by (fastforce simp: record_found_def file_outcomes_def)
    then show ?thesis using DeleteRecord run(2) Inl by simp
  next
    case (Inr b)
    then have "record_found n w' = {None}" using * by (auto simp: record_found_def crash_commit file_outcomes_def)
    then show ?thesis using DeleteRecord by simp
  qed
qed

text \<open>The three records and the fence all satisfy the interface.\<close>

definition PAIRED_CLIENTS :: string where "PAIRED_CLIENTS = ''paired-clients.json''"
definition PAIRING_WINDOW :: string where "PAIRING_WINDOW = ''pairing-window.json''"
definition SERVER_IDENTITY :: string where "SERVER_IDENTITY = ''server-identity.json''"
definition RESET_FENCE :: string where "RESET_FENCE = ''identity-reset-in-progress.json''"
definition LEGACY_FENCE :: string where "LEGACY_FENCE = ''pairing-clear-all-in-progress.json''"

lemmas record_names = PAIRED_CLIENTS_def PAIRING_WINDOW_def SERVER_IDENTITY_def RESET_FENCE_def LEGACY_FENCE_def

lemma record_names_ok [simp]:
  "record_name PAIRED_CLIENTS" "record_name PAIRING_WINDOW" "record_name SERVER_IDENTITY"
  "record_name RESET_FENCE" "record_name LEGACY_FENCE"
  by (simp_all add: record_names record_name_def)

interpretation clients_file: durable_record "record_exec PAIRED_CLIENTS" "record_found PAIRED_CLIENTS" record_goal
  by unfold_locales (use record_exec_laws [OF record_names_ok(1)] in blast)+

interpretation window_file: durable_record "record_exec PAIRING_WINDOW" "record_found PAIRING_WINDOW" record_goal
  by unfold_locales (use record_exec_laws [OF record_names_ok(2)] in blast)+

interpretation identity_file: durable_record "record_exec SERVER_IDENTITY" "record_found SERVER_IDENTITY" record_goal
  by unfold_locales (use record_exec_laws [OF record_names_ok(3)] in blast)+

subsection \<open>ACL values\<close>

fun acl_raw :: "bytes \<Rightarrow> (nat \<times> nat \<times> nat) list" where
  "acl_raw (t0 # t1 # p0 # p1 # i0 # i1 # i2 # i3 # rest) =
     (le_nat [t0, t1], le_nat [p0, p1], le_nat [i0, i1, i2, i3]) # acl_raw rest"
| "acl_raw _ = []"

definition acl_body :: "(nat \<times> nat \<times> nat) list \<Rightarrow> bytes" where
  "acl_body es = concat (map (\<lambda>(tag, permissions, qualifier). le_bytes 2 tag @ le_bytes 2 permissions @ le_bytes 4 qualifier) es)"

definition acl_entry_ok :: "nat \<times> nat \<times> nat \<Rightarrow> bool" where
  "acl_entry_ok e \<longleftrightarrow> (case e of (tag, permissions, qualifier) \<Rightarrow> tag \<in> acl_tags \<and> permissions < 8 \<and> qualifier < 256 ^ 4)"

definition acl_seen :: "(nat \<times> nat \<times> nat) list \<Rightarrow> (nat \<times> nat) list" where
  "acl_seen es = map (\<lambda>(tag, permissions, qualifier). (tag, permissions)) es"

lemma le_bytes_small: "le_bytes 2 (le_nat [a, b]) = [a, b]" "le_bytes 4 (le_nat [a, b, c, d]) = [a, b, c, d]"
  using le_bytes_le_nat [of "[a, b]"] le_bytes_le_nat [of "[a, b, c, d]"]
  by (simp_all add: numeral_eq_Suc del: le_bytes.simps le_nat.simps)

lemma acl_entries_raw:
  "acl_entries v = Some es \<Longrightarrow> v = acl_body (acl_raw v) \<and> es = acl_seen (acl_raw v) \<and> list_all acl_entry_ok (acl_raw v)"
proof (induction v arbitrary: es rule: acl_entries.induct)
  case (2 t0 t1 p0 p1 i0 i1 i2 i3 rest)
  have q: "le_nat [i0, i1, i2, i3] < 256 ^ 4" using le_nat_bound [of "[i0, i1, i2, i3]"] by simp
  from "2.prems" obtain es' where *: "le_nat [t0, t1] \<in> acl_tags" "le_nat [p0, p1] < 8"
    "acl_entries rest = Some es'" "es = (le_nat [t0, t1], le_nat [p0, p1]) # es'"
    by (auto simp: Let_def not_le simp del: le_nat.simps split: if_splits option.splits)
  from "2.IH" [OF refl refl _ *(3)] *(1,2)
  have IH: "rest = acl_body (acl_raw rest)" "es' = acl_seen (acl_raw rest)" "list_all acl_entry_ok (acl_raw rest)"
    by (auto simp del: le_nat.simps)
  have "acl_body (acl_raw (t0 # t1 # p0 # p1 # i0 # i1 # i2 # i3 # rest)) =
      t0 # t1 # p0 # p1 # i0 # i1 # i2 # i3 # acl_body (acl_raw rest)"
    unfolding acl_raw.simps acl_body_def by (simp add: le_bytes_small del: le_nat.simps le_bytes.simps)
  moreover have "acl_entry_ok (le_nat [t0, t1], le_nat [p0, p1], le_nat [i0, i1, i2, i3])"
    using * q by (simp add: acl_entry_ok_def del: le_nat.simps)
  ultimately show ?case using IH *(4) by (simp add: acl_seen_def del: le_nat.simps)
qed (simp_all add: acl_body_def acl_seen_def)

lemma list_two: "length xs = 2 \<Longrightarrow> \<exists>a b. xs = [a, b]"
  by (auto simp: numeral_2_eq_2 length_Suc_conv)

lemma list_four: "length xs = 4 \<Longrightarrow> \<exists>a b c d. xs = [a, b, c, d]"
  by (auto simp: numeral_eq_Suc length_Suc_conv)

lemma acl_entries_body:
  "list_all acl_entry_ok es \<Longrightarrow> acl_entries (acl_body es) = Some (acl_seen es)"
proof (induction es)
  case (Cons e es)
  obtain tag p q where e: "e = (tag, p, q)" by (metis prod_cases3)
  have ok: "tag \<in> acl_tags" "p < 8" "q < 256 ^ 4" using Cons.prems e by (auto simp: acl_entry_ok_def)
  then have "tag < 256 ^ 2" "p < 256 ^ 2" by (auto simp: acl_tags_def)
  then have inv: "le_nat (le_bytes 2 tag) = tag" "le_nat (le_bytes 2 p) = p" by (simp_all add: le_nat_le_bytes)
  obtain t0 t1 p0 p1 i0 i1 i2 i3 where t: "le_bytes 2 tag = [t0, t1]" and p: "le_bytes 2 p = [p0, p1]"
    and i: "le_bytes 4 q = [i0, i1, i2, i3]"
    using list_two [OF length_le_bytes] list_four [OF length_le_bytes] by metis
  have "acl_body (e # es) = t0 # t1 # p0 # p1 # i0 # i1 # i2 # i3 # acl_body es"
    by (simp add: acl_body_def e t p i del: le_bytes.simps)
  moreover have "le_nat [t0, t1] = tag" "le_nat [p0, p1] = p" using inv t p by simp_all
  ultimately show ?case using Cons ok e by (simp add: acl_seen_def Let_def del: le_nat.simps)
qed (simp add: acl_body_def acl_seen_def)

lemma length_acl_body: "length (acl_body es) = 8 * length es"
  by (induction es) (auto simp: acl_body_def)

lemma map_fst_seen: "map fst (acl_seen es) = map fst es"
  by (induction es) (auto simp: acl_seen_def)

lemma acl_bytes_body: "acl_bytes es = le_bytes 4 ACL_VERSION @ acl_body es"
  by (simp add: acl_bytes_def acl_body_def)

lemma acl_header: "take 4 (acl_bytes es) = le_bytes 4 ACL_VERSION" "drop 4 (acl_bytes es) = acl_body es"
  "le_nat (le_bytes 4 ACL_VERSION) = ACL_VERSION"
  by (simp_all add: acl_bytes_body ACL_VERSION_def le_nat_le_bytes del: le_bytes.simps)

subsection \<open>Properties\<close>

text \<open>C38: The ACL parser accepts exactly the values the kernel writes for a list of entries with known tags
  and permissions below 8 that includes the three base entries, and returns their tags and permissions.\<close>

theorem parse_acl_exact:
  "parse_acl v = Some es \<longleftrightarrow> (\<exists>raw. v = acl_bytes raw \<and> es = map (\<lambda>(tag, permissions, qualifier). (tag, permissions)) raw
     \<and> list_all (\<lambda>(tag, permissions, qualifier). tag \<in> acl_tags \<and> permissions < 8 \<and> qualifier < 256 ^ 4) raw
     \<and> {0x01, 0x04, 0x20} \<subseteq> fst ` set raw)"
proof -
  have ok: "(\<lambda>(tag, permissions, qualifier). tag \<in> acl_tags \<and> permissions < 8 \<and> qualifier < 256 ^ 4) = acl_entry_ok"
    by (simp add: acl_entry_ok_def fun_eq_iff)
  show ?thesis
    unfolding ok acl_seen_def [symmetric]
  proof
    assume "parse_acl v = Some es"
    then have *: "4 \<le> length v" "le_nat (take 4 v) = ACL_VERSION" "acl_entries (drop 4 v) = Some es"
      "{0x01, 0x04, 0x20} \<subseteq> set (map fst es)"
      by (auto simp: parse_acl_def split: if_splits option.splits)
    have "take 4 v = le_bytes 4 ACL_VERSION"
      using le_bytes_le_nat [of "take 4 v"] *(1,2) by simp
    then have "v = acl_bytes (acl_raw (drop 4 v))"
      unfolding acl_bytes_body using acl_entries_raw [OF *(3)] by (metis append_take_drop_id)
    moreover have "set (map fst es) = fst ` set (acl_raw (drop 4 v))"
      using acl_entries_raw [OF *(3)] map_fst_seen [of "acl_raw (drop 4 v)"] by (metis set_map)
    ultimately show "\<exists>raw. v = acl_bytes raw \<and> es = acl_seen raw \<and> list_all acl_entry_ok raw \<and> {0x01, 0x04, 0x20} \<subseteq> fst ` set raw"
      using acl_entries_raw [OF *(3)] *(4) by auto
  next
    assume "\<exists>raw. v = acl_bytes raw \<and> es = acl_seen raw \<and> list_all acl_entry_ok raw \<and> {0x01, 0x04, 0x20} \<subseteq> fst ` set raw"
    then obtain raw where raw: "v = acl_bytes raw" "es = acl_seen raw" "list_all acl_entry_ok raw"
      "{0x01, 0x04, 0x20} \<subseteq> fst ` set raw" by blast
    have "set (map fst (acl_seen raw)) = fst ` set raw" by (simp only: map_fst_seen set_map)
    then show "parse_acl v = Some es"
      using raw acl_entries_body [OF raw(3)]
      by (simp add: parse_acl_def acl_header length_acl_body del: le_bytes.simps)
        (simp add: acl_bytes_body length_acl_body)
  qed
qed

text \<open>C12: A strict write is atomic for a power loss at any moment: whatever view is current while it runs,
  afterwards every record holds what it could hold before, or, for the record written, the new text in
  a private file; if the write returned, the new text is the only possibility.\<close>

theorem durable_write_atomic:
  assumes "durable_write n text w = (r, w')" and "record_name n"
  shows "(\<exists>new. w_snaps w' = w_snaps w @ new \<and> (\<forall>s \<in> set (w_view w' # new). \<forall>m. record_name m \<longrightarrow>
        after_crash s m \<subseteq> after_crash (w_view w) m
          \<union> {x. m = n \<and> (\<exists>e. x = Some e \<and> fl_text e = text \<and> private_file_ok (vw_euid (w_view w)) (stat.truncate e))}))
    \<and> (r = Inr () \<longrightarrow> record_found n w' = {Some text})"
proof -
  let ?E = "new_files (w_view w) text"
  obtain new where new: "w_snaps w' = w_snaps w @ new" "list_all (at_most (w_view w) n ?E) new"
    "at_most (w_view w) n ?E (w_view w')"
    "r = Inl OsError \<or> r = Inr () \<and> replaced (w_view w) n text (w_view w') \<and> vw_past (w_view w') = []"
    using write_run [OF assms] by metis
  have "after_crash s m \<subseteq> after_crash (w_view w) m
      \<union> {x. m = n \<and> (\<exists>e. x = Some e \<and> fl_text e = text \<and> private_file_ok (vw_euid (w_view w)) (stat.truncate e))}"
    if "s \<in> set (w_view w' # new)" "record_name m" for s m
  proof -
    have s: "at_most (w_view w) n ?E s" using that(1) new(2,3) by (auto simp: list_all_iff)
    have "after_crash s m \<subseteq> after_crash (w_view w) m \<union> (if m = n then ?E else {})"
      by (rule after_crash_at_most [OF s that(2)]) (rule new_files_outcomes)
    then show ?thesis by (auto simp: written_def split: if_splits)
  qed
  moreover have "record_found n w' = {Some text}" if "r = Inr ()"
    using new(4) that replaced_crash [of "w_view w" n "text" "w_view w'"] assms(2) by (auto simp: record_found_def simp del: image_iff)
  ultimately show ?thesis using new(1) by blast
qed

text \<open>C13: For each of the three records, through any history of writes and removals of which any may fail
  half way: once an operation returned, a later power loss reveals its outcome or that of an operation
  attempted after it, and never anything older. A revoked client cannot come back.\<close>

theorem durable_history:
  assumes "n \<in> {PAIRED_CLIENTS, PAIRING_WINDOW, SERVER_IDENTITY}"
    and "run_ops (record_exec n) ops w = (done_ops, w')" and "done_ops = pre @ (op, True) # post"
  shows "record_found n w' \<subseteq> record_goal ` insert op (fst ` set post)"
proof -
  consider "n = PAIRED_CLIENTS" | "n = PAIRING_WINDOW" | "n = SERVER_IDENTITY" using assms(1) by blast
  then show ?thesis
    using assms(2) clients_file.committed_run [OF _ assms(3), of _ w] window_file.committed_run [OF _ assms(3), of _ w]
      identity_file.committed_run [OF _ assms(3), of _ w] by cases blast+
qed

subsection \<open>Witnesses\<close>

text \<open>A directory with one old record, and a write whose directory \<open>fsync\<close> fails.\<close>

definition sample_world :: "bool list \<Rightarrow> world" where
  "sample_world faults =
     \<lparr>w_view = \<lparr>vw_euid = 7, vw_now = Map.empty (PAIRED_CLIENTS \<mapsto> (new_entry 7 0)\<lparr>fl_text := Some JNull, fl_synced := True\<rparr>), vw_past = []\<rparr>,
      w_snaps = [], w_faults = faults, w_temps = [''0a'', ''0b'', ''0c''], w_stamp = 1, w_random = []\<rparr>"

theorem durable_write_atomic_witness:
  "record_found PAIRED_CLIENTS (snd (durable_write PAIRED_CLIENTS (Some (JBool True)) (sample_world []))) = {Some (Some (JBool True))}"
proof -
  obtain r w' where run: "durable_write PAIRED_CLIENTS (Some (JBool True)) (sample_world []) = (r, w')" by fastforce
  have "fst (durable_write PAIRED_CLIENTS (Some (JBool True)) (sample_world [])) = Inr ()" by code_simp
  with durable_write_atomic [OF run record_names_ok(1)] show ?thesis by (simp add: run)
qed

theorem durable_history_witness:
  "record_found PAIRED_CLIENTS (snd (run_ops (record_exec PAIRED_CLIENTS)
     [DeleteRecord, PutRecord (Some (JBool True))] (sample_world [False, False, False, True]))) \<subseteq> {None, Some (Some (JBool True))}"
proof -
  let ?run = "run_ops (record_exec PAIRED_CLIENTS) [DeleteRecord, PutRecord (Some (JBool True))] (sample_world [False, False, False, True])"
  have "fst ?run = [] @ (DeleteRecord, True) # [(PutRecord (Some (JBool True)), False)]" by code_simp
  then have "?run = ([] @ (DeleteRecord, True) # [(PutRecord (Some (JBool True)), False)], snd ?run)" by (metis prod.collapse)
  from durable_history [OF _ this refl] show ?thesis by simp
qed

end
