(* ===== verification/PairingReset.thy ===== *)
theory PairingReset
  imports Durability
begin

text \<open>
  \<^verbatim>\<open>companion/protocol/identity_reset.py\<close>, \<^verbatim>\<open>server_identity.py\<close> and the locked part of
  \<^verbatim>\<open>app._cmd_unpair\<close>: the crash-recovery checkpoints around the pairing records and the life
  of the server identity. The state directory exists (the pairing-state lock, held by every operation
  here, creates it); randomness comes from a supply in the world.

  Shown: at every moment of an unpair, an identity reset or a recovery, and for every possible effect
  of a power loss there, a checkpoint is still in place, or the records are as before, or they are
  all cleared; an identity is created only where none is recorded and is then found again.
\<close>

definition io_handle :: "'a io \<Rightarrow> (exn \<Rightarrow> 'b io) \<Rightarrow> ('a \<Rightarrow> 'b io) \<Rightarrow> 'b io" where
  "io_handle m h k w = (case m w of (Inl e, w1) \<Rightarrow> h e w1 | (Inr x, w1) \<Rightarrow> k x w1)"

text \<open>\<open>os.urandom\<close>, \<open>secrets.token_hex\<close>; an exhausted supply is an \<open>OSError\<close>.\<close>

definition random_bytes :: "bytes io" where
  "random_bytes w = (case w_random w of
     [] \<Rightarrow> (Inl OsError, w) | bs # rest \<Rightarrow> (Inr bs, w\<lparr>w_random := rest\<rparr>))"

subsection \<open>Checkpoints\<close>

datatype reset_operation = IdentityReset | ClearAll

fun operation_name :: "reset_operation \<Rightarrow> string" where
  "operation_name IdentityReset = ''identity-reset''"
| "operation_name ClearAll = ''clear-all''"

definition valid_generation :: "json option \<Rightarrow> bool" where
  "valid_generation x = (case x of Some (JStr s) \<Rightarrow> is_lower_hex 32 s | _ \<Rightarrow> False)"

text \<open>Only the exact shape that an ordinary clear writes preserves the identity.\<close>

definition tombstone_operation :: "json option \<Rightarrow> reset_operation" where
  "tombstone_operation text =
     (case text of
        Some (JDict d) \<Rightarrow>
          (if map_of d ''operation'' = Some (JStr (operation_name ClearAll)) \<and> valid_generation (map_of d ''generation'')
           then ClearAll else IdentityReset)
      | _ \<Rightarrow> IdentityReset)"

definition fence_present :: "string \<Rightarrow> bool io" where
  "fence_present n = io_handle (stat_private n)
     (\<lambda>e. io_return (e \<noteq> FileNotFound)) (\<lambda>_. io_return True)"

definition identity_reset_in_progress :: "bool io" where
  "identity_reset_in_progress = fence_present RESET_FENCE"

definition legacy_clear_all_in_progress :: "bool io" where
  "legacy_clear_all_in_progress = fence_present LEGACY_FENCE"

definition identity_reset_operation :: "reset_operation option io" where
  "identity_reset_operation = io_handle (read_private RESET_FENCE)
     (\<lambda>e. io_return (if e = FileNotFound then None else Some IdentityReset))
     (\<lambda>entry. io_return (Some (tombstone_operation (fl_text entry))))"

definition clear_all_in_progress :: "bool io" where
  "clear_all_in_progress = io_bind identity_reset_operation (\<lambda>op.
     if op = Some ClearAll then io_return True else legacy_clear_all_in_progress)"

definition pairing_reset_in_progress :: "bool io" where
  "pairing_reset_in_progress = io_bind identity_reset_in_progress (\<lambda>present.
     if present then io_return True else legacy_clear_all_in_progress)"

definition strict_tombstone_exists :: "bool io" where
  "strict_tombstone_exists = io_handle (stat_private RESET_FENCE) (\<lambda>_. io_return False) (\<lambda>_. io_return True)"

definition tombstone :: "reset_operation \<Rightarrow> bytes \<Rightarrow> json" where
  "tombstone op token = JDict [(''generation'', JStr (hex_of token)), (''operation'', JStr (operation_name op))]"

definition write_tombstone :: "reset_operation \<Rightarrow> unit io" where
  "write_tombstone op = io_bind random_bytes (\<lambda>token. durable_write RESET_FENCE (Some (tombstone op token)))"

definition begin_identity_reset :: "unit io" where
  "begin_identity_reset = io_bind identity_reset_operation (\<lambda>op.
     if op = Some IdentityReset
     then io_bind strict_tombstone_exists (\<lambda>e. if e then fsync_parent else write_tombstone IdentityReset)
     else write_tombstone IdentityReset)"

definition begin_clear_all :: "bool io" where
  "begin_clear_all = io_bind identity_reset_operation (\<lambda>op.
     case op of
       Some IdentityReset \<Rightarrow>
         io_bind strict_tombstone_exists (\<lambda>e.
           io_then (if e then fsync_parent else write_tombstone IdentityReset) (io_return False))
     | Some ClearAll \<Rightarrow> io_then fsync_parent (io_return True)
     | None \<Rightarrow> io_then (write_tombstone ClearAll) (io_return True))"

definition clear_clear_all :: "bool io" where
  "clear_clear_all = io_bind identity_reset_operation (\<lambda>op.
     io_bind (if op = Some ClearAll then durable_unlink RESET_FENCE else io_return False) (\<lambda>cleared.
     io_bind (durable_unlink LEGACY_FENCE) (\<lambda>legacy. io_return (legacy \<or> cleared))))"

definition clear_identity_reset :: "bool io" where
  "clear_identity_reset = io_bind identity_reset_operation (\<lambda>op.
     if op = Some ClearAll then io_return False else durable_unlink RESET_FENCE)"

subsection \<open>Identity\<close>

record server_identity =
  si_identifier :: string
  si_private_key :: bytes
  si_generation :: string

definition hex_upper :: "string \<Rightarrow> string" where
  "hex_upper s = map (\<lambda>c. let n = of_char c :: nat in if 97 \<le> n \<and> n \<le> 122 then char_of (n - 32) else c) s"

text \<open>\<open>str(uuid.uuid4()).upper()\<close> from 16 random bytes.\<close>

definition uuid4_text :: "bytes \<Rightarrow> string" where
  "uuid4_text bs =
     (let v = bs[6 := (bs ! 6 AND 0x0F) OR 0x40, 8 := (bs ! 8 AND 0x3F) OR 0x80]; h = hex_upper (hex_of v)
      in take 8 h @ ''-'' @ take 4 (drop 8 h) @ ''-'' @ take 4 (drop 12 h) @ ''-'' @ take 4 (drop 16 h) @ ''-'' @ drop 20 h)"

definition identity_json :: "server_identity \<Rightarrow> json" where
  "identity_json i = JDict [(''generation'', JStr (si_generation i)), (''private_key'', JStr (hex_of (si_private_key i))),
     (''uuid'', JStr (si_identifier i))]"

text \<open>\<open>_load_identity\<close> on the parsed text; a missing generation is \<open>None\<close> where it is allowed.\<close>

definition load_identity :: "bool \<Rightarrow> json option \<Rightarrow> (string \<times> bytes \<times> string option) result" where
  "load_identity allow_legacy text =
     (case text of
        Some (JDict d) \<Rightarrow>
          (case (map_of d ''uuid'', map_of d ''private_key'') of
             (Some u, Some (JStr k)) \<Rightarrow>
               (case (u, from_hex k) of
                  (JStr uuid, Some key) \<Rightarrow>
                    if uuid = [] \<or> length key \<noteq> 32 then Inl IdentityError
                    else (case map_of d ''generation'' of
                        None \<Rightarrow> if allow_legacy then Inr (uuid, key, None) else Inl IdentityError
                      | Some JNull \<Rightarrow> if allow_legacy then Inr (uuid, key, None) else Inl IdentityError
                      | Some (JStr g) \<Rightarrow> if is_lower_hex 32 g then Inr (uuid, key, Some g) else Inl IdentityError
                      | Some _ \<Rightarrow> Inl IdentityError)
                | _ \<Rightarrow> Inl IdentityError)
           | _ \<Rightarrow> Inl IdentityError)
      | _ \<Rightarrow> Inl IdentityError)"

definition write_identity :: "server_identity \<Rightarrow> unit io" where
  "write_identity i = durable_write SERVER_IDENTITY (Some (identity_json i))"

definition fresh_identity :: "server_identity io" where
  "fresh_identity = io_bind random_bytes (\<lambda>u. io_bind random_bytes (\<lambda>k. io_bind random_bytes (\<lambda>g.
     io_return \<lparr>si_identifier = uuid4_text u, si_private_key = k, si_generation = hex_of g\<rparr>)))"

definition create_server_identity :: "server_identity io" where
  "create_server_identity = io_bind fresh_identity (\<lambda>i. io_then (write_identity i) (io_return i))"

definition reset_identity_locked :: "bool io" where
  "reset_identity_locked = durable_unlink SERVER_IDENTITY"

definition reset_identity :: "bool io" where
  "reset_identity = io_then begin_identity_reset reset_identity_locked"

definition clear_window :: "bool io" where "clear_window = durable_unlink PAIRING_WINDOW"
definition clear_clients :: "bool io" where "clear_clients = durable_unlink PAIRED_CLIENTS"

definition recover_identity_reset :: "server_identity io" where
  "recover_identity_reset =
     io_then clear_window (io_then clear_clients (io_then reset_identity_locked
     (io_bind create_server_identity (\<lambda>i. io_then clear_clear_all (io_then clear_identity_reset (io_return i))))))"

definition recover_clear_all :: "unit io" where
  "recover_clear_all = io_then clear_window (io_then clear_clients (io_then clear_clear_all (io_return ())))"

definition stat_identity :: "entry io" where
  "stat_identity = stat_private SERVER_IDENTITY"

definition load_persisted_identity :: "server_identity io" where
  "load_persisted_identity = io_bind pairing_reset_in_progress (\<lambda>resetting.
     if resetting then io_raise ResetInProgress
     else io_handle stat_identity
       (\<lambda>e. io_raise (if e = FileNotFound then MissingIdentity else IdentityError))
       (\<lambda>_. io_then fsync_parent (io_handle (read_private SERVER_IDENTITY)
          (\<lambda>e. io_raise (if e = FileNotFound then FileNotFound else IdentityError))
          (\<lambda>entry w. case load_identity False (fl_text entry) of
             Inr (uuid, key, Some g) \<Rightarrow> (Inr \<lparr>si_identifier = uuid, si_private_key = key, si_generation = g\<rparr>, w)
           | Inr (_, _, None) \<Rightarrow> (Inl OtherException, w)
           | Inl e \<Rightarrow> (Inl e, w)))))"

text \<open>The part of startup behind the recovery of checkpoints.\<close>

definition open_identity :: "server_identity io" where
  "open_identity = io_handle stat_identity
     (\<lambda>e. if e = FileNotFound then create_server_identity else io_raise IdentityError)
     (\<lambda>_. io_then fsync_parent (io_handle (read_private SERVER_IDENTITY)
        (\<lambda>e. io_raise (if e = FileNotFound then FileNotFound else IdentityError))
        (\<lambda>entry w. case load_identity True (fl_text entry) of
           Inl e \<Rightarrow> (Inl e, w)
         | Inr (uuid, key, Some g) \<Rightarrow> (Inr \<lparr>si_identifier = uuid, si_private_key = key, si_generation = g\<rparr>, w)
         | Inr (uuid, key, None) \<Rightarrow>
             io_bind random_bytes (\<lambda>g.
               let i = \<lparr>si_identifier = uuid, si_private_key = key, si_generation = hex_of g\<rparr>
               in io_then (write_identity i) (io_return i)) w)))"

definition load_or_create_identity :: "server_identity io" where
  "load_or_create_identity = io_bind identity_reset_in_progress (\<lambda>present.
     if present then io_bind identity_reset_operation (\<lambda>op.
       if op = Some ClearAll then io_then recover_clear_all open_identity else recover_identity_reset)
     else io_bind clear_all_in_progress (\<lambda>clearing.
       if clearing then io_bind begin_clear_all (\<lambda>owned.
         if owned then io_then recover_clear_all open_identity else recover_identity_reset)
       else open_identity))"

subsection \<open>The unpair command\<close>

text \<open>\<open>_cmd_unpair\<close> while it holds the pairing-state lock; the results are what it reports: window,
  clients and identity cleared, and whether it owned the clear-all checkpoint.\<close>

definition cmd_unpair :: "bool \<Rightarrow> (bool \<times> bool \<times> bool \<times> bool) io" where
  "cmd_unpair reset_identity_too =
     io_bind (if reset_identity_too then io_then begin_identity_reset (io_return False) else begin_clear_all) (\<lambda>owned.
     io_bind clear_window (\<lambda>window.
     io_bind clear_clients (\<lambda>clients.
     io_bind (if reset_identity_too then reset_identity_locked else io_return False) (\<lambda>ident.
     io_bind (if \<not> reset_identity_too \<and> owned then clear_clear_all else io_return False) (\<lambda>_.
     io_return (window, clients, ident, owned))))))"

subsection \<open>Crash safety\<close>

definition fenced :: "view \<Rightarrow> bool" where
  "fenced v \<longleftrightarrow> None \<notin> held v RESET_FENCE"

definition kept :: "view \<Rightarrow> view \<Rightarrow> bool" where
  "kept v0 v \<longleftrightarrow> held v PAIRED_CLIENTS \<subseteq> held v0 PAIRED_CLIENTS \<and> held v SERVER_IDENTITY \<subseteq> held v0 SERVER_IDENTITY
     \<and> held v PAIRING_WINDOW \<subseteq> insert None (held v0 PAIRING_WINDOW)"

definition wiped :: "view \<Rightarrow> bool" where
  "wiped v \<longleftrightarrow> held v PAIRED_CLIENTS = {None} \<and> held v PAIRING_WINDOW = {None}"

definition crash_safe :: "view \<Rightarrow> view \<Rightarrow> bool" where
  "crash_safe v0 v \<longleftrightarrow> fenced v \<or> kept v0 v \<or> wiped v"

text \<open>Settled views: everything synced, the fence up, the records of \<open>A\<close> gone; or the fence irrelevant.\<close>

definition fenced_without :: "string set \<Rightarrow> view \<Rightarrow> bool" where
  "fenced_without A v \<longleftrightarrow> vw_past v = [] \<and> vw_now v RESET_FENCE \<noteq> None \<and> (\<forall>n \<in> A. vw_now v n = None)"

definition settled_wiped :: "view \<Rightarrow> bool" where
  "settled_wiped v \<longleftrightarrow> vw_past v = [] \<and> vw_now v PAIRED_CLIENTS = None \<and> vw_now v PAIRING_WINDOW = None"

lemma names_distinct [simp]:
  "PAIRED_CLIENTS \<noteq> PAIRING_WINDOW" "PAIRED_CLIENTS \<noteq> SERVER_IDENTITY" "PAIRED_CLIENTS \<noteq> RESET_FENCE"
  "PAIRING_WINDOW \<noteq> SERVER_IDENTITY" "PAIRING_WINDOW \<noteq> RESET_FENCE" "SERVER_IDENTITY \<noteq> RESET_FENCE"
  "PAIRED_CLIENTS \<noteq> LEGACY_FENCE" "PAIRING_WINDOW \<noteq> LEGACY_FENCE" "SERVER_IDENTITY \<noteq> LEGACY_FENCE"
  "RESET_FENCE \<noteq> LEGACY_FENCE"
  by (simp_all add: record_names)

lemmas names_distinct_sym [simp] = names_distinct [symmetric]

lemma held_settled: "vw_past v = [] \<Longrightarrow> held v m = {vw_now v m}"
  by (simp add: held_def)

lemma settled_fenced: "fenced_without A v \<Longrightarrow> fenced v"
  by (auto simp: fenced_without_def fenced_def held_settled)

lemma settled_is_wiped: "settled_wiped v \<Longrightarrow> wiped v"
  by (simp add: settled_wiped_def wiped_def held_settled)

lemma fenced_wiped: "fenced_without A v \<Longrightarrow> {PAIRED_CLIENTS, PAIRING_WINDOW} \<subseteq> A \<Longrightarrow> settled_wiped v"
  by (simp add: fenced_without_def settled_wiped_def)

lemma kept_refl [simp]: "kept v v"
  by (auto simp: kept_def)

text \<open>The two outcomes of an operation: it returned in a \<open>G\<close> view, or it failed in a \<open>B\<close> view.\<close>

definition ends :: "(view \<Rightarrow> bool) \<Rightarrow> (view \<Rightarrow> bool) \<Rightarrow> 'a result \<Rightarrow> view \<Rightarrow> bool" where
  "ends G B r v \<longleftrightarrow> (case r of Inr _ \<Rightarrow> G v | Inl _ \<Rightarrow> B v)"

lemma ends_simps [simp]: "ends G B (Inr x) = G" "ends G B (Inl e) = B"
  by (simp_all add: ends_def fun_eq_iff)

lemma safely_seq:
  assumes "safely S P m (ends G B)" "\<And>x. safely S G (f x) (ends G' B)"
  shows "safely S P (io_bind m f) (ends G' B)"
  by (rule safely_bind [OF assms(1)]) (simp_all add: assms(2))

lemma safely_seq_then:
  "safely S P m (ends G B) \<Longrightarrow> safely S G k (ends G' B) \<Longrightarrow> safely S P (io_then m k) (ends G' B)"
  unfolding io_then_def by (rule safely_seq)

lemma safely_weaken:
  assumes "safely S P m (ends G B)" "\<And>v. P' v \<Longrightarrow> P v" "\<And>v. G v \<Longrightarrow> G' v" "\<And>v. S v \<Longrightarrow> S' v" "\<And>v. B v \<Longrightarrow> B' v"
  shows "safely S' P' m (ends G' B')"
  by (rule safely_conseq [OF assms(1)]) (auto simp: ends_def assms split: sum.splits)

lemma safely_done: "(\<And>v. G v \<Longrightarrow> G' v) \<Longrightarrow> safely S G (io_return x) (ends G' B)"
  by (rule safely_return) simp

text \<open>Operations that only look.\<close>

definition looks :: "'a io \<Rightarrow> ('a result \<Rightarrow> view \<Rightarrow> bool) \<Rightarrow> bool" where
  "looks m I \<longleftrightarrow> (\<forall>w r w'. m w = (r, w') \<longrightarrow> w_view w' = w_view w \<and> w_snaps w' = w_snaps w \<and> I r (w_view w))"

lemma safely_looks: "looks m I \<Longrightarrow> safely S P m (\<lambda>r v. P v \<and> I r v)"
  by (rule safelyI) (auto simp: looks_def)

lemma safely_look_bind:
  assumes "looks m I" "\<And>x. safely S (\<lambda>v. P v \<and> I (Inr x) v) (f x) Q" "\<And>e v. P v \<Longrightarrow> Q (Inl e) v"
  shows "safely S P (io_bind m f) Q"
  by (rule safely_bind [OF safely_looks [OF assms(1)]]) (use assms(2,3) in auto)

lemma looks_stat: "looks (stat_private n) (\<lambda>r v. \<forall>e. r = Inr e \<longrightarrow> vw_now v n \<noteq> None)"
  by (auto simp: looks_def stat_private_def open_directory_def open_private_at_def io_then_def io_bind_def io_look_def
      syscall_def io_raise_def split: list.splits sum.splits option.splits if_splits prod.splits)

lemma looks_read: "looks (read_private n) (\<lambda>r v. \<forall>e. r = Inr e \<longrightarrow> vw_now v n \<noteq> None)"
  by (auto simp: looks_def read_private_def open_directory_def open_private_at_def io_then_def io_bind_def io_look_def
      syscall_def io_raise_def io_return_def split: list.splits sum.splits option.splits if_splits prod.splits)

lemma looks_operation:
  "looks identity_reset_operation (\<lambda>r v. r = Inr (Some ClearAll) \<longrightarrow> vw_now v RESET_FENCE \<noteq> None)"
  using looks_read [of RESET_FENCE]
  by (fastforce simp: looks_def identity_reset_operation_def io_handle_def io_return_def split: sum.splits prod.splits if_splits)

lemma looks_exists: "looks strict_tombstone_exists (\<lambda>r v. r = Inr True \<longrightarrow> vw_now v RESET_FENCE \<noteq> None)"
  using looks_stat [of RESET_FENCE]
  by (fastforce simp: looks_def strict_tombstone_exists_def io_handle_def io_return_def split: sum.splits prod.splits)

lemma looks_random: "looks random_bytes (\<lambda>r v. True)"
  by (auto simp: looks_def random_bytes_def split: list.splits)

lemma after_operation:
  assumes "\<And>op. safely S (\<lambda>v. P v \<and> (op = Some ClearAll \<longrightarrow> vw_now v RESET_FENCE \<noteq> None)) (f op) Q"
    and "\<And>e v. P v \<Longrightarrow> Q (Inl e) v"
  shows "safely S P (io_bind identity_reset_operation f) Q"
  by (rule safely_look_bind [OF looks_operation]) (use assms in simp_all)

lemma after_exists:
  assumes "\<And>b. safely S (\<lambda>v. P v \<and> (b \<longrightarrow> vw_now v RESET_FENCE \<noteq> None)) (f b) Q"
    and "\<And>e v. P v \<Longrightarrow> Q (Inl e) v"
  shows "safely S P (io_bind strict_tombstone_exists f) Q"
  by (rule safely_look_bind [OF looks_exists]) (use assms in simp_all)

text \<open>Under the fence, records may come and go.\<close>

lemma at_most_held: "at_most v0 n E v \<Longrightarrow> record_name m \<Longrightarrow> m \<noteq> n \<Longrightarrow> held v m \<subseteq> held v0 m"
  by (fastforce simp: at_most_def)

lemma unlink_fenced:
  assumes "n \<noteq> RESET_FENCE"
  shows "safely fenced (fenced_without A) (durable_unlink n) (ends (fenced_without (insert n A)) fenced)"
proof (rule safelyI)
  fix w r w' assume pre: "fenced_without A (w_view w)" and run: "durable_unlink n w = (r, w')"
  have still: "fenced v" if "at_most (w_view w) n {None} v" for v
    using at_most_held [OF that record_names_ok(4)] assms settled_fenced [OF pre] by (auto simp: fenced_def)
  from run show "(\<exists>new. w_snaps w' = w_snaps w @ new \<and> list_all fenced new) \<and> ends (fenced_without (insert n A)) fenced r (w_view w')"
  proof (rule unlink_run)
    fix new
    assume "w_snaps w' = w_snaps w @ new" "list_all (at_most (w_view w) n {None}) new"
      and "r = Inl OsError \<and> at_most (w_view w) n {None} (w_view w')
       \<or> (\<exists>b. r = Inr b) \<and> w_view w' = (w_view w)\<lparr>vw_now := (vw_now (w_view w))(n := None), vw_past := []\<rparr>"
    then show ?thesis using still pre assms by (auto simp: fenced_without_def list_all_iff)
  qed
qed

lemma write_fenced:
  assumes "n \<noteq> RESET_FENCE" "n \<notin> A" "record_name n" "A \<subseteq> Collect record_name"
  shows "safely fenced (fenced_without A) (durable_write n data) (ends (fenced_without A) fenced)"
proof (rule safelyI)
  fix w r w' assume pre: "fenced_without A (w_view w)" and run: "durable_write n data w = (r, w')"
  have still: "fenced v" if "at_most (w_view w) n (new_files (w_view w) data) v" for v
    using at_most_held [OF that record_names_ok(4)] assms(1) settled_fenced [OF pre] by (auto simp: fenced_def)
  from run assms(3) show "(\<exists>new. w_snaps w' = w_snaps w @ new \<and> list_all fenced new) \<and> ends (fenced_without A) fenced r (w_view w')"
  proof (rule write_run)
    fix new
    assume "w_snaps w' = w_snaps w @ new" "list_all (at_most (w_view w) n (new_files (w_view w) data)) new"
      "at_most (w_view w) n (new_files (w_view w) data) (w_view w')"
      and "r = Inl OsError \<or> r = Inr () \<and> replaced (w_view w) n data (w_view w') \<and> vw_past (w_view w') = []"
    moreover have "vw_now (w_view w') m = vw_now (w_view w) m"
      if "replaced (w_view w) n data (w_view w')" "m \<in> insert RESET_FENCE A" for m
    proof -
      have "record_name m" "m \<noteq> n" using that(2) assms record_names_ok(4) by auto
      then show ?thesis using that(1) by (auto simp: replaced_def)
    qed
    ultimately show ?thesis using still pre assms(2) by (auto simp: fenced_without_def list_all_iff)
  qed
qed

lemma unlink_wiped:
  assumes "record_name n"
  shows "safely wiped settled_wiped (durable_unlink n) (ends settled_wiped wiped)"
proof (rule safelyI)
  fix w r w' assume pre: "settled_wiped (w_view w)" and run: "durable_unlink n w = (r, w')"
  have still: "wiped v" if "at_most (w_view w) n {None} v" for v
  proof -
    have "held v m \<subseteq> {None}" if "m \<in> {PAIRED_CLIENTS, PAIRING_WINDOW}" for m
    proof -
      have "record_name m" using that by auto
      then have "held v m \<subseteq> held (w_view w) m \<union> (if m = n then {None} else {})"
        using \<open>at_most (w_view w) n {None} v\<close> unfolding at_most_def by blast
      moreover have "held (w_view w) m = {None}" using settled_is_wiped [OF pre] that by (auto simp: wiped_def)
      ultimately show ?thesis by (auto split: if_splits)
    qed
    moreover have "held v m \<noteq> {}" for m by (simp add: held_def)
    ultimately show ?thesis unfolding wiped_def by (metis insertCI subset_singletonD)
  qed
  from run show "(\<exists>new. w_snaps w' = w_snaps w @ new \<and> list_all wiped new) \<and> ends settled_wiped wiped r (w_view w')"
  proof (rule unlink_run)
    fix new
    assume "w_snaps w' = w_snaps w @ new" "list_all (at_most (w_view w) n {None}) new"
      and "r = Inl OsError \<and> at_most (w_view w) n {None} (w_view w')
       \<or> (\<exists>b. r = Inr b) \<and> w_view w' = (w_view w)\<lparr>vw_now := (vw_now (w_view w))(n := None), vw_past := []\<rparr>"
    then show ?thesis using still pre by (auto simp: settled_wiped_def list_all_iff)
  qed
qed

text \<open>Publishing the fence leaves the records alone until it is durable.\<close>

lemma kept_at_most:
  assumes "at_most v0 RESET_FENCE E v" shows "kept v0 v"
  using at_most_held [OF assms record_names_ok(1)] at_most_held [OF assms record_names_ok(2)]
    at_most_held [OF assms record_names_ok(3)] by (auto simp: kept_def)

lemma write_tombstone_begins:
  "safely (kept v0) (\<lambda>v. v = v0) (write_tombstone op) (ends (fenced_without {}) (kept v0))"
  unfolding write_tombstone_def
proof (rule safely_look_bind [OF looks_random])
  fix token
  show "safely (kept v0) (\<lambda>v. v = v0 \<and> True) (durable_write RESET_FENCE (Some (tombstone op token)))
    (ends (fenced_without {}) (kept v0))"
    by (rule safely_conseq [OF write_safely [OF record_names_ok(4), of v0 "Some (tombstone op token)"]])
      (auto simp: ends_def fenced_without_def replaced_def intro: kept_at_most split: sum.splits)
qed simp

lemma fsync_begins:
  "safely (kept v0) (\<lambda>v. v = v0 \<and> vw_now v RESET_FENCE \<noteq> None) fsync_parent (ends (fenced_without {}) (kept v0))"
  unfolding fsync_parent_def open_directory_def
  by (rule safely_after_syscall, rule safely_fsync)
    (auto simp: kept_at_most at_most_sync fenced_without_def, auto simp: sync_directory_def)

lemma begins_write:
  assumes "\<And>v. P v \<Longrightarrow> v = v0"
  shows "safely (kept v0) P (write_tombstone op) (ends (fenced_without {}) (kept v0))"
  by (rule safely_weaken [OF write_tombstone_begins]) (use assms in auto)

lemma begins_fsync:
  assumes "\<And>v. P v \<Longrightarrow> v = v0 \<and> vw_now v RESET_FENCE \<noteq> None"
  shows "safely (kept v0) P fsync_parent (ends (fenced_without {}) (kept v0))"
  by (rule safely_weaken [OF fsync_begins]) (use assms in auto)

lemma safely_if:
  "(c \<Longrightarrow> safely S P a Q) \<Longrightarrow> (\<not> c \<Longrightarrow> safely S P b Q) \<Longrightarrow> safely S P (if c then a else b) Q"
  by simp

lemma begin_identity_reset_begins:
  "safely (kept v0) (\<lambda>v. v = v0) begin_identity_reset (ends (fenced_without {}) (kept v0))"
  unfolding begin_identity_reset_def
  by (intro after_operation safely_if after_exists begins_write begins_fsync) auto

lemma begin_clear_all_begins:
  "safely (kept v0) (\<lambda>v. v = v0) begin_clear_all (ends (fenced_without {}) (kept v0))"
  unfolding begin_clear_all_def
proof (intro after_operation)
  fix op
  let ?Q = "ends (fenced_without {}) (kept v0)"
  show "safely (kept v0) (\<lambda>v. v = v0 \<and> (op = Some ClearAll \<longrightarrow> vw_now v RESET_FENCE \<noteq> None))
     (case op of
       Some IdentityReset \<Rightarrow>
         io_bind strict_tombstone_exists (\<lambda>e.
           io_then (if e then fsync_parent else write_tombstone IdentityReset) (io_return False))
     | Some ClearAll \<Rightarrow> io_then fsync_parent (io_return True)
     | None \<Rightarrow> io_then (write_tombstone ClearAll) (io_return True)) ?Q"
  proof (cases op)
    case None
    then show ?thesis by (auto intro!: safely_seq_then [OF begins_write safely_done])
  next
    case (Some r)
    then show ?thesis
      by (cases r) (auto intro!: after_exists safely_seq_then [OF begins_fsync safely_done]
          safely_seq_then [OF safely_if safely_done] begins_write begins_fsync)
  qed
qed simp

text \<open>Removing the fences once the records are gone.\<close>

lemma unlink_wiped_from:
  assumes "record_name n" "\<And>v. P v \<Longrightarrow> settled_wiped v"
  shows "safely wiped P (durable_unlink n) (ends settled_wiped wiped)"
  by (rule safely_weaken [OF unlink_wiped [OF assms(1)]]) (use assms(2) in auto)

lemma clear_clear_all_wiped: "safely wiped settled_wiped clear_clear_all (ends settled_wiped wiped)"
  unfolding clear_clear_all_def
  by (intro after_operation safely_seq [where G = settled_wiped] safely_if unlink_wiped_from safely_done)
    (auto intro: settled_is_wiped)

lemma clear_identity_reset_wiped: "safely wiped settled_wiped clear_identity_reset (ends settled_wiped wiped)"
  unfolding clear_identity_reset_def
  by (intro after_operation safely_if unlink_wiped_from safely_done) (auto intro: settled_is_wiped)

text \<open>The pieces, with one common notion of safety.\<close>

lemma fenced_unlink:
  assumes "n \<noteq> RESET_FENCE" "insert n A = B"
  shows "safely (crash_safe v0) (fenced_without A) (durable_unlink n) (ends (fenced_without B) (crash_safe v0))"
  by (rule safely_weaken [OF unlink_fenced [OF assms(1)]]) (auto simp: crash_safe_def assms(2) [symmetric])

lemma begins_safe:
  assumes "safely (kept v0) P m (ends (fenced_without {}) (kept v0))"
  shows "safely (crash_safe v0) P m (ends (fenced_without {}) (crash_safe v0))"
  by (rule safely_weaken [OF assms]) (auto simp: crash_safe_def)

lemma wiped_safe:
  assumes "safely wiped settled_wiped m (ends settled_wiped wiped)"
  shows "safely (crash_safe v0) settled_wiped m (ends settled_wiped (crash_safe v0))"
  by (rule safely_weaken [OF assms]) (auto simp: crash_safe_def)

text \<open>Window and clients go first in every flow.\<close>

lemma clear_both_safe:
  assumes "safely (crash_safe v0) (fenced_without {PAIRING_WINDOW, PAIRED_CLIENTS}) k (ends G (crash_safe v0))"
  shows "safely (crash_safe v0) (fenced_without {PAIRING_WINDOW}) (io_then clear_clients k) (ends G (crash_safe v0))"
  unfolding clear_clients_def by (rule safely_seq_then [OF fenced_unlink assms]) auto

lemma fenced_crash_safe: "fenced_without A v \<Longrightarrow> crash_safe v0 v" "settled_wiped v \<Longrightarrow> crash_safe v0 v"
  by (auto simp: crash_safe_def settled_fenced settled_is_wiped)

lemma after_begin_unpair:
  "safely (crash_safe v0) (fenced_without {})
    (io_bind clear_window (\<lambda>window. io_bind clear_clients (\<lambda>clients.
     io_bind (if b then reset_identity_locked else io_return False) (\<lambda>ident.
     io_bind (if \<not> b \<and> owned then clear_clear_all else io_return False) (\<lambda>_.
     io_return (window, clients, ident, owned)))))) (ends (crash_safe v0) (crash_safe v0))"
proof -
  let ?G = "\<lambda>v. fenced_without {PAIRING_WINDOW, PAIRED_CLIENTS} v \<or> fenced_without {PAIRING_WINDOW, PAIRED_CLIENTS, SERVER_IDENTITY} v"
  have ident: "safely (crash_safe v0) (fenced_without {PAIRING_WINDOW, PAIRED_CLIENTS})
      (if b then reset_identity_locked else io_return False) (ends ?G (crash_safe v0))"
    unfolding reset_identity_locked_def
    by (intro safely_if safely_done safely_weaken [OF fenced_unlink [where A = "{PAIRING_WINDOW, PAIRED_CLIENTS}"
          and B = "{PAIRING_WINDOW, PAIRED_CLIENTS, SERVER_IDENTITY}"]]) auto
  have finish: "safely (crash_safe v0) ?G (io_bind (if \<not> b \<and> owned then clear_clear_all else io_return False)
      (\<lambda>_. io_return x)) (ends (crash_safe v0) (crash_safe v0))" for x :: "bool \<times> bool \<times> bool \<times> bool"
    by (intro safely_seq [where G = "crash_safe v0"] safely_if safely_done
        safely_weaken [OF wiped_safe [OF clear_clear_all_wiped]])
      (auto intro: fenced_crash_safe fenced_wiped)
  show ?thesis
    unfolding clear_window_def clear_clients_def
    by (rule safely_seq [where G = "fenced_without {PAIRING_WINDOW}"], rule fenced_unlink, simp, simp,
        rule safely_seq [where G = "fenced_without {PAIRING_WINDOW, PAIRED_CLIENTS}"], rule fenced_unlink, simp, blast,
        rule safely_seq [OF ident finish])
qed

lemma cmd_unpair_safe: "safely (crash_safe v0) (\<lambda>v. v = v0) (cmd_unpair b) (ends (crash_safe v0) (crash_safe v0))"
  unfolding cmd_unpair_def
  by (rule safely_seq [OF _ after_begin_unpair], intro safely_if safely_seq_then [OF _ safely_done])
    (auto intro: begins_safe begin_identity_reset_begins begin_clear_all_begins)

text \<open>A recovery starts with a fence that is visible but perhaps not yet durable.\<close>

lemma first_unlink:
  "safely (crash_safe v0) (\<lambda>v. v = v0 \<and> vw_now v RESET_FENCE \<noteq> None) clear_window
    (ends (fenced_without {PAIRING_WINDOW}) (crash_safe v0))"
proof -
  have kept: "kept v0 v" if "at_most v0 PAIRING_WINDOW {None} v" for v
  proof -
    have "held v PAIRING_WINDOW \<subseteq> insert None (held v0 PAIRING_WINDOW)"
      using that record_names_ok(2) unfolding at_most_def by fastforce
    then show ?thesis
      using at_most_held [OF that record_names_ok(1)] at_most_held [OF that record_names_ok(3)] by (simp add: kept_def)
  qed
  show ?thesis
  proof (cases "vw_now v0 RESET_FENCE = None")
    case True
    then show ?thesis by (intro safelyI) auto
  next
    case False
    then show ?thesis
      unfolding clear_window_def
      by (intro safely_conseq [OF unlink_safely [of v0 PAIRING_WINDOW]])
        (auto simp: ends_def fenced_without_def crash_safe_def kept split: sum.splits)
  qed
qed

lemma random_fenced:
  "(\<And>x. safely (crash_safe v0) (fenced_without A) (f x) (ends G (crash_safe v0))) \<Longrightarrow>
     safely (crash_safe v0) (fenced_without A) (io_bind random_bytes f) (ends G (crash_safe v0))"
  by (rule safely_look_bind [OF looks_random]) (auto intro: fenced_crash_safe)

lemma create_identity_fenced:
  "safely (crash_safe v0) (fenced_without {PAIRING_WINDOW, PAIRED_CLIENTS}) create_server_identity
    (ends (fenced_without {PAIRING_WINDOW, PAIRED_CLIENTS}) (crash_safe v0))"
proof -
  have w: "safely (crash_safe v0) (fenced_without {PAIRING_WINDOW, PAIRED_CLIENTS}) (write_identity i)
      (ends (fenced_without {PAIRING_WINDOW, PAIRED_CLIENTS}) (crash_safe v0))" for i
    unfolding write_identity_def
    by (rule safely_weaken [OF write_fenced]) (auto simp: crash_safe_def)
  show ?thesis
    unfolding create_server_identity_def fresh_identity_def
    by (intro safely_seq [where G = "fenced_without {PAIRING_WINDOW, PAIRED_CLIENTS}"] random_fenced safely_done
        safely_seq_then [OF w safely_done])
qed

lemma both_fences_removed:
  "safely (crash_safe v0) settled_wiped (io_then clear_clear_all k) (ends G (crash_safe v0))"
  if "safely (crash_safe v0) settled_wiped k (ends G (crash_safe v0))"
  by (rule safely_seq_then [OF wiped_safe [OF clear_clear_all_wiped] that])

lemma recover_identity_reset_safe:
  "safely (crash_safe v0) (\<lambda>v. v = v0 \<and> vw_now v RESET_FENCE \<noteq> None) recover_identity_reset
    (ends (crash_safe v0) (crash_safe v0))"
proof -
  let ?F = "fenced_without {PAIRING_WINDOW, PAIRED_CLIENTS}"
  have tail: "safely (crash_safe v0) ?F
     (io_then clear_clear_all (io_then clear_identity_reset (io_return i))) (ends (crash_safe v0) (crash_safe v0))" for i :: server_identity
    by (rule safely_weaken [OF both_fences_removed [OF safely_seq_then [OF wiped_safe [OF clear_identity_reset_wiped] safely_done]]])
      (auto intro: fenced_crash_safe fenced_wiped)
  have ident: "safely (crash_safe v0) ?F reset_identity_locked (ends ?F (crash_safe v0))"
    unfolding reset_identity_locked_def
    by (rule safely_weaken [OF fenced_unlink [where A = "{PAIRING_WINDOW, PAIRED_CLIENTS}" and n = SERVER_IDENTITY]])
      (auto simp: fenced_without_def)
  show ?thesis
    unfolding recover_identity_reset_def
    by (rule safely_seq_then [OF first_unlink clear_both_safe [OF safely_seq_then [OF ident safely_seq [OF create_identity_fenced tail]]]])
qed

lemma recover_clear_all_safe:
  "safely (crash_safe v0) (\<lambda>v. v = v0 \<and> vw_now v RESET_FENCE \<noteq> None) recover_clear_all
    (ends (crash_safe v0) (crash_safe v0))"
proof -
  have "safely (crash_safe v0) (fenced_without {PAIRING_WINDOW, PAIRED_CLIENTS})
     (io_then clear_clear_all (io_return ())) (ends (crash_safe v0) (crash_safe v0))"
    by (rule safely_weaken [OF both_fences_removed [OF safely_done]]) (auto intro: fenced_crash_safe fenced_wiped)
  then show ?thesis
    unfolding recover_clear_all_def by (rule safely_seq_then [OF first_unlink clear_both_safe])
qed

lemma reset_identity_safe: "safely (crash_safe v0) (\<lambda>v. v = v0) reset_identity (ends (crash_safe v0) (crash_safe v0))"
  unfolding reset_identity_def reset_identity_locked_def
  by (rule safely_seq_then [OF begins_safe [OF begin_identity_reset_begins]
        safely_weaken [OF fenced_unlink [where A = "{}" and n = SERVER_IDENTITY]]])
    (auto intro: fenced_crash_safe)

subsection \<open>Properties\<close>

text \<open>The operations that clear pairing state.\<close>

datatype clearing = Unpair bool | ResetOnly | RecoverReset | RecoverClearAll

fun run_clearing :: "clearing \<Rightarrow> world \<Rightarrow> world" where
  "run_clearing (Unpair b) w = snd (cmd_unpair b w)"
| "run_clearing ResetOnly w = snd (reset_identity w)"
| "run_clearing RecoverReset w = snd (recover_identity_reset w)"
| "run_clearing RecoverClearAll w = snd (recover_clear_all w)"

lemma clearing_safe:
  assumes "act \<in> {RecoverReset, RecoverClearAll} \<longrightarrow> vw_now (w_view w) RESET_FENCE \<noteq> None"
  obtains new where "w_snaps (run_clearing act w) = w_snaps w @ new"
    "list_all (crash_safe (w_view w)) (w_view (run_clearing act w) # new)"
proof -
  have go: thesis if "safely (crash_safe (w_view w)) P m (ends (crash_safe (w_view w)) (crash_safe (w_view w)))"
    "P (w_view w)" "run_clearing act w = snd (m w)" for P and m :: "'b io"
  proof (rule safelyD [OF that(1,2), of "fst (m w)" "snd (m w)"])
    fix new assume "w_snaps (snd (m w)) = w_snaps w @ new" "list_all (crash_safe (w_view w)) new"
      "ends (crash_safe (w_view w)) (crash_safe (w_view w)) (fst (m w)) (w_view (snd (m w)))"
    then show thesis by (intro \<open>\<And>new. w_snaps (run_clearing act w) = w_snaps w @ new \<Longrightarrow>
        list_all (crash_safe (w_view w)) (w_view (run_clearing act w) # new) \<Longrightarrow> thesis\<close>)
      (auto simp: that(3) ends_def split: sum.splits)
  qed simp
  show thesis
    using assms go [OF cmd_unpair_safe] go [OF reset_identity_safe] go [OF recover_identity_reset_safe]
      go [OF recover_clear_all_safe] by (cases act) auto
qed

text \<open>C11: Whatever moment the power fails at during an unpair, an identity reset or, started with the checkpoint file in
  place, one of the two startup recoveries, and whatever system calls fail: in every outcome a checkpoint is in place, or clients and
  identity are as they could have been before and the window is too or is gone, or clients and window are
  both gone. No outcome leaves part of the old authority behind without a checkpoint.\<close>

theorem clearing_crash_safe:
  assumes "act \<in> {RecoverReset, RecoverClearAll} \<longrightarrow> vw_now (w_view w) RESET_FENCE \<noteq> None"
  shows "\<exists>new. w_snaps (run_clearing act w) = w_snaps w @ new
    \<and> (\<forall>s \<in> set (w_view (run_clearing act w) # new).
        None \<notin> after_crash s RESET_FENCE
        \<or> (after_crash s PAIRED_CLIENTS \<subseteq> after_crash (w_view w) PAIRED_CLIENTS
           \<and> after_crash s SERVER_IDENTITY \<subseteq> after_crash (w_view w) SERVER_IDENTITY
           \<and> after_crash s PAIRING_WINDOW \<subseteq> insert None (after_crash (w_view w) PAIRING_WINDOW))
        \<or> (after_crash s PAIRED_CLIENTS = {None} \<and> after_crash s PAIRING_WINDOW = {None}))"
proof -
  have none: "None \<in> after_crash v n \<longleftrightarrow> None \<in> held v n" for v n
    by (auto simp: after_crash_def file_outcomes_def split: option.splits if_splits)
  have "after_crash s n \<subseteq> after_crash v n" if "held s n \<subseteq> held v n" for s v n
    using that by (auto simp: after_crash_def)
  moreover have "after_crash s n \<subseteq> insert None (after_crash v n)" if "held s n \<subseteq> insert None (held v n)" for s v n
    using that by (fastforce simp: after_crash_def file_outcomes_def split: option.splits)
  moreover have "after_crash s n = {None}" if "held s n = {None}" for s n
    using that by (simp add: after_crash_def file_outcomes_def)
  ultimately show ?thesis
    using clearing_safe [OF assms] unfolding crash_safe_def fenced_def kept_def wiped_def none list_all_iff
    by metis
qed

subsection \<open>Witnesses\<close>

definition stored :: "json \<Rightarrow> entry" where
  "stored j = (new_entry 7 0)\<lparr>fl_text := Some j, fl_synced := True\<rparr>"

definition old_identity :: server_identity where
  "old_identity = \<lparr>si_identifier = ''A'', si_private_key = replicate 32 1, si_generation = hex_of (replicate 16 2)\<rparr>"

definition paired_world :: "bool list \<Rightarrow> world" where
  "paired_world faults =
     \<lparr>w_view = \<lparr>vw_euid = 7, vw_now = [PAIRED_CLIENTS \<mapsto> stored (JDict [(''p'', JStr ''00'')]),
        PAIRING_WINDOW \<mapsto> stored JNull, SERVER_IDENTITY \<mapsto> stored (identity_json old_identity)], vw_past = []\<rparr>,
      w_snaps = [], w_faults = faults, w_temps = [''0a'', ''0b'', ''0c''], w_stamp = 1,
      w_random = [replicate 16 3, replicate 32 4, replicate 16 5]\<rparr>"

text \<open>An unpair that a failing system call stopped when the window was gone and the clients were not, and the
  recovery that the next startup runs.\<close>

definition interrupted :: world where
  "interrupted = run_clearing (Unpair False)
     (paired_world [False, False, False, False, False, False, False, False, False, False, False, False, False, True])"

lemmas io_steps = io_return_def io_raise_def io_bind_def io_then_def io_look_def syscall_def change_def set_entry_def sync_directory_def
  write_data_def sync_data_def rename_entry_def open_directory_def fsync_dir_strict_def fsync_parent_def open_private_at_def read_private_def
  durable_unlink_def io_cleanup_def new_entry_def create_entry_def write_at_def durable_write_def io_handle_def random_bytes_def

lemma names_apart:
  "RESET_FENCE \<noteq> PAIRED_CLIENTS" "RESET_FENCE \<noteq> PAIRING_WINDOW" "RESET_FENCE \<noteq> SERVER_IDENTITY" "RESET_FENCE \<noteq> LEGACY_FENCE"
  "PAIRED_CLIENTS \<noteq> PAIRING_WINDOW" "PAIRED_CLIENTS \<noteq> SERVER_IDENTITY" "PAIRED_CLIENTS \<noteq> LEGACY_FENCE" "PAIRING_WINDOW \<noteq> SERVER_IDENTITY"
  "PAIRING_WINDOW \<noteq> LEGACY_FENCE" "temp_name n t \<noteq> PAIRED_CLIENTS" "temp_name n t \<noteq> PAIRING_WINDOW" "temp_name n t \<noteq> SERVER_IDENTITY"
  "temp_name n t \<noteq> RESET_FENCE" "temp_name n t \<noteq> LEGACY_FENCE"
  by (simp_all add: record_names temp_name_def)

lemma create_temp_first: "create_temp 32 n w =
     (case w_temps w of
        [] \<Rightarrow> (Inl OsError, w)
      | token # rest \<Rightarrow>
          (if vw_now (w_view w) (temp_name n token) \<noteq> None then create_temp 31 n (w\<lparr>w_temps := rest\<rparr>)
              else io_then syscall (create_entry (temp_name n token)) (w\<lparr>w_temps := rest\<rparr>)))"
  using create_temp.simps(2) [of 31] by (simp add: Let_def split: list.split)

lemma interrupted_run:
  "vw_now (w_view interrupted) RESET_FENCE = Some ((stored (tombstone ClearAll (replicate 16 3)))\<lparr>fl_stamp := 1\<rparr>)
   \<and> vw_now (w_view interrupted) PAIRED_CLIENTS = Some (stored (JDict [(''p'', JStr ''00'')])) \<and> vw_past (w_view interrupted) = []
   \<and> vw_euid (w_view interrupted) = 7 \<and> w_faults interrupted = []"
  by (simp add: interrupted_def cmd_unpair_def begin_clear_all_def identity_reset_operation_def clear_window_def clear_clients_def
      write_tombstone_def io_steps paired_world_def names_apart names_apart [symmetric] stored_def create_temp_first Let_def)

lemma recovery_run:
  assumes "w_faults w = []" "vw_euid (w_view w) = 7" "vw_now (w_view w) RESET_FENCE = Some ((stored (tombstone ClearAll (replicate 16 x)))\<lparr>fl_stamp := t\<rparr>)"
  shows "vw_now (w_view (run_clearing RecoverClearAll w)) RESET_FENCE = None \<and> vw_now (w_view (run_clearing RecoverClearAll w)) PAIRED_CLIENTS = None"
proof -
  have op: "tombstone_operation (Some (tombstone ClearAll (replicate 16 x))) = ClearAll"
    using hex_of_lower [of "replicate 16 x" 16] by (simp add: tombstone_operation_def tombstone_def valid_generation_def)
  have own: "private_file_ok 7 (stat.truncate ((stored j)\<lparr>fl_stamp := t\<rparr>))" "fl_text ((stored j)\<lparr>fl_stamp := t\<rparr>) = Some j" for j
    by (simp_all add: private_file_ok_def stored_def new_entry_def stat.defs S_IFMT_def S_IFREG_def s_imode_def)
  show ?thesis
    using assms own op
    by (simp add: recover_clear_all_def clear_window_def clear_clients_def clear_clear_all_def identity_reset_operation_def io_steps
      names_apart names_apart [symmetric] split: option.split)
qed

theorem clearing_crash_safe_witness:
  "vw_now (w_view interrupted) RESET_FENCE \<noteq> None \<and> None \<notin> after_crash (w_view interrupted) PAIRED_CLIENTS
   \<and> None \<in> after_crash (w_view (run_clearing RecoverClearAll interrupted)) RESET_FENCE
   \<and> after_crash (w_view (run_clearing RecoverClearAll interrupted)) PAIRED_CLIENTS = {None}
   \<and> after_crash (w_view (run_clearing RecoverClearAll interrupted)) PAIRING_WINDOW = {None}"
proof -
  let ?v = "w_view (run_clearing RecoverClearAll interrupted)"
  have runs: "vw_now ?v RESET_FENCE = None" "vw_now ?v PAIRED_CLIENTS = None" "vw_now (w_view interrupted) RESET_FENCE \<noteq> None"
    using recovery_run [of interrupted 1 3] interrupted_run by simp_all
  have gone: "None \<in> after_crash v n" if "vw_now v n = None" for v n
    using that by (auto simp: after_crash_def held_def file_outcomes_def)
  have before: "None \<notin> after_crash (w_view interrupted) PAIRED_CLIENTS"
    using interrupted_run by (auto simp: after_crash_def held_def file_outcomes_def split: if_splits)
  have "RecoverClearAll \<in> {RecoverReset, RecoverClearAll} \<longrightarrow> vw_now (w_view interrupted) RESET_FENCE \<noteq> None"
    using runs by simp
  from clearing_crash_safe [OF this] have final: "None \<notin> after_crash ?v RESET_FENCE
      \<or> after_crash ?v PAIRED_CLIENTS \<subseteq> after_crash (w_view interrupted) PAIRED_CLIENTS
      \<or> after_crash ?v PAIRED_CLIENTS = {None} \<and> after_crash ?v PAIRING_WINDOW = {None}"
    unfolding list.set by blast
  have "None \<in> after_crash ?v RESET_FENCE" "None \<in> after_crash ?v PAIRED_CLIENTS" using gone runs by blast+
  then show ?thesis using final before runs by blast
qed

end
