(* ===== verification/ServerIdentity.thy ===== *)
theory ServerIdentity
  imports PairingReset
begin

text \<open>
  The life of the server identity of \<^verbatim>\<open>companion/protocol/server_identity.py\<close> over power
  losses: whatever route startup took, the identity it returned is the one the directory then holds
  in every outcome. Also here: the one route that replaces an identity nobody asked to replace.
\<close>

subsection \<open>The identity is found again\<close>

definition identity_found :: "server_identity \<Rightarrow> view \<Rightarrow> bool" where
  "identity_found i v \<longleftrightarrow> (\<forall>x \<in> held v SERVER_IDENTITY. \<exists>e. x = Some e \<and> fl_synced e
     \<and> private_file_ok (vw_euid v) (stat.truncate e)
     \<and> load_identity False (fl_text e) = Inr (si_identifier i, si_private_key i, Some (si_generation i)))"

definition valid_identity :: "server_identity \<Rightarrow> bool" where
  "valid_identity i \<longleftrightarrow> si_identifier i \<noteq> [] \<and> length (si_private_key i) = 32 \<and> is_lower_hex 32 (si_generation i)"

lemma load_identity_json:
  "valid_identity i \<Longrightarrow> load_identity False (Some (identity_json i)) = Inr (si_identifier i, si_private_key i, Some (si_generation i))"
  by (simp add: load_identity_def identity_json_def valid_identity_def)

lemma load_identity_legacy:
  "load_identity True text = Inr (u, k, Some g) \<Longrightarrow> load_identity False text = Inr (u, k, Some g)"
  by (auto simp: load_identity_def split: option.splits json.splits prod.splits if_splits)

text \<open>What may be found of the identity record satisfies \<open>C\<close>.\<close>

definition identity_all :: "(nat \<Rightarrow> entry option \<Rightarrow> bool) \<Rightarrow> view \<Rightarrow> bool" where
  "identity_all C v \<longleftrightarrow> (\<forall>x \<in> held v SERVER_IDENTITY. C (vw_euid v) x)"

definition synced :: "nat \<Rightarrow> entry option \<Rightarrow> bool" where
  "synced k x \<longleftrightarrow> (\<forall>e. x = Some e \<longrightarrow> fl_synced e)"

definition has_identity :: "server_identity \<Rightarrow> nat \<Rightarrow> entry option \<Rightarrow> bool" where
  "has_identity i k x \<longleftrightarrow> (valid_identity i \<longrightarrow> (\<exists>e. x = Some e \<and> fl_synced e \<and> private_file_ok k (stat.truncate e)
     \<and> load_identity False (fl_text e) = Inr (si_identifier i, si_private_key i, Some (si_generation i))))"

abbreviation anything :: "view \<Rightarrow> bool" where "anything \<equiv> \<lambda>_. True"

text \<open>An operation whose every result is an identity that the view then holds durably.\<close>

definition gives :: "server_identity result \<Rightarrow> view \<Rightarrow> bool" where
  "gives r v \<longleftrightarrow> (case r of Inl _ \<Rightarrow> True | Inr i \<Rightarrow> identity_all (has_identity i) v)"

lemma gives_simps [simp]: "gives (Inl e) v" "gives (Inr i) v \<longleftrightarrow> identity_all (has_identity i) v"
  by (simp_all add: gives_def)

lemma identity_at_most:
  assumes "at_most v0 n E v" "identity_all C v0" "\<And>x. n = SERVER_IDENTITY \<Longrightarrow> x \<in> E \<Longrightarrow> C (vw_euid v0) x"
  shows "identity_all C v"
proof -
  have "vw_euid v = vw_euid v0" "held v SERVER_IDENTITY \<subseteq> held v0 SERVER_IDENTITY \<union> (if SERVER_IDENTITY = n then E else {})"
    using assms(1) by (simp_all add: at_most_def)
  then show ?thesis using assms(2,3) by (auto simp: identity_all_def split: if_splits)
qed

lemma identity_sync: "identity_all C v \<Longrightarrow> identity_all C (sync_directory v)"
  by (simp add: identity_all_def held_sync held_now)

lemma unlink_identity:
  assumes "n \<noteq> SERVER_IDENTITY \<or> (\<forall>k. C k None)"
  shows "safely anything (identity_all C) (durable_unlink n) (ends (identity_all C) anything)"
proof (rule safelyI)
  fix w r w' assume pre: "identity_all C (w_view w)" and run: "durable_unlink n w = (r, w')"
  have "at_most (w_view w) n {None} ((w_view w)\<lparr>vw_now := (vw_now (w_view w))(n := None), vw_past := []\<rparr>)"
    unfolding view_sync [symmetric] by (intro at_most_sync at_most_set) simp_all
  then have "at_most (w_view w) n {None} (w_view w') \<and> (\<exists>new. w_snaps w' = w_snaps w @ new)"
    using unlink_run [OF run] by metis
  then show "(\<exists>new. w_snaps w' = w_snaps w @ new \<and> list_all anything new) \<and> ends (identity_all C) anything r (w_view w')"
    using identity_at_most [OF _ pre, of n "{None}" "w_view w'"] assms by (auto simp: ends_def list_all_iff split: sum.splits)
qed

lemma write_other:
  assumes "n \<noteq> SERVER_IDENTITY" "record_name n"
  shows "safely anything (identity_all C) (durable_write n data) (ends (identity_all C) anything)"
proof (rule safelyI)
  fix w r w' assume pre: "identity_all C (w_view w)" and run: "durable_write n data w = (r, w')"
  from run assms(2) show "(\<exists>new. w_snaps w' = w_snaps w @ new \<and> list_all anything new) \<and> ends (identity_all C) anything r (w_view w')"
  proof (rule write_run)
    fix new assume "w_snaps w' = w_snaps w @ new" "at_most (w_view w) n (new_files (w_view w) data) (w_view w')"
    then show ?thesis using identity_at_most [OF _ pre] assms(1) by (auto simp: ends_def list_all_iff split: sum.splits)
  qed
qed

lemma write_gives:
  "safely anything P (write_identity i) (ends (identity_all (has_identity i)) anything)"
  unfolding write_identity_def
proof (rule safelyI)
  fix w r w' assume run: "durable_write SERVER_IDENTITY (Some (identity_json i)) w = (r, w')"
  from run record_names_ok(3) show "(\<exists>new. w_snaps w' = w_snaps w @ new \<and> list_all anything new)
    \<and> ends (identity_all (has_identity i)) anything r (w_view w')"
  proof (rule write_run)
    fix new
    assume "w_snaps w' = w_snaps w @ new"
      and res: "r = Inl OsError \<or> r = Inr () \<and> replaced (w_view w) SERVER_IDENTITY (Some (identity_json i)) (w_view w') \<and> vw_past (w_view w') = []"
    moreover have "identity_all (has_identity i) (w_view w')" if "r = Inr ()"
      using res that load_identity_json [of i]
      by (auto simp: identity_all_def has_identity_def replaced_def written_def held_settled)
    ultimately show ?thesis by (auto simp: ends_def list_all_iff split: sum.splits)
  qed
qed

lemma fsync_identity: "safely anything (identity_all C) fsync_parent (ends (identity_all C) anything)"
  unfolding fsync_parent_def open_directory_def
  by (rule safely_after_syscall, rule safely_fsync) (auto intro: identity_sync)

text \<open>Sequences whose failures promise nothing.\<close>

lemma gives_seq:
  assumes "safely anything P m (ends G anything)" "\<And>x. safely anything G (f x) gives"
  shows "safely anything P (io_bind m f) gives"
  by (rule safely_bind [OF assms(1)]) (simp_all add: assms(2))

lemma gives_then: "safely anything P m (ends G anything) \<Longrightarrow> safely anything G k gives \<Longrightarrow> safely anything P (io_then m k) gives"
  unfolding io_then_def by (rule gives_seq)

lemma gives_done: "safely anything (identity_all (has_identity i)) (io_return i) gives"
  by (rule safely_return) simp

lemma gives_look:
  assumes "looks m I" "\<And>x. safely anything (\<lambda>v. P v \<and> I (Inr x) v) (f x) gives"
  shows "safely anything P (io_bind m f) gives"
  by (rule safely_look_bind [OF assms(1)]) (simp_all add: assms(2))

lemma gives_pre: "safely anything P m gives \<Longrightarrow> (\<And>v. P' v \<Longrightarrow> P v) \<Longrightarrow> safely anything P' m gives"
  by (erule safely_conseq) simp_all

lemma safely_weaken_pre: "safely S P m Q \<Longrightarrow> (\<And>v. P' v \<Longrightarrow> P v) \<Longrightarrow> safely S P' m Q"
  by (erule safely_conseq) simp_all

lemma safely_skip: "safely anything P (io_return x) (ends P anything)"
  by (rule safely_done)

lemma clear_clear_all_identity: "safely anything (identity_all C) clear_clear_all (ends (identity_all C) anything)"
  unfolding clear_clear_all_def
  by (intro safely_look_bind [OF looks_operation] safely_seq [where G = "identity_all C"] safely_if
      safely_weaken [OF unlink_identity [where C = C]] safely_weaken [OF safely_skip]) simp_all

lemma clear_identity_reset_identity: "safely anything (identity_all C) clear_identity_reset (ends (identity_all C) anything)"
  unfolding clear_identity_reset_def
  by (intro safely_look_bind [OF looks_operation] safely_if
      safely_weaken [OF unlink_identity [where C = C]] safely_weaken [OF safely_skip]) simp_all

lemma recover_clear_all_identity: "safely anything (identity_all C) recover_clear_all (ends (identity_all C) anything)"
  unfolding recover_clear_all_def clear_window_def clear_clients_def
  by (intro safely_seq_then [where G = "identity_all C"] unlink_identity clear_clear_all_identity safely_skip) simp_all

lemma create_gives: "safely anything P create_server_identity gives"
  unfolding create_server_identity_def fresh_identity_def
proof (rule gives_seq)
  show "safely anything P (io_bind random_bytes (\<lambda>u. io_bind random_bytes (\<lambda>k. io_bind random_bytes (\<lambda>g.
     io_return \<lparr>si_identifier = uuid4_text u, si_private_key = k, si_generation = hex_of g\<rparr>)))) (ends anything anything)"
    by (intro safely_look_bind [OF looks_random] safely_return) (simp_all add: ends_def)
  show "safely anything anything (io_then (write_identity i) (io_return i)) gives" for i
    by (rule gives_then [OF write_gives gives_done])
qed

lemma recover_gives: "safely anything (identity_all synced) recover_identity_reset gives"
proof -
  have tail: "safely anything (\<lambda>v. gives (Inr i) v)
      (io_then clear_clear_all (io_then clear_identity_reset (io_return i))) gives" for i
    by (rule gives_pre [OF gives_then [OF clear_clear_all_identity gives_then [OF clear_identity_reset_identity gives_done]]]) simp
  have "safely anything anything (io_bind create_server_identity (\<lambda>i. io_then clear_clear_all (io_then clear_identity_reset (io_return i)))) gives"
    by (rule safely_bind [OF create_gives tail]) simp
  then show ?thesis
    unfolding recover_identity_reset_def clear_window_def clear_clients_def reset_identity_locked_def
    by (intro gives_then [where G = "identity_all synced"] unlink_identity)
      (auto simp: synced_def intro: gives_pre)
qed

lemma begin_clear_all_identity: "safely anything (identity_all C) begin_clear_all (ends (identity_all C) anything)"
proof -
  have w: "safely anything (identity_all C) (write_tombstone op) (ends (identity_all C) anything)" for op
    unfolding write_tombstone_def
    by (intro safely_look_bind [OF looks_random] safely_weaken [OF write_other [where C = C]]) simp_all
  have "safely anything (identity_all C) (case op of
       Some IdentityReset \<Rightarrow>
         io_bind strict_tombstone_exists (\<lambda>e.
           io_then (if e then fsync_parent else write_tombstone IdentityReset) (io_return False))
     | Some ClearAll \<Rightarrow> io_then fsync_parent (io_return True)
     | None \<Rightarrow> io_then (write_tombstone ClearAll) (io_return True)) (ends (identity_all C) anything)" for op
  proof -
    have "safely anything (identity_all C) (io_bind strict_tombstone_exists (\<lambda>e.
           io_then (if e then fsync_parent else write_tombstone IdentityReset) (io_return False))) (ends (identity_all C) anything)"
      by (rule safely_look_bind [OF looks_exists], rule safely_weaken [where P = "identity_all C"],
          rule safely_seq_then [OF _ safely_skip]) (auto intro: safely_if w fsync_identity)
    then show ?thesis
      by (auto split: option.split reset_operation.split intro: safely_seq_then [OF w safely_skip] safely_seq_then [OF fsync_identity safely_skip])
  qed
  then show ?thesis
    unfolding begin_clear_all_def
    by (rule after_operation [OF safely_weaken_pre]) simp_all
qed

text \<open>Looking at an existing identity.\<close>

lemma looks_private:
  "looks (stat_private n) (\<lambda>r v. \<forall>e. r = Inr e \<longrightarrow> vw_now v n = Some e \<and> private_file_ok (vw_euid v) (stat.truncate e))"
  "looks (read_private n) (\<lambda>r v. \<forall>e. r = Inr e \<longrightarrow> vw_now v n = Some e \<and> private_file_ok (vw_euid v) (stat.truncate e))"
  by (auto simp: looks_def stat_private_def read_private_def open_directory_def open_private_at_def io_then_def io_bind_def
      io_look_def syscall_def io_raise_def io_return_def split: list.splits sum.splits option.splits if_splits prod.splits)

lemma gives_handle:
  assumes "looks m I" "\<And>e. safely anything (\<lambda>v. P v \<and> I (Inl e) v) (h e) gives"
    and "\<And>x. safely anything (\<lambda>v. P v \<and> I (Inr x) v) (k x) gives"
  shows "safely anything P (io_handle m h k) gives"
proof (rule safelyI)
  fix w r w' assume pre: "P (w_view w)" and run: "io_handle m h k w = (r, w')"
  obtain r1 w1 where m: "m w = (r1, w1)" by fastforce
  then have same: "w_view w1 = w_view w" "w_snaps w1 = w_snaps w" "I r1 (w_view w)"
    using assms(1) by (auto simp: looks_def)
  show "(\<exists>new. w_snaps w' = w_snaps w @ new \<and> list_all anything new) \<and> gives r (w_view w')"
  proof (cases r1)
    case (Inl e)
    then have "h e w1 = (r, w')" using run m by (simp add: io_handle_def)
    from safelyD [OF assms(2) _ this] pre same Inl show ?thesis by metis
  next
    case (Inr x)
    then have "k x w1 = (r, w')" using run m by (simp add: io_handle_def)
    from safelyD [OF assms(3) _ this] pre same Inr show ?thesis by metis
  qed
qed

lemma gives_raise: "safely anything P (io_raise e) gives"
  by (rule safely_raise) simp

abbreviation settled_identity :: "view \<Rightarrow> bool" where
  "settled_identity \<equiv> \<lambda>v. identity_all synced v \<and> vw_past v = []"

lemma fsync_settles: "safely anything (identity_all synced) fsync_parent (ends settled_identity anything)"
  unfolding fsync_parent_def open_directory_def
  by (rule safely_after_syscall, rule safely_fsync) (use identity_sync in \<open>auto simp: sync_directory_def\<close>)

lemma read_back:
  "safely anything (\<lambda>v. settled_identity v \<and> vw_now v SERVER_IDENTITY = Some e \<and> private_file_ok (vw_euid v) (stat.truncate e))
    (\<lambda>w. case load_identity True (fl_text e) of
           Inl x \<Rightarrow> (Inl x, w)
         | Inr (uuid, key, Some g) \<Rightarrow> (Inr \<lparr>si_identifier = uuid, si_private_key = key, si_generation = g\<rparr>, w)
         | Inr (uuid, key, None) \<Rightarrow>
             io_bind random_bytes (\<lambda>g.
               let i = \<lparr>si_identifier = uuid, si_private_key = key, si_generation = hex_of g\<rparr>
               in io_then (write_identity i) (io_return i)) w) gives"
proof -
  consider x where "load_identity True (fl_text e) = Inl x"
    | u k g where "load_identity True (fl_text e) = Inr (u, k, Some g)"
    | u k where "load_identity True (fl_text e) = Inr (u, k, None)"
    by (metis old.sum.exhaust prod_cases3 option.exhaust)
  then show ?thesis
  proof cases
    case (1 x)
    then show ?thesis by (intro safelyI) (auto simp: gives_def)
  next
    case (2 u k g)
    then show ?thesis using load_identity_legacy [OF 2]
      by (intro safelyI) (auto simp: identity_all_def has_identity_def held_settled synced_def)
  next
    case (3 u k)
    have "safely anything P (io_bind random_bytes (\<lambda>g.
               let i = \<lparr>si_identifier = u, si_private_key = k, si_generation = hex_of g\<rparr>
               in io_then (write_identity i) (io_return i))) gives" for P
      unfolding Let_def by (rule gives_look [OF looks_random]) (rule gives_then [OF write_gives gives_done])
    with 3 show ?thesis by simp
  qed
qed

lemma open_gives: "safely anything (identity_all synced) open_identity gives"
  unfolding open_identity_def stat_identity_def
proof (rule gives_handle [OF looks_private(1)])
  show "safely anything (\<lambda>v. identity_all synced v \<and> (\<forall>x. Inl e = Inr x \<longrightarrow> vw_now v SERVER_IDENTITY = Some x \<and> private_file_ok (vw_euid v) (stat.truncate x)))
      (if e = FileNotFound then create_server_identity else io_raise IdentityError) gives" for e
    by (simp add: create_gives gives_raise)
next
  fix found
  show "safely anything (\<lambda>v. identity_all synced v \<and> (\<forall>x. Inr found = Inr x \<longrightarrow> vw_now v SERVER_IDENTITY = Some x \<and> private_file_ok (vw_euid v) (stat.truncate x)))
     (io_then fsync_parent (io_handle (read_private SERVER_IDENTITY)
        (\<lambda>e. io_raise (if e = FileNotFound then FileNotFound else IdentityError))
        (\<lambda>entry w. case load_identity True (fl_text entry) of
           Inl e \<Rightarrow> (Inl e, w)
         | Inr (uuid, key, Some g) \<Rightarrow> (Inr \<lparr>si_identifier = uuid, si_private_key = key, si_generation = g\<rparr>, w)
         | Inr (uuid, key, None) \<Rightarrow>
             io_bind random_bytes (\<lambda>g.
               let i = \<lparr>si_identifier = uuid, si_private_key = key, si_generation = hex_of g\<rparr>
               in io_then (write_identity i) (io_return i)) w))) gives"
    by (rule gives_pre [OF gives_then [OF fsync_settles gives_handle [OF looks_private(2) gives_raise gives_pre [OF read_back]]]])
      auto
qed

lemma fence_looks: "looks (fence_present n) (\<lambda>r v. True)"
  using looks_stat [of n] by (fastforce simp: looks_def fence_present_def io_handle_def io_return_def split: sum.splits prod.splits)

lemma clearing_looks: "looks clear_all_in_progress (\<lambda>r v. True)"
proof (unfold looks_def, intro allI impI)
  fix w r w' assume run: "clear_all_in_progress w = (r, w')"
  obtain r1 w1 where op: "identity_reset_operation w = (r1, w1)" by fastforce
  then have "w_view w1 = w_view w \<and> w_snaps w1 = w_snaps w" using looks_operation by (auto simp: looks_def)
  moreover have "w_view w' = w_view w1 \<and> w_snaps w' = w_snaps w1"
    using run op fence_looks [of LEGACY_FENCE]
    by (auto simp: clear_all_in_progress_def io_bind_def io_return_def looks_def legacy_clear_all_in_progress_def
        split: sum.splits if_splits)
  ultimately show "w_view w' = w_view w \<and> w_snaps w' = w_snaps w \<and> True" by simp
qed

lemma load_gives: "safely anything (identity_all synced) load_or_create_identity gives"
proof -
  have r: "safely anything (identity_all synced) (io_then recover_clear_all open_identity) gives"
    by (rule gives_then [OF recover_clear_all_identity open_gives])
  show ?thesis
    unfolding load_or_create_identity_def identity_reset_in_progress_def
    by (rule gives_look [OF fence_looks], simp, intro conjI impI, rule gives_look [OF looks_operation],
        rule gives_pre [where P = "identity_all synced"], rule safely_if, rule r, rule recover_gives, simp,
        rule gives_look [OF clearing_looks], simp add: open_gives, intro impI,
        rule gives_seq [OF begin_clear_all_identity], rule safely_if, rule r, rule recover_gives)
qed

text \<open>A machine that starts again after a power loss, with what it found.\<close>

definition rebooted :: "world \<Rightarrow> entries \<Rightarrow> world" where
  "rebooted w es = \<lparr>w_view = \<lparr>vw_euid = vw_euid (w_view w), vw_now = es, vw_past = []\<rparr>, w_snaps = [], w_faults = [],
     w_temps = [], w_stamp = w_stamp w, w_random = []\<rparr>"

lemma absent_fence:
  "vw_now (w_view w) n = None \<Longrightarrow> w_faults w = [] \<Longrightarrow> fence_present n w = (Inr False, w)"
  by (simp add: fence_present_def io_handle_def stat_private_def open_private_at_def open_directory_def io_then_def
      io_bind_def syscall_def io_look_def io_raise_def io_return_def)

text \<open>C28: An identity that startup returned, loaded, upgraded, created or replaced by a recovery, is the one a
  later process loads after any power loss, as long as no checkpoint is pending: the same identifier, key
  and generation.\<close>

theorem identity_survives:
  assumes "load_or_create_identity w = (Inr i, w')" and "valid_identity i"
    and "list_all (\<lambda>es. \<forall>e. es SERVER_IDENTITY = Some e \<longrightarrow> fl_synced e) (vw_now (w_view w) # vw_past (w_view w))"
    and "es SERVER_IDENTITY \<in> after_crash (w_view w') SERVER_IDENTITY" and "es RESET_FENCE = None" and "es LEGACY_FENCE = None"
  shows "fst (load_persisted_identity (rebooted w' es)) = Inr i"
proof -
  have "identity_all synced (w_view w)"
    using assms(3) by (auto simp: identity_all_def synced_def held_def list_all_iff)
  then have "identity_all (has_identity i) (w_view w')"
    using safelyD [OF load_gives _ assms(1)] by auto
  with assms(2,4) obtain e where e: "es SERVER_IDENTITY = Some e" "private_file_ok (vw_euid (w_view w')) (stat.truncate e)"
    "load_identity False (fl_text e) = Inr (si_identifier i, si_private_key i, Some (si_generation i))"
    by (fastforce simp: identity_all_def has_identity_def after_crash_def file_outcomes_def)
  have "fst (load_persisted_identity (rebooted w' es)) =
      Inr \<lparr>si_identifier = si_identifier i, si_private_key = si_private_key i, si_generation = si_generation i\<rparr>"
    using e assms(5,6)
    by (simp add: load_persisted_identity_def pairing_reset_in_progress_def identity_reset_in_progress_def
        legacy_clear_all_in_progress_def io_bind_def absent_fence rebooted_def io_return_def io_handle_def stat_identity_def
        stat_private_def read_private_def open_private_at_def open_directory_def io_then_def syscall_def io_look_def
        fsync_parent_def fsync_dir_strict_def change_def sync_directory_def)
  then show ?thesis by simp
qed

text \<open>Records that are gone stay gone.\<close>

definition gone :: "string set \<Rightarrow> view \<Rightarrow> bool" where
  "gone A v \<longleftrightarrow> (\<forall>n \<in> A. vw_now v n = None)"

lemma unlink_gone: "safely anything (gone A) (durable_unlink n) (ends (gone (insert n A)) anything)"
  by (rule safelyI, erule unlink_run) (auto simp: gone_def ends_def list_all_iff split: sum.splits)

lemma write_gone:
  assumes "record_name n" "n \<notin> A" "A \<subseteq> Collect record_name"
  shows "safely anything (gone A) (durable_write n data) (ends (gone A) anything)"
proof (rule safelyI)
  fix w r w' assume pre: "gone A (w_view w)" and run: "durable_write n data w = (r, w')"
  from run assms(1) show "(\<exists>new. w_snaps w' = w_snaps w @ new \<and> list_all anything new) \<and> ends (gone A) anything r (w_view w')"
    by (rule write_run) (use pre assms in \<open>auto simp: gone_def ends_def replaced_def list_all_iff subset_iff split: sum.splits\<close>)
qed

lemma gone_mono: "gone B v \<Longrightarrow> A \<subseteq> B \<Longrightarrow> gone A v"
  by (auto simp: gone_def)

abbreviation pairing_gone :: "view \<Rightarrow> bool" where
  "pairing_gone \<equiv> gone {PAIRED_CLIENTS, PAIRING_WINDOW}"

lemma unlink_more: "A \<subseteq> insert n B \<Longrightarrow> safely anything (gone B) (durable_unlink n) (ends (gone A) anything)"
  by (rule safely_weaken [OF unlink_gone]) (auto intro: gone_mono)

lemma create_gone: "safely anything pairing_gone create_server_identity (ends pairing_gone anything)"
proof -
  have "safely anything pairing_gone (write_identity i) (ends pairing_gone anything)" for i
    unfolding write_identity_def by (rule write_gone) auto
  then have w: "safely anything pairing_gone (io_then (write_identity i) (io_return i)) (ends pairing_gone anything)" for i
    by (rule safely_seq_then [OF _ safely_skip])
  show ?thesis
    unfolding create_server_identity_def
    by (rule safely_seq [OF _ w], unfold fresh_identity_def)
      (intro safely_look_bind [OF looks_random] safely_return; simp)
qed

lemma clear_fences_gone:
  "safely anything pairing_gone clear_clear_all (ends pairing_gone anything)"
  "safely anything pairing_gone clear_identity_reset (ends pairing_gone anything)"
proof -
  have u: "safely anything P (durable_unlink n) (ends pairing_gone anything)"
    if "\<And>v. P v \<Longrightarrow> pairing_gone v" for n P
    by (rule safely_weaken_pre [OF unlink_more that]) auto
  show "safely anything pairing_gone clear_clear_all (ends pairing_gone anything)"
    unfolding clear_clear_all_def
  proof (rule safely_look_bind [OF looks_operation], rule safely_seq [where G = pairing_gone])
    show "safely anything (\<lambda>v. pairing_gone v \<and> (Inr op = Inr (Some ClearAll) \<longrightarrow> vw_now v RESET_FENCE \<noteq> None))
        (if op = Some ClearAll then durable_unlink RESET_FENCE else io_return False) (ends pairing_gone anything)" for op
      by (intro safely_if u safely_done; simp)
    show "safely anything pairing_gone (io_bind (durable_unlink LEGACY_FENCE) (\<lambda>legacy. io_return (legacy \<or> cleared)))
        (ends pairing_gone anything)" for cleared
      by (rule safely_seq [OF u safely_done]) simp_all
  qed simp
  show "safely anything pairing_gone clear_identity_reset (ends pairing_gone anything)"
    unfolding clear_identity_reset_def
    by (rule safely_look_bind [OF looks_operation], intro safely_if u safely_done; simp)
qed

lemma recover_gone: "safely anything anything recover_identity_reset (ends pairing_gone anything)"
  unfolding recover_identity_reset_def clear_window_def clear_clients_def reset_identity_locked_def
  by (rule safely_weaken_pre [where P = "gone {}"],
      rule safely_seq_then [OF unlink_more [where A = "{PAIRING_WINDOW}"] safely_seq_then [OF unlink_more [where A = "{PAIRED_CLIENTS, PAIRING_WINDOW}"]
        safely_seq_then [OF unlink_more safely_seq [OF create_gone safely_seq_then [OF clear_fences_gone(1)
        safely_seq_then [OF clear_fences_gone(2) safely_skip]]]]]])
    (auto simp: gone_def)

lemma fault_starts_recovery:
  assumes "vw_now (w_view w) RESET_FENCE = None" "w_faults w = [True]"
  shows "load_or_create_identity w = recover_identity_reset (w\<lparr>w_faults := []\<rparr>)"
proof -
  let ?w1 = "w\<lparr>w_faults := []\<rparr>"
  have "fence_present RESET_FENCE w = (Inr True, ?w1)"
    by (simp add: fence_present_def io_handle_def stat_private_def open_directory_def io_then_def io_bind_def syscall_def
        assms(2) io_return_def)
  moreover have "identity_reset_operation ?w1 = (Inr None, ?w1)"
    using assms(1)
    by (simp add: identity_reset_operation_def io_handle_def read_private_def open_directory_def open_private_at_def
        io_then_def io_bind_def syscall_def io_look_def io_raise_def io_return_def)
  ultimately show ?thesis
    by (simp add: load_or_create_identity_def identity_reset_in_progress_def io_bind_def)
qed

text \<open>No checkpoint is pending, and the first system call of startup, the one that looks for it, fails with an
  error other than a missing file. Then a startup that succeeds has nevertheless replaced the identity:
  it has removed the paired clients and the window.\<close>

theorem spurious_reset:
  assumes "vw_now (w_view w) RESET_FENCE = None" and "w_faults w = [True]"
    and "load_or_create_identity w = (Inr i, w')"
  shows "vw_now (w_view w') PAIRED_CLIENTS = None \<and> vw_now (w_view w') PAIRING_WINDOW = None"
proof -
  have "recover_identity_reset (w\<lparr>w_faults := []\<rparr>) = (Inr i, w')"
    using assms(3) fault_starts_recovery [OF assms(1,2)] by simp
  then show ?thesis using safelyD [OF recover_gone] by (force simp: gone_def)
qed

subsection \<open>Witnesses\<close>

text \<open>Without faults, operations return.\<close>

definition quiet :: "'a io \<Rightarrow> bool" where
  "quiet m \<longleftrightarrow> (\<forall>w. w_faults w = [] \<longrightarrow> returns (fst (m w)) \<and> w_faults (snd (m w)) = [])"

lemma returns_value: "returns r \<Longrightarrow> \<exists>x. r = Inr x"
  by (cases r) simp_all

lemma quiet_bind: "quiet m \<Longrightarrow> (\<And>x. quiet (f x)) \<Longrightarrow> quiet (io_bind m f)"
  by (fastforce simp: quiet_def io_bind_def split: sum.splits prod.splits)

lemma quiet_then: "quiet m \<Longrightarrow> quiet k \<Longrightarrow> quiet (io_then m k)"
  unfolding io_then_def by (rule quiet_bind)

lemma quiet_return: "quiet (io_return x)"
  by (simp add: quiet_def io_return_def)

lemma quiet_unlink: "quiet (durable_unlink n)"
  by (auto simp: quiet_def durable_unlink_def open_directory_def io_then_def io_bind_def syscall_def io_look_def change_def
      fsync_dir_strict_def io_return_def split: option.splits)

lemma quiet_operation: "quiet identity_reset_operation"
  by (auto simp: quiet_def identity_reset_operation_def io_handle_def read_private_def open_directory_def open_private_at_def
      io_then_def io_bind_def syscall_def io_look_def io_raise_def io_return_def split: option.splits if_splits)

lemma quiet_clears: "quiet (io_then clear_clear_all (io_then clear_identity_reset (io_return i)))"
  unfolding clear_clear_all_def clear_identity_reset_def
  by (intro quiet_then quiet_bind quiet_operation quiet_return quiet_unlink) (simp_all add: quiet_return quiet_unlink)

lemma unlink_ok:
  "w_faults w = [] \<Longrightarrow> vw_now (w_view w) n = Some e \<Longrightarrow> durable_unlink n w = (Inr True,
     w\<lparr>w_view := sync_directory (set_entry n None (w_view w)),
       w_snaps := w_snaps w @ [set_entry n None (w_view w), sync_directory (set_entry n None (w_view w))]\<rparr>)"
  by (simp add: durable_unlink_def open_directory_def io_then_def io_bind_def syscall_def io_look_def change_def
      fsync_dir_strict_def io_return_def)

lemma write_ok:
  "w_faults w = [] \<Longrightarrow> w_temps w = token # rest \<Longrightarrow> vw_now (w_view w) (temp_name n token) = None \<Longrightarrow>
     \<exists>w'. durable_write n text w = (Inr (), w') \<and> w_faults w' = []"
  by (simp add: durable_write_def open_directory_def io_then_def io_bind_def syscall_def change_def create_entry_def
      write_at_def io_cleanup_def fsync_dir_strict_def io_return_def numeral_eq_Suc Let_def)

lemma look_ok:
  "w_faults w = [] \<Longrightarrow> vw_now (w_view w) n = Some e \<Longrightarrow> private_file_ok (vw_euid (w_view w)) (stat.truncate e) \<Longrightarrow>
     stat_private n w = (Inr e, w) \<and> read_private n w = (Inr e, w)"
  by (simp add: stat_private_def read_private_def open_directory_def open_private_at_def io_then_def io_bind_def
      syscall_def io_look_def io_raise_def io_return_def)

lemma fsync_ok: "w_faults w = [] \<Longrightarrow> fsync_parent w =
    (Inr (), w\<lparr>w_view := sync_directory (w_view w), w_snaps := w_snaps w @ [sync_directory (w_view w)]\<rparr>)"
  by (simp add: fsync_parent_def open_directory_def io_then_def io_bind_def syscall_def change_def fsync_dir_strict_def)

lemma not_temp [simp]: "temp_name n token \<noteq> PAIRED_CLIENTS" "temp_name n token \<noteq> PAIRING_WINDOW" "temp_name n token \<noteq> SERVER_IDENTITY"
  using record_names_ok temp_not_record by metis+

lemma io_then_assoc: "io_bind (io_then a m) f = io_then a (io_bind m f)" "io_then (io_then a b) c = io_then a (io_then b c)"
  by (rule ext, simp add: io_then_def io_bind_def split: prod.splits sum.splits)+

lemma recovery_continues:
  assumes "io_then clear_window (io_then clear_clients (io_then reset_identity_locked fresh_identity)) w = (Inr i, w1)"
    and "write_identity i w1 = (Inr (), w2)"
  shows "recover_identity_reset w = io_then clear_clear_all (io_then clear_identity_reset (io_return i)) w2"
proof -
  have "recover_identity_reset = io_bind (io_then clear_window (io_then clear_clients (io_then reset_identity_locked fresh_identity)))
     (\<lambda>i. io_then (write_identity i) (io_then clear_clear_all (io_then clear_identity_reset (io_return i))))"
    by (rule ext, simp add: recover_identity_reset_def create_server_identity_def io_then_assoc)
      (simp add: io_then_def io_bind_def io_return_def split: prod.splits sum.splits)
  from fun_cong [OF this, of w]
  have "recover_identity_reset w = io_then (write_identity i) (io_then clear_clear_all (io_then clear_identity_reset (io_return i))) w1"
    unfolding io_bind_def assms(1) by (simp only: prod.case sum.case)
  also have "\<dots> = io_then clear_clear_all (io_then clear_identity_reset (io_return i)) w2"
    by (subst io_then_def) (simp only: io_bind_def assms(2) prod.case sum.case)
  finally show ?thesis .
qed

lemma paired_startup:
  obtains w' where "load_or_create_identity (paired_world []) = (Inr old_identity, w')" "w_view w' = w_view (paired_world [])"
proof -
  have "valid_identity old_identity"
    using hex_of_lower [of "replicate 16 2" 16] by (simp add: valid_identity_def old_identity_def)
  then have "load_identity True (Some (identity_json old_identity)) =
      Inr (si_identifier old_identity, si_private_key old_identity, Some (si_generation old_identity))"
    by (simp add: load_identity_def identity_json_def valid_identity_def)
  moreover have "private_file_ok 7 (stat.truncate (stored j))" for j
    using new_entry_private [of 7 0] by (simp add: stored_def stat.truncate_def)
  ultimately show thesis
    by (intro that [of "snd (fsync_parent (paired_world []))"])
      (simp_all add: load_or_create_identity_def identity_reset_in_progress_def absent_fence paired_world_def io_bind_def
        clear_all_in_progress_def identity_reset_operation_def io_handle_def legacy_clear_all_in_progress_def io_return_def
        read_private_def open_directory_def io_then_def open_private_at_def syscall_def io_look_def io_raise_def
        open_identity_def stat_identity_def stat_private_def fsync_parent_def fsync_dir_strict_def change_def
        sync_directory_def stored_def)
qed

theorem identity_survives_witness:
  "\<exists>w'. load_or_create_identity (paired_world []) = (Inr old_identity, w')
     \<and> fst (load_persisted_identity (rebooted w' (vw_now (w_view (paired_world []))))) = Inr old_identity"
proof -
  obtain w' where run: "load_or_create_identity (paired_world []) = (Inr old_identity, w')" "w_view w' = w_view (paired_world [])"
    by (rule paired_startup)
  have "valid_identity old_identity"
    using hex_of_lower [of "replicate 16 2" 16] by (simp add: valid_identity_def old_identity_def)
  moreover have "vw_now (w_view (paired_world [])) SERVER_IDENTITY \<in> after_crash (w_view w') SERVER_IDENTITY"
    by (simp add: run(2) crash_commit paired_world_def file_outcomes_def stored_def)
  ultimately have "fst (load_persisted_identity (rebooted w' (vw_now (w_view (paired_world []))))) = Inr old_identity"
    by (intro identity_survives [OF run(1)]) (simp_all add: paired_world_def stored_def)
  with run(1) show ?thesis by blast
qed

theorem spurious_reset_witness:
  "\<exists>i w'. load_or_create_identity (paired_world [True]) = (Inr i, w')
     \<and> vw_now (w_view (paired_world [True])) PAIRED_CLIENTS \<noteq> None \<and> vw_now (w_view w') PAIRED_CLIENTS = None"
proof -
  let ?w = "paired_world [True]" and ?plain = "paired_world []"
  have w0: "vw_now (w_view ?plain) RESET_FENCE = None" "w_faults ?plain = []" by (simp_all add: paired_world_def)
  have start: "load_or_create_identity ?w = recover_identity_reset ?plain"
    using fault_starts_recovery [of ?w] by (simp add: paired_world_def)
  let ?i = "\<lparr>si_identifier = uuid4_text (replicate 16 3), si_private_key = replicate 32 4, si_generation = hex_of (replicate 16 5)\<rparr>"
  obtain w1 where w1: "io_then clear_window (io_then clear_clients (io_then reset_identity_locked fresh_identity)) ?plain = (Inr ?i, w1)"
    "w_faults w1 = []" "w_temps w1 = [''0a'', ''0b'', ''0c'']" "vw_now (w_view w1) (temp_name SERVER_IDENTITY ''0a'') = None"
    by (simp add: io_then_def io_bind_def clear_window_def clear_clients_def reset_identity_locked_def unlink_ok paired_world_def
        fresh_identity_def random_bytes_def io_return_def sync_directory_def set_entry_def)
  obtain w2 where w2: "write_identity ?i w1 = (Inr (), w2)" "w_faults w2 = []"
    unfolding write_identity_def using write_ok [OF w1(2,3,4)] by blast
  have "recover_identity_reset ?plain = io_then clear_clear_all (io_then clear_identity_reset (io_return ?i)) w2"
    using w1(1) w2(1) by (rule recovery_continues)
  moreover obtain i w' where "io_then clear_clear_all (io_then clear_identity_reset (io_return ?i)) w2 = (Inr i, w')"
    using quiet_clears [of ?i] w2(2) unfolding quiet_def by (metis returns_value prod.collapse)
  ultimately have run: "load_or_create_identity ?w = (Inr i, w')" using start by simp
  from spurious_reset [OF _ _ this] show ?thesis
    by (intro exI [of _ i] exI [of _ w']) (simp add: run, simp add: paired_world_def)
qed

end
