(* ===== verification/PairingWindow.thy ===== *)
theory PairingWindow
  imports ServerIdentity
begin

text \<open>
  \<^verbatim>\<open>pairing_window.py\<close> and the lock of \<^verbatim>\<open>companion/protocol/pairing_state.py\<close>: the
  short-lived window that an operator opens for enrollment. A PIN is four of the digits 0 to 9 (Python's
  \<open>isdigit\<close> also accepts other scripts, which no record written here contains); the draws of
  \<open>secrets.randbelow\<close> and \<open>secrets.token_hex\<close> are lists, and an operation that has used up
  its list is still drawing (\<open>None\<close>). Times are exact rationals. The lock is a system call that
  may fail; while it is held nobody else changes the records.

  Shown: a window that was opened is the one found until it expires, over any power loss, for the
  server it names and no other, with a strong PIN that differs from the previous one; a mutation runs
  only under the window it was bound to; and the one record that makes the lookup raise.
\<close>

subsection \<open>PINs\<close>

definition WINDOW_PIN_LENGTH :: nat where "WINDOW_PIN_LENGTH = 4"

definition COMMON_WEAK_WINDOW_PINS :: "string list" where
  "COMMON_WEAK_WINDOW_PINS = [''0000'', ''1234'', ''4321'', ''1212'', ''1122'', ''2580'', ''6969'']"

definition is_digit :: "char \<Rightarrow> bool" where
  "is_digit c \<longleftrightarrow> 48 \<le> (of_char c :: nat) \<and> (of_char c :: nat) \<le> 57"

definition neighbours :: "(nat \<Rightarrow> nat \<Rightarrow> bool) \<Rightarrow> string \<Rightarrow> bool" where
  "neighbours R pin = list_all (\<lambda>(a, b). R (of_char a) (of_char b)) (zip pin (tl pin))"

definition is_strong_window_pin :: "string \<Rightarrow> bool" where
  "is_strong_window_pin pin =
     (if \<not> (pin \<noteq> [] \<and> list_all is_digit pin) \<or> length pin \<noteq> WINDOW_PIN_LENGTH then False
      else if pin \<in> set COMMON_WEAK_WINDOW_PINS \<or> length (remdups pin) = 1 then False
      else \<not> neighbours (\<lambda>a b. a + 1 = b) pin \<and> \<not> neighbours (\<lambda>a b. a = b + 1) pin)"

text \<open>The draw \<open>n\<close> with leading zeros.\<close>

definition pin_of :: "nat \<Rightarrow> string" where
  "pin_of n = map (\<lambda>d. char_of (48 + d)) [n div 1000 mod 10, n div 100 mod 10, n div 10 mod 10, n mod 10]"

fun generate_window_pin :: "nat list \<Rightarrow> (string \<times> nat list) option" where
  "generate_window_pin [] = None"
| "generate_window_pin (n # ns) =
     (if is_strong_window_pin (pin_of n) then Some (pin_of n, ns) else generate_window_pin ns)"

lemma generate_shorter: "generate_window_pin ds = Some (pin, rest) \<Longrightarrow> length rest < length ds \<and> is_strong_window_pin pin"
  by (induction ds rule: generate_window_pin.induct) (auto split: if_splits)

function fresh_pin :: "string option \<Rightarrow> nat list \<Rightarrow> string option" where
  "fresh_pin previous ds =
     (case generate_window_pin ds of
        None \<Rightarrow> None
      | Some (pin, rest) \<Rightarrow> if previous = Some pin then fresh_pin previous rest else Some pin)"
  by pat_completeness auto
termination by (relation "measure (\<lambda>(p, ds). length ds)") (auto dest: generate_shorter)

declare fresh_pin.simps [simp del]

fun fresh_generation :: "string option \<Rightarrow> bytes list \<Rightarrow> string option" where
  "fresh_generation previous [] = None"
| "fresh_generation previous (token # tokens) =
     (if previous = Some (hex_of token) then fresh_generation previous tokens else Some (hex_of token))"

subsection \<open>The record\<close>

record pairing_window =
  pw_pin :: string
  pw_expires_at :: rat
  pw_generation :: string
  pw_server_identifier :: string
  pw_server_generation :: string

definition is_valid_binding :: "string \<Rightarrow> string \<Rightarrow> bool" where
  "is_valid_binding server_identifier server_generation \<longleftrightarrow> server_identifier \<noteq> [] \<and> is_lower_hex 32 server_generation"

text \<open>An integer that \<open>math.isfinite\<close> and \<open>float\<close> cannot convert.\<close>

definition float_overflows :: "int \<Rightarrow> bool" where
  "float_overflows i \<longleftrightarrow> 2 ^ 1024 - 2 ^ 970 \<le> \<bar>i\<bar>"

definition parse_expiry :: "json option \<Rightarrow> rat result" where
  "parse_expiry x =
     (case x of
        Some (JInt i) \<Rightarrow> if float_overflows i then Inl OverflowError else Inr (of_int i)
      | Some (JFloat (Some r)) \<Rightarrow> Inr r
      | _ \<Rightarrow> Inl ValueError)"

definition parse_window :: "json option \<Rightarrow> pairing_window result" where
  "parse_window text =
     (case text of
        Some (JDict d) \<Rightarrow>
          (case map_of d ''pin'' of
             Some (JStr pin) \<Rightarrow>
               if \<not> is_strong_window_pin pin then Inl ValueError
               else (case map_of d ''generation'' of
                  Some (JStr generation) \<Rightarrow>
                    if \<not> is_lower_hex 32 generation then Inl ValueError
                    else rbind (parse_expiry (map_of d ''expires_at'')) (\<lambda>expires_at.
                      case (map_of d ''server_identifier'', map_of d ''server_generation'') of
                        (Some (JStr si), Some (JStr sg)) \<Rightarrow>
                          if is_valid_binding si sg
                          then Inr \<lparr>pw_pin = pin, pw_expires_at = expires_at, pw_generation = generation,
                            pw_server_identifier = si, pw_server_generation = sg\<rparr>
                          else Inl ValueError
                      | _ \<Rightarrow> Inl ValueError)
                | _ \<Rightarrow> Inl ValueError)
           | _ \<Rightarrow> Inl ValueError)
      | _ \<Rightarrow> Inl ValueError)"

definition window_json :: "pairing_window \<Rightarrow> json" where
  "window_json w = JDict [(''expires_at'', JFloat (Some (pw_expires_at w))), (''generation'', JStr (pw_generation w)),
     (''pin'', JStr (pw_pin w)), (''server_generation'', JStr (pw_server_generation w)),
     (''server_identifier'', JStr (pw_server_identifier w))]"

subsection \<open>Operations\<close>

definition transaction :: "'a io \<Rightarrow> 'a io" where
  "transaction m = io_then syscall m"

definition window_active :: "rat \<Rightarrow> pairing_window option io" where
  "window_active now = io_bind pairing_reset_in_progress (\<lambda>resetting.
     if resetting then io_return None
     else io_handle (read_private PAIRING_WINDOW) (\<lambda>_. io_return None) (\<lambda>entry.
       case parse_window (fl_text entry) of
         Inl e \<Rightarrow> if e = OverflowError then io_raise e else io_return None
       | Inr window \<Rightarrow> io_return (if now < pw_expires_at window then Some window else None)))"

definition active_for_server_locked :: "rat \<Rightarrow> string \<Rightarrow> string \<Rightarrow> pairing_window option io" where
  "active_for_server_locked now si sg = io_bind (window_active now) (\<lambda>found.
     io_return (case found of
        None \<Rightarrow> None
      | Some window \<Rightarrow> if pw_server_identifier window \<noteq> si \<or> pw_server_generation window \<noteq> sg then None else Some window))"

definition active_for_server :: "rat \<Rightarrow> string \<Rightarrow> string \<Rightarrow> pairing_window option io" where
  "active_for_server now si sg =
     (if \<not> is_valid_binding si sg then io_return None else transaction (active_for_server_locked now si sg))"

definition mutate_if_current :: "rat \<Rightarrow> string \<Rightarrow> 'a io \<Rightarrow> string \<Rightarrow> string \<Rightarrow> (bool \<times> 'a option) io" where
  "mutate_if_current now generation mutation si sg =
     (if \<not> is_valid_binding si sg then io_return (False, None)
      else transaction (io_bind (active_for_server_locked now si sg) (\<lambda>found.
        if map_option pw_generation found \<noteq> Some generation then io_return (False, None)
        else io_bind mutation (\<lambda>x. io_return (True, Some x)))))"

text \<open>\<open>open_locked\<close> reads the clock twice. \<open>None\<close>: the draws do not suffice.\<close>

definition open_locked :: "rat \<Rightarrow> rat \<Rightarrow> nat list \<Rightarrow> bytes list \<Rightarrow> string \<Rightarrow> string \<Rightarrow> rat \<Rightarrow> pairing_window option io" where
  "open_locked now later pins tokens si sg duration = io_bind pairing_reset_in_progress (\<lambda>resetting.
     if resetting then io_raise ResetInProgress
     else if \<not> (0 < duration \<and> duration \<le> 24 * 60 * 60) then io_raise ValueError
     else if \<not> is_valid_binding si sg then io_raise ValueError
     else io_bind (window_active now) (\<lambda>previous.
       case (fresh_pin (map_option pw_pin previous) pins, fresh_generation (map_option pw_generation previous) tokens) of
         (Some pin, Some generation) \<Rightarrow>
           (let window = \<lparr>pw_pin = pin, pw_expires_at = later + duration, pw_generation = generation,
              pw_server_identifier = si, pw_server_generation = sg\<rparr>
            in io_then (durable_write PAIRING_WINDOW (Some (window_json window))) (io_return (Some window)))
       | _ \<Rightarrow> io_return None))"

definition open_window :: "rat \<Rightarrow> rat \<Rightarrow> nat list \<Rightarrow> bytes list \<Rightarrow> string \<Rightarrow> string \<Rightarrow> rat \<Rightarrow> pairing_window option io" where
  "open_window now later pins tokens si sg duration = transaction (open_locked now later pins tokens si sg duration)"

definition clear_window_state :: "bool io" where
  "clear_window_state = transaction clear_window"

subsection \<open>What the lookups see\<close>

lemma read_stable:
  "w_faults w = [] \<Longrightarrow> stat_private n w =
     (case vw_now (w_view w) n of None \<Rightarrow> Inl FileNotFound
        | Some e \<Rightarrow> if private_file_ok (vw_euid (w_view w)) (stat.truncate e) then Inr e else Inl OsError, w)"
  "w_faults w = [] \<Longrightarrow> read_private n w =
     (case vw_now (w_view w) n of None \<Rightarrow> Inl FileNotFound
        | Some e \<Rightarrow> if private_file_ok (vw_euid (w_view w)) (stat.truncate e) then Inr e else Inl OsError, w)"
  by (simp_all add: stat_private_def read_private_def open_directory_def open_private_at_def io_then_def io_bind_def
      syscall_def io_look_def io_raise_def io_return_def split: option.split)

lemma reset_stable:
  assumes "w_faults w = []"
  obtains b where "pairing_reset_in_progress w = (Inr b, w)"
  using assms
  by (fastforce simp: pairing_reset_in_progress_def identity_reset_in_progress_def legacy_clear_all_in_progress_def
      fence_present_def io_handle_def read_stable io_bind_def io_return_def split: option.splits if_splits)

lemma unfenced_reset:
  assumes "w_faults w = []" "vw_now (w_view w) RESET_FENCE = None" "vw_now (w_view w) LEGACY_FENCE = None"
  shows "pairing_reset_in_progress w = (Inr False, w)"
  using assms
  by (simp add: pairing_reset_in_progress_def identity_reset_in_progress_def legacy_clear_all_in_progress_def
      absent_fence io_bind_def)

lemma active_stable:
  assumes "w_faults w = []" shows "snd (window_active now w) = w"
proof -
  obtain b where "pairing_reset_in_progress w = (Inr b, w)" using reset_stable [OF assms] .
  then show ?thesis
    using assms
    by (auto simp: window_active_def io_bind_def io_return_def io_handle_def read_stable io_raise_def
        split: option.split sum.split)
qed

lemma active_found:
  assumes "w_faults w = []" "vw_now (w_view w) RESET_FENCE = None" "vw_now (w_view w) LEGACY_FENCE = None"
    and "vw_now (w_view w) PAIRING_WINDOW = Some e" "private_file_ok (vw_euid (w_view w)) (stat.truncate e)"
  shows "window_active now w = (case parse_window (fl_text e) of
     Inl x \<Rightarrow> if x = OverflowError then Inl x else Inr None
   | Inr window \<Rightarrow> Inr (if now < pw_expires_at window then Some window else None), w)"
  using assms
  by (simp add: window_active_def io_bind_def unfenced_reset io_handle_def read_stable io_return_def io_raise_def split: sum.split)

lemma parse_window_json:
  assumes "is_strong_window_pin (pw_pin w)" "is_lower_hex 32 (pw_generation w)"
    and "is_valid_binding (pw_server_identifier w) (pw_server_generation w)"
  shows "parse_window (Some (window_json w)) = Inr w"
  using assms by (simp add: parse_window_def window_json_def parse_expiry_def)

lemma fresh_pin_strong: "fresh_pin previous ds = Some pin \<Longrightarrow> is_strong_window_pin pin \<and> previous \<noteq> Some pin"
proof (induction previous ds rule: fresh_pin.induct)
  case (1 previous ds)
  obtain new rest where draw: "generate_window_pin ds = Some (new, rest)" "if previous = Some new then fresh_pin previous rest = Some pin else new = pin"
    using "1.prems" by (subst (asm) fresh_pin.simps) (auto split: option.splits if_splits)
  then show ?case
    using "1.IH" [OF draw(1) refl] generate_shorter [OF draw(1)] by (cases "previous = Some new") simp_all
qed

lemma fresh_generation_new:
  "fresh_generation previous tokens = Some g \<Longrightarrow> list_all (\<lambda>t. length t = 16) tokens \<Longrightarrow> is_lower_hex 32 g \<and> previous \<noteq> Some g"
proof (induction tokens)
  case (Cons t ts)
  then show ?case using hex_of_lower [of t 16] by (auto split: if_splits)
qed simp

text \<open>What an opening that returned a window did.\<close>

lemma opened:
  assumes "open_locked now later pins tokens si sg d w = (Inr (Some wd), w')" "list_all (\<lambda>t. length t = 16) tokens"
  obtains previous w1 w2 r where "pairing_reset_in_progress w = (Inr False, w1)" "window_active now w1 = (Inr previous, w2)"
    "0 < d" "d \<le> 86400" "parse_window (Some (window_json wd)) = Inr wd" "pw_expires_at wd = later + d"
    "pw_server_identifier wd = si" "pw_server_generation wd = sg"
    "previous \<noteq> None \<longrightarrow> pw_pin (the previous) \<noteq> pw_pin wd \<and> pw_generation (the previous) \<noteq> pw_generation wd"
    "durable_write PAIRING_WINDOW (Some (window_json wd)) w2 = (Inr (), w')"
proof -
  obtain w1 where w1: "pairing_reset_in_progress w = (Inr False, w1)" and d: "0 < d" "d \<le> 86400" "is_valid_binding si sg"
    using assms(1) by (auto simp: open_locked_def io_bind_def io_raise_def split: prod.splits sum.splits if_splits)
  obtain previous w2 where w2: "window_active now w1 = (Inr previous, w2)"
    using assms(1) w1 d by (auto simp: open_locked_def io_bind_def split: prod.splits sum.splits)
  obtain pin generation where fresh: "fresh_pin (map_option pw_pin previous) pins = Some pin"
    "fresh_generation (map_option pw_generation previous) tokens = Some generation"
    using assms(1) w1 w2 d by (auto simp: open_locked_def io_bind_def io_return_def split: option.splits)
  let ?wd = "\<lparr>pw_pin = pin, pw_expires_at = later + d, pw_generation = generation,
     pw_server_identifier = si, pw_server_generation = sg\<rparr>"
  have run: "io_then (durable_write PAIRING_WINDOW (Some (window_json ?wd))) (io_return (Some ?wd)) w2 = (Inr (Some wd), w')"
    using assms(1) w1 w2 d fresh by (simp add: open_locked_def io_bind_def Let_def)
  then have wd: "wd = ?wd" and wrote: "durable_write PAIRING_WINDOW (Some (window_json ?wd)) w2 = (Inr (), w')"
    by (auto simp: io_then_def io_bind_def io_return_def split: prod.splits sum.splits)
  show thesis
    using fresh_pin_strong [OF fresh(1)] fresh_generation_new [OF fresh(2) assms(2)] d wrote parse_window_json [of wd]
    by (intro that [OF w1 w2]) (auto simp: wd)
qed

text \<open>A window that a lookup returned is the record of the directory, with no checkpoint in it.\<close>

definition window_shown :: "rat \<Rightarrow> pairing_window \<Rightarrow> view \<Rightarrow> bool" where
  "window_shown now wd v \<longleftrightarrow> vw_now v RESET_FENCE = None \<and> vw_now v LEGACY_FENCE = None \<and> now < pw_expires_at wd
     \<and> (\<exists>e. vw_now v PAIRING_WINDOW = Some e \<and> private_file_ok (vw_euid v) (stat.truncate e) \<and> parse_window (fl_text e) = Inr wd)"

lemma looks_absent: "looks (fence_present n) (\<lambda>r v. r = Inr False \<longrightarrow> vw_now v n = None)"
  by (auto simp: looks_def fence_present_def io_handle_def stat_private_def open_directory_def open_private_at_def io_then_def
      io_bind_def io_look_def syscall_def io_raise_def io_return_def split: list.splits sum.splits option.splits if_splits prod.splits)

lemma looks_seq:
  assumes "looks m I" "\<And>x. looks (f x) (J x)"
    and "\<And>x r v. I (Inr x) v \<Longrightarrow> J x r v \<Longrightarrow> K r v" "\<And>e v. I (Inl e) v \<Longrightarrow> K (Inl e) v"
  shows "looks (io_bind m f) K"
  unfolding looks_def
proof (intro allI impI)
  fix w r w' assume run: "io_bind m f w = (r, w')"
  obtain r1 w1 where m: "m w = (r1, w1)" by fastforce
  then have 1: "w_view w1 = w_view w" "w_snaps w1 = w_snaps w" "I r1 (w_view w)" using assms(1) by (auto simp: looks_def)
  show "w_view w' = w_view w \<and> w_snaps w' = w_snaps w \<and> K r (w_view w)"
  proof (cases r1)
    case (Inl e)
    then show ?thesis using run m 1 assms(4) by (auto simp: io_bind_def)
  next
    case (Inr x)
    then have "f x w1 = (r, w')" using run m by (simp add: io_bind_def)
    then have "w_view w' = w_view w1 \<and> w_snaps w' = w_snaps w1 \<and> J x r (w_view w1)" using assms(2) by (simp add: looks_def)
    then show ?thesis using 1 Inr assms(3) by simp
  qed
qed

lemma looks_handle:
  assumes "looks m I" "\<And>e. looks (h e) (H e)" "\<And>x. looks (k x) (J x)"
    and "\<And>x r v. I (Inr x) v \<Longrightarrow> J x r v \<Longrightarrow> K r v" "\<And>e r v. I (Inl e) v \<Longrightarrow> H e r v \<Longrightarrow> K r v"
  shows "looks (io_handle m h k) K"
  unfolding looks_def
proof (intro allI impI)
  fix w r w' assume run: "io_handle m h k w = (r, w')"
  obtain r1 w1 where m: "m w = (r1, w1)" by fastforce
  then have 1: "w_view w1 = w_view w" "w_snaps w1 = w_snaps w" "I r1 (w_view w)" using assms(1) by (auto simp: looks_def)
  show "w_view w' = w_view w \<and> w_snaps w' = w_snaps w \<and> K r (w_view w)"
  proof (cases r1)
    case (Inl e)
    then have "h e w1 = (r, w')" using run m by (simp add: io_handle_def)
    then have "w_view w' = w_view w1 \<and> w_snaps w' = w_snaps w1 \<and> H e r (w_view w1)" using assms(2) by (simp add: looks_def)
    then show ?thesis using 1 Inl assms(5) by simp
  next
    case (Inr x)
    then have "k x w1 = (r, w')" using run m by (simp add: io_handle_def)
    then have "w_view w' = w_view w1 \<and> w_snaps w' = w_snaps w1 \<and> J x r (w_view w1)" using assms(3) by (simp add: looks_def)
    then show ?thesis using 1 Inr assms(4) by simp
  qed
qed

lemma looks_raise: "looks (io_raise e) (\<lambda>r v. r = Inl e)"
  by (simp add: looks_def io_raise_def)

lemma looks_return: "looks (io_return x) (\<lambda>r v. r = Inr x)"
  by (simp add: looks_def io_return_def)

lemma looks_reset:
  "looks pairing_reset_in_progress (\<lambda>r v. r = Inr False \<longrightarrow> vw_now v RESET_FENCE = None \<and> vw_now v LEGACY_FENCE = None)"
  unfolding pairing_reset_in_progress_def identity_reset_in_progress_def
  by (rule looks_seq [OF looks_absent, where J = "\<lambda>p r v. if p then r = Inr True else r = Inr False \<longrightarrow> vw_now v LEGACY_FENCE = None"])
    (use looks_return [of True] looks_absent [of LEGACY_FENCE] in \<open>auto simp: legacy_clear_all_in_progress_def split: if_splits\<close>)

lemma looks_active: "looks (window_active now) (\<lambda>r v. \<forall>wd. r = Inr (Some wd) \<longrightarrow> window_shown now wd v)"
proof -
  let ?J = "\<lambda>r v. \<forall>wd. r = Inr (Some wd) \<longrightarrow> now < pw_expires_at wd
     \<and> (\<exists>e. vw_now v PAIRING_WINDOW = Some e \<and> private_file_ok (vw_euid v) (stat.truncate e) \<and> parse_window (fl_text e) = Inr wd)"
  have "looks (io_handle (read_private PAIRING_WINDOW) (\<lambda>_. io_return None) (\<lambda>entry.
       case parse_window (fl_text entry) of
         Inl e \<Rightarrow> if e = OverflowError then io_raise e else io_return None
       | Inr window \<Rightarrow> io_return (if now < pw_expires_at window then Some window else None))) ?J"
  proof (rule looks_handle [OF looks_private(2) looks_return])
    show "looks (case parse_window (fl_text entry) of Inl e \<Rightarrow> if e = OverflowError then io_raise e else io_return None
       | Inr window \<Rightarrow> io_return (if now < pw_expires_at window then Some window else None))
      (\<lambda>r v. \<forall>wd. r = Inr (Some wd) \<longrightarrow> parse_window (fl_text entry) = Inr wd \<and> now < pw_expires_at wd)" for entry
      by (auto simp: looks_def io_return_def io_raise_def split: sum.split)
  qed auto
  note lookup = this
  show ?thesis
    unfolding window_active_def
  proof (rule looks_seq [OF looks_reset, where J = "\<lambda>b r v. if b then r = Inr None else ?J r v"])
    fix b
    show "looks (if b then io_return None else io_handle (read_private PAIRING_WINDOW) (\<lambda>_. io_return None) (\<lambda>entry.
       case parse_window (fl_text entry) of
         Inl e \<Rightarrow> if e = OverflowError then io_raise e else io_return None
       | Inr window \<Rightarrow> io_return (if now < pw_expires_at window then Some window else None)))
      (\<lambda>r v. if b then r = Inr None else ?J r v)"
      by (cases b) (simp_all only: if_True if_False looks_return lookup)
  next
    fix b r and v :: view
    assume "Inr b = Inr False \<longrightarrow> vw_now v RESET_FENCE = None \<and> vw_now v LEGACY_FENCE = None"
      and "if b then r = Inr None else ?J r v"
    then show "\<forall>wd. r = Inr (Some wd) \<longrightarrow> window_shown now wd v"
      by (cases b) (simp_all add: window_shown_def)
  qed simp
qed

lemma looks_active_locked:
  "looks (active_for_server_locked now si sg) (\<lambda>r v. \<forall>wd. r = Inr (Some wd) \<longrightarrow>
     window_shown now wd v \<and> pw_server_identifier wd = si \<and> pw_server_generation wd = sg)"
  unfolding active_for_server_locked_def
  by (rule looks_seq [OF looks_active looks_return]) (auto split: option.splits if_splits)

text \<open>What a lookup after a power loss finds of a window that was opened.\<close>

lemma opening_found:
  assumes "open_locked now later pins tokens si sg d w = (Inr (Some wd), w')" "list_all (\<lambda>t. length t = 16) tokens"
    and "es PAIRING_WINDOW \<in> after_crash (w_view w') PAIRING_WINDOW" "es RESET_FENCE = None" "es LEGACY_FENCE = None"
  shows "is_strong_window_pin (pw_pin wd) \<and> 0 < d \<and> d \<le> 24 * 60 * 60 \<and> pw_expires_at wd = later + d
    \<and> fst (active_for_server t si' sg' (rebooted w' es)) =
        Inr (if si' = si \<and> sg' = sg \<and> t < later + d then Some wd else None)"
proof -
  from assms(1,2) obtain w2 where op: "0 < d" "d \<le> 86400" "parse_window (Some (window_json wd)) = Inr wd"
    "pw_expires_at wd = later + d" "pw_server_identifier wd = si" "pw_server_generation wd = sg"
    "durable_write PAIRING_WINDOW (Some (window_json wd)) w2 = (Inr (), w')"
    by (rule opened) blast
  have valid: "is_strong_window_pin (pw_pin wd)" "is_valid_binding si sg"
    using op(3,5,6) by (auto simp: parse_window_def window_json_def parse_expiry_def split: if_splits)
  have "\<exists>e. es PAIRING_WINDOW = Some e \<and> fl_text e = Some (window_json wd) \<and> private_file_ok (vw_euid (w_view w')) (stat.truncate e)"
    using op(7) record_names_ok(2)
    by (rule write_run) (use assms(3) in \<open>auto simp: replaced_def written_def crash_commit file_outcomes_def\<close>)
  then have "window_active t (rebooted w' es) = (Inr (if t < later + d then Some wd else None), rebooted w' es)"
    using assms(4,5) active_found [of "rebooted w' es"] op(3,4) by (auto simp: rebooted_def)
  then have look: "active_for_server_locked t si' sg' (rebooted w' es) =
      (Inr (if si' = si \<and> sg' = sg \<and> t < later + d then Some wd else None), rebooted w' es)"
    using op(5,6) by (simp add: active_for_server_locked_def io_bind_def io_return_def)
  then have "fst (active_for_server t si' sg' (rebooted w' es)) =
      Inr (if si' = si \<and> sg' = sg \<and> t < later + d then Some wd else None)"
    using valid(2) by (auto simp: active_for_server_def transaction_def io_then_def io_bind_def syscall_def io_return_def rebooted_def)
  then show ?thesis using op(1,2,4) valid(1) by simp
qed

subsection \<open>Properties\<close>

text \<open>A window that was opened has a strong PIN and the duration asked for, differs in PIN and generation from a
  window that was active before, and is what any lookup finds over any power loss, as long as no checkpoint
  is pending: for the server it names and before it expires the window itself, otherwise none.\<close>

theorem window_opens:
  assumes "open_locked now later pins tokens si sg d w = (Inr (Some wd), w')" and "list_all (\<lambda>t. length t = 16) tokens"
    and "es PAIRING_WINDOW \<in> after_crash (w_view w') PAIRING_WINDOW" and "es RESET_FENCE = None" and "es LEGACY_FENCE = None"
  shows "is_strong_window_pin (pw_pin wd) \<and> 0 < d \<and> d \<le> 24 * 60 * 60 \<and> pw_expires_at wd = later + d
    \<and> fst (active_for_server t si' sg' (rebooted w' es)) =
        Inr (if si' = si \<and> sg' = sg \<and> t < later + d then Some wd else None)
    \<and> (w_faults w = [] \<longrightarrow> (\<forall>p. fst (window_active now w) = Inr (Some p) \<longrightarrow>
         pw_pin p \<noteq> pw_pin wd \<and> pw_generation p \<noteq> pw_generation wd))"
proof -
  from assms(1,2) obtain previous w1 w2 where op: "pairing_reset_in_progress w = (Inr False, w1)"
    "window_active now w1 = (Inr previous, w2)"
    "previous \<noteq> None \<longrightarrow> pw_pin (the previous) \<noteq> pw_pin wd \<and> pw_generation (the previous) \<noteq> pw_generation wd"
    by (rule opened) blast
  have "pw_pin p \<noteq> pw_pin wd \<and> pw_generation p \<noteq> pw_generation wd"
    if "w_faults w = []" "fst (window_active now w) = Inr (Some p)" for p
    using reset_stable [OF that(1)] op that(2) by (metis Pair_inject fst_conv option.distinct(1) option.sel sum.inject(2))
  then show ?thesis using opening_found [OF assms] by simp
qed

text \<open>C15: A mutation runs only while the directory shows the very window it was bound to, unexpired, for this server
  and with no checkpoint pending; otherwise nothing happens. It runs on the directory as the lookup saw it.\<close>

theorem mutation_gated:
  assumes "mutate_if_current now generation mutation si sg w = (Inr (applied, x), w')"
  shows "if applied
    then \<exists>wd w1 y. window_shown now wd (w_view w) \<and> pw_generation wd = generation \<and> pw_server_identifier wd = si
      \<and> pw_server_generation wd = sg \<and> w_view w1 = w_view w \<and> w_snaps w1 = w_snaps w \<and> mutation w1 = (Inr y, w') \<and> x = Some y
    else x = None \<and> w_view w' = w_view w \<and> w_snaps w' = w_snaps w"
proof (cases "is_valid_binding si sg")
  case False
  then show ?thesis using assms by (simp add: mutate_if_current_def io_return_def)
next
  case True
  obtain wa where a: "syscall w = (Inr (), wa)" "w_view wa = w_view w" "w_snaps wa = w_snaps w"
    using assms True by (auto simp: mutate_if_current_def transaction_def io_then_def io_bind_def syscall_def
        split: list.splits if_splits prod.splits sum.splits)
  obtain found wb where b: "active_for_server_locked now si sg wa = (Inr found, wb)"
    and run: "(if map_option pw_generation found \<noteq> Some generation then io_return (False, None)
        else io_bind mutation (\<lambda>x. io_return (True, Some x))) wb = (Inr (applied, x), w')"
    using assms True a(1) by (simp add: mutate_if_current_def transaction_def io_then_def io_bind_def split: prod.splits sum.splits)
  have seen: "w_view wb = w_view wa \<and> w_snaps wb = w_snaps wa \<and> (\<forall>wd. found = Some wd \<longrightarrow>
      window_shown now wd (w_view wa) \<and> pw_server_identifier wd = si \<and> pw_server_generation wd = sg)"
    using looks_active_locked b unfolding looks_def by blast
  show ?thesis
  proof (cases "map_option pw_generation found = Some generation")
    case False
    then show ?thesis using run seen a by (simp add: io_return_def)
  next
    case True
    then obtain y where "mutation wb = (Inr y, w')" "applied" "x = Some y"
      using run by (auto simp: io_bind_def io_return_def split: prod.splits sum.splits)
    then show ?thesis using True seen a by auto
  qed
qed

text \<open>A record that is well-formed but for an integer expiry beyond the range of floats is not treated as invalid:
  the lookup raises \<open>OverflowError\<close>, and so does the opening of a new window over it.\<close>

theorem window_expiry_overflow:
  assumes "w_faults w = []" and "vw_now (w_view w) RESET_FENCE = None" and "vw_now (w_view w) LEGACY_FENCE = None"
    and "vw_now (w_view w) PAIRING_WINDOW = Some e" and "private_file_ok (vw_euid (w_view w)) (stat.truncate e)"
    and "fl_text e = Some (JDict d)" and "map_of d ''pin'' = Some (JStr pin)" and "is_strong_window_pin pin"
    and "map_of d ''generation'' = Some (JStr g)" and "is_lower_hex 32 g"
    and "map_of d ''expires_at'' = Some (JInt i)" and "2 ^ 1024 \<le> i"
    and "0 < duration" and "duration \<le> 24 * 60 * 60" and "is_valid_binding si sg"
  shows "fst (window_active now w) = Inl OverflowError
    \<and> fst (open_locked now later pins tokens si sg duration w) = Inl OverflowError"
proof -
  have "float_overflows i" using assms(12) by (simp add: float_overflows_def)
  then have "parse_window (fl_text e) = Inl OverflowError"
    using assms(6-11) by (simp add: parse_window_def parse_expiry_def)
  then have active: "window_active now w = (Inl OverflowError, w)"
    using active_found [OF assms(1-5)] by simp
  then show ?thesis
    using unfenced_reset [OF assms(1-3)] assms(13-15) by (simp add: open_locked_def io_bind_def)
qed

subsection \<open>Witnesses\<close>

definition sample_generation :: string where "sample_generation = hex_of (replicate 16 2)"

definition window_fields :: "json \<Rightarrow> json" where
  "window_fields expires = JDict [(''expires_at'', expires), (''generation'', JStr sample_generation), (''pin'', JStr ''8317''),
     (''server_generation'', JStr sample_generation), (''server_identifier'', JStr ''A'')]"

definition window_world :: "json \<Rightarrow> world" where
  "window_world expires = (paired_world [])\<lparr>w_view := (w_view (paired_world []))\<lparr>vw_now :=
     [PAIRING_WINDOW \<mapsto> stored (window_fields expires)]\<rparr>\<rparr>"

lemma window_world_file:
  "w_faults (window_world j) = []" "vw_now (w_view (window_world j)) RESET_FENCE = None"
  "vw_now (w_view (window_world j)) LEGACY_FENCE = None"
  "vw_now (w_view (window_world j)) PAIRING_WINDOW = Some (stored (window_fields j))"
  "private_file_ok (vw_euid (w_view (window_world j))) (stat.truncate (stored (window_fields j)))"
  using new_entry_private [of 7 0]
  by (simp_all add: window_world_def paired_world_def stored_def stat.truncate_def)

lemma stored_text: "fl_text (stored j) = Some j"
  by (simp add: stored_def)

lemma sample_binding: "is_lower_hex 32 sample_generation" "is_valid_binding ''A'' sample_generation"
  using hex_of_lower [of "replicate 16 2" 16] by (simp_all add: is_valid_binding_def sample_generation_def)

lemma sample_pin: "is_strong_window_pin ''8317''" "fresh_pin (Some ''8317'') [1234, 8317, 9052] = Some ''9052''"
proof -
  note pins = is_strong_window_pin_def neighbours_def is_digit_def COMMON_WEAK_WINDOW_PINS_def WINDOW_PIN_LENGTH_def
  have draws: "pin_of 1234 = ''1234''" "pin_of 8317 = ''8317''" "pin_of 9052 = ''9052''"
    by (simp_all add: pin_of_def char_of_def bit_0)
  show strong: "is_strong_window_pin ''8317''" by (simp add: pins)
  have "is_strong_window_pin ''9052''" "\<not> is_strong_window_pin ''1234''" by (simp_all add: pins)
  with strong show "fresh_pin (Some ''8317'') [1234, 8317, 9052] = Some ''9052''"
    by (simp add: fresh_pin.simps [of _ "[_, _, _]"] fresh_pin.simps [of _ "[_]"] draws)
qed

abbreviation sample_window :: "rat \<Rightarrow> pairing_window" where
  "sample_window expires \<equiv> \<lparr>pw_pin = ''8317'', pw_expires_at = expires, pw_generation = sample_generation,
     pw_server_identifier = ''A'', pw_server_generation = sample_generation\<rparr>"

lemma window_world_active:
  "window_active 10 (window_world (JFloat (Some 20))) = (Inr (Some (sample_window 20)), window_world (JFloat (Some 20)))"
proof -
  have "window_fields (JFloat (Some 20)) = window_json (sample_window 20)"
    by (simp add: window_fields_def window_json_def)
  moreover have "parse_window (Some (window_json (sample_window 20))) = Inr (sample_window 20)"
    by (rule parse_window_json) (use sample_binding sample_pin(1) in simp_all)
  ultimately show ?thesis
    unfolding active_found [OF window_world_file] stored_text by simp
qed

lemma sample_opening:
  obtains wd w' where "open_locked 10 11 [1234, 8317, 9052] [replicate 16 2, replicate 16 3] ''A'' sample_generation 60
     (window_world (JFloat (Some 20))) = (Inr (Some wd), w')"
proof -
  let ?w = "window_world (JFloat (Some 20))"
  let ?wd = "\<lparr>pw_pin = ''9052'', pw_expires_at = 11 + 60, pw_generation = hex_of (replicate 16 3),
     pw_server_identifier = ''A'', pw_server_generation = sample_generation\<rparr>"
  have "vw_now (w_view ?w) (temp_name PAIRING_WINDOW ''0a'') = None" "w_temps ?w = [''0a'', ''0b'', ''0c'']"
    by (simp_all add: window_world_def paired_world_def)
  then obtain w' where wrote: "durable_write PAIRING_WINDOW (Some (window_json ?wd)) ?w = (Inr (), w')"
    using write_ok [OF window_world_file(1)] by metis
  have "fresh_generation (Some sample_generation) [replicate 16 2, replicate 16 3] = Some (hex_of (replicate 16 3))"
    unfolding sample_generation_def fresh_generation.simps option.inject hex_of_inject by simp
  then have "open_locked 10 11 [1234, 8317, 9052] [replicate 16 2, replicate 16 3] ''A'' sample_generation 60 ?w = (Inr (Some ?wd), w')"
    using unfenced_reset [OF window_world_file(1-3)] window_world_active sample_binding(2) sample_pin(2) wrote
    by (simp add: open_locked_def io_bind_def io_then_def io_return_def Let_def del: fresh_generation.simps)
  then show thesis by (rule that)
qed

theorem window_opens_witness:
  "\<exists>wd w' e. open_locked 10 11 [1234, 8317, 9052] [replicate 16 2, replicate 16 3] ''A'' sample_generation 60
       (window_world (JFloat (Some 20))) = (Inr (Some wd), w')
     \<and> pw_pin wd \<noteq> ''8317''
     \<and> fst (active_for_server 70 ''A'' sample_generation (rebooted w' [PAIRING_WINDOW \<mapsto> e])) = Inr (Some wd)"
proof -
  let ?w = "window_world (JFloat (Some 20))"
  obtain wd w' where run: "open_locked 10 11 [1234, 8317, 9052] [replicate 16 2, replicate 16 3] ''A'' sample_generation 60 ?w
     = (Inr (Some wd), w')" by (rule sample_opening)
  from run obtain previous w1 w2 where op: "pairing_reset_in_progress ?w = (Inr False, w1)"
    "window_active 10 w1 = (Inr previous, w2)" "durable_write PAIRING_WINDOW (Some (window_json wd)) w2 = (Inr (), w')"
    by (rule opened) auto
  have "\<exists>e. Some e \<in> after_crash (w_view w') PAIRING_WINDOW"
    by (rule write_run [OF op(3) record_names_ok(2)]) (auto simp: crash_commit replaced_def written_def file_outcomes_def)
  then obtain e where e: "Some e \<in> after_crash (w_view w') PAIRING_WINDOW" by blast
  have "fst (window_active 10 ?w) = Inr (Some (sample_window 20))" by (simp add: window_world_active)
  with window_opens [OF run _, of "[PAIRING_WINDOW \<mapsto> e]" 70 "''A''" sample_generation] e show ?thesis
    by (intro exI [of _ wd] exI [of _ w'] exI [of _ e]) (auto simp: run window_world_file(1))
qed

theorem mutation_gated_witness:
  "\<exists>wd. window_shown 10 wd (w_view (window_world (JFloat (Some 20)))) \<and> pw_generation wd = sample_generation"
proof -
  let ?w = "window_world (JFloat (Some 20))"
  have "mutate_if_current 10 sample_generation (io_return True) ''A'' sample_generation ?w = (Inr (True, Some True), ?w)"
    using sample_binding(2) window_world_active window_world_file(1)
    by (simp add: mutate_if_current_def transaction_def io_then_def io_bind_def syscall_def active_for_server_locked_def io_return_def)
  from mutation_gated [OF this] show ?thesis by auto
qed

theorem window_expiry_overflow_witness:
  "fst (open_locked 10 11 [8317] [replicate 16 3] ''A'' sample_generation 60 (window_world (JInt (2 ^ 1024)))) = Inl OverflowError"
proof -
  have body: "fl_text (stored (window_fields j)) = Some (JDict [(''expires_at'', j), (''generation'', JStr sample_generation),
     (''pin'', JStr ''8317''), (''server_generation'', JStr sample_generation), (''server_identifier'', JStr ''A'')])" for j
    by (simp only: stored_text window_fields_def)
  show ?thesis
    by (rule conjunct2 [OF window_expiry_overflow [OF window_world_file body, where i = "2 ^ 1024" and pin = "''8317''"
          and g = sample_generation and now = 10]])
      (use sample_binding sample_pin(1) in \<open>simp_all\<close>)
qed

end
