(* ===== verification/PairedClients.thy ===== *)
theory PairedClients
  imports PairingWindow "HOL-Library.List_Lexorder" "HOL-Library.Char_ord"
begin

text \<open>
  \<^verbatim>\<open>companion/protocol/paired_clients.py\<close>: the paired clients that a running bridge
  consults for every frame. Other processes change the directory between any two system calls, so a
  lookup runs on a list of moments, one per call: the view at that moment, whether the call fails, and
  what the retained chain of directory descriptors shows there. Adding and removing hold the
  pairing-state lock; between their own writes the view is still. A store without a file
  (\<open>pc_file\<close> false) lives in memory.

  Shown: a lookup that authorizes saw the client's key in the record and afterwards, still during the
  lookup, neither checkpoint, whether it trusted the cache or not, given that metadata stamps identify
  contents; an addition that returned has added exactly that client, durably and within the capacity.
\<close>

subsection \<open>The record\<close>

definition MAX_PAIRED_CLIENTS :: nat where "MAX_PAIRED_CLIENTS = 8"
definition LTPK_BYTES :: nat where "LTPK_BYTES = 32"

type_synonym clients = "(string \<times> string) list"

definition valid_client :: "string \<times> json \<Rightarrow> bool" where
  "valid_client entry =
     (case entry of
        (identifier, JStr encoded) \<Rightarrow> identifier \<noteq> [] \<and> (case from_hex encoded of None \<Rightarrow> False | Some key \<Rightarrow> length key = LTPK_BYTES)
      | _ \<Rightarrow> False)"

definition is_valid_store :: "json \<Rightarrow> bool" where
  "is_valid_store value =
     (case value of JDict d \<Rightarrow> length d \<le> MAX_PAIRED_CLIENTS \<and> list_all valid_client d | _ \<Rightarrow> False)"

definition json_text :: "json \<Rightarrow> string" where
  "json_text j = (case j of JStr s \<Rightarrow> s | _ \<Rightarrow> [])"

definition parse_store :: "json option \<Rightarrow> clients option" where
  "parse_store text =
     (case text of
        Some (JDict d) \<Rightarrow> if is_valid_store (JDict d) then Some (map (map_prod id json_text) d) else None
      | _ \<Rightarrow> None)"

definition clients_json :: "clients \<Rightarrow> json" where
  "clients_json cs = JDict (map (map_prod id JStr) cs)"

subsection \<open>The store and its probes\<close>

datatype walk = SameChain | OtherChain | WalkFails | NoDirectory

record moment =
  mo_view :: view
  mo_fails :: bool
  mo_current :: bool
  mo_walk :: walk

record client_store =
  pc_file :: bool
  pc_clients :: clients
  pc_stamp :: "nat option"
  pc_legacy :: "nat option"
  pc_reset :: "nat option"
  pc_chain :: bool
  pc_closed :: bool
  pc_unsafe :: bool

type_synonym 'a pc = "client_store \<times> moment list \<Rightarrow> 'a result \<times> client_store \<times> moment list"

definition pc_return :: "'a \<Rightarrow> 'a pc" where "pc_return x s = (Inr x, s)"
definition pc_raise :: "exn \<Rightarrow> 'a pc" where "pc_raise e s = (Inl e, s)"

definition pc_handle :: "'a pc \<Rightarrow> (exn \<Rightarrow> 'b pc) \<Rightarrow> ('a \<Rightarrow> 'b pc) \<Rightarrow> 'b pc" where
  "pc_handle m h k s = (case m s of (Inl e, s') \<Rightarrow> h e s' | (Inr x, s') \<Rightarrow> k x s')"

definition pc_bind :: "'a pc \<Rightarrow> ('a \<Rightarrow> 'b pc) \<Rightarrow> 'b pc" where
  "pc_bind m f s = (case m s of (Inl e, s') \<Rightarrow> (Inl e, s') | (Inr x, s') \<Rightarrow> f x s')"

definition pc_then :: "'a pc \<Rightarrow> 'b pc \<Rightarrow> 'b pc" where "pc_then m k = pc_bind m (\<lambda>_. k)"

definition pc_get :: "(client_store \<Rightarrow> 'a pc) \<Rightarrow> 'a pc" where "pc_get f s = f (fst s) s"
definition pc_modify :: "(client_store \<Rightarrow> client_store) \<Rightarrow> unit pc" where "pc_modify f s = (Inr (), f (fst s), snd s)"

definition pc_call :: "(moment \<Rightarrow> 'a result) \<Rightarrow> 'a pc" where
  "pc_call f s = (case snd s of
     [] \<Rightarrow> (Inl OsError, s)
   | mo # rest \<Rightarrow> (if mo_fails mo then Inl OsError else f mo, fst s, rest))"

definition strict :: "'a pc \<Rightarrow> 'a pc" where
  "strict m = pc_handle m (\<lambda>_. pc_raise PairedClientsError) pc_return"

definition lstat_at :: "string \<Rightarrow> nat option pc" where
  "lstat_at n = pc_call (\<lambda>mo. Inr (map_option fl_stamp (vw_now (mo_view mo) n)))"

definition open_at :: "string \<Rightarrow> entry pc" where
  "open_at n = pc_call (\<lambda>mo. case vw_now (mo_view mo) n of
     None \<Rightarrow> Inl FileNotFound
   | Some e \<Rightarrow> if private_file_ok (vw_euid (mo_view mo)) (stat.truncate e) then Inr e else Inl OsError)"

definition cheap_stamps :: "(nat option \<times> nat option \<times> nat option) pc" where
  "cheap_stamps = pc_bind (lstat_at PAIRED_CLIENTS) (\<lambda>a. pc_bind (lstat_at LEGACY_FENCE) (\<lambda>b.
     pc_bind (lstat_at RESET_FENCE) (\<lambda>c. pc_return (a, b, c))))"

definition read_store :: "(clients \<times> nat option) pc" where
  "read_store = pc_handle (pc_bind (open_at PAIRED_CLIENTS) (\<lambda>e. pc_then (pc_call (\<lambda>_. Inr ())) (pc_return e)))
     (\<lambda>e. if e = FileNotFound then pc_return ([], None) else pc_raise PairedClientsError)
     (\<lambda>e. case parse_store (fl_text e) of
        None \<Rightarrow> pc_raise PairedClientsError
      | Some clients \<Rightarrow> pc_return (clients, Some (fl_stamp e)))"

definition tombstone_stamp :: "string \<Rightarrow> nat option pc" where
  "tombstone_stamp n = pc_handle (open_at n)
     (\<lambda>e. if e = FileNotFound then pc_return None else pc_raise PairedClientsError)
     (\<lambda>e. pc_return (Some (fl_stamp e)))"

definition ensure_mutable :: "unit pc" where
  "ensure_mutable = pc_get (\<lambda>st. if pc_closed st \<or> pc_unsafe st then pc_raise PairedClientsError else pc_return ())"

definition set_cache :: "clients \<Rightarrow> nat option \<times> nat option \<times> nat option \<Rightarrow> client_store \<Rightarrow> client_store" where
  "set_cache cs stamps st = st\<lparr>pc_clients := cs, pc_stamp := fst stamps, pc_legacy := fst (snd stamps), pc_reset := snd (snd stamps)\<rparr>"

definition mark_unsafe :: "client_store \<Rightarrow> client_store" where
  "mark_unsafe st = (set_cache [] (None, None, None) st)\<lparr>pc_unsafe := True, pc_chain := False\<rparr>"

definition close_store :: "client_store \<Rightarrow> client_store" where
  "close_store st = (if pc_closed st then st else st\<lparr>pc_closed := True, pc_chain := False\<rparr>)"

fun reload_attempts :: "nat \<Rightarrow> unit pc" where
  "reload_attempts 0 s = pc_raise PairedClientsError s"
| "reload_attempts (Suc k) s =
     pc_bind (strict cheap_stamps) (\<lambda>before. pc_bind read_store (\<lambda>(clients, read_stamp).
       pc_bind (tombstone_stamp LEGACY_FENCE) (\<lambda>legacy. pc_bind (tombstone_stamp RESET_FENCE) (\<lambda>reset.
       pc_bind (strict cheap_stamps) (\<lambda>after.
         if before = after \<and> fst before = read_stamp \<and> fst (snd before) = legacy \<and> snd (snd before) = reset
         then pc_modify (set_cache clients after)
         else reload_attempts k))))) s"

definition walk_directory :: "walk pc" where
  "walk_directory = strict (pc_call (\<lambda>mo. Inr (mo_walk mo)))"

definition reload :: "bool \<Rightarrow> unit pc" where
  "reload revalidate_path = pc_get (\<lambda>st.
     if \<not> pc_file st then pc_return ()
     else pc_then ensure_mutable
       (if \<not> pc_chain st then pc_bind walk_directory (\<lambda>found.
          case found of
            NoDirectory \<Rightarrow> pc_modify (set_cache [] (None, None, None))
          | WalkFails \<Rightarrow> pc_raise PairedClientsError
          | _ \<Rightarrow> pc_then (pc_modify (\<lambda>st. st\<lparr>pc_chain := True\<rparr>)) (reload_attempts 2))
        else if revalidate_path then pc_handle (pc_call (\<lambda>mo. Inr (mo_walk mo)))
          (\<lambda>_. pc_then (pc_modify mark_unsafe) (pc_raise PairedClientsError))
          (\<lambda>found. if found = SameChain then reload_attempts 2
             else pc_then (pc_modify mark_unsafe) (pc_raise PairedClientsError))
        else reload_attempts 2))"

definition refresh_if_changed :: "unit pc" where
  "refresh_if_changed = pc_get (\<lambda>st.
     if \<not> pc_file st then pc_return ()
     else pc_then ensure_mutable
       (if \<not> pc_chain st then reload False
        else pc_handle (pc_call (\<lambda>mo. Inr (mo_current mo))) (\<lambda>_. reload True) (\<lambda>current.
          if \<not> current then reload True
          else pc_bind (strict cheap_stamps) (\<lambda>stamps.
            if stamps \<noteq> (pc_stamp st, pc_legacy st, pc_reset st) then reload True else pc_return ()))))"

definition authority_reset_in_progress :: "bool pc" where
  "authority_reset_in_progress = pc_get (\<lambda>st.
     if \<not> pc_file st then pc_return False
     else pc_then refresh_if_changed (pc_get (\<lambda>st. pc_return (pc_legacy st \<noteq> None \<or> pc_reset st \<noteq> None))))"

subsection \<open>Lookups\<close>

definition store_ltpk :: "string \<Rightarrow> bytes option pc" where
  "store_ltpk identifier = pc_handle authority_reset_in_progress
     (\<lambda>e. if e = PairedClientsError then pc_return None else pc_raise e)
     (\<lambda>resetting. pc_get (\<lambda>st.
        if resetting then pc_return None
        else case map_of (pc_clients st) identifier of
          None \<Rightarrow> pc_return None
        | Some encoded \<Rightarrow>
            (if encoded = [] then pc_return None
             else case from_hex encoded of None \<Rightarrow> pc_raise ValueError | Some key \<Rightarrow> pc_return (Some key))))"

definition reset_in_progress :: "bool pc" where
  "reset_in_progress = pc_handle authority_reset_in_progress
     (\<lambda>e. if e = PairedClientsError then pc_return True else pc_raise e) pc_return"

definition authorizes :: "string \<Rightarrow> bytes \<Rightarrow> bool pc" where
  "authorizes identifier ltpk = pc_handle authority_reset_in_progress
     (\<lambda>e. if e = PairedClientsError then pc_return False else pc_raise e)
     (\<lambda>resetting. pc_get (\<lambda>st. pc_return (\<not> resetting \<and> map_of (pc_clients st) identifier = Some (hex_of ltpk))))"

definition identifiers :: "string list pc" where
  "identifiers = pc_then (reload True) (pc_get (\<lambda>st. pc_return (sort (map fst (pc_clients st)))))"

definition count_clients :: "nat pc" where
  "count_clients = pc_then (reload True) (pc_get (\<lambda>st. pc_return (length (pc_clients st))))"

definition empty_store :: "bool pc" where
  "empty_store = pc_then (reload True) (pc_get (\<lambda>st. pc_return (pc_clients st = [])))"

definition open_store :: "bool \<Rightarrow> moment list \<Rightarrow> client_store result \<times> moment list" where
  "open_store has_path ms =
     (let st = \<lparr>pc_file = has_path, pc_clients = [], pc_stamp = None, pc_legacy = None, pc_reset = None,
          pc_chain = False, pc_closed = False, pc_unsafe = False\<rparr>
      in case reload False (st, ms) of (r, st', ms') \<Rightarrow> (case r of Inl e \<Rightarrow> Inl e | Inr _ \<Rightarrow> Inr st', ms'))"

subsection \<open>Mutations\<close>

text \<open>What the calls of one stage meet besides the view, which is still.\<close>

type_synonym conditions = "(bool \<times> bool \<times> walk) list"

definition moments :: "conditions \<Rightarrow> world \<Rightarrow> moment list" where
  "moments cs w = map (\<lambda>(f, c, k). \<lparr>mo_view = w_view w, mo_fails = f, mo_current = c, mo_walk = k\<rparr>) cs"

definition prepare_add :: "unit pc" where
  "prepare_add = pc_then ensure_mutable (pc_bind reset_in_progress (\<lambda>resetting.
     if resetting then pc_raise PairedClientsError else reload True))"

definition prepare_remove :: "unit pc" where
  "prepare_remove = pc_then ensure_mutable (reload True)"

text \<open>Writing the new mapping, and the reload behind it.\<close>

definition save_store :: "conditions \<Rightarrow> clients \<Rightarrow> client_store \<Rightarrow> world \<Rightarrow> unit result \<times> client_store \<times> world" where
  "save_store cs updated st w =
     (if \<not> pc_file st then (Inr (), st\<lparr>pc_clients := updated\<rparr>, w)
      else case durable_write PAIRED_CLIENTS (Some (clients_json updated)) w of
        (Inl e, w1) \<Rightarrow> (Inl e, st, w1)
      | (Inr _, w1) \<Rightarrow> (case reload True (st\<lparr>pc_clients := updated\<rparr>, moments cs w1) of (r, st1, _) \<Rightarrow> (r, st1, w1)))"

definition sync_parent :: "client_store \<Rightarrow> unit io" where
  "sync_parent st = (if pc_file st then fsync_parent else io_return ())"

definition add_locked :: "conditions \<Rightarrow> conditions \<Rightarrow> string \<Rightarrow> bytes \<Rightarrow> client_store \<Rightarrow> world
    \<Rightarrow> unit result \<times> client_store \<times> world" where
  "add_locked before after identifier ltpk st w =
     (if identifier = [] \<or> length ltpk \<noteq> LTPK_BYTES then (Inl ValueError, st, w)
      else case prepare_add (st, moments before w) of
        (Inl e, st1, _) \<Rightarrow> (Inl e, st1, w)
      | (Inr _, st1, _) \<Rightarrow>
          (if map_of (pc_clients st1) identifier = Some (hex_of ltpk)
           then (case sync_parent st1 w of (r, w1) \<Rightarrow> (r, st1, w1))
           else if map_of (pc_clients st1) identifier = None \<and> MAX_PAIRED_CLIENTS \<le> length (pc_clients st1)
           then (Inl PairedClientsFull, st1, w)
           else save_store after (AList.update identifier (hex_of ltpk) (pc_clients st1)) st1 w))"

definition remove_locked :: "conditions \<Rightarrow> conditions \<Rightarrow> string \<Rightarrow> client_store \<Rightarrow> world
    \<Rightarrow> bool result \<times> client_store \<times> world" where
  "remove_locked before after identifier st w =
     (case prepare_remove (st, moments before w) of
        (Inl e, st1, _) \<Rightarrow> (Inl e, st1, w)
      | (Inr _, st1, _) \<Rightarrow>
          (if map_of (pc_clients st1) identifier = None
           then (case sync_parent st1 w of (r, w1) \<Rightarrow> (rbind r (\<lambda>_. Inr False), st1, w1))
           else (case save_store after (AList.delete identifier (pc_clients st1)) st1 w of
              (r, st2, w1) \<Rightarrow> (rbind r (\<lambda>_. Inr True), st2, w1))))"

text \<open>With the lock, unless the store lives in memory.\<close>

definition with_lock :: "(client_store \<Rightarrow> world \<Rightarrow> 'a result \<times> client_store \<times> world) \<Rightarrow> client_store \<Rightarrow> world
    \<Rightarrow> 'a result \<times> client_store \<times> world" where
  "with_lock m st w =
     (if pc_closed st \<or> pc_unsafe st then (Inl PairedClientsError, st, w)
      else if \<not> pc_file st then m st w
      else case syscall w of (Inl e, w1) \<Rightarrow> (Inl e, st, w1) | (Inr _, w1) \<Rightarrow> m st w1)"

definition add_client :: "conditions \<Rightarrow> conditions \<Rightarrow> string \<Rightarrow> bytes \<Rightarrow> client_store \<Rightarrow> world
    \<Rightarrow> unit result \<times> client_store \<times> world" where
  "add_client before after identifier ltpk st w =
     (if identifier = [] \<or> length ltpk \<noteq> LTPK_BYTES then (Inl ValueError, st, w)
      else with_lock (add_locked before after identifier ltpk) st w)"

definition remove_client :: "conditions \<Rightarrow> conditions \<Rightarrow> string \<Rightarrow> client_store \<Rightarrow> world
    \<Rightarrow> bool result \<times> client_store \<times> world" where
  "remove_client before after identifier = with_lock (remove_locked before after identifier)"

subsection \<open>What a reload has seen\<close>

lemma pc_bind_Inr:
  assumes "pc_bind m f s = (Inr y, s')"
  obtains x s1 where "m s = (Inr x, s1)" "f x s1 = (Inr y, s')"
  using assms by (auto simp: pc_bind_def split: prod.splits sum.splits)

lemma pc_then_Inr:
  assumes "pc_then m k s = (Inr y, s')"
  obtains x s1 where "m s = (Inr x, s1)" "k s1 = (Inr y, s')"
  using assms unfolding pc_then_def by (rule pc_bind_Inr)

lemma call_Inr:
  assumes "pc_call f (st, ms) = (Inr x, st', ms')"
  obtains mo where "ms = mo # ms'" "st' = st" "f mo = Inr x"
  using assms by (auto simp: pc_call_def split: list.splits if_splits)

lemma strict_Inr: "strict m s = (Inr x, s') \<longleftrightarrow> m s = (Inr x, s')"
  by (auto simp: strict_def pc_handle_def pc_raise_def pc_return_def split: prod.splits sum.splits)

definition stamp_at :: "moment \<Rightarrow> string \<Rightarrow> nat option" where
  "stamp_at mo n = map_option fl_stamp (vw_now (mo_view mo) n)"

lemma cheap_stamps_Inr:
  assumes "cheap_stamps (st, ms) = (Inr stamps, st', ms')"
  obtains m1 m2 m3 where "ms = m1 # m2 # m3 # ms'" "st' = st"
    "stamps = (stamp_at m1 PAIRED_CLIENTS, stamp_at m2 LEGACY_FENCE, stamp_at m3 RESET_FENCE)"
proof -
  from assms obtain a s1 b s2 c s3 where s: "lstat_at PAIRED_CLIENTS (st, ms) = (Inr a, s1)" "lstat_at LEGACY_FENCE s1 = (Inr b, s2)"
    "lstat_at RESET_FENCE s2 = (Inr c, s3)" "stamps = (a, b, c)" "s3 = (st', ms')"
    unfolding cheap_stamps_def by (elim pc_bind_Inr) (auto simp: pc_return_def)
  obtain st1 ms1 st2 ms2 where p: "s1 = (st1, ms1)" "s2 = (st2, ms2)" by (metis surj_pair)
  have lstat: "\<exists>mo. l = mo # l' \<and> t' = t \<and> x = stamp_at mo n"
    if "lstat_at n (t, l) = (Inr x, t', l')" for n t l x t' l'
    using that unfolding lstat_at_def by (rule call_Inr) (auto simp: stamp_at_def)
  obtain m1 m2 m3 where "ms = m1 # ms1" "st1 = st" "a = stamp_at m1 PAIRED_CLIENTS"
    "ms1 = m2 # ms2" "st2 = st1" "b = stamp_at m2 LEGACY_FENCE" "ms2 = m3 # ms'" "st' = st2" "c = stamp_at m3 RESET_FENCE"
    using lstat [OF s(1) [unfolded p]] lstat [OF s(2) [unfolded p]] lstat [OF s(3) [unfolded p s(5)]] by blast
  then show thesis using s(4) by (intro that) auto
qed

text \<open>The record at a moment reads as these clients.\<close>

definition saw :: "moment \<Rightarrow> clients \<Rightarrow> nat option \<Rightarrow> bool" where
  "saw mo cs stamp \<longleftrightarrow>
     (case vw_now (mo_view mo) PAIRED_CLIENTS of
        None \<Rightarrow> cs = [] \<and> stamp = None
      | Some e \<Rightarrow> parse_store (fl_text e) = Some cs \<and> stamp = Some (fl_stamp e))"

lemma open_Inr:
  assumes "open_at n (st, ms) = (Inr e, st', ms')"
  obtains mo where "ms = mo # ms'" "st' = st" "vw_now (mo_view mo) n = Some e"
  using assms unfolding open_at_def by (rule call_Inr) (auto split: option.splits if_splits)

lemma open_missing:
  assumes "open_at n (st, ms) = (Inl FileNotFound, st', ms')"
  obtains mo where "ms = mo # ms'" "st' = st" "vw_now (mo_view mo) n = None"
  using assms by (auto simp: open_at_def pc_call_def split: list.splits if_splits option.splits)

lemma read_store_Inr:
  assumes "read_store (st, ms) = (Inr (cs, stamp), st', ms')"
  obtains mo gap where "ms = mo # gap @ ms'" "st' = st" "saw mo cs stamp"
proof -
  let ?open = "pc_bind (open_at PAIRED_CLIENTS) (\<lambda>e. pc_then (pc_call (\<lambda>_. Inr ())) (pc_return e))"
  obtain r st1 ms1 where r: "?open (st, ms) = (r, st1, ms1)" by (metis surj_pair)
  show thesis
  proof (cases r)
    case (Inl e)
    then have e: "e = FileNotFound" "cs = []" "stamp = None" "st' = st1" "ms' = ms1"
      using assms r by (auto simp: read_store_def pc_handle_def pc_return_def pc_raise_def split: if_splits)
    have "open_at PAIRED_CLIENTS (st, ms) = (Inl FileNotFound, st1, ms1)"
      using r Inl e(1) by (auto simp: pc_bind_def pc_then_def pc_call_def pc_return_def split: prod.splits sum.splits list.splits if_splits)
    then show thesis by (rule open_missing) (use e in \<open>auto intro!: that [of _ "[]"] simp: saw_def\<close>)
  next
    case (Inr e)
    then obtain s1 where s1: "open_at PAIRED_CLIENTS (st, ms) = (Inr e, s1)" "pc_call (\<lambda>_. Inr ()) s1 = (Inr (), st1, ms1)"
      using r by (auto elim!: pc_bind_Inr pc_then_Inr simp: pc_return_def)
    obtain st2 ms2 where p: "s1 = (st2, ms2)" by (metis surj_pair)
    obtain mo where mo: "ms = mo # ms2" "st2 = st" "vw_now (mo_view mo) PAIRED_CLIENTS = Some e"
      using s1(1) unfolding p by (rule open_Inr) auto
    obtain mo2 where mo2: "ms2 = mo2 # ms1" "st1 = st2" using s1(2) unfolding p by (rule call_Inr) auto
    have "parse_store (fl_text e) = Some cs" "stamp = Some (fl_stamp e)" "st' = st1" "ms' = ms1"
      using assms r Inr by (auto simp: read_store_def pc_handle_def pc_return_def pc_raise_def split: option.splits)
    then show thesis using mo mo2 by (intro that [of mo "[mo2]"]) (simp_all add: saw_def)
  qed
qed

lemma tombstone_Inr:
  assumes "tombstone_stamp n (st, ms) = (Inr stamp, st', ms')"
  obtains mo where "ms = mo # ms'" "st' = st" "stamp = stamp_at mo n"
proof -
  obtain r st1 ms1 where r: "open_at n (st, ms) = (r, st1, ms1)" by (metis surj_pair)
  show thesis
  proof (cases r)
    case (Inl e)
    then have "e = FileNotFound" "stamp = None" "st' = st1" "ms' = ms1"
      using assms r by (auto simp: tombstone_stamp_def pc_handle_def pc_return_def pc_raise_def split: if_splits)
    then show thesis using r [unfolded Inl] by (auto elim!: open_missing intro!: that simp: stamp_at_def)
  next
    case (Inr e)
    then have "stamp = Some (fl_stamp e)" "st' = st1" "ms' = ms1"
      using assms r by (auto simp: tombstone_stamp_def pc_handle_def pc_return_def)
    then show thesis using r [unfolded Inr] by (auto elim!: open_Inr intro!: that simp: stamp_at_def)
  qed
qed

text \<open>The cache is what one run of calls has shown: the record first, both checkpoints later.\<close>

definition shown :: "moment list \<Rightarrow> client_store \<Rightarrow> bool" where
  "shown ms st \<longleftrightarrow> (\<exists>pre mo gap ml mr post. ms = pre @ mo # gap @ ml # mr # post \<and> saw mo (pc_clients st) (pc_stamp st)
     \<and> pc_legacy st = stamp_at ml LEGACY_FENCE \<and> pc_reset st = stamp_at mr RESET_FENCE)"

lemma shownI:
  assumes "ms = pre @ mo # gap @ ml # mr # post" "saw mo (pc_clients st) (pc_stamp st)"
    "pc_legacy st = stamp_at ml LEGACY_FENCE" "pc_reset st = stamp_at mr RESET_FENCE"
  shows "shown ms st"
  using assms unfolding shown_def by blast

lemma shown_later: "shown ms st \<Longrightarrow> shown (pre @ ms) st"
  unfolding shown_def by (metis append.assoc)

lemma shown_Cons: "shown ms st \<Longrightarrow> shown (mo # ms) st"
  using shown_later [of ms st "[mo]"] by simp

lemma set_cache_simps [simp]:
  "pc_file (set_cache cs s st) = pc_file st" "pc_chain (set_cache cs s st) = pc_chain st"
  "pc_closed (set_cache cs s st) = pc_closed st" "pc_unsafe (set_cache cs s st) = pc_unsafe st"
  "pc_clients (set_cache cs s st) = cs" "pc_stamp (set_cache cs s st) = fst s"
  "pc_legacy (set_cache cs s st) = fst (snd s)" "pc_reset (set_cache cs s st) = snd (snd s)"
  by (simp_all add: set_cache_def)

lemma reload_attempts_shown:
  "reload_attempts k (st, ms) = (Inr u, st', ms') \<Longrightarrow>
     shown ms st' \<and> pc_file st' = pc_file st \<and> pc_chain st' = pc_chain st \<and> pc_closed st' = pc_closed st \<and> pc_unsafe st' = pc_unsafe st"
proof (induction k arbitrary: st ms)
  case 0
  then show ?case by (simp add: pc_raise_def)
next
  case (Suc k)
  from Suc.prems obtain before s1 cs rs s2 legacy s3 rst s4 after s5 where
    run: "strict cheap_stamps (st, ms) = (Inr before, s1)" "read_store s1 = (Inr (cs, rs), s2)"
      "tombstone_stamp LEGACY_FENCE s2 = (Inr legacy, s3)" "tombstone_stamp RESET_FENCE s3 = (Inr rst, s4)"
      "strict cheap_stamps s4 = (Inr after, s5)"
    and last: "(if before = after \<and> fst before = rs \<and> fst (snd before) = legacy \<and> snd (snd before) = rst
         then pc_modify (set_cache cs after) else reload_attempts k) s5 = (Inr u, st', ms')"
    unfolding reload_attempts.simps by (elim pc_bind_Inr) (auto elim!: pc_bind_Inr)
  obtain m1 m2 m3 ms1 where 1: "ms = m1 # m2 # m3 # ms1" "s1 = (st, ms1)"
    using run(1) unfolding strict_Inr by (metis cheap_stamps_Inr surj_pair)
  obtain mo gap ms2 where 2: "ms1 = mo # gap @ ms2" "s2 = (st, ms2)" "saw mo cs rs"
    using run(2) unfolding 1(2) by (metis read_store_Inr surj_pair)
  obtain ml ms3 where 3: "ms2 = ml # ms3" "s3 = (st, ms3)" "legacy = stamp_at ml LEGACY_FENCE"
    using run(3) unfolding 2(2) by (metis tombstone_Inr surj_pair)
  obtain mr ms4 where 4: "ms3 = mr # ms4" "s4 = (st, ms4)" "rst = stamp_at mr RESET_FENCE"
    using run(4) unfolding 3(2) by (metis tombstone_Inr surj_pair)
  obtain n1 n2 n3 ms5 where 5: "ms4 = n1 # n2 # n3 # ms5" "s5 = (st, ms5)"
    using run(5) unfolding strict_Inr 4(2) by (metis cheap_stamps_Inr surj_pair)
  show ?case
  proof (cases "before = after \<and> fst before = rs \<and> fst (snd before) = legacy \<and> snd (snd before) = rst")
    case True
    then have "st' = set_cache cs after st" using last unfolding if_P [OF True] 5(2) by (simp add: pc_modify_def)
    moreover have "shown ms (set_cache cs after st)"
      by (rule shownI [of _ "[m1, m2, m3]" mo gap ml mr ms4]) (use 1 2 3 4 True in auto)
    ultimately show ?thesis by simp
  next
    case False
    then have "reload_attempts k (st, ms5) = (Inr u, st', ms')" using last 5(2) by (simp only: if_False)
    moreover have "ms = (m1 # m2 # m3 # mo # gap @ [ml, mr, n1, n2, n3]) @ ms5" using 1 2 3 4 5 by simp
    ultimately show ?thesis using Suc.IH shown_later by metis
  qed
qed

definition empty_cache :: "moment list \<Rightarrow> client_store \<Rightarrow> bool" where
  "empty_cache ms st \<longleftrightarrow> pc_clients st = [] \<and> pc_stamp st = None \<and> (\<exists>mo \<in> set ms. mo_walk mo = NoDirectory)"

lemma ensure_Inr: "ensure_mutable s = (Inr x, s') \<Longrightarrow> s' = s"
  by (auto simp: ensure_mutable_def pc_get_def pc_raise_def pc_return_def split: if_splits)

lemma call_suffix: "pc_call f (st, ms) = (r, st', ms') \<Longrightarrow> st' = st \<and> (\<exists>used. ms = used @ ms')"
  by (auto simp: pc_call_def split: list.splits intro: exI [of _ "[_]"])

lemma reload_shown:
  assumes "reload b (st, ms) = (Inr u, st', ms')" "pc_file st"
  shows "(shown ms st' \<or> empty_cache ms st') \<and> pc_file st'"
proof (cases "pc_chain st")
  case False
  then have "pc_bind walk_directory (\<lambda>found. case found of
            NoDirectory \<Rightarrow> pc_modify (set_cache [] (None, None, None))
          | WalkFails \<Rightarrow> pc_raise PairedClientsError
          | _ \<Rightarrow> pc_then (pc_modify (\<lambda>st. st\<lparr>pc_chain := True\<rparr>)) (reload_attempts 2)) (st, ms) = (Inr u, st', ms')"
    using assms by (auto simp: reload_def pc_get_def elim!: pc_then_Inr dest!: ensure_Inr)
  then obtain found st1 ms1 where w: "walk_directory (st, ms) = (Inr found, st1, ms1)"
    and rest: "(case found of
            NoDirectory \<Rightarrow> pc_modify (set_cache [] (None, None, None))
          | WalkFails \<Rightarrow> pc_raise PairedClientsError
          | _ \<Rightarrow> pc_then (pc_modify (\<lambda>st. st\<lparr>pc_chain := True\<rparr>)) (reload_attempts 2)) (st1, ms1) = (Inr u, st', ms')"
    by (elim pc_bind_Inr) auto
  obtain mo where mo: "ms = mo # ms1" "st1 = st" "mo_walk mo = found"
    using w unfolding walk_directory_def strict_Inr by (rule call_Inr) auto
  have again: "shown ms1 st' \<and> pc_file st'" if "pc_then (pc_modify (\<lambda>st. st\<lparr>pc_chain := True\<rparr>)) (reload_attempts 2) (st1, ms1) = (Inr u, st', ms')"
  proof -
    have "reload_attempts 2 (st1\<lparr>pc_chain := True\<rparr>, ms1) = (Inr u, st', ms')"
      using that by (simp add: pc_then_def pc_bind_def pc_modify_def del: reload_attempts.simps)
    from reload_attempts_shown [OF this] show ?thesis using assms(2) mo(2) by simp
  qed
  show ?thesis
  proof (cases found)
    case NoDirectory
    then have "st' = set_cache [] (None, None, None) st" using rest mo by (simp add: pc_modify_def)
    then show ?thesis using assms(2) mo NoDirectory by (simp add: empty_cache_def)
  qed (use rest again shown_Cons mo in \<open>auto simp: pc_raise_def simp del: reload_attempts.simps\<close>)
next
  case True
  have direct: ?thesis if "reload_attempts 2 (st, ms1) = (Inr u, st', ms')" "ms = used @ ms1" for ms1 used
    using reload_attempts_shown [OF that(1)] that(2) assms(2) shown_later by auto
  show ?thesis
  proof (cases b)
    case True
    then have "pc_handle (pc_call (\<lambda>mo. Inr (mo_walk mo)))
          (\<lambda>_. pc_then (pc_modify mark_unsafe) (pc_raise PairedClientsError))
          (\<lambda>found. if found = SameChain then reload_attempts 2
             else pc_then (pc_modify mark_unsafe) (pc_raise PairedClientsError)) (st, ms) = (Inr u, st', ms')"
      using assms \<open>pc_chain st\<close> by (auto simp: reload_def pc_get_def simp del: reload_attempts.simps elim!: pc_then_Inr dest!: ensure_Inr)
    moreover have "pc_then (pc_modify mark_unsafe) (pc_raise PairedClientsError) s \<noteq> (Inr u, st', ms')" for s
      by (simp add: pc_then_def pc_bind_def pc_modify_def pc_raise_def)
    moreover obtain r st1 ms1 where c: "pc_call (\<lambda>mo. Inr (mo_walk mo)) (st, ms) = (r, st1, ms1)" by (metis surj_pair)
    ultimately have "reload_attempts 2 (st1, ms1) = (Inr u, st', ms')"
      by (auto simp: pc_handle_def simp del: reload_attempts.simps split: sum.splits if_splits)
    then show ?thesis using call_suffix [OF c] direct by auto
  next
    case False
    then have "reload_attempts 2 (st, ms) = (Inr u, st', ms')"
      using assms \<open>pc_chain st\<close> by (auto simp: reload_def pc_get_def simp del: reload_attempts.simps elim!: pc_then_Inr dest!: ensure_Inr)
    then show ?thesis by (rule direct [of _ "[]"]) simp
  qed
qed

text \<open>Stamps identify contents: \<open>content\<close> tells what a file with a given stamp says.\<close>

definition stamped :: "(nat \<Rightarrow> json option) \<Rightarrow> moment \<Rightarrow> bool" where
  "stamped content mo = (case vw_now (mo_view mo) PAIRED_CLIENTS of None \<Rightarrow> True | Some e \<Rightarrow> fl_text e = content (fl_stamp e))"

definition cache_ok :: "(nat \<Rightarrow> json option) \<Rightarrow> client_store \<Rightarrow> bool" where
  "cache_ok content st =
     (case pc_stamp st of None \<Rightarrow> pc_clients st = [] | Some s \<Rightarrow> parse_store (content s) = Some (pc_clients st))"

lemma shown_cache_ok: "shown ms st \<Longrightarrow> list_all (stamped content) ms \<Longrightarrow> cache_ok content st"
  by (auto simp: shown_def saw_def stamped_def cache_ok_def split: option.splits)

lemma empty_cache_ok: "empty_cache ms st \<Longrightarrow> cache_ok content st"
  by (simp add: empty_cache_def cache_ok_def)

lemma cache_seen:
  "cache_ok content st \<Longrightarrow> stamped content mo \<Longrightarrow> pc_stamp st = stamp_at mo PAIRED_CLIENTS \<Longrightarrow> saw mo (pc_clients st) (pc_stamp st)"
  by (auto simp: cache_ok_def stamped_def stamp_at_def saw_def split: option.splits)

lemma refresh_shown:
  assumes "refresh_if_changed (st, ms) = (Inr u, st', ms')" "pc_file st" "list_all (stamped content) ms" "cache_ok content st"
  shows "(shown ms st' \<or> empty_cache ms st') \<and> pc_file st' \<and> cache_ok content st'"
proof -
  have reloaded: ?thesis if "reload b (st, ms1) = (Inr u, st', ms')" "ms = used @ ms1" for b used ms1
  proof -
    have "list_all (stamped content) ms1" using assms(3) that(2) by simp
    then show ?thesis
      using reload_shown [OF that(1) assms(2)] that(2) shown_later [of ms1 st' used] shown_cache_ok [of ms1 st' content]
        empty_cache_ok [of ms1 st' content] by (auto simp: empty_cache_def)
  qed
  show ?thesis
  proof (cases "pc_chain st")
    case False
    then have "reload False (st, ms) = (Inr u, st', ms')"
      using assms(1,2) by (auto simp: refresh_if_changed_def pc_get_def elim!: pc_then_Inr dest!: ensure_Inr)
    then show ?thesis by (rule reloaded [of _ _ "[]"]) simp
  next
    case True
    have run: "pc_handle (pc_call (\<lambda>mo. Inr (mo_current mo))) (\<lambda>_. reload True) (\<lambda>current.
          if \<not> current then reload True
          else pc_bind (strict cheap_stamps) (\<lambda>stamps.
            if stamps \<noteq> (pc_stamp st, pc_legacy st, pc_reset st) then reload True else pc_return ())) (st, ms) = (Inr u, st', ms')"
      using assms(1) unfolding refresh_if_changed_def pc_get_def fst_conv
      by (auto simp: assms(2) True elim!: pc_then_Inr dest!: ensure_Inr)
    obtain r st1 ms1 where c: "pc_call (\<lambda>mo. Inr (mo_current mo)) (st, ms) = (r, st1, ms1)" by (metis surj_pair)
    then obtain used where used: "st1 = st" "ms = used @ ms1" using call_suffix by blast
    show ?thesis
    proof (cases "r = Inr True")
      case False
      then have "reload True (st, ms1) = (Inr u, st', ms')" using run c used by (cases r) (auto simp: pc_handle_def)
      then show ?thesis using used(2) by (rule reloaded)
    next
      case True
      then have "pc_bind (strict cheap_stamps) (\<lambda>stamps.
            if stamps \<noteq> (pc_stamp st, pc_legacy st, pc_reset st) then reload True else pc_return ()) (st, ms1) = (Inr u, st', ms')"
        using run c used by (simp add: pc_handle_def)
      then obtain stamps st2 ms2 where s: "cheap_stamps (st, ms1) = (Inr stamps, st2, ms2)"
        and last: "(if stamps \<noteq> (pc_stamp st, pc_legacy st, pc_reset st) then reload True else pc_return ()) (st2, ms2) = (Inr u, st', ms')"
        unfolding strict_Inr by (elim pc_bind_Inr) (auto simp: strict_Inr)
      obtain m1 m2 m3 where m: "ms1 = m1 # m2 # m3 # ms2" "st2 = st"
        "stamps = (stamp_at m1 PAIRED_CLIENTS, stamp_at m2 LEGACY_FENCE, stamp_at m3 RESET_FENCE)"
        using s by (rule cheap_stamps_Inr) auto
      show ?thesis
      proof (cases "stamps = (pc_stamp st, pc_legacy st, pc_reset st)")
        case False
        then have "reload True (st, ms2) = (Inr u, st', ms')" using last m(2) by simp
        moreover have "ms = (used @ [m1, m2, m3]) @ ms2" using used(2) m(1) by simp
        ultimately show ?thesis by (rule reloaded)
      next
        case True
        then have "st' = st" using last m(2) by (simp add: pc_return_def)
        moreover have "saw m1 (pc_clients st) (pc_stamp st)"
          by (rule cache_seen [OF assms(4)]) (use assms(3) True m used(2) in auto)
        then have "shown ms st"
          by (intro shownI [of _ used m1 "[]" m2 m3 ms2]) (use True m used(2) in auto)
        ultimately show ?thesis using assms(2,4) by simp
      qed
    qed
  qed
qed

lemma authority_shown:
  assumes "authority_reset_in_progress (st, ms) = (Inr b, st', ms')" "pc_file st" "list_all (stamped content) ms" "cache_ok content st"
  shows "(shown ms st' \<or> empty_cache ms st') \<and> pc_file st' \<and> cache_ok content st' \<and> (b \<longleftrightarrow> pc_legacy st' \<noteq> None \<or> pc_reset st' \<noteq> None)"
proof -
  have "pc_then refresh_if_changed (pc_get (\<lambda>st. pc_return (pc_legacy st \<noteq> None \<or> pc_reset st \<noteq> None))) (st, ms) = (Inr b, st', ms')"
    using assms(1,2) by (simp add: authority_reset_in_progress_def pc_get_def)
  then obtain u where "refresh_if_changed (st, ms) = (Inr u, st', ms')" "b = (pc_legacy st' \<noteq> None \<or> pc_reset st' \<noteq> None)"
    by (elim pc_then_Inr) (auto simp: pc_get_def pc_return_def)
  then show ?thesis using refresh_shown assms(2-4) by blast
qed

lemma authorized_shown:
  assumes "authorizes identifier key (st, ms) = (Inr True, st', ms')" "pc_file st" "list_all (stamped content) ms" "cache_ok content st"
  shows "shown ms st' \<and> map_of (pc_clients st') identifier = Some (hex_of key) \<and> cache_ok content st' \<and> pc_legacy st' = None \<and> pc_reset st' = None"
proof -
  obtain b st1 ms1 where a: "authority_reset_in_progress (st, ms) = (Inr b, st1, ms1)"
    using assms(1) by (auto simp: authorizes_def pc_handle_def pc_return_def pc_raise_def split: prod.splits sum.splits if_splits)
  then have st: "st1 = st'" "\<not> b" "map_of (pc_clients st1) identifier = Some (hex_of key)"
    using assms(1) by (auto simp: authorizes_def pc_handle_def pc_get_def pc_return_def)
  from authority_shown [OF a assms(2-4)] st show ?thesis by (auto simp: empty_cache_def)
qed

subsection \<open>Stores that keep their file\<close>

definition keeps :: "'a pc \<Rightarrow> bool" where
  "keeps m \<longleftrightarrow> (\<forall>st ms r st' ms'. m (st, ms) = (r, st', ms') \<longrightarrow> pc_file st' = pc_file st \<and> set ms' \<subseteq> set ms)"

lemma keepsD: "keeps m \<Longrightarrow> m (st, ms) = (r, st', ms') \<Longrightarrow> pc_file st' = pc_file st \<and> set ms' \<subseteq> set ms"
  by (simp add: keeps_def)

lemma keeps_handle:
  assumes "keeps m" "\<And>e. keeps (h e)" "\<And>x. keeps (k x)" shows "keeps (pc_handle m h k)"
  unfolding keeps_def
proof (intro allI impI)
  fix st ms r st' ms' assume run: "pc_handle m h k (st, ms) = (r, st', ms')"
  obtain r1 st1 ms1 where m: "m (st, ms) = (r1, st1, ms1)" by (metis surj_pair)
  have "pc_file st' = pc_file st1 \<and> set ms' \<subseteq> set ms1"
    using run m keepsD [OF assms(2)] keepsD [OF assms(3)] by (cases r1) (simp_all add: pc_handle_def)
  then show "pc_file st' = pc_file st \<and> set ms' \<subseteq> set ms" using keepsD [OF assms(1) m] by auto
qed

lemma keeps_raise: "keeps (pc_raise e)" and keeps_return: "keeps (pc_return x)"
  by (simp_all add: keeps_def pc_raise_def pc_return_def)

lemma keeps_bind: "keeps m \<Longrightarrow> (\<And>x. keeps (f x)) \<Longrightarrow> keeps (pc_bind m f)"
proof -
  assume "keeps m" "\<And>x. keeps (f x)"
  moreover have "pc_bind m f = pc_handle m pc_raise f"
    by (rule ext) (simp add: pc_bind_def pc_handle_def pc_raise_def split: prod.split sum.split)
  ultimately show "keeps (pc_bind m f)" by (simp add: keeps_handle keeps_raise)
qed

lemma keeps_then: "keeps m \<Longrightarrow> keeps k \<Longrightarrow> keeps (pc_then m k)"
  unfolding pc_then_def by (rule keeps_bind)

lemma keeps_get: "(\<And>st. keeps (f st)) \<Longrightarrow> keeps (pc_get f)"
  by (simp add: keeps_def pc_get_def)

lemma keeps_modify: "(\<And>st. pc_file (f st) = pc_file st) \<Longrightarrow> keeps (pc_modify f)"
  by (simp add: keeps_def pc_modify_def)

lemma keeps_call: "keeps (pc_call f)"
  by (auto simp: keeps_def pc_call_def split: list.splits)

lemmas keeps_rules = keeps_handle keeps_raise keeps_return keeps_bind keeps_then keeps_get keeps_modify keeps_call

lemma keeps_stamps: "keeps (strict cheap_stamps)" "keeps read_store" "keeps (tombstone_stamp n)" "keeps ensure_mutable"
    "keeps walk_directory"
  unfolding strict_def cheap_stamps_def lstat_at_def read_store_def open_at_def tombstone_stamp_def ensure_mutable_def walk_directory_def
  by (intro keeps_rules allI; simp add: keeps_rules split: option.split)+

lemma keeps_attempts: "keeps (reload_attempts k)"
proof (induction k)
  case 0
  have "reload_attempts 0 = pc_raise PairedClientsError" by (rule ext) simp
  then show ?case by (simp only: keeps_raise)
next
  case (Suc k)
  have "reload_attempts (Suc k) = pc_bind (strict cheap_stamps) (\<lambda>before. pc_bind read_store (\<lambda>(clients, read_stamp).
       pc_bind (tombstone_stamp LEGACY_FENCE) (\<lambda>legacy. pc_bind (tombstone_stamp RESET_FENCE) (\<lambda>reset.
       pc_bind (strict cheap_stamps) (\<lambda>after.
         if before = after \<and> fst before = read_stamp \<and> fst (snd before) = legacy \<and> snd (snd before) = reset
         then pc_modify (set_cache clients after) else reload_attempts k)))))"
    by (rule ext) simp
  moreover have "keeps (if c then pc_modify (set_cache clients after) else reload_attempts k)" for c clients after
    using Suc by (simp add: keeps_modify)
  ultimately show ?case by (simp only: split_beta keeps_bind keeps_stamps)
qed

lemma keeps_reload: "keeps (reload b)"
proof -
  have unsafe: "keeps (pc_then (pc_modify mark_unsafe) (pc_raise PairedClientsError :: unit pc))"
    by (intro keeps_then keeps_modify keeps_raise) (simp add: mark_unsafe_def)
  have found: "keeps (case found of
            NoDirectory \<Rightarrow> pc_modify (set_cache [] (None, None, None))
          | WalkFails \<Rightarrow> pc_raise PairedClientsError
          | _ \<Rightarrow> pc_then (pc_modify (\<lambda>st. st\<lparr>pc_chain := True\<rparr>)) (reload_attempts 2))" for found
    by (cases found) (auto intro!: keeps_then keeps_modify keeps_raise keeps_attempts simp del: reload_attempts.simps)
  have same: "keeps (if found = SameChain then reload_attempts 2 else pc_then (pc_modify mark_unsafe) (pc_raise PairedClientsError))" for found
    using unsafe keeps_attempts [of 2] by (simp del: reload_attempts.simps)
  have "keeps (if \<not> pc_file st then pc_return ()
     else pc_then ensure_mutable
       (if \<not> pc_chain st then pc_bind walk_directory (\<lambda>found.
          case found of
            NoDirectory \<Rightarrow> pc_modify (set_cache [] (None, None, None))
          | WalkFails \<Rightarrow> pc_raise PairedClientsError
          | _ \<Rightarrow> pc_then (pc_modify (\<lambda>st. st\<lparr>pc_chain := True\<rparr>)) (reload_attempts 2))
        else if b then pc_handle (pc_call (\<lambda>mo. Inr (mo_walk mo)))
          (\<lambda>_. pc_then (pc_modify mark_unsafe) (pc_raise PairedClientsError))
          (\<lambda>found. if found = SameChain then reload_attempts 2
             else pc_then (pc_modify mark_unsafe) (pc_raise PairedClientsError))
        else reload_attempts 2))" for st
    using keeps_then [OF keeps_stamps(4) keeps_bind [OF keeps_stamps(5) found]] keeps_then [OF keeps_stamps(4) keeps_attempts]
      keeps_then [OF keeps_stamps(4) keeps_handle [OF keeps_call unsafe same]] keeps_return
    by (cases "pc_file st"; cases "pc_chain st"; cases b) (simp_all only: if_True if_False not_False_eq_True not_True_eq_False)
  then show ?thesis unfolding reload_def by (rule keeps_get)
qed

lemma keeps_refresh: "keeps refresh_if_changed"
proof -
  have stamps: "keeps (pc_bind (strict cheap_stamps) (\<lambda>stamps.
            if stamps \<noteq> (pc_stamp st, pc_legacy st, pc_reset st) then reload True else pc_return ()))" for st
    by (intro keeps_bind keeps_stamps) (simp add: keeps_reload keeps_return)
  have current: "keeps (if \<not> current then reload True else pc_bind (strict cheap_stamps) (\<lambda>stamps.
            if stamps \<noteq> (pc_stamp st, pc_legacy st, pc_reset st) then reload True else pc_return ()))" for current st
    using stamps keeps_reload by (cases current) simp_all
  have "keeps (if \<not> pc_file st then pc_return ()
     else pc_then ensure_mutable
       (if \<not> pc_chain st then reload False
        else pc_handle (pc_call (\<lambda>mo. Inr (mo_current mo))) (\<lambda>_. reload True) (\<lambda>current.
          if \<not> current then reload True
          else pc_bind (strict cheap_stamps) (\<lambda>stamps.
            if stamps \<noteq> (pc_stamp st, pc_legacy st, pc_reset st) then reload True else pc_return ()))))" for st
    using keeps_then [OF keeps_stamps(4) keeps_reload] keeps_return
      keeps_then [OF keeps_stamps(4) keeps_handle [OF keeps_call keeps_reload current]]
    by (cases "pc_file st"; cases "pc_chain st") (simp_all only: if_True if_False not_False_eq_True not_True_eq_False)
  then show ?thesis unfolding refresh_if_changed_def by (rule keeps_get)
qed

lemma keeps_reset: "keeps reset_in_progress"
proof -
  have "keeps authority_reset_in_progress"
    unfolding authority_reset_in_progress_def
    by (rule keeps_get) (simp add: keeps_return keeps_then keeps_refresh keeps_get)
  then show ?thesis
    unfolding reset_in_progress_def by (rule keeps_handle) (simp_all add: keeps_raise keeps_return)
qed

subsection \<open>What an addition stores\<close>

definition valid_entry :: "string \<times> string \<Rightarrow> bool" where
  "valid_entry entry \<longleftrightarrow> fst entry \<noteq> [] \<and> (case from_hex (snd entry) of None \<Rightarrow> False | Some key \<Rightarrow> length key = LTPK_BYTES)"

lemma valid_client_text: "valid_client (k, j) \<Longrightarrow> valid_entry (k, json_text j)"
  by (auto simp: valid_client_def valid_entry_def json_text_def split: json.splits)

lemma valid_client_json: "valid_entry e \<Longrightarrow> valid_client (map_prod id JStr e)"
  by (cases e) (auto simp: valid_client_def valid_entry_def)

lemma parse_valid: "parse_store text = Some cs \<Longrightarrow> length cs \<le> MAX_PAIRED_CLIENTS \<and> list_all valid_entry cs"
  by (auto simp: parse_store_def is_valid_store_def list_all_iff valid_client_text split: option.splits json.splits if_splits)

lemma parse_clients_json:
  assumes "length cs \<le> MAX_PAIRED_CLIENTS" "list_all valid_entry cs"
  shows "parse_store (Some (clients_json cs)) = Some cs"
proof -
  have "map (map_prod id json_text \<circ> map_prod id JStr) cs = cs"
    by (rule map_idI) (auto simp: json_text_def)
  moreover have "list_all valid_client (map (map_prod id JStr) cs)"
    using assms(2) valid_client_json by (simp add: list_all_iff)
  ultimately show ?thesis using assms(1) by (simp add: parse_store_def clients_json_def is_valid_store_def)
qed

lemma length_update: "length (AList.update k v xs) = (if map_of xs k = None then Suc (length xs) else length xs)"
  by (induction xs) auto

lemma update_entries: "list_all P xs \<Longrightarrow> P (k, v) \<Longrightarrow> list_all P (AList.update k v xs)"
  by (induction xs) auto

lemma add_prepared:
  assumes "prepare_add (st, ms) = (Inr u, st1, ms1)" "pc_file st" "\<And>mo. mo \<in> set ms \<Longrightarrow> mo_view mo = v \<and> mo_walk mo \<noteq> NoDirectory"
  shows "pc_file st1 \<and> (case vw_now v PAIRED_CLIENTS of None \<Rightarrow> pc_clients st1 = [] | Some e \<Rightarrow> parse_store (fl_text e) = Some (pc_clients st1))"
proof -
  from assms(1) obtain s2 b s3 where s: "ensure_mutable (st, ms) = (Inr (), s2)" "reset_in_progress s2 = (Inr b, s3)"
    "(if b then pc_raise PairedClientsError else reload True) s3 = (Inr u, st1, ms1)"
    unfolding prepare_add_def by (elim pc_then_Inr pc_bind_Inr) auto
  obtain st3 ms3 where p: "s3 = (st3, ms3)" by (metis surj_pair)
  have "reset_in_progress (st, ms) = (Inr b, st3, ms3)" using s(1,2) ensure_Inr p by metis
  then have k: "pc_file st3" "set ms3 \<subseteq> set ms" using keepsD [OF keeps_reset] assms(2) by blast+
  have "reload True (st3, ms3) = (Inr u, st1, ms1)" using s(3) p by (cases b) (simp_all add: pc_raise_def)
  from reload_shown [OF this k(1)] have "shown ms3 st1" "pc_file st1"
    using assms(3) k(2) by (auto simp: empty_cache_def)
  then have "\<exists>mo \<in> set ms3. saw mo (pc_clients st1) (pc_stamp st1)"
    unfolding shown_def by (metis in_set_conv_decomp)
  then obtain mo where "mo \<in> set ms3" "saw mo (pc_clients st1) (pc_stamp st1)" by blast
  then show ?thesis using \<open>pc_file st1\<close> assms(3) k(2) by (auto simp: saw_def split: option.splits)
qed

lemma saved_store:
  assumes "save_store cs updated st w = (Inr (), st', w')" "pc_file st" "x \<in> after_crash (w_view w') PAIRED_CLIENTS"
    and "parse_store (Some (clients_json updated)) = Some updated"
  shows "\<exists>e. x = Some e \<and> parse_store (fl_text e) = Some updated"
proof -
  have "durable_write PAIRED_CLIENTS (Some (clients_json updated)) w = (Inr (), w')"
    using assms(1,2) by (auto simp: save_store_def split: prod.splits sum.splits)
  from this record_names_ok(1) show ?thesis
    by (rule write_run) (use assms(3,4) in \<open>auto simp: replaced_def written_def crash_commit file_outcomes_def\<close>)
qed

subsection \<open>Properties\<close>

text \<open>C7: A lookup that authorizes a client saw, at some moment of the lookup, a record that lists the client with
  this key and, at later moments of the lookup, neither checkpoint, whether it used the cache or read the record
  again. Other processes may change the directory between any two system calls; metadata stamps identify
  contents. The cache stays right.\<close>

theorem authorizes_sound:
  assumes "authorizes identifier key (st, ms) = (Inr True, st', ms')" and "pc_file st"
    and "list_all (stamped content) ms" and "cache_ok content st"
  shows "(\<exists>pre mo gap ml mr post e clients. ms = pre @ mo # gap @ ml # mr # post
      \<and> vw_now (mo_view mo) PAIRED_CLIENTS = Some e \<and> parse_store (fl_text e) = Some clients
      \<and> map_of clients identifier = Some (hex_of key)
      \<and> vw_now (mo_view ml) LEGACY_FENCE = None \<and> vw_now (mo_view mr) RESET_FENCE = None)
    \<and> cache_ok content st'"
proof -
  from authorized_shown [OF assms]
  have *: "shown ms st'" "cache_ok content st'" "pc_legacy st' = None" "pc_reset st' = None"
    and listed: "map_of (pc_clients st') identifier = Some (hex_of key)"
    by auto
  from *(1) obtain pre mo gap ml mr post where seen: "ms = pre @ mo # gap @ ml # mr # post" "saw mo (pc_clients st') (pc_stamp st')"
    "pc_legacy st' = stamp_at ml LEGACY_FENCE" "pc_reset st' = stamp_at mr RESET_FENCE"
    unfolding shown_def by blast
  from seen(2) listed obtain e where "vw_now (mo_view mo) PAIRED_CLIENTS = Some e" "parse_store (fl_text e) = Some (pc_clients st')"
    by (auto simp: saw_def split: option.splits)
  moreover have "vw_now (mo_view ml) LEGACY_FENCE = None" "vw_now (mo_view mr) RESET_FENCE = None"
    using seen(3,4) *(3,4) by (simp_all add: stamp_at_def)
  ultimately show ?thesis using seen(1) *(2) listed by blast
qed

text \<open>C14: An addition that returned has stored, in every outcome of a later power loss, a valid record with exactly
  the clients that were there before and the new one, whose key replaces an older one: never more than eight
  clients, and no other client gained, lost or changed.\<close>

theorem add_stored:
  assumes "add_locked before after identifier key st w = (Inr (), st', w')" and "pc_file st"
    and "list_all (\<lambda>(f, c, k). k \<noteq> NoDirectory) before"
    and "case vw_now (w_view w) PAIRED_CLIENTS of None \<Rightarrow> True | Some e \<Rightarrow> fl_synced e"
    and "x \<in> after_crash (w_view w') PAIRED_CLIENTS"
  shows "\<exists>e clients old. x = Some e \<and> parse_store (fl_text e) = Some clients \<and> length clients \<le> 8
    \<and> (case vw_now (w_view w) PAIRED_CLIENTS of None \<Rightarrow> old = [] | Some e \<Rightarrow> parse_store (fl_text e) = Some old)
    \<and> map_of clients = (map_of old)(identifier \<mapsto> hex_of key)"
proof -
  let ?v = "w_view w"
  have args: "identifier \<noteq> []" "length key = LTPK_BYTES"
    using assms(1) by (auto simp: add_locked_def split: if_splits)
  then obtain u st1 ms1 where prep: "prepare_add (st, moments before w) = (Inr u, st1, ms1)"
    using assms(1) by (auto simp: add_locked_def split: prod.splits sum.splits)
  let ?old = "pc_clients st1"
  have "mo_view mo = ?v \<and> mo_walk mo \<noteq> NoDirectory" if "mo \<in> set (moments before w)" for mo
    using that assms(3) by (auto simp: moments_def list_all_iff)
  from add_prepared [OF prep assms(2) this]
  have old: "pc_file st1" "case vw_now ?v PAIRED_CLIENTS of None \<Rightarrow> ?old = [] | Some e \<Rightarrow> parse_store (fl_text e) = Some ?old"
    by auto
  then have valid: "length ?old \<le> MAX_PAIRED_CLIENTS" "list_all valid_entry ?old"
    by (auto dest: parse_valid split: option.splits)
  show ?thesis
  proof (cases "map_of ?old identifier = Some (hex_of key)")
    case True
    then have "fsync_parent w = (Inr (), w')"
      using assms(1) args prep old(1) by (auto simp: add_locked_def sync_parent_def split: prod.splits)
    then have "w_view w' = sync_directory ?v"
      by (auto simp: fsync_parent_def fsync_dir_strict_def open_directory_def io_then_def io_bind_def syscall_def change_def
          split: list.splits if_splits prod.splits sum.splits)
    moreover obtain e where e: "vw_now ?v PAIRED_CLIENTS = Some e" "parse_store (fl_text e) = Some ?old"
      using old(2) True by (auto split: option.splits)
    ultimately have "x = Some e" using assms(4,5) by (simp add: crash_commit sync_directory_def file_outcomes_def)
    moreover have "map_of ?old = (map_of ?old)(identifier \<mapsto> hex_of key)" using True by (simp add: fun_upd_idem)
    ultimately show ?thesis using e valid(1) by (auto simp: MAX_PAIRED_CLIENTS_def)
  next
    case False
    let ?new = "AList.update identifier (hex_of key) ?old"
    have room: "\<not> (map_of ?old identifier = None \<and> MAX_PAIRED_CLIENTS \<le> length ?old)"
      and save: "save_store after ?new st1 w = (Inr (), st', w')"
      using assms(1) args prep False by (auto simp: add_locked_def split: if_splits)
    have "valid_entry (identifier, hex_of key)" using args by (simp add: valid_entry_def)
    then have "length ?new \<le> MAX_PAIRED_CLIENTS" "list_all valid_entry ?new"
      using room valid by (auto simp: length_update update_entries)
    then have "parse_store (Some (clients_json ?new)) = Some ?new" by (rule parse_clients_json)
    from saved_store [OF save old(1) assms(5) this] obtain e where "x = Some e" "parse_store (fl_text e) = Some ?new" by blast
    then show ?thesis
      using old(2) \<open>length ?new \<le> MAX_PAIRED_CLIENTS\<close> by (auto simp: MAX_PAIRED_CLIENTS_def update_conv')
  qed
qed

subsection \<open>Witnesses\<close>

definition sample_key :: bytes where "sample_key = replicate 32 7"

definition sample_store :: client_store where
  "sample_store = \<lparr>pc_file = True, pc_clients = [(''phone'', hex_of sample_key)], pc_stamp = Some 0, pc_legacy = None, pc_reset = None,
     pc_chain = True, pc_closed = False, pc_unsafe = False\<rparr>"

definition store_world :: world where
  "store_world = (paired_world [])\<lparr>w_view := (w_view (paired_world []))\<lparr>vw_now :=
     [PAIRED_CLIENTS \<mapsto> stored (clients_json [(''phone'', hex_of sample_key)])]\<rparr>\<rparr>"

definition calm :: "nat \<Rightarrow> conditions" where
  "calm n = replicate n (False, True, SameChain)"

lemma sample_parse: "parse_store (Some (clients_json [(''phone'', hex_of sample_key)])) = Some [(''phone'', hex_of sample_key)]"
  by (rule parse_clients_json) (simp_all add: MAX_PAIRED_CLIENTS_def valid_entry_def sample_key_def LTPK_BYTES_def)

theorem authorizes_sound_witness:
  "\<exists>mo. mo \<in> set (moments (calm 4) store_world) \<and> vw_now (mo_view mo) PAIRED_CLIENTS \<noteq> None"
proof -
  let ?ms = "moments (calm 4) store_world"
  have run: "authorizes ''phone'' sample_key (sample_store, ?ms) = (Inr True, sample_store, [])"
    by (simp add: authorizes_def pc_handle_def authority_reset_in_progress_def pc_get_def refresh_if_changed_def pc_then_def
        pc_bind_def ensure_mutable_def pc_return_def pc_call_def strict_def cheap_stamps_def lstat_at_def sample_store_def
        store_world_def paired_world_def moments_def calm_def numeral_eq_Suc stored_def new_entry_def)
  have "list_all (stamped (\<lambda>s. Some (clients_json [(''phone'', hex_of sample_key)]))) ?ms"
    by (simp add: stamped_def moments_def calm_def numeral_eq_Suc store_world_def stored_def)
  moreover have "cache_ok (\<lambda>s. Some (clients_json [(''phone'', hex_of sample_key)])) sample_store"
    by (simp add: cache_ok_def sample_store_def sample_parse)
  moreover have "pc_file sample_store" by (simp add: sample_store_def)
  ultimately have "\<exists>pre mo gap ml mr post e. ?ms = pre @ mo # gap @ ml # mr # post \<and> vw_now (mo_view mo) PAIRED_CLIENTS = Some e"
    using authorizes_sound [OF run] by blast
  then show ?thesis by (metis in_set_conv_decomp option.distinct(1))
qed

lemma after_crash_nonempty: "after_crash v n \<noteq> {}"
proof -
  have "file_outcomes (vw_now v n) \<noteq> {}" by (auto simp: file_outcomes_def split: option.split)
  then show ?thesis using held_now [of v n] by (auto simp: after_crash_def)
qed

lemma sample_view:
  "vw_now (w_view store_world) PAIRED_CLIENTS = Some (stored (clients_json [(''phone'', hex_of sample_key)]))"
  "vw_now (w_view store_world) RESET_FENCE = None" "vw_now (w_view store_world) LEGACY_FENCE = None"
  "w_faults store_world = []" "private_file_ok (vw_euid (w_view store_world)) (stat.truncate (stored j))"
  using new_entry_private [of 7 0]
  by (simp_all add: store_world_def paired_world_def stored_def stat.truncate_def)

lemma calm_call:
  "pc_call f (st, moments (calm (Suc n)) w) =
     (f \<lparr>mo_view = w_view w, mo_fails = False, mo_current = True, mo_walk = SameChain\<rparr>, st, moments (calm n) w)"
  by (simp add: pc_call_def moments_def calm_def)

lemma calm_stamps:
  "cheap_stamps (st, moments (calm (Suc (Suc (Suc n)))) store_world) = (Inr (Some 0, None, None), st, moments (calm n) store_world)"
  by (simp add: cheap_stamps_def lstat_at_def pc_bind_def calm_call pc_return_def sample_view stored_def new_entry_def)

lemma calm_read:
  "read_store (st, moments (calm (Suc (Suc n))) store_world) = (Inr ([(''phone'', hex_of sample_key)], Some 0), st, moments (calm n) store_world)"
  "open_at LEGACY_FENCE (st, moments (calm (Suc n)) store_world) = (Inl FileNotFound, st, moments (calm n) store_world)"
  "open_at RESET_FENCE (st, moments (calm (Suc n)) store_world) = (Inl FileNotFound, st, moments (calm n) store_world)"
  using sample_parse
  by (simp_all add: read_store_def open_at_def pc_handle_def pc_bind_def pc_then_def calm_call pc_return_def sample_view stored_text)
    (simp add: stored_def new_entry_def)

lemma calm_reload:
  "reload True (sample_store, moments (calm 11) store_world) = (Inr (), sample_store, [])"
proof -
  have "reload_attempts 2 (sample_store, moments (calm 10) store_world) = (Inr (), sample_store, moments (calm 0) store_world)"
    by (simp add: numeral_eq_Suc pc_bind_def strict_def pc_handle_def calm_stamps calm_read pc_return_def tombstone_stamp_def
        pc_modify_def set_cache_def sample_store_def)
  then show ?thesis
    by (simp add: reload_def pc_get_def pc_then_def pc_bind_def ensure_mutable_def pc_return_def sample_store_def pc_handle_def
        calm_call [of _ _ 10, simplified] del: reload_attempts.simps) (simp add: moments_def calm_def)
qed

theorem add_stored_witness:
  "\<exists>w'. add_locked (calm 15) [] ''phone'' sample_key sample_store store_world = (Inr (), sample_store, w')
     \<and> (\<exists>e clients. Some e \<in> after_crash (w_view w') PAIRED_CLIENTS \<and> parse_store (fl_text e) = Some clients
          \<and> map_of clients ''phone'' = Some (hex_of sample_key))"
proof -
  have "reset_in_progress (sample_store, moments (calm 15) store_world) = (Inr False, sample_store, moments (calm 11) store_world)"
    by (simp add: reset_in_progress_def pc_handle_def authority_reset_in_progress_def pc_get_def refresh_if_changed_def pc_then_def
        pc_bind_def ensure_mutable_def pc_return_def strict_def sample_store_def numeral_eq_Suc calm_call calm_stamps)
  then have "prepare_add (sample_store, moments (calm 15) store_world) = (Inr (), sample_store, [])"
    using calm_reload by (simp add: prepare_add_def pc_then_def pc_bind_def ensure_mutable_def pc_get_def pc_return_def) (simp add: sample_store_def)
  then obtain w' where run: "add_locked (calm 15) [] ''phone'' sample_key sample_store store_world = (Inr (), sample_store, w')"
    using fsync_ok [OF sample_view(4)]
    by (simp add: add_locked_def sample_store_def sample_key_def LTPK_BYTES_def) (simp add: sync_parent_def)
  obtain x where x: "x \<in> after_crash (w_view w') PAIRED_CLIENTS" using after_crash_nonempty by blast
  have "list_all (\<lambda>(f, c, k). k \<noteq> NoDirectory) (calm 15)" by (simp add: calm_def list_all_iff)
  from add_stored [OF run _ this _ x] x run show ?thesis
    by (auto simp: sample_store_def sample_view stored_def)
qed

end
