(* ===== verification/Tlv8.thy ===== *)
theory Tlv8
  imports Prelude
begin

text \<open>
  \<^verbatim>\<open>companion/protocol/tlv8.py\<close>: the TLV8 codec of the HAP pairing exchange. A
  dictionary \<open>tag -> bytes\<close> is an association list in insertion order. \<open>read_tlv\<close>
  recurses once per item, so its model takes the interpreter's remaining recursion budget; running
  out is Python's \<open>RecursionError\<close>. Shown here: writing and reading back is the identity up
  to empty values (which the writer drops), with the exact budget that is enough, and the parser
  fails in no other way than the code's own \<open>IndexError\<close>.
\<close>

subsection \<open>Enumerations\<close>

datatype tlv_value =
    TMethod | TIdentifier | TSalt | TPublicKey | TProof | TEncryptedData | TSeqNo | TError
  | TBackOff | TCertificate | TSignature | TPermissions | TFragmentData | TFragmentLast
  | TName | TFlags

fun tlv_code :: "tlv_value \<Rightarrow> nat" where
  "tlv_code TMethod = 0x00"
| "tlv_code TIdentifier = 0x01"
| "tlv_code TSalt = 0x02"
| "tlv_code TPublicKey = 0x03"
| "tlv_code TProof = 0x04"
| "tlv_code TEncryptedData = 0x05"
| "tlv_code TSeqNo = 0x06"
| "tlv_code TError = 0x07"
| "tlv_code TBackOff = 0x08"
| "tlv_code TCertificate = 0x09"
| "tlv_code TSignature = 0x0A"
| "tlv_code TPermissions = 0x0B"
| "tlv_code TFragmentData = 0x0C"
| "tlv_code TFragmentLast = 0x0D"
| "tlv_code TName = 0x11"
| "tlv_code TFlags = 0x13"

datatype error_code =
    EUnknown | EAuthentication | EBackOff | EMaxPeers | EMaxTries | EUnavailable | EBusy

fun error_byte :: "error_code \<Rightarrow> byte" where
  "error_byte EUnknown = 0x01"
| "error_byte EAuthentication = 0x02"
| "error_byte EBackOff = 0x03"
| "error_byte EMaxPeers = 0x04"
| "error_byte EMaxTries = 0x05"
| "error_byte EUnavailable = 0x06"
| "error_byte EBusy = 0x07"

lemma tlv_code_byte [simp]: "tlv_code t < 256"
  by (cases t) simp_all

lemma tlv_code_inject [simp]: "tlv_code s = tlv_code t \<longleftrightarrow> s = t"
  by (cases s; cases t) simp_all

subsection \<open>Reading\<close>

type_synonym tlv = "(nat \<times> bytes) list"

definition tlv_merge :: "nat \<Rightarrow> bytes \<Rightarrow> tlv \<Rightarrow> tlv" where
  "tlv_merge tag value result =
     (case map_of result tag of
        Some old \<Rightarrow> AList.update tag (old @ value) result
      | None \<Rightarrow> AList.update tag value result)"

text \<open>One call of the inner \<open>_parse\<close> on \<open>data[pos:]\<close>.\<close>

fun tlv_parse :: "nat \<Rightarrow> bytes \<Rightarrow> tlv \<Rightarrow> tlv result" where
  "tlv_parse 0 data result = Inl RecursionError"
| "tlv_parse (Suc depth) data result =
     (case data of
        [] \<Rightarrow> Inr result
      | [tag] \<Rightarrow> Inl IndexError
      | tag # len # rest \<Rightarrow>
          tlv_parse depth (drop (unat len) rest)
            (tlv_merge (unat tag) (take (unat len) rest) result))"

definition read_tlv :: "nat \<Rightarrow> bytes \<Rightarrow> tlv result" where
  "read_tlv depth data = tlv_parse depth data []"

subsection \<open>Writing\<close>

text \<open>The \<open>while pos < len(value)\<close> loop: chunks of at most 255 bytes under one tag.\<close>

function tlv_chunks :: "byte \<Rightarrow> bytes \<Rightarrow> bytes" where
  "tlv_chunks tag value =
     (if value = [] then []
      else let size = min (length value) 255
           in tag # word_of_nat size # take size value @ tlv_chunks tag (drop size value))"
  by pat_completeness auto
termination
  by (relation "measure (\<lambda>(_, value). length value)") auto

declare tlv_chunks.simps [simp del]

fun write_tlv :: "tlv \<Rightarrow> bytes result" where
  "write_tlv [] = Inr []"
| "write_tlv ((key, value) # items) =
     rbind (byte_lit (int key)) (\<lambda>tag.
     rbind (write_tlv items) (\<lambda>rest.
       Inr (tlv_chunks (hd tag) value @ rest)))"

text \<open>How many recursive calls a value costs the reader: one per chunk.\<close>

definition chunk_count :: "bytes \<Rightarrow> nat" where
  "chunk_count value = (length value + 254) div 255"

definition tlv_cost :: "tlv \<Rightarrow> nat" where
  "tlv_cost items = sum_list (map (\<lambda>(k, v). chunk_count v) items)"

subsection \<open>Lemmas\<close>

lemma tlv_chunks_Nil [simp, byte_simps]: "tlv_chunks tag [] = []"
  by (simp add: tlv_chunks.simps)

lemma tlv_merge_fresh [simp]: "tag \<notin> fst ` set r \<Longrightarrow> tlv_merge tag v r = r @ [(tag, v)]"
  by (simp add: tlv_merge_def update_append_fresh map_of_eq_None_iff [THEN iffD2])

lemma update_last [simp]:
  "tag \<notin> fst ` set r \<Longrightarrow> AList.update tag w (r @ [(tag, v)]) = r @ [(tag, w)]"
  by (induction r) auto

lemma tlv_merge_append [simp]:
  "tag \<notin> fst ` set r \<Longrightarrow> tlv_merge tag w (r @ [(tag, v)]) = r @ [(tag, v @ w)]"
  by (force simp: tlv_merge_def map_add_Some_iff dest: map_of_SomeD split: option.splits)

lemma tlv_parse_Nil: "tlv_parse (Suc d) [] r = Inr r"
  and tlv_parse_one: "tlv_parse (Suc d) [tag] r = Inl IndexError"
  and tlv_parse_item: "tlv_parse (Suc d) (tag # len # rest) r
    = tlv_parse d (drop (unat len) rest) (tlv_merge (unat tag) (take (unat len) rest) r)"
  by simp_all

lemmas tlv_parse_eqs [simp] = tlv_parse_Nil tlv_parse_one tlv_parse_item

declare tlv_parse.simps(2) [simp del]

lemma tlv_parse_step:
  assumes "length chunk < 256"
  shows "tlv_parse (Suc d) (tag # word_of_nat (length chunk) # chunk @ rest) r
       = tlv_parse d rest (tlv_merge (unat tag) chunk r)"
  using assms by simp

lemma chunk_count_less: "val \<noteq> [] \<Longrightarrow> length val \<le> 255 \<Longrightarrow> chunk_count val = 1"
  by (cases val) (auto simp: chunk_count_def)

lemma chunk_count_more: "255 < length val \<Longrightarrow> chunk_count val = Suc (chunk_count (drop 255 val))"
proof -
  assume "255 < length val"
  then have "length val + 254 = (length (drop 255 val) + 254) + 255" by simp
  then show ?thesis unfolding chunk_count_def by (metis Suc_eq_plus1 add.commute div_add_self2 zero_neq_numeral)
qed

lemma chunk_count_Nil [simp]: "chunk_count [] = 0"
  by (simp add: chunk_count_def)

lemma tlv_cost_simps [simp]:
  "tlv_cost [] = 0" "tlv_cost ((k, v) # items) = chunk_count v + tlv_cost items"
  by (simp_all add: tlv_cost_def)

text \<open>Reading the chunks of one value extends the dictionary's last entry by that value.\<close>

lemma tlv_parse_chunks_more:
  assumes "unat tag \<notin> fst ` set r"
  shows "tlv_parse (chunk_count val + d) (tlv_chunks tag val @ rest) (r @ [(unat tag, v)])
       = tlv_parse d rest (r @ [(unat tag, v @ val)])"
  using assms
proof (induction tag val arbitrary: v rule: tlv_chunks.induct)
  case (1 tag val)
  consider "val = []" | "val \<noteq> []" "length val \<le> 255" | "255 < length val" by linarith
  then show ?case
  proof cases
    case 2
    then show ?thesis
      using 1(2) by (simp add: tlv_chunks.simps [of tag val] chunk_count_less min_def)
  next
    case 3
    then have "val \<noteq> []" by auto
    have "(v @ take 255 val) @ drop 255 val = v @ val" by simp
    with 3 \<open>val \<noteq> []\<close> 1(1) [OF \<open>val \<noteq> []\<close> refl, of "v @ take 255 val"] 1(2)
    show ?thesis
      by (simp add: tlv_chunks.simps [of tag val] chunk_count_more min_def)
  qed simp
qed

lemma tlv_parse_chunks:
  assumes "unat tag \<notin> fst ` set r"
  shows "tlv_parse (chunk_count val + d) (tlv_chunks tag val @ rest) r
       = tlv_parse d rest (r @ (if val = [] then [] else [(unat tag, val)]))"
proof -
  consider "val = []" | "val \<noteq> []" "length val \<le> 255" | "255 < length val" by linarith
  then show ?thesis
  proof cases
    case 2
    then show ?thesis
      using assms by (simp add: tlv_chunks.simps [of tag val] chunk_count_less min_def)
  next
    case 3
    then have "val \<noteq> []" by auto
    with 3 \<open>val \<noteq> []\<close> tlv_parse_chunks_more [OF assms, of "drop 255 val" d rest "take 255 val"] assms
    show ?thesis
      by (simp add: tlv_chunks.simps [of tag val] chunk_count_more min_def)
  qed simp
qed

lemma tlv_parse_write:
  assumes "write_tlv items = Inr bs" "distinct (map fst items)"
    and "fst ` set items \<inter> fst ` set r = {}"
  shows "tlv_parse (Suc (tlv_cost items + d)) bs r
       = Inr (r @ filter (\<lambda>(k, v). v \<noteq> []) items)"
  using assms
proof (induction items arbitrary: bs r)
  case Nil
  then show ?case by simp
next
  case (Cons kv items)
  obtain k v where kv [simp]: "kv = (k, v)" by (cases kv)
  from Cons.prems(1) obtain rest where k: "k < 256" and rest: "write_tlv items = Inr rest"
    and bs: "bs = tlv_chunks (word_of_nat k) v @ rest"
    by (auto simp: byte_lit_def rbind_eq_Inr split: if_splits)
  let ?r = "r @ (if v = [] then [] else [(k, v)])"
  have fresh: "unat (word_of_nat k :: byte) \<notin> fst ` set r" and dj: "fst ` set items \<inter> fst ` set ?r = {}"
    using Cons.prems k by auto
  have "tlv_parse (chunk_count v + Suc (tlv_cost items + d)) bs r
      = tlv_parse (Suc (tlv_cost items + d)) rest ?r"
    using tlv_parse_chunks [OF fresh, of v "Suc (tlv_cost items + d)" rest] k
    by (simp add: bs)
  also have "\<dots> = Inr (?r @ filter (\<lambda>(k, v). v \<noteq> []) items)"
    using Cons.IH [OF rest _ dj] Cons.prems(2) by simp
  finally show ?case by (simp add: ac_simps)
qed

lemma write_tlv_returns: "returns (write_tlv items) \<longleftrightarrow> (\<forall>(k, v) \<in> set items. k < 256)"
  by (induction items) (auto simp: byte_lit_def rbind_def split: sum.splits if_splits)

lemma tlv_parse_errors:
  "tlv_parse depth data r = Inl e \<Longrightarrow> e = IndexError \<or> e = RecursionError \<and> 2 * depth \<le> length data + 1"
proof (induction depth data r rule: tlv_parse.induct)
  case (2 depth data r)
  then show ?case
    by (cases data rule: remdups_adj.cases) (force simp: tlv_parse_item)+
qed simp

subsection \<open>Properties\<close>

text \<open>C39: Writing a dictionary with distinct one-byte tags and reading the bytes back, with a
  recursion budget of one call per 255-byte chunk and one more, gives the dictionary without its
  empty values, in order, however long the values are.\<close>

theorem tlv_roundtrip:
  assumes "write_tlv items = Inr bs" and "distinct (map fst items)"
    and "tlv_cost items < depth"
  shows "read_tlv depth bs = Inr (filter (\<lambda>(k, v). v \<noteq> []) items)"
proof -
  from assms(3) obtain d where "depth = Suc (tlv_cost items + d)"
    by (metis less_iff_Suc_add)
  then show ?thesis
    using tlv_parse_write [OF assms(1,2), of "[]" d] by (simp add: read_tlv_def)
qed

theorem tlv_roundtrip_witness:
  "read_tlv 4 ([6, 1, 2] @ [5, 2, 9, 9]) = Inr [(6, [2]), (5, [9, 9])]"
proof -
  have "write_tlv [(6, [2]), (1, []), (5, [9, 9])] = Inr [6, 1, 2, 5, 2, 9, 9]"
    by (simp add: byte_lit_def tlv_chunks.simps)
  from tlv_roundtrip [OF this, of 4] show ?thesis by (simp add: chunk_count_def)
qed

text \<open>Every input is answered: with a budget above half the input length the reader returns a
  dictionary or raises the one \<open>IndexError\<close> of a tag without a length byte; a truncated value
  is no error.\<close>

theorem tlv_read_only_index_error:
  assumes "length data + 1 < 2 * depth" and "read_tlv depth data = Inl e"
  shows "e = IndexError"
  using tlv_parse_errors [of depth data "[]" e] assms by (auto simp: read_tlv_def)

theorem tlv_read_only_index_error_witness: "read_tlv 3 [6, 1, 2, 5] = Inl IndexError"
  using tlv_read_only_index_error [of "[6, 1, 2, 5]" 3]
  by (simp add: read_tlv_def eval_nat_numeral)

end
