(* ===== verification/Guardrails.thy ===== *)
theory Guardrails
  imports Tlv8
begin

text \<open>
  \<^verbatim>\<open>companion/protocol/guardrails.py\<close>: connection admission and the two pairing rate
  limiters. A clock reading is a rational argument of each operation (one reading per call, as in the
  source; the rounding of Python's float subtraction is not modelled). Shown: the admission budgets
  hold through any sequence of calls, and both limiters, with their pruned queues and bounded table of
  sources, decide exactly as an unbounded log of all past events would, so that no window ever holds
  more events than the limits.
\<close>

subsection \<open>Connection admission\<close>

definition MAX_CONNECTIONS :: nat where "MAX_CONNECTIONS = 16"
definition MAX_UNAUTHENTICATED_CONNECTIONS :: nat where "MAX_UNAUTHENTICATED_CONNECTIONS = 8"
definition MALFORMED_FRAME_LIMIT :: nat where "MALFORMED_FRAME_LIMIT = 3"

record 'c admission =
  max_connections :: nat
  max_unauthenticated :: nat
  connections :: "'c set"
  unauthenticated :: "'c set"

datatype capacity_reason = TotalLimit | UnauthenticatedLimit

definition new_admission :: "nat \<Rightarrow> nat \<Rightarrow> 'c admission" where
  "new_admission m u = \<lparr>max_connections = m, max_unauthenticated = u, connections = {}, unauthenticated = {}\<rparr>"

definition adm_acquire :: "'c \<Rightarrow> 'c admission \<Rightarrow> capacity_reason option \<times> 'c admission" where
  "adm_acquire c a =
     (if c \<in> connections a then (None, a)
      else if max_connections a \<le> card (connections a) then (Some TotalLimit, a)
      else if max_unauthenticated a \<le> card (unauthenticated a) then (Some UnauthenticatedLimit, a)
      else (None, a\<lparr>connections := insert c (connections a),
                    unauthenticated := insert c (unauthenticated a)\<rparr>))"

definition adm_authenticated :: "'c \<Rightarrow> 'c admission \<Rightarrow> 'c admission" where
  "adm_authenticated c a = a\<lparr>unauthenticated := unauthenticated a - {c}\<rparr>"

definition adm_release :: "'c \<Rightarrow> 'c admission \<Rightarrow> 'c admission" where
  "adm_release c a =
     a\<lparr>connections := connections a - {c}, unauthenticated := unauthenticated a - {c}\<rparr>"

definition adm_inv :: "'c admission \<Rightarrow> bool" where
  "adm_inv a \<longleftrightarrow> finite (connections a) \<and> unauthenticated a \<subseteq> connections a
     \<and> card (connections a) \<le> max_connections a
     \<and> card (unauthenticated a) \<le> max_unauthenticated a"

datatype 'c adm_call = Acquire 'c | Authenticated 'c | Release 'c

fun adm_step :: "'c adm_call \<Rightarrow> 'c admission \<Rightarrow> 'c admission" where
  "adm_step (Acquire c) a = snd (adm_acquire c a)"
| "adm_step (Authenticated c) a = adm_authenticated c a"
| "adm_step (Release c) a = adm_release c a"

lemma adm_inv_new [simp]: "adm_inv (new_admission m u)"
  by (simp add: adm_inv_def new_admission_def)

lemma adm_limits [simp]:
  "max_connections (adm_step call a) = max_connections a"
  "max_unauthenticated (adm_step call a) = max_unauthenticated a"
  by (cases call; simp add: adm_acquire_def adm_authenticated_def adm_release_def)+

lemma adm_inv_step: "adm_inv a \<Longrightarrow> adm_inv (adm_step call a)"
proof (cases call)
  case (Acquire c)
  assume inv: "adm_inv a"
  then have "finite (unauthenticated a)" by (auto simp: adm_inv_def intro: finite_subset)
  with inv show ?thesis by (auto simp: Acquire adm_acquire_def adm_inv_def card_insert_if)
next
  case (Authenticated c)
  assume inv: "adm_inv a"
  have "card (unauthenticated a - {c}) \<le> card (unauthenticated a)"
    using inv by (intro card_mono) (auto simp: adm_inv_def intro: finite_subset)
  with inv show ?thesis by (auto simp: Authenticated adm_authenticated_def adm_inv_def)
next
  case (Release c)
  assume inv: "adm_inv a"
  have "card (unauthenticated a - {c}) \<le> card (unauthenticated a)"
    using inv by (intro card_mono) (auto simp: adm_inv_def intro: finite_subset)
  moreover have "card (connections a - {c}) \<le> card (connections a)"
    using inv by (intro card_mono) (auto simp: adm_inv_def)
  ultimately show ?thesis using inv by (auto simp: Release adm_release_def adm_inv_def)
qed

lemma adm_inv_run: "adm_inv a \<Longrightarrow> adm_inv (fold adm_step calls a)"
  by (induction calls arbitrary: a) (simp_all add: adm_inv_step)

lemma adm_limits_run [simp]:
  "max_connections (fold adm_step calls a) = max_connections a"
  "max_unauthenticated (fold adm_step calls a) = max_unauthenticated a"
  by (induction calls arbitrary: a) simp_all

lemma adm_stays_step:
  "c \<in> connections a \<Longrightarrow> call \<noteq> Release c \<Longrightarrow> c \<in> connections (adm_step call a)"
  by (cases call) (auto simp: adm_acquire_def adm_authenticated_def adm_release_def)

lemma adm_stays_run:
  "c \<in> connections a \<Longrightarrow> Release c \<notin> set calls \<Longrightarrow> c \<in> connections (fold adm_step calls a)"
  by (induction calls arbitrary: a) (auto simp: adm_stays_step)

subsection \<open>Sources\<close>

definition MAX_SOURCE_KEY_LENGTH :: nat where "MAX_SOURCE_KEY_LENGTH = 64"
definition UNKNOWN_SOURCE :: string where "UNKNOWN_SOURCE = ''<unknown>''"

text \<open>\<open>None\<close> is any peer metadata that is not a string.\<close>

definition source_key :: "string option \<Rightarrow> string" where
  "source_key source =
     (case source of None \<Rightarrow> UNKNOWN_SOURCE
      | Some s \<Rightarrow> (let t = py_strip s in if t \<noteq> [] then py_prefix MAX_SOURCE_KEY_LENGTH t else UNKNOWN_SOURCE))"

lemma source_key_bounds: "source_key source \<noteq> [] \<and> py_len (source_key source) \<le> MAX_SOURCE_KEY_LENGTH"
proof -
  have "py_len UNKNOWN_SOURCE \<le> 64" "UNKNOWN_SOURCE \<noteq> []"
    by (simp_all add: UNKNOWN_SOURCE_def py_len_def char_cont_def)
  moreover have "py_prefix 64 t \<noteq> []" if "t \<noteq> []" for t
    using that py_len_prefix [of 64 t] by (metis gr0I min_def py_len_0 zero_neq_numeral)
  ultimately show ?thesis
    by (auto simp: source_key_def MAX_SOURCE_KEY_LENGTH_def Let_def split: option.splits)
qed

subsection \<open>The limiters' state\<close>

type_synonym instant = rat

text \<open>Both limiter classes hold a global queue of times and an ordered dictionary from source to
  queue.\<close>

record limiter =
  per_source_limit :: nat
  global_limit :: nat
  window_seconds :: rat
  max_sources :: nat
  global_times :: "instant list"
  source_times :: "(string \<times> instant list) list"

definition new_limiter :: "nat \<Rightarrow> nat \<Rightarrow> rat \<Rightarrow> nat \<Rightarrow> limiter" where
  "new_limiter p g w m = \<lparr>per_source_limit = p, global_limit = g, window_seconds = w, max_sources = m,
     global_times = [], source_times = []\<rparr>"

text \<open>\<open>PairSetupAttemptLimiter.__init__\<close> validates its limits.\<close>

definition new_setup_limiter :: "int \<Rightarrow> int \<Rightarrow> rat \<Rightarrow> int \<Rightarrow> limiter result" where
  "new_setup_limiter p g w m =
     (if p < 1 \<or> g < 1 then Inl ValueError
      else if w \<le> 0 \<or> m < 1 then Inl ValueError
      else Inr (new_limiter (nat p) (nat g) w (nat m)))"

definition limiter_prune :: "instant \<Rightarrow> limiter \<Rightarrow> limiter" where
  "limiter_prune now l =
     (let cutoff = now - window_seconds l in
      l\<lparr>global_times := dropWhile (\<lambda>t. t \<le> cutoff) (global_times l),
        source_times := filter (\<lambda>(k, ts). ts \<noteq> [])
          (map (\<lambda>(k, ts). (k, dropWhile (\<lambda>t. t \<le> cutoff) ts)) (source_times l))\<rparr>)"

text \<open>\<open>PairFailureLimiter._prune\<close> is the same code on the same fields.\<close>

definition failure_prune :: "instant \<Rightarrow> limiter \<Rightarrow> limiter" where
  "failure_prune = limiter_prune"

definition retry_after :: "limiter \<Rightarrow> instant \<Rightarrow> instant \<Rightarrow> int" where
  "retry_after l now oldest = max 1 \<lceil>window_seconds l - (now - oldest)\<rceil>"

text \<open>Append an event to the source's queue, which moves to the end (or is created there after
  evicting the first source of a full table), and to the global queue.\<close>

definition limiter_append :: "instant \<Rightarrow> string \<Rightarrow> limiter \<Rightarrow> limiter" where
  "limiter_append now key l =
     l\<lparr>source_times :=
         (case map_of (source_times l) key of
            None \<Rightarrow> (if max_sources l \<le> length (source_times l) then tl (source_times l)
                      else source_times l) @ [(key, [now])]
          | Some ts \<Rightarrow> AList.delete key (source_times l) @ [(key, ts @ [now])]),
       global_times := global_times l @ [now]\<rparr>"

subsection \<open>Pair-setup attempts\<close>

record setup_admission =
  sa_allowed :: bool
  sa_error :: "error_code option"
  sa_retry_after :: int

definition setup_admit :: "instant \<Rightarrow> string option \<Rightarrow> limiter \<Rightarrow> setup_admission \<times> limiter" where
  "setup_admit now source l0 =
     (let l = limiter_prune now l0; key = source_key source;
          mine = map_of (source_times l) key
      in if mine \<noteq> None \<and> per_source_limit l \<le> length (the mine) then
           (\<lparr>sa_allowed = False, sa_error = Some EMaxTries,
             sa_retry_after = retry_after l now (hd (the mine))\<rparr>, l)
         else if global_limit l \<le> length (global_times l) then
           (\<lparr>sa_allowed = False, sa_error = Some EBusy,
             sa_retry_after = retry_after l now (hd (global_times l))\<rparr>, l)
         else (\<lparr>sa_allowed = True, sa_error = None, sa_retry_after = 0\<rparr>, limiter_append now key l))"

subsection \<open>Failed pairings\<close>

record throttle =
  th_allowed :: bool
  th_retry_after :: int

definition failure_check :: "instant \<Rightarrow> string option \<Rightarrow> limiter \<Rightarrow> throttle \<times> limiter" where
  "failure_check now source l0 =
     (let l = failure_prune now l0;
          mine = (case map_of (source_times l) (source_key source) of None \<Rightarrow> [] | Some ts \<Rightarrow> ts);
          candidates =
            (if global_limit l \<le> length (global_times l) then [hd (global_times l)] else [])
            @ (if per_source_limit l \<le> length mine then [hd mine] else [])
      in if candidates = [] then (\<lparr>th_allowed = True, th_retry_after = 0\<rparr>, l)
         else (\<lparr>th_allowed = False, th_retry_after = retry_after l now (Min (set candidates))\<rparr>, l))"

definition failure_record :: "instant \<Rightarrow> string option \<Rightarrow> limiter \<Rightarrow> limiter" where
  "failure_record now source l0 =
     (let l = failure_prune now l0; key = source_key source;
          mine = map_of (source_times l) key
      in if global_limit l \<le> length (global_times l) then l
         else if mine \<noteq> None \<and> per_source_limit l \<le> length (the mine) then l
         else limiter_append now key l)"

subsection \<open>The reference: an unbounded log of counted events\<close>

type_synonym event_log = "(instant \<times> string) list"

definition recent :: "rat \<Rightarrow> instant \<Rightarrow> event_log \<Rightarrow> event_log" where
  "recent w now evs = filter (\<lambda>(t, k). now - w < t) evs"

definition times_of :: "string \<Rightarrow> event_log \<Rightarrow> instant list" where
  "times_of key evs = map fst (filter (\<lambda>(t, k). k = key) evs)"

definition has_room :: "nat \<Rightarrow> nat \<Rightarrow> rat \<Rightarrow> instant \<Rightarrow> string \<Rightarrow> event_log \<Rightarrow> bool" where
  "has_room p g w now key evs \<longleftrightarrow>
     length (recent w now evs) < g \<and> length (times_of key (recent w now evs)) < p"

definition log_step :: "nat \<Rightarrow> nat \<Rightarrow> rat \<Rightarrow> instant \<Rightarrow> string \<Rightarrow> event_log \<Rightarrow> event_log" where
  "log_step p g w now key evs = (if has_room p g w now key evs then evs @ [(now, key)] else evs)"

text \<open>The events of a log in the window that ends at \<open>x\<close>.\<close>

definition in_window :: "rat \<Rightarrow> instant \<Rightarrow> event_log \<Rightarrow> event_log" where
  "in_window w x evs = filter (\<lambda>(t, k). x - w < t \<and> t \<le> x) evs"

definition within_limits :: "nat \<Rightarrow> nat \<Rightarrow> rat \<Rightarrow> event_log \<Rightarrow> bool" where
  "within_limits p g w evs \<longleftrightarrow>
     (\<forall>x. length (in_window w x evs) \<le> g \<and> (\<forall>key. length (times_of key (in_window w x evs)) \<le> p))"

lemma length_filter_imp:
  "(\<And>x. x \<in> set xs \<Longrightarrow> P x \<Longrightarrow> Q x) \<Longrightarrow> length (filter P xs) \<le> length (filter Q xs)"
  by (induction xs) auto

lemma log_step_within:
  assumes "within_limits p g w evs" "\<forall>(t, k) \<in> set evs. t \<le> now"
  shows "within_limits p g w (log_step p g w now key evs)"
proof (cases "has_room p g w now key evs")
  case True
  have "length (in_window w x (evs @ [(now, key)])) \<le> g
      \<and> length (times_of k (in_window w x (evs @ [(now, key)]))) \<le> p" for x k
  proof (cases "x - w < now \<and> now \<le> x")
    case inside: True
    have sub: "in_window w x evs = filter (\<lambda>(t, k). x - w < t) (recent w now evs)"
      using assms(2) inside by (force simp: in_window_def recent_def intro!: filter_cong)
    have all: "length (in_window w x evs) \<le> length (recent w now evs)"
      unfolding sub by (rule length_filter_le)
    have mine: "length (times_of k (in_window w x evs)) \<le> length (times_of k (recent w now evs))" for k
      unfolding sub times_of_def by (auto intro!: length_filter_imp)
    show ?thesis
      using assms(1) True inside all mine [of key]
      by (auto simp: in_window_def has_room_def times_of_def within_limits_def)
  next
    case False
    then have "in_window w x (evs @ [(now, key)]) = in_window w x evs" by (auto simp: in_window_def)
    then show ?thesis using assms(1) by (simp add: within_limits_def)
  qed
  then show ?thesis using True by (simp add: log_step_def within_limits_def)
qed (use assms in \<open>simp add: log_step_def\<close>)

subsection \<open>The interface of a windowed limiter\<close>

text \<open>The events a limiter counts among those offered to it.\<close>

fun counted :: "(instant \<Rightarrow> string option \<Rightarrow> 's \<Rightarrow> bool) \<Rightarrow> (instant \<Rightarrow> string option \<Rightarrow> 's \<Rightarrow> 's)
    \<Rightarrow> 's \<Rightarrow> (instant \<times> string option) list \<Rightarrow> event_log" where
  "counted counts offer s [] = []"
| "counted counts offer s ((t, src) # os) =
     (if counts t src s then [(t, source_key src)] else []) @ counted counts offer (offer t src s) os"

locale windowed_limiter =
  fixes counts :: "instant \<Rightarrow> string option \<Rightarrow> 's \<Rightarrow> bool"
    and offer :: "instant \<Rightarrow> string option \<Rightarrow> 's \<Rightarrow> 's"
    and models :: "'s \<Rightarrow> event_log \<Rightarrow> instant \<Rightarrow> bool"
    and limits :: "'s \<Rightarrow> nat \<times> nat \<times> rat"
  assumes counts_room: "models s evs t0 \<Longrightarrow> t0 \<le> t \<Longrightarrow> limits s = (p, g, w) \<Longrightarrow>
      counts t src s \<longleftrightarrow> has_room p g w t (source_key src) evs"
    and offer_models: "models s evs t0 \<Longrightarrow> t0 \<le> t \<Longrightarrow> limits s = (p, g, w) \<Longrightarrow>
      models (offer t src s) (log_step p g w t (source_key src) evs) t"
    and offer_limits: "models s evs t0 \<Longrightarrow> t0 \<le> t \<Longrightarrow> limits (offer t src s) = limits s"
    and models_past: "models s evs t0 \<Longrightarrow> (t, k) \<in> set evs \<Longrightarrow> t \<le> t0"
begin

lemma counted_within:
  assumes "models s evs t0" "limits s = (p, g, w)" "within_limits p g w evs"
    and "sorted (t0 # map fst os)"
  shows "within_limits p g w (evs @ counted counts offer s os)"
  using assms
proof (induction os arbitrary: s evs t0)
  case (Cons o1 os)
  obtain t src where o1: "o1 = (t, src)" by (cases o1)
  have t: "t0 \<le> t" using Cons.prems(4) by (simp add: o1)
  let ?evs = "log_step p g w t (source_key src) evs"
  have eq: "evs @ counted counts offer s (o1 # os) = ?evs @ counted counts offer (offer t src s) os"
    using counts_room [OF Cons.prems(1) t Cons.prems(2), of src] by (simp add: o1 log_step_def)
  have "within_limits p g w ?evs"
    using Cons.prems(3) models_past [OF Cons.prems(1)] t by (intro log_step_within) fastforce+
  then show ?case
    unfolding eq
    using Cons.IH [OF offer_models [OF Cons.prems(1) t Cons.prems(2)]] Cons.prems
      offer_limits [OF Cons.prems(1) t] o1 by simp
qed simp

end

subsection \<open>Both limiters represent the log\<close>

definition logged :: "event_log \<Rightarrow> instant \<Rightarrow> bool" where
  "logged evs t0 \<longleftrightarrow> sorted (map fst evs) \<and> (\<forall>(t, k) \<in> set evs. t \<le> t0)"

definition represents :: "limiter \<Rightarrow> event_log \<Rightarrow> instant \<Rightarrow> bool" where
  "represents l evs t0 \<longleftrightarrow> logged evs t0 \<and> 0 < window_seconds l \<and> 0 < per_source_limit l
     \<and> 0 < global_limit l \<and> global_limit l \<le> max_sources l
     \<and> global_times l = map fst (recent (window_seconds l) t0 evs)
     \<and> distinct (map fst (source_times l))
     \<and> (\<forall>k. map_of (source_times l) k =
          (let ts = times_of k (recent (window_seconds l) t0 evs) in if ts = [] then None else Some ts))"

lemma dropWhile_sorted:
  "sorted xs \<Longrightarrow> dropWhile (\<lambda>t. t \<le> c) xs = filter (\<lambda>t. c < t) (xs :: rat list)"
  by (induction xs) (auto simp: filter_id_conv intro!: filter_True [symmetric])

lemma map_of_pruned:
  "distinct (map fst al) \<Longrightarrow>
     map_of (filter (\<lambda>(k, ts). ts \<noteq> []) (map (\<lambda>(k, ts). (k, f ts)) al)) k =
       (case map_of al k of None \<Rightarrow> None | Some ts \<Rightarrow> if f ts = [] then None else Some (f ts))"
  by (induction al) (auto split: option.splits simp: map_of_eq_None_iff image_iff dest: map_of_SomeD)

lemma recent_recent: "t0 \<le> t \<Longrightarrow> recent w t (recent w t0 evs) = recent w t evs"
  by (force simp: recent_def intro: filter_cong)

lemma filter_map_fst: "filter P (map fst xs) = map fst (filter (\<lambda>(t, k). P t) xs)"
  by (induction xs) auto

lemma times_of_filter: "filter P (times_of k evs) = times_of k (filter (\<lambda>(t, k). P t) evs)"
  by (induction evs) (auto simp: times_of_def)

lemma sorted_recent: "sorted (map fst evs) \<Longrightarrow> sorted (map fst (recent w t evs))"
  unfolding recent_def by (rule sorted_filter)

lemma sorted_times_of: "sorted (map fst evs) \<Longrightarrow> sorted (times_of k evs)"
  unfolding times_of_def by (rule sorted_filter)

lemma prune_represents:
  assumes "represents l evs t0" "t0 \<le> t"
  shows "represents (limiter_prune t l) evs t"
proof -
  let ?w = "window_seconds l"
  have srt: "sorted (map fst (recent ?w t0 evs))"
    using assms(1) by (auto simp: represents_def logged_def intro: sorted_recent)
  have again: "filter (\<lambda>(s, k). t - ?w < s) (recent ?w t0 evs) = recent ?w t evs"
    using recent_recent [OF assms(2), of ?w evs] by (simp add: recent_def)
  have "dropWhile (\<lambda>s. s \<le> t - ?w) (map fst (recent ?w t0 evs)) = map fst (recent ?w t evs)"
    by (simp add: dropWhile_sorted [OF srt] filter_map_fst again)
  moreover have drop: "dropWhile (\<lambda>s. s \<le> t - ?w) (times_of k (recent ?w t0 evs)) = times_of k (recent ?w t evs)" for k
    by (simp add: dropWhile_sorted [OF sorted_times_of [OF srt]] times_of_filter again)
  moreover have "times_of k (recent ?w t evs) = []" if "times_of k (recent ?w t0 evs) = []" for k
    using drop [of k] that by simp
  moreover have "distinct (map fst (filter (\<lambda>(k, ts). ts \<noteq> []) (map (\<lambda>(k, ts). (k, f ts)) al)))"
    if "distinct (map fst al)" for f :: "instant list \<Rightarrow> instant list" and al :: "(string \<times> instant list) list"
    using that by (induction al) (auto simp: image_iff)
  moreover have "logged evs t" using assms by (fastforce simp: represents_def logged_def)
  ultimately show ?thesis
    using assms(1) by (auto simp: represents_def limiter_prune_def Let_def map_of_pruned split: option.splits)
qed

lemma prune_limits [simp]:
  "window_seconds (limiter_prune t l) = window_seconds l"
  "per_source_limit (limiter_prune t l) = per_source_limit l"
  "global_limit (limiter_prune t l) = global_limit l"
  "max_sources (limiter_prune t l) = max_sources l"
  by (simp_all add: limiter_prune_def Let_def)

lemma append_limits [simp]:
  "window_seconds (limiter_append t k l) = window_seconds l"
  "per_source_limit (limiter_append t k l) = per_source_limit l"
  "global_limit (limiter_append t k l) = global_limit l"
  "max_sources (limiter_append t k l) = max_sources l"
  by (simp_all add: limiter_append_def)

text \<open>A represented limiter never needs to evict a source: it tracks at most one per recent event.\<close>

lemma represents_sources:
  assumes "represents l evs t"
  shows "length (source_times l) \<le> length (global_times l)"
proof -
  let ?r = "recent (window_seconds l) t evs"
  have "fst ` set (source_times l) \<subseteq> snd ` set ?r"
  proof
    fix k assume "k \<in> fst ` set (source_times l)"
    then obtain ts where "map_of (source_times l) k = Some ts"
      by (metis map_of_eq_None_iff option.exhaust)
    then have "times_of k ?r \<noteq> []" using assms by (auto simp: represents_def Let_def split: if_splits)
    then show "k \<in> snd ` set ?r" by (force simp: times_of_def filter_empty_conv)
  qed
  then have "card (fst ` set (source_times l)) \<le> card (snd ` set ?r)" by (intro card_mono) auto
  moreover have "card (fst ` set (source_times l)) = length (source_times l)"
    using assms by (metis represents_def distinct_card length_map set_map)
  moreover have "card (snd ` set ?r) \<le> length ?r"
    using card_length [of "map snd ?r"] by simp
  ultimately show ?thesis using assms by (simp add: represents_def)
qed

lemma times_of_append [simp]:
  "times_of k (evs @ [(t, key)]) = times_of k evs @ (if k = key then [t] else [])"
  by (simp add: times_of_def)

lemma append_represents:
  assumes "represents l evs t" "length (global_times l) < global_limit l"
  shows "represents (limiter_append t key l) (evs @ [(t, key)]) t"
proof -
  let ?w = "window_seconds l"
  have w: "0 < ?w" using assms(1) by (simp add: represents_def)
  have rec: "recent ?w t (evs @ [(t, key)]) = recent ?w t evs @ [(t, key)]"
    using w by (simp add: recent_def)
  have "length (source_times l) < max_sources l"
    using represents_sources [OF assms(1)] assms by (simp add: represents_def)
  moreover have "logged (evs @ [(t, key)]) t"
    using assms(1) by (auto simp: represents_def logged_def sorted_append)
  moreover have "map_of (AList.delete key al @ [(key, v)]) k = (if k = key then Some v else map_of al k)"
    for al v k by (simp add: map_add_def delete_conv' split: option.splits)
  moreover have "map_of (al @ [(key, v)]) k = (if k = key then Some v else map_of al k)"
    if "map_of al key = None" for al :: "(string \<times> instant list) list" and v k
    using that by (simp add: map_add_def split: option.splits)
  moreover have "distinct (map fst (AList.delete key al @ [(key, v)]))" if "distinct (map fst al)" for al and v :: "instant list"
    using distinct_delete [OF that, of key] by (simp add: delete_keys)
  ultimately show ?thesis
    using assms(1) rec
    by (auto simp: represents_def limiter_append_def Let_def map_of_eq_None_iff split: option.splits if_splits)
qed

lemma new_represents:
  "0 < w \<Longrightarrow> 0 < p \<Longrightarrow> 0 < g \<Longrightarrow> g \<le> m \<Longrightarrow> represents (new_limiter p g w m) [] t0"
  by (simp add: represents_def new_limiter_def logged_def recent_def times_of_def)

lemma represents_mine:
  assumes "represents l evs t"
  shows "map_of (source_times l) key = None \<longleftrightarrow> times_of key (recent (window_seconds l) t evs) = []"
    and "map_of (source_times l) key = Some ts \<Longrightarrow> ts = times_of key (recent (window_seconds l) t evs)"
    and "global_times l = map fst (recent (window_seconds l) t evs)"
    and "0 < per_source_limit l" "0 < global_limit l"
  using assms by (auto simp: represents_def Let_def split: if_splits)

definition limiter_limits :: "limiter \<Rightarrow> nat \<times> nat \<times> rat" where
  "limiter_limits l = (per_source_limit l, global_limit l, window_seconds l)"

definition setup_allowed :: "instant \<Rightarrow> string option \<Rightarrow> limiter \<Rightarrow> bool" where
  "setup_allowed t src l = sa_allowed (fst (setup_admit t src l))"

definition setup_next :: "instant \<Rightarrow> string option \<Rightarrow> limiter \<Rightarrow> limiter" where
  "setup_next t src l = snd (setup_admit t src l)"

definition failure_allowed :: "instant \<Rightarrow> string option \<Rightarrow> limiter \<Rightarrow> bool" where
  "failure_allowed t src l = th_allowed (fst (failure_check t src l))"

lemma setup_admit_cases:
  fixes src :: "string option"
  assumes "represents l0 evs t0" "t0 \<le> t"
  defines "l \<equiv> limiter_prune t l0" and "r \<equiv> recent (window_seconds l0) t evs" and "key \<equiv> source_key src"
  shows "setup_admit t src l0 =
     (if per_source_limit l0 \<le> length (times_of key r) then
        (\<lparr>sa_allowed = False, sa_error = Some EMaxTries, sa_retry_after = retry_after l0 t (hd (times_of key r))\<rparr>, l)
      else if global_limit l0 \<le> length r then
        (\<lparr>sa_allowed = False, sa_error = Some EBusy, sa_retry_after = retry_after l0 t (fst (hd r))\<rparr>, l)
      else (\<lparr>sa_allowed = True, sa_error = None, sa_retry_after = 0\<rparr>, limiter_append t key l))"
proof -
  have rep: "represents l evs t" unfolding l_def by (rule prune_represents [OF assms(1,2)])
  have lims: "window_seconds l = window_seconds l0" "per_source_limit l = per_source_limit l0"
    "global_limit l = global_limit l0" by (simp_all add: l_def)
  note facts = represents_mine [OF rep, unfolded lims, folded r_def]
  have "hd (global_times l) = fst (hd r)" if "global_limit l0 \<le> length r"
    using that facts by (cases r) auto
  with facts show ?thesis
    by (cases "map_of (source_times l) key")
      (auto simp: setup_admit_def Let_def l_def [symmetric] key_def [symmetric] retry_after_def lims)
qed

lemma failure_cases:
  fixes src :: "string option"
  assumes "represents l0 evs t0" "t0 \<le> t"
  defines "l \<equiv> limiter_prune t l0" and "r \<equiv> recent (window_seconds l0) t evs" and "key \<equiv> source_key src"
  shows "th_allowed (fst (failure_check t src l0)) \<longleftrightarrow>
      length r < global_limit l0 \<and> length (times_of key r) < per_source_limit l0"
    and "failure_record t src l0 =
     (if length r < global_limit l0 \<and> length (times_of key r) < per_source_limit l0
      then limiter_append t key l else l)"
proof -
  have rep: "represents l evs t" unfolding l_def by (rule prune_represents [OF assms(1,2)])
  have lims: "window_seconds l = window_seconds l0" "per_source_limit l = per_source_limit l0"
    "global_limit l = global_limit l0" by (simp_all add: l_def)
  note facts = represents_mine [OF rep, unfolded lims, folded r_def]
  have "(case map_of (source_times l) key of None \<Rightarrow> [] | Some ts \<Rightarrow> ts) = times_of key r"
    using facts(1,2) [of key] by (auto split: option.split)
  then show "th_allowed (fst (failure_check t src l0)) \<longleftrightarrow>
      length r < global_limit l0 \<and> length (times_of key r) < per_source_limit l0"
    using facts(3) by (simp add: failure_check_def failure_prune_def Let_def l_def [symmetric] key_def [symmetric] lims)
  from facts show "failure_record t src l0 =
     (if length r < global_limit l0 \<and> length (times_of key r) < per_source_limit l0
      then limiter_append t key l else l)"
    by (cases "map_of (source_times l) key")
      (auto simp: failure_record_def failure_prune_def Let_def l_def [symmetric] key_def [symmetric] lims)
qed

lemma log_step_represents:
  assumes "represents l0 evs t0" "t0 \<le> t"
  shows "represents
    (if has_room (per_source_limit l0) (global_limit l0) (window_seconds l0) t key evs
     then limiter_append t key (limiter_prune t l0) else limiter_prune t l0)
    (log_step (per_source_limit l0) (global_limit l0) (window_seconds l0) t key evs) t"
proof -
  have rep: "represents (limiter_prune t l0) evs t" by (rule prune_represents [OF assms])
  then show ?thesis
    using append_represents [OF rep, of key] represents_mine(3) [OF rep]
    by (simp add: log_step_def has_room_def)
qed

lemma setup_next_eq:
  assumes "represents l0 evs t0" "t0 \<le> t"
  shows "setup_next t src l0 =
    (if has_room (per_source_limit l0) (global_limit l0) (window_seconds l0) t (source_key src) evs
     then limiter_append t (source_key src) (limiter_prune t l0) else limiter_prune t l0)"
  unfolding setup_next_def setup_admit_cases [OF assms] has_room_def by simp

lemma failure_record_eq:
  assumes "represents l0 evs t0" "t0 \<le> t"
  shows "failure_record t src l0 =
    (if has_room (per_source_limit l0) (global_limit l0) (window_seconds l0) t (source_key src) evs
     then limiter_append t (source_key src) (limiter_prune t l0) else limiter_prune t l0)"
  unfolding failure_cases(2) [OF assms] has_room_def by simp

lemma limiter_limits_if [simp]:
  "limiter_limits (if b then limiter_append t k (limiter_prune t l) else limiter_prune t l) = limiter_limits l"
  by (simp add: limiter_limits_def)

interpretation setup_lim: windowed_limiter setup_allowed setup_next represents limiter_limits
proof
  fix l evs t0 t p g w src
  assume rep: "represents l evs t0" "t0 \<le> t"
  show "setup_allowed t src l \<longleftrightarrow> has_room p g w t (source_key src) evs" if "limiter_limits l = (p, g, w)"
    using that unfolding setup_allowed_def setup_admit_cases [OF rep] by (auto simp: has_room_def limiter_limits_def)
  show "represents (setup_next t src l) (log_step p g w t (source_key src) evs) t" if "limiter_limits l = (p, g, w)"
    using that log_step_represents [OF rep, of "source_key src"] unfolding setup_next_eq [OF rep]
    by (auto simp: limiter_limits_def)
  show "limiter_limits (setup_next t src l) = limiter_limits l"
    unfolding setup_next_eq [OF rep] by simp
next
  show "t \<le> t0" if "represents l evs t0" "(t, k) \<in> set evs" for l evs t0 t k
    using that by (auto simp: represents_def logged_def)
qed

interpretation failure_lim: windowed_limiter failure_allowed failure_record represents limiter_limits
proof
  fix l evs t0 t p g w src
  assume rep: "represents l evs t0" "t0 \<le> t"
  show "failure_allowed t src l \<longleftrightarrow> has_room p g w t (source_key src) evs" if "limiter_limits l = (p, g, w)"
    using that unfolding failure_allowed_def failure_cases(1) [OF rep] by (auto simp: has_room_def limiter_limits_def)
  show "represents (failure_record t src l) (log_step p g w t (source_key src) evs) t" if "limiter_limits l = (p, g, w)"
    using that log_step_represents [OF rep, of "source_key src"] unfolding failure_record_eq [OF rep]
    by (auto simp: limiter_limits_def)
  show "limiter_limits (failure_record t src l) = limiter_limits l"
    unfolding failure_record_eq [OF rep] by simp
next
  show "t \<le> t0" if "represents l evs t0" "(t, k) \<in> set evs" for l evs t0 t k
    using that by (auto simp: represents_def logged_def)
qed

text \<open>What a run from a fresh limiter counts.\<close>

lemma fresh_within: "within_limits p g w []"
  by (simp add: within_limits_def in_window_def times_of_def)

lemma setup_run_within:
  assumes "0 < w" "0 < p" "0 < g" "g \<le> m" "sorted (map fst os)"
  shows "within_limits p g w (counted setup_allowed setup_next (new_limiter p g w m) os)"
proof (cases os)
  case (Cons o1 os')
  have "sorted (fst o1 # map fst os)" using assms(5) by (simp add: Cons)
  from setup_lim.counted_within [OF new_represents [OF assms(1-4)] _ fresh_within this]
  show ?thesis by (simp add: limiter_limits_def new_limiter_def)
qed (simp add: fresh_within)

lemma failure_run_within:
  assumes "0 < w" "0 < p" "0 < g" "g \<le> m" "sorted (map fst os)"
  shows "within_limits p g w (counted failure_allowed failure_record (new_limiter p g w m) os)"
proof (cases os)
  case (Cons o1 os')
  have "sorted (fst o1 # map fst os)" using assms(5) by (simp add: Cons)
  from failure_lim.counted_within [OF new_represents [OF assms(1-4)] _ fresh_within this]
  show ?thesis by (simp add: limiter_limits_def new_limiter_def)
qed (simp add: fresh_within)

text \<open>When both limits are full, \<open>check\<close> reports the time until the first of them frees up: the
  second still refuses then.\<close>

lemma failure_retry_too_short:
  defines "l \<equiv> failure_record 30 (Some ''a'') (failure_record 0 (Some ''b'') (new_limiter 1 2 60 4))"
  shows "fst (failure_check 40 (Some ''a'') l) = \<lparr>th_allowed = False, th_retry_after = 20\<rparr>
    \<and> fst (failure_check 60 (Some ''a'') l) = \<lparr>th_allowed = False, th_retry_after = 30\<rparr>"
  by (simp add: l_def failure_check_def failure_record_def failure_prune_def limiter_prune_def limiter_append_def
      new_limiter_def source_key_def py_strip_def py_space_def py_prefix_def MAX_SOURCE_KEY_LENGTH_def
      char_cont_def retry_after_def Let_def)

text \<open>How long a refused start has to wait.\<close>

lemma recent_shorter: "t \<le> t' \<Longrightarrow> length (recent w t' evs) \<le> length (recent w t evs)"
  unfolding recent_def by (auto intro!: length_filter_imp)

lemma expired:
  assumes "logged evs t" "recent w t evs = e # r" "w + fst e \<le> t'"
  shows "length (recent w t' evs) \<le> length r"
proof -
  have "recent w t' evs = recent w t' (recent w t evs)" if "t \<le> t'"
    using recent_recent [OF that] by simp
  moreover have "t \<le> t'"
  proof -
    have "e \<in> set (recent w t evs)" using assms(2) by simp
    then have "t - w < fst e" by (auto simp: recent_def)
    then show ?thesis using assms(3) by simp
  qed
  ultimately have "recent w t' evs = recent w t' (e # r)" using assms(2) by simp
  also have "\<dots> = recent w t' r" using assms(3) by (auto simp: recent_def split: prod.splits)
  finally show ?thesis by (simp add: recent_def)
qed

lemma in_window_logged: "logged evs t \<Longrightarrow> in_window w t evs = recent w t evs"
  by (force simp: logged_def in_window_def recent_def intro!: filter_cong)

lemma expired_mine:
  assumes "logged evs t" "times_of k (recent w t evs) = e # r" "w + e \<le> t'"
  shows "length (times_of k (recent w t' evs)) \<le> length r"
proof -
  define mine where "mine = filter (\<lambda>(s, k'). k' = k) evs"
  have eq: "times_of k (recent w x evs) = map fst (recent w x mine)" for x
    by (simp add: times_of_def recent_def mine_def filter_filter split_beta conj_commute)
  have "logged mine t" using assms(1) by (auto simp: logged_def mine_def intro!: sorted_filter)
  moreover obtain e' r' where "recent w t mine = e' # r'" "e = fst e'" "r = map fst r'"
    using assms(2) by (auto simp: eq)
  ultimately show ?thesis using expired [of mine t w e' r' t'] assms(3) by (simp add: eq)
qed

subsection \<open>Properties\<close>

text \<open>Whatever sequence of calls the connections make, the total and the unauthenticated budgets
  hold and only admitted connections count as unauthenticated; an admitted connection stays admitted
  until it is itself released.\<close>

theorem admission_budgets:
  assumes "adm_inv a"
  shows "let a' = fold adm_step calls a in
      card (connections a') \<le> max_connections a \<and> card (unauthenticated a') \<le> max_unauthenticated a
    \<and> unauthenticated a' \<subseteq> connections a'
    \<and> (c \<in> connections a \<and> Release c \<notin> set calls \<longrightarrow> c \<in> connections a')"
  using adm_inv_run [OF assms(1), of calls] adm_stays_run [of c a calls] adm_limits_run [of calls a]
  unfolding adm_inv_def Let_def by simp

theorem admission_budgets_witness:
  "1 \<in> connections (fold adm_step [Authenticated (1 :: nat), Acquire 2, Acquire 3, Release 2]
     \<lparr>max_connections = 2, max_unauthenticated = 1, connections = {1}, unauthenticated = {1}\<rparr>)"
  using admission_budgets [of "\<lparr>max_connections = 2, max_unauthenticated = 1, connections = {1}, unauthenticated = {1}\<rparr>"
      "[Authenticated (1 :: nat), Acquire 2, Acquire 3, Release 2]" 1]
  by (simp add: adm_inv_def Let_def)

text \<open>C22: The pair-setup limiter, with its pruned queues and its bounded table of sources, decides as
  the log of all admitted starts would: it admits exactly when the window before now holds fewer than
  the global limit and fewer of this source than its limit, reports \<open>MaxTries\<close> exactly when the
  source's limit is reached, and records exactly the admitted starts.\<close>

theorem setup_admit_exact:
  assumes "represents l evs t0" and "t0 \<le> t"
  shows "let (a, l') = setup_admit t src l; key = source_key src; w = window_seconds l;
             p = per_source_limit l; g = global_limit l
         in (sa_allowed a \<longleftrightarrow> has_room p g w t key evs)
          \<and> (sa_error a = Some EMaxTries \<longleftrightarrow> p \<le> length (times_of key (recent w t evs)))
          \<and> (sa_error a = None \<longleftrightarrow> sa_allowed a)
          \<and> represents l' (log_step p g w t key evs) t"
proof -
  have "represents (setup_next t src l)
      (log_step (per_source_limit l) (global_limit l) (window_seconds l) t (source_key src) evs) t"
    using setup_lim.offer_models [OF assms, of "per_source_limit l" "global_limit l" "window_seconds l" src]
    by (simp add: limiter_limits_def)
  then show ?thesis
    unfolding setup_next_def setup_admit_cases [OF assms] Let_def
    by (simp add: has_room_def split_beta not_le)
qed

theorem setup_admit_exact_witness:
  "sa_allowed (fst (setup_admit 5 None (new_limiter 1 2 60 4)))"
  using setup_admit_exact [OF new_represents [of 60 1 2 4 0], of 5 None]
  by (simp add: split_beta Let_def has_room_def recent_def times_of_def new_limiter_def)

text \<open>With a table of sources at least as large as the global limit (as configured: 256 and 20), a
  fresh pair-setup limiter never admits more than the global limit of starts in any window of time, nor
  more than the per-source limit from one source, however the starts are spread.\<close>

theorem setup_window_bound:
  assumes "new_setup_limiter p g w m = Inr l" and "g \<le> m" and "sorted (map fst os)"
  shows "within_limits (nat p) (nat g) w (counted setup_allowed setup_next l os)"
proof -
  have "0 < w" "0 < nat p" "0 < nat g" "nat g \<le> nat m" "l = new_limiter (nat p) (nat g) w (nat m)"
    using assms(1,2) by (auto simp: new_setup_limiter_def split: if_splits)
  then show ?thesis using setup_run_within [OF _ _ _ _ assms(3)] by blast
qed

theorem setup_window_bound_witness:
  "within_limits 5 20 60 (counted setup_allowed setup_next (new_limiter 5 20 60 256) [(0, None), (1, Some ''a'')])"
  using setup_window_bound [of 5 20 60 256 "new_limiter 5 20 60 256" "[(0, None), (1, Some ''a'')]"]
  by (simp add: new_setup_limiter_def)

text \<open>The same bound for failed pairings: in any window the failure limiter counts at most the global
  limit of failures and the per-source limit of one source, and \<open>check\<close> refuses exactly while one of
  the two limits is reached.\<close>

theorem failure_window_bound:
  assumes "0 < w" and "0 < p" and "0 < g" and "g \<le> m" and "sorted (map fst os)"
  shows "within_limits p g w (counted failure_allowed failure_record (new_limiter p g w m) os)"
  by (rule failure_run_within [OF assms])

theorem failure_window_bound_witness:
  "within_limits 5 20 60 (counted failure_allowed failure_record (new_limiter 5 20 60 256) [(0, None), (0, None)])"
  by (rule failure_window_bound) simp_all

text \<open>A refused start is told to wait at least one second and at most the window, and once it has
  waited that long, the limit that refused it does not refuse it again.\<close>

theorem setup_retry_sufficient:
  assumes "represents l evs t0" and "t0 \<le> t"
    and "within_limits (per_source_limit l) (global_limit l) (window_seconds l) evs"
    and "setup_admit t src l = (a, l')" and "\<not> sa_allowed a"
    and "t + of_int (sa_retry_after a) \<le> t'"
  shows "1 \<le> sa_retry_after a \<and> sa_retry_after a \<le> max 1 \<lceil>window_seconds l\<rceil>
    \<and> sa_error (fst (setup_admit t' src l')) \<noteq> sa_error a"
proof -
  define w p g where "w = window_seconds l" and "p = per_source_limit l" and "g = global_limit l"
  define r where "r = recent w t evs"
  note adm = setup_admit_cases [OF assms(1,2), of src, folded w_def p_def g_def, folded r_def]
  have lg: "logged evs t" using prune_represents [OF assms(1,2)] by (simp add: represents_def)
  have lim: "length r \<le> g" "length (times_of (source_key src) r) \<le> p"
    using assms(3) in_window_logged [OF lg, of w] unfolding within_limits_def r_def w_def p_def g_def by metis+
  have pos: "0 < p" "0 < g" using assms(1) by (simp_all add: represents_def p_def g_def)
  have wait: "1 \<le> retry_after l t x \<and> retry_after l t x \<le> max 1 \<lceil>w\<rceil> \<and> t \<le> t' \<and> w + x \<le> t'"
    if "sa_retry_after a = retry_after l t x" "x \<le> t" for x
  proof -
    have "w - (t - x) \<le> of_int (retry_after l t x)" unfolding retry_after_def w_def
      by (rule order_trans [OF le_of_int_ceiling]) simp
    moreover have "1 \<le> retry_after l t x" by (simp add: retry_after_def)
    moreover have "retry_after l t x \<le> max 1 \<lceil>w\<rceil>"
      unfolding retry_after_def w_def using that(2) by (intro max.mono ceiling_mono) auto
    moreover have "(1 :: rat) \<le> of_int (retry_after l t x)" using calculation(2) by simp
    ultimately show ?thesis using assms(6) that(1) by auto
  qed
  define mine where "mine = times_of (source_key src) r"
  have l': "represents l' evs t" and lims: "window_seconds l' = w" "per_source_limit l' = p" "global_limit l' = g"
    using prune_represents [OF assms(1,2)] adm assms(4,5) unfolding w_def p_def g_def
    by (auto split: if_splits)
  have past: "x \<le> t" if "(x, k) \<in> set r" for x k
    using that lg by (auto simp: r_def recent_def logged_def)
  show ?thesis
  proof (cases "p \<le> length mine")
    case True
    then obtain x xs where mine: "mine = x # xs" using pos by (cases mine) auto
    then have "x \<in> set mine" by simp
    then have "x \<le> t" using past by (auto simp: mine_def times_of_def)
    have a: "sa_error a = Some EMaxTries" "sa_retry_after a = retry_after l t x"
      using adm True assms(4) mine by (auto simp: mine_def)
    note later = wait [OF a(2) \<open>x \<le> t\<close>]
    have "length (times_of (source_key src) (recent w t' evs)) \<le> length xs"
      using expired_mine [OF lg, of "source_key src" w x xs t'] mine later by (simp add: mine_def r_def)
    then have "length (times_of (source_key src) (recent w t' evs)) < p"
      using lim(2) mine by (simp add: mine_def)
    then show ?thesis
      using later a setup_admit_cases [OF l', of t' src] by (simp add: lims w_def [symmetric])
  next
    case False
    then have full: "g \<le> length r" using adm assms(4,5) by (auto simp: mine_def split: if_splits)
    then obtain e es where r: "r = e # es" using pos by (cases r) auto
    then have "fst e \<le> t" using past by (cases e) auto
    have a: "sa_error a = Some EBusy" "sa_retry_after a = retry_after l t (fst e)"
      using adm False full assms(4) r by (auto simp: mine_def)
    note later = wait [OF a(2) \<open>fst e \<le> t\<close>]
    have "length (recent w t' evs) \<le> length es"
      using expired [OF lg, of w e es t'] r later by (simp add: r_def)
    then have "length (recent w t' evs) < g" using lim(1) r by simp
    then show ?thesis
      using later a setup_admit_cases [OF l', of t' src] by (simp add: lims w_def [symmetric])
  qed
qed

theorem setup_retry_sufficient_witness:
  "let l = \<lparr>per_source_limit = 1, global_limit = 2, window_seconds = 60, max_sources = 4,
       global_times = [0], source_times = [(''<unknown>'', [0])]\<rparr>;
     (a, l') = setup_admit 10 None l
   in sa_retry_after a = 50 \<and> sa_error a = Some EMaxTries
      \<and> sa_error (fst (setup_admit 60 None l')) \<noteq> Some EMaxTries"
proof -
  let ?l = "\<lparr>per_source_limit = 1, global_limit = 2, window_seconds = 60, max_sources = 4,
       global_times = [0], source_times = [(''<unknown>'', [0])]\<rparr>"
  have rep: "represents ?l [(0, ''<unknown>'')] 0"
    by (simp add: represents_def logged_def recent_def times_of_def)
  have lim: "within_limits 1 2 60 [(0, ''<unknown>'')]"
    by (simp add: within_limits_def in_window_def times_of_def)
  have adm: "setup_admit 10 None ?l =
      (\<lparr>sa_allowed = False, sa_error = Some EMaxTries, sa_retry_after = 50\<rparr>, ?l)"
    by (simp add: setup_admit_def limiter_prune_def source_key_def UNKNOWN_SOURCE_def retry_after_def Let_def)
  show ?thesis
    using setup_retry_sufficient [OF rep _ _ adm, of 60] lim unfolding Let_def adm prod.case by simp
qed

end
