(* ===== verification/Auth.thy ===== *)
theory Auth
  imports PairedClients Cipher Tlv8 Opack Guardrails
begin

text \<open>
  \<^verbatim>\<open>companion/protocol/auth.py\<close>: the server side of HAP pair-setup and pair-verify on one
  connection. The cryptography of the libraries is a parameter (\<open>crypto\<close>), and so is what the
  concrete service and its stores do when asked (\<open>host\<close>): limiters, enrollment window, paired
  clients, randomness. A handler works on a \<open>peer\<close>: the transient authentication state, the host's
  state, the frames sent and the transport keys once they are installed. An exception is a value; what it
  leaves behind in the state stays.
\<close>

subsection \<open>Frame types\<close>

datatype frame_type =
    FT_Unknown | FT_NoOp | PS_Start | PS_Next | PV_Start | PV_Next | U_OPACK | E_OPACK | P_OPACK | PA_Req | PA_Rsp
  | SessionStartRequest | SessionStartResponse | SessionData
  | FamilyIdentityRequest | FamilyIdentityResponse | FamilyIdentityUpdate

definition frame_codes :: "(nat \<times> frame_type) list" where
  "frame_codes = [(0, FT_Unknown), (1, FT_NoOp), (3, PS_Start), (4, PS_Next), (5, PV_Start), (6, PV_Next), (7, U_OPACK),
     (8, E_OPACK), (9, P_OPACK), (10, PA_Req), (11, PA_Rsp), (16, SessionStartRequest), (17, SessionStartResponse),
     (18, SessionData), (32, FamilyIdentityRequest), (33, FamilyIdentityResponse), (34, FamilyIdentityUpdate)]"

definition frame_type_of :: "nat \<Rightarrow> frame_type option" where
  "frame_type_of = map_of frame_codes"

definition frame_code :: "frame_type \<Rightarrow> nat" where
  "frame_code t = the (map_of (map prod.swap frame_codes) t)"

definition COMPANION_AUTH_FRAMES :: "frame_type list" where
  "COMPANION_AUTH_FRAMES = [PS_Start, PS_Next, PV_Start, PV_Next]"

subsection \<open>Parameters\<close>

record 'srp crypto = aead +
  cr_public :: "bytes \<Rightarrow> bytes"
  cr_exchange :: "bytes \<Rightarrow> bytes \<Rightarrow> bytes option"
  cr_hkdf :: "string \<Rightarrow> string \<Rightarrow> bytes \<Rightarrow> bytes"
  cr_sign_public :: "bytes \<Rightarrow> bytes"
  cr_sign :: "bytes \<Rightarrow> bytes \<Rightarrow> bytes"
  cr_verify :: "bytes \<Rightarrow> bytes \<Rightarrow> bytes \<Rightarrow> bool"
  cr_srp_start :: "string \<Rightarrow> bytes \<Rightarrow> 'srp \<times> bytes \<times> bytes"
  cr_srp_process :: "'srp \<Rightarrow> bytes \<Rightarrow> bytes \<Rightarrow> 'srp option"
  cr_srp_verify :: "'srp \<Rightarrow> bytes \<Rightarrow> bool option"
  cr_srp_proof :: "'srp \<Rightarrow> bytes"
  cr_srp_key :: "'srp \<Rightarrow> bytes"

record 'h host =
  ho_admission :: "'h \<Rightarrow> setup_admission \<times> 'h"
  ho_backoff :: "'h \<Rightarrow> int \<times> 'h"
  ho_failed :: "'h \<Rightarrow> 'h"
  ho_resetting :: "'h \<Rightarrow> bool \<times> 'h"
  ho_window :: "string \<times> string \<Rightarrow> 'h \<Rightarrow> pairing_window option result \<times> 'h"
  ho_ltpk :: "string \<Rightarrow> 'h \<Rightarrow> bytes option result \<times> 'h"
  ho_authorizes :: "string \<Rightarrow> bytes \<Rightarrow> 'h \<Rightarrow> bool result \<times> 'h"
  ho_commit :: "string \<Rightarrow> string \<Rightarrow> bytes \<Rightarrow> string \<times> string \<Rightarrow> 'h \<Rightarrow> bool result \<times> 'h"
  ho_add :: "string \<Rightarrow> bytes \<Rightarrow> 'h \<Rightarrow> unit result \<times> 'h"
  ho_random :: "'h \<Rightarrow> bytes \<times> 'h"
  ho_paired :: "'h \<Rightarrow> 'h"

record auth_config =
  ac_identifier :: bytes
  ac_generation :: "string option"
  ac_seed :: bytes
  ac_has_store :: bool
  ac_require :: bool
  ac_has_window :: bool
  ac_depth :: nat

subsection \<open>State\<close>

datatype phase = Idle | SetupM3 | SetupM5 | SetupComplete | VerifyM3 | Encrypted | Failed | Closed

record 'srp auth =
  au_phase :: phase
  au_session :: "'srp option"
  au_salt :: "bytes option"
  au_pin :: "string option"
  au_expiry :: "rat option"
  au_window_generation :: "string option"
  au_proved :: bool
  au_input_key :: "bytes option"
  au_output_key :: "bytes option"
  au_client :: "string option"
  au_client_key :: "bytes option"
  au_pv_key :: "bytes option"
  au_pv_server :: "bytes option"
  au_pv_client :: "bytes option"

definition new_auth :: "'srp auth" where
  "new_auth = \<lparr>au_phase = Idle, au_session = None, au_salt = None, au_pin = None, au_expiry = None, au_window_generation = None,
     au_proved = False, au_input_key = None, au_output_key = None, au_client = None, au_client_key = None, au_pv_key = None,
     au_pv_server = None, au_pv_client = None\<rparr>"

definition clear_setup :: "'srp auth \<Rightarrow> 'srp auth" where
  "clear_setup a = a\<lparr>au_session := None, au_salt := None, au_pin := None, au_expiry := None, au_window_generation := None, au_proved := False\<rparr>"

definition clear_verify :: "'srp auth \<Rightarrow> 'srp auth" where
  "clear_verify a = a\<lparr>au_input_key := None, au_output_key := None, au_pv_key := None, au_pv_server := None, au_pv_client := None\<rparr>"

definition clear_client :: "'srp auth \<Rightarrow> 'srp auth" where
  "clear_client a = a\<lparr>au_client := None, au_client_key := None\<rparr>"

definition clear_pending :: "'srp auth \<Rightarrow> 'srp auth" where
  "clear_pending a = clear_client (clear_verify (clear_setup a))"

definition reset_authentication :: "bool \<Rightarrow> 'srp auth \<Rightarrow> 'srp auth" where
  "reset_authentication connection_closed a = (clear_pending a)\<lparr>au_phase := if connection_closed then Closed else Idle\<rparr>"

record ('srp, 'h) peer =
  pe_auth :: "'srp auth"
  pe_host :: 'h
  pe_sent :: "(frame_type \<times> opack) list"
  pe_keys :: "(bytes \<times> bytes) option"

type_synonym ('srp, 'h, 'a) am = "('srp, 'h) peer \<Rightarrow> 'a result \<times> ('srp, 'h) peer"

definition am_return :: "'a \<Rightarrow> ('srp, 'h, 'a) am" where "am_return x p = (Inr x, p)"
definition am_raise :: "exn \<Rightarrow> ('srp, 'h, 'a) am" where "am_raise e p = (Inl e, p)"

definition am_bind :: "('srp, 'h, 'a) am \<Rightarrow> ('a \<Rightarrow> ('srp, 'h, 'b) am) \<Rightarrow> ('srp, 'h, 'b) am" where
  "am_bind m f p = (case m p of (Inl e, p1) \<Rightarrow> (Inl e, p1) | (Inr x, p1) \<Rightarrow> f x p1)"

definition am_then :: "('srp, 'h, 'a) am \<Rightarrow> ('srp, 'h, 'b) am \<Rightarrow> ('srp, 'h, 'b) am" where
  "am_then m k = am_bind m (\<lambda>_. k)"

definition am_handle :: "('srp, 'h, 'a) am \<Rightarrow> (exn \<Rightarrow> ('srp, 'h, 'b) am) \<Rightarrow> ('a \<Rightarrow> ('srp, 'h, 'b) am) \<Rightarrow> ('srp, 'h, 'b) am" where
  "am_handle m h k p = (case m p of (Inl e, p1) \<Rightarrow> h e p1 | (Inr x, p1) \<Rightarrow> k x p1)"

definition am_lift :: "'a result \<Rightarrow> ('srp, 'h, 'a) am" where "am_lift r p = (r, p)"

definition am_get :: "('srp auth \<Rightarrow> ('srp, 'h, 'a) am) \<Rightarrow> ('srp, 'h, 'a) am" where "am_get f p = f (pe_auth p) p"

definition am_auth :: "('srp auth \<Rightarrow> 'srp auth) \<Rightarrow> ('srp, 'h, unit) am" where
  "am_auth f p = (Inr (), p\<lparr>pe_auth := f (pe_auth p)\<rparr>)"

definition am_host :: "('h \<Rightarrow> 'a \<times> 'h) \<Rightarrow> ('srp, 'h, 'a) am" where
  "am_host f p = (case f (pe_host p) of (x, h) \<Rightarrow> (Inr x, p\<lparr>pe_host := h\<rparr>))"

definition am_ask :: "('h \<Rightarrow> 'a result \<times> 'h) \<Rightarrow> ('srp, 'h, 'a) am" where
  "am_ask f p = (case f (pe_host p) of (r, h) \<Rightarrow> (r, p\<lparr>pe_host := h\<rparr>))"

definition am_do :: "('h \<Rightarrow> 'h) \<Rightarrow> ('srp, 'h, unit) am" where
  "am_do f = am_host (\<lambda>h. ((), f h))"

definition am_send :: "frame_type \<Rightarrow> opack \<Rightarrow> ('srp, 'h, unit) am" where
  "am_send t d p = (Inr (), p\<lparr>pe_sent := pe_sent p @ [(t, d)]\<rparr>)"

text \<open>\<open>enable_encryption\<close> refuses a second installation.\<close>

definition am_encrypt :: "bytes \<Rightarrow> bytes \<Rightarrow> ('srp, 'h, unit) am" where
  "am_encrypt out_key in_key p =
     (if pe_keys p \<noteq> None then (Inl RuntimeError, p) else (Inr (), p\<lparr>pe_keys := Some (out_key, in_key)\<rparr>))"

definition need :: "'a option \<Rightarrow> ('srp, 'h, 'a) am" where
  "need x = (case x of None \<Rightarrow> am_raise TypeError | Some y \<Rightarrow> am_return y)"

definition tlv_get :: "tlv \<Rightarrow> tlv_value \<Rightarrow> ('srp, 'h, bytes) am" where
  "tlv_get d v = (case map_of d (tlv_code v) of None \<Rightarrow> am_raise KeyError | Some b \<Rightarrow> am_return b)"

subsection \<open>Replies\<close>

definition pd :: "bytes \<Rightarrow> opack" where "pd tlv = ODict [(OStr ''_pd'', OBytes tlv)]"

definition tlv_of :: "(tlv_value \<times> bytes) list \<Rightarrow> tlv" where
  "tlv_of = map (\<lambda>(v, b). (tlv_code v, b))"

definition send_tlv :: "frame_type \<Rightarrow> (tlv_value \<times> bytes) list \<Rightarrow> ('srp, 'h, unit) am" where
  "send_tlv t items = am_bind (am_lift (write_tlv (tlv_of items))) (\<lambda>b. am_send t (pd b))"

definition send_verify_error :: "('srp, 'h, unit) am" where
  "send_verify_error = send_tlv PV_Next [(TSeqNo, [4]), (TError, [error_byte EAuthentication])]"

definition send_setup_error :: "byte \<Rightarrow> error_code \<Rightarrow> ('srp, 'h, unit) am" where
  "send_setup_error seqno error = send_tlv PS_Next [(TSeqNo, [seqno]), (TError, [error_byte error])]"

definition send_setup_m4_error :: "('srp, 'h, unit) am" where
  "send_setup_m4_error = send_setup_error 4 EAuthentication"

definition send_setup_backoff :: "int \<Rightarrow> ('srp, 'h, unit) am" where
  "send_setup_backoff retry = am_bind (am_lift (to_bytes_le 2 retry)) (\<lambda>b.
     send_tlv PS_Next [(TSeqNo, [2]), (TError, [error_byte EBackOff]), (TBackOff, b)])"

definition send_setup_admission_error :: "setup_admission \<Rightarrow> ('srp, 'h, unit) am" where
  "send_setup_admission_error adm =
     (if sa_error adm = Some EBackOff then send_setup_backoff (if sa_retry_after adm = 0 then 1 else sa_retry_after adm)
      else send_setup_error 2 (case sa_error adm of Some e \<Rightarrow> e | None \<Rightarrow> EBusy))"

definition reject_setup_sequence :: "'h host \<Rightarrow> nat option \<Rightarrow> ('srp, 'h, unit) am" where
  "reject_setup_sequence H seqno =
     am_then (am_do (ho_failed H)) (am_then (am_auth clear_setup)
       (send_setup_error (case seqno of None \<Rightarrow> 2 | Some n \<Rightarrow> if n \<le> 1 then 2 else if n \<le> 3 then 4 else 6) EAuthentication))"

subsection \<open>Bindings and windows\<close>

definition server_identity_binding :: "auth_config \<Rightarrow> (string \<times> string) option" where
  "server_identity_binding cfg =
     (case (ac_generation cfg, decode_utf8 (ac_identifier cfg)) of (Some g, Inr s) \<Rightarrow> Some (s, g) | _ \<Rightarrow> None)"

definition active_pairing_window :: "'h host \<Rightarrow> auth_config \<Rightarrow> ('srp, 'h, pairing_window option) am" where
  "active_pairing_window H cfg =
     (if \<not> ac_has_window cfg then am_return None
      else case server_identity_binding cfg of None \<Rightarrow> am_return None | Some b \<Rightarrow> am_ask (ho_window H b))"

definition setup_window_is_current :: "'h host \<Rightarrow> auth_config \<Rightarrow> ('srp, 'h, bool) am" where
  "setup_window_is_current H cfg =
     (if \<not> ac_has_window cfg then am_return True
      else am_bind (active_pairing_window H cfg) (\<lambda>found. am_get (\<lambda>a. am_return
        (case found of
           None \<Rightarrow> False
         | Some w \<Rightarrow> Some (pw_pin w) = au_pin a \<and> Some (pw_expires_at w) = au_expiry a
             \<and> (au_window_generation a = None \<or> Some (pw_generation w) = au_window_generation a)))))"

subsection \<open>Pair-verify\<close>

definition keyed :: "('srp crypto) \<Rightarrow> bytes \<Rightarrow> string \<Rightarrow> bytes \<Rightarrow> bytes result" where
  "keyed X key nonce data = fst (cipher_encrypt (aead.truncate X) data (Some (bytes_of nonce)) None (new_cipher key key 8))"

definition unkeyed :: "('srp crypto) \<Rightarrow> bytes \<Rightarrow> string \<Rightarrow> bytes \<Rightarrow> bytes result" where
  "unkeyed X key nonce data = fst (cipher_decrypt (aead.truncate X) data (Some (bytes_of nonce)) None (new_cipher key key 8))"

text \<open>The body of M1's \<open>try\<close>: the reply, and the material kept for M3.\<close>

definition m1_verify_reply :: "'srp crypto \<Rightarrow> 'h host \<Rightarrow> auth_config \<Rightarrow> tlv \<Rightarrow> ('srp, 'h, bytes) am" where
  "m1_verify_reply X H cfg data =
     am_bind (am_host (ho_random H)) (\<lambda>verify_private.
     let server_pub = cr_public X verify_private in
     am_bind (tlv_get data TPublicKey) (\<lambda>client_pub.
     am_bind (need (cr_exchange X verify_private client_pub)) (\<lambda>shared.
     let session_key = cr_hkdf X ''Pair-Verify-Encrypt-Salt'' ''Pair-Verify-Encrypt-Info'' shared;
         signature = cr_sign X (ac_seed cfg) (server_pub @ ac_identifier cfg @ client_pub) in
     am_bind (am_lift (write_tlv (tlv_of [(TIdentifier, ac_identifier cfg), (TSignature, signature)]))) (\<lambda>sub.
     am_bind (am_lift (keyed X session_key ''PV-Msg02'' sub)) (\<lambda>encrypted.
     am_bind (am_lift (write_tlv (tlv_of [(TSeqNo, [2]), (TPublicKey, server_pub), (TEncryptedData, encrypted)]))) (\<lambda>tlv.
     am_then (am_auth (\<lambda>a. a\<lparr>au_output_key := Some (cr_hkdf X '''' ''ServerEncrypt-main'' shared),
       au_input_key := Some (cr_hkdf X '''' ''ClientEncrypt-main'' shared),
       au_pv_key := Some session_key, au_pv_server := Some server_pub, au_pv_client := Some client_pub\<rparr>))
     (am_return tlv)))))))"

definition m1_verify :: "'srp crypto \<Rightarrow> 'h host \<Rightarrow> auth_config \<Rightarrow> tlv \<Rightarrow> ('srp, 'h, bool) am" where
  "m1_verify X H cfg data =
     am_then (am_auth clear_verify) (am_then (am_auth clear_client)
     (am_bind (am_host (ho_resetting H)) (\<lambda>resetting.
       if resetting then am_then send_verify_error (am_return False)
       else am_handle (m1_verify_reply X H cfg data)
         (\<lambda>_. am_then (am_auth clear_verify) (am_then send_verify_error (am_return False)))
         (\<lambda>tlv. am_then (am_send PV_Next (pd tlv)) (am_return True)))))"

definition enforced :: "auth_config \<Rightarrow> bool" where
  "enforced cfg \<longleftrightarrow> ac_require cfg \<and> ac_has_store cfg"

text \<open>The body of \<open>_verify_client\<close>'s \<open>try\<close>.\<close>

definition check_client :: "'srp crypto \<Rightarrow> 'h host \<Rightarrow> auth_config \<Rightarrow> tlv \<Rightarrow> ('srp, 'h, bool) am" where
  "check_client X H cfg data = am_get (\<lambda>a.
     am_bind (need (au_pv_key a)) (\<lambda>key.
     am_bind (tlv_get data TEncryptedData) (\<lambda>blob.
     am_bind (am_lift (unkeyed X key ''PV-Msg03'' blob)) (\<lambda>plain.
     am_bind (am_lift (read_tlv (ac_depth cfg) plain)) (\<lambda>sub.
     am_bind (tlv_get sub TIdentifier) (\<lambda>identifier.
     am_bind (am_lift (decode_utf8 identifier)) (\<lambda>name.
     am_bind (am_ask (ho_ltpk H name)) (\<lambda>found.
       case found of
         None \<Rightarrow> am_then (am_auth clear_client) (am_return False)
       | Some ltpk \<Rightarrow>
           am_bind (tlv_get sub TSignature) (\<lambda>signature.
           am_bind (need (au_pv_client a)) (\<lambda>client_pub.
           am_bind (need (au_pv_server a)) (\<lambda>server_pub.
             if \<not> cr_verify X ltpk signature (client_pub @ identifier @ server_pub) then am_raise OtherException
             else am_then (am_auth (\<lambda>a. a\<lparr>au_client := Some name, au_client_key := Some ltpk\<rparr>)) (am_return True))))))))))))"

definition verify_client :: "'srp crypto \<Rightarrow> 'h host \<Rightarrow> auth_config \<Rightarrow> tlv \<Rightarrow> ('srp, 'h, bool) am" where
  "verify_client X H cfg data =
     (if \<not> enforced cfg then am_return True
      else am_handle (check_client X H cfg data) (\<lambda>_. am_then (am_auth clear_client) (am_return False)) am_return)"

definition verified_client_is_authorized :: "'h host \<Rightarrow> auth_config \<Rightarrow> ('srp, 'h, bool) am" where
  "verified_client_is_authorized H cfg =
     (if \<not> enforced cfg then am_return True
      else am_get (\<lambda>a. case (au_client a, au_client_key a) of
          (Some identifier, Some ltpk) \<Rightarrow>
            (if identifier = [] then am_return False
             else am_handle (am_ask (ho_authorizes H identifier ltpk)) (\<lambda>_. am_return False) am_return)
        | _ \<Rightarrow> am_return False))"

definition m3_verify :: "'srp crypto \<Rightarrow> 'h host \<Rightarrow> auth_config \<Rightarrow> tlv \<Rightarrow> ('srp, 'h, bool) am" where
  "m3_verify X H cfg data =
     am_bind (verify_client X H cfg data) (\<lambda>ok.
       if \<not> ok then am_then send_verify_error (am_then (am_auth clear_verify) (am_return False))
       else am_get (\<lambda>a. case (au_output_key a, au_input_key a) of
           (Some out_key, Some in_key) \<Rightarrow>
             am_then (send_tlv PV_Next [(TSeqNo, [4])])
             (am_then (am_encrypt out_key in_key) (am_then (am_auth clear_verify) (am_return True)))
         | _ \<Rightarrow> am_then (am_auth clear_client) (am_then (am_auth clear_verify) (am_then send_verify_error (am_return False)))))"

subsection \<open>Pair-setup\<close>

text \<open>M1 once a window is open and no older handshake is pending.\<close>

definition start_setup :: "'srp crypto \<Rightarrow> 'h host \<Rightarrow> pairing_window \<Rightarrow> ('srp, 'h, bool) am" where
  "start_setup X H window =
     am_bind (am_host (ho_random H)) (\<lambda>seed.
     case cr_srp_start X (pw_pin window) seed of (session, salt, public) \<Rightarrow>
       am_then (am_auth (\<lambda>a. a\<lparr>au_session := Some session, au_salt := Some salt, au_pin := Some (pw_pin window),
         au_expiry := Some (pw_expires_at window), au_window_generation := Some (pw_generation window), au_proved := False\<rparr>))
       (am_bind (am_lift (write_tlv (tlv_of [(TSeqNo, [2]), (TSalt, salt), (TPublicKey, public)] @ [(27, [1])]))) (\<lambda>tlv.
         am_then (am_send PS_Next (ODict [(OStr ''_pd'', OBytes tlv), (OStr ''_pwTy'', OInt 1 None)])) (am_return True))))"

definition m1_setup :: "'srp crypto \<Rightarrow> 'h host \<Rightarrow> auth_config \<Rightarrow> tlv \<Rightarrow> ('srp, 'h, bool) am" where
  "m1_setup X H cfg data =
     am_then (am_auth clear_verify) (am_then (am_auth clear_client)
     (am_bind (am_host (ho_admission H)) (\<lambda>adm.
       if \<not> sa_allowed adm then am_then (am_auth clear_setup) (am_then (send_setup_admission_error adm) (am_return False))
       else am_bind (am_host (ho_resetting H)) (\<lambda>resetting.
         if resetting then am_then (am_auth clear_setup) (am_then (send_setup_error 2 EAuthentication) (am_return False))
         else am_bind (am_host (ho_backoff H)) (\<lambda>retry.
           if retry \<noteq> 0 then am_then (am_auth clear_setup) (am_then (send_setup_backoff retry) (am_return False))
           else am_bind (active_pairing_window H cfg) (\<lambda>found.
             case found of
               None \<Rightarrow> am_then (am_auth clear_setup) (am_then (send_setup_error 2 EAuthentication) (am_return False))
             | Some window \<Rightarrow> am_get (\<lambda>a.
                 if au_session a = None then start_setup X H window
                 else am_then (am_do (ho_failed H)) (am_then (am_auth clear_setup)
                   (am_bind (am_host (ho_backoff H)) (\<lambda>retry.
                     if retry \<noteq> 0 then am_then (send_setup_backoff retry) (am_return False)
                     else start_setup X H window))))))))))"

text \<open>A failed step of the setup: counted, erased, answered.\<close>

definition setup_failed :: "'h host \<Rightarrow> ('srp, 'h, unit) am \<Rightarrow> ('srp, 'h, bool) am" where
  "setup_failed H reply = am_then (am_do (ho_failed H)) (am_then (am_auth clear_setup) (am_then reply (am_return False)))"

definition check_proof :: "'srp crypto \<Rightarrow> tlv \<Rightarrow> 'srp \<Rightarrow> bytes \<Rightarrow> ('srp, 'h, bool) am" where
  "check_proof X data session salt =
     am_bind (tlv_get data TPublicKey) (\<lambda>pubkey.
     am_bind (need (cr_srp_process X session pubkey salt)) (\<lambda>session1.
     am_then (am_auth (\<lambda>a. a\<lparr>au_session := Some session1\<rparr>))
     (am_bind (tlv_get data TProof) (\<lambda>proof. need (cr_srp_verify X session1 proof)))))"

definition m3_setup :: "'srp crypto \<Rightarrow> 'h host \<Rightarrow> auth_config \<Rightarrow> tlv \<Rightarrow> ('srp, 'h, bool) am" where
  "m3_setup X H cfg data = am_get (\<lambda>a.
     case (au_session a, au_salt a) of
       (Some session, Some salt) \<Rightarrow>
         (if au_proved a then setup_failed H send_setup_m4_error
          else am_bind (setup_window_is_current H cfg) (\<lambda>current.
            if \<not> current then am_then (am_auth clear_setup) (am_then (send_setup_error 4 EAuthentication) (am_return False))
            else am_handle (check_proof X data session salt) (\<lambda>_. setup_failed H send_setup_m4_error) (\<lambda>verified.
              if verified
              then am_then (am_auth (\<lambda>a. a\<lparr>au_proved := True\<rparr>)) (am_get (\<lambda>a.
                am_bind (need (au_session a)) (\<lambda>session1.
                  am_then (send_tlv PS_Next [(TProof, cr_srp_proof X session1), (TSeqNo, [4])]) (am_return True))))
              else setup_failed H (send_tlv PS_Next [(TError, [error_byte EAuthentication]), (TSeqNo, [4])]))))
     | _ \<Rightarrow> setup_failed H send_setup_m4_error)"

text \<open>What M6 tells the phone about this device.\<close>

definition other_info :: opack where
  "other_info = ODict [
     (OStr ''altIRK'', OBytes [0x2D, 0x54, 0xE0, 0x7A, 0x88, 0x2A, 0x65, 0x6E, 0x11, 0xAB, 0x82, 0x76, 0x2D, 0x27, 0x25, 0xC5]),
     (OStr ''accountID'', OStr ''DC6A7CB6-CA1A-4BF4-880D-A61B717814DB''),
     (OStr ''model'', OStr ''AppleTV6,2''),
     (OStr ''wifiMAC'', OBytes [0x40, 0xFF, 0xA1, 0x8F, 0xA1, 0xB9]),
     (OStr ''name'', OStr ''Living Room''),
     (OStr ''mac'', OBytes [0x40, 0xC4, 0xFF, 0x8F, 0xB1, 0x99])]"

definition verify_controller_signature :: "'srp crypto \<Rightarrow> bytes \<Rightarrow> bytes \<Rightarrow> bytes \<Rightarrow> bytes \<Rightarrow> bool" where
  "verify_controller_signature X session_key identifier ltpk signature =
     cr_verify X ltpk signature
       (cr_hkdf X ''Pair-Setup-Controller-Sign-Salt'' ''Pair-Setup-Controller-Sign-Info'' session_key @ identifier @ ltpk)"

text \<open>Persisting the client, under the window the handshake began with.\<close>

definition commit_client :: "'h host \<Rightarrow> auth_config \<Rightarrow> string \<Rightarrow> bytes \<Rightarrow> ('srp, 'h, error_code option) am" where
  "commit_client H cfg identifier ltpk =
     (if ac_has_window cfg then am_get (\<lambda>a.
        case au_window_generation a of
          None \<Rightarrow> am_return (Some EAuthentication)
        | Some generation \<Rightarrow>
            (case server_identity_binding cfg of
               None \<Rightarrow> am_return (Some EAuthentication)
             | Some b \<Rightarrow> am_bind (am_ask (ho_commit H generation identifier ltpk b)) (\<lambda>current.
                 am_return (if current then None else Some EAuthentication))))
      else am_bind (setup_window_is_current H cfg) (\<lambda>current.
        if \<not> current then am_return (Some EAuthentication)
        else am_then (am_ask (ho_add H identifier ltpk)) (am_return None)))"

definition register_setup_client :: "'srp crypto \<Rightarrow> 'h host \<Rightarrow> auth_config \<Rightarrow> tlv \<Rightarrow> bytes \<Rightarrow> ('srp, 'h, error_code option) am" where
  "register_setup_client X H cfg client_tlv session_key =
     (if \<not> ac_has_store cfg then am_return None
      else case (map_of client_tlv (tlv_code TIdentifier), map_of client_tlv (tlv_code TPublicKey), map_of client_tlv (tlv_code TSignature)) of
        (Some identifier, Some ltpk, Some signature) \<Rightarrow>
          (if length ltpk \<noteq> 32 then am_return (Some EAuthentication)
           else case decode_utf8 identifier of
             Inl _ \<Rightarrow> am_return (Some EAuthentication)
           | Inr name \<Rightarrow>
               (if \<not> verify_controller_signature X session_key identifier ltpk signature then am_return (Some EAuthentication)
                else am_handle (commit_client H cfg name ltpk)
                  (\<lambda>e. am_return (Some (if e = PairedClientsFull then EMaxPeers else EAuthentication))) am_return))
      | _ \<Rightarrow> am_return (Some EAuthentication))"

definition read_m5 :: "'srp crypto \<Rightarrow> auth_config \<Rightarrow> tlv \<Rightarrow> bytes \<Rightarrow> ('srp, 'h, tlv) am" where
  "read_m5 X cfg data key =
     am_bind (tlv_get data TEncryptedData) (\<lambda>blob.
     am_bind (am_lift (unkeyed X key ''PS-Msg05'' blob)) (\<lambda>plain. am_lift (read_tlv (ac_depth cfg) plain)))"

definition m6_setup :: "'srp crypto \<Rightarrow> 'h host \<Rightarrow> auth_config \<Rightarrow> bytes \<Rightarrow> bytes \<Rightarrow> ('srp, 'h, bool) am" where
  "m6_setup X H cfg srp_key key =
     (let device_x = cr_hkdf X ''Pair-Setup-Accessory-Sign-Salt'' ''Pair-Setup-Accessory-Sign-Info'' srp_key;
          auth_pub = cr_sign_public X (ac_seed cfg);
          signature = cr_sign X (ac_seed cfg) (device_x @ ac_identifier cfg @ auth_pub)
      in am_bind (am_lift (opack_pack (ac_depth cfg) other_info)) (\<lambda>other.
         am_bind (am_lift (write_tlv (tlv_of [(TIdentifier, ac_identifier cfg), (TPublicKey, auth_pub), (TSignature, signature)] @ [(17, other)]))) (\<lambda>tlv.
         am_bind (am_lift (keyed X key ''PS-Msg06'' tlv)) (\<lambda>encrypted.
         am_then (send_tlv PS_Next [(TSeqNo, [6]), (TEncryptedData, encrypted)])
         (am_then (am_do (ho_paired H)) (am_then (am_auth clear_setup) (am_return True)))))))"

definition m5_setup :: "'srp crypto \<Rightarrow> 'h host \<Rightarrow> auth_config \<Rightarrow> tlv \<Rightarrow> ('srp, 'h, bool) am" where
  "m5_setup X H cfg data = am_get (\<lambda>a.
     case au_session a of
       None \<Rightarrow> setup_failed H (send_setup_error 6 EAuthentication)
     | Some session \<Rightarrow>
         (if \<not> au_proved a then setup_failed H (send_setup_error 6 EAuthentication)
          else am_bind (setup_window_is_current H cfg) (\<lambda>current.
            if \<not> current then am_then (am_auth clear_setup) (am_then (send_setup_error 6 EAuthentication) (am_return False))
            else let key = cr_hkdf X ''Pair-Setup-Encrypt-Salt'' ''Pair-Setup-Encrypt-Info'' (cr_srp_key X session) in
              am_handle (read_m5 X cfg data key) (\<lambda>_. setup_failed H (send_setup_error 6 EAuthentication)) (\<lambda>client_tlv.
                am_bind (register_setup_client X H cfg client_tlv (cr_srp_key X session)) (\<lambda>error.
                  case error of
                    Some code \<Rightarrow>
                      am_then (if code = EAuthentication then am_do (ho_failed H) else am_return ())
                      (am_then (am_auth clear_setup) (am_then (send_setup_error 6 code) (am_return False)))
                  | None \<Rightarrow> m6_setup X H cfg (cr_srp_key X session) key)))))"

subsection \<open>One frame\<close>

datatype step = M1Setup | M3Setup | M5Setup | M1Verify | M3Verify

definition next_auth_transition :: "phase \<Rightarrow> frame_type \<Rightarrow> nat \<Rightarrow> (step \<times> phase) option" where
  "next_auth_transition phase frame_type seqno =
     (case phase of
        Idle \<Rightarrow>
          if frame_type = PS_Start \<and> seqno = 1 then Some (M1Setup, SetupM3)
          else if frame_type = PV_Start \<and> seqno = 1 then Some (M1Verify, VerifyM3) else None
      | SetupM3 \<Rightarrow> if frame_type = PS_Next \<and> seqno = 3 then Some (M3Setup, SetupM5) else None
      | SetupM5 \<Rightarrow> if frame_type = PS_Next \<and> seqno = 5 then Some (M5Setup, SetupComplete) else None
      | SetupComplete \<Rightarrow> if frame_type = PV_Start \<and> seqno = 1 then Some (M1Verify, VerifyM3) else None
      | VerifyM3 \<Rightarrow>
          if frame_type = PV_Next \<and> seqno = 3 then Some (M3Verify, Encrypted)
          else if frame_type = PS_Start \<and> seqno = 1 then Some (M1Setup, SetupM3) else None
      | _ \<Rightarrow> None)"

definition run_step :: "'srp crypto \<Rightarrow> 'h host \<Rightarrow> auth_config \<Rightarrow> step \<Rightarrow> tlv \<Rightarrow> ('srp, 'h, bool) am" where
  "run_step X H cfg s data =
     (case s of
        M1Setup \<Rightarrow> m1_setup X H cfg data
      | M3Setup \<Rightarrow> m3_setup X H cfg data
      | M5Setup \<Rightarrow> m5_setup X H cfg data
      | M1Verify \<Rightarrow> m1_verify X H cfg data
      | M3Verify \<Rightarrow> m3_verify X H cfg data)"

text \<open>\<open>data.get("_pd")\<close> on a dictionary.\<close>

definition opack_get :: "(opack \<times> opack) list \<Rightarrow> string \<Rightarrow> opack option" where
  "opack_get kvs key = map_of (map (\<lambda>(k, v). (py_key k, v)) kvs) (Some (KStr key))"

definition decode_auth_frame :: "nat \<Rightarrow> opack \<Rightarrow> (tlv \<times> nat) result" where
  "decode_auth_frame depth data =
     (case data of
        ODict kvs \<Rightarrow>
          (case opack_get kvs ''_pd'' of
             Some (OBytes blob) \<Rightarrow> rbind (read_tlv depth blob) (\<lambda>d.
               case map_of d (tlv_code TSeqNo) of
                 Some [seqno] \<Rightarrow> Inr (d, unat seqno)
               | _ \<Rightarrow> Inl ValueError)
           | _ \<Rightarrow> Inl ValueError)
      | _ \<Rightarrow> Inl ValueError)"

definition reject_auth_transition :: "'h host \<Rightarrow> frame_type \<Rightarrow> nat option \<Rightarrow> ('srp, 'h, bool) am" where
  "reject_auth_transition H frame_type seqno =
     am_then (am_auth (\<lambda>a. (clear_pending a)\<lparr>au_phase := Failed\<rparr>))
     (am_then (if frame_type = PS_Start \<or> frame_type = PS_Next then reject_setup_sequence H seqno else send_verify_error)
     (am_return False))"

definition handle_auth_frame :: "'srp crypto \<Rightarrow> 'h host \<Rightarrow> auth_config \<Rightarrow> frame_type \<Rightarrow> opack \<Rightarrow> ('srp, 'h, bool) am" where
  "handle_auth_frame X H cfg frame_type data = am_get (\<lambda>a.
     if au_phase a = Encrypted then am_return False
     else case decode_auth_frame (ac_depth cfg) data of
       Inl _ \<Rightarrow> reject_auth_transition H frame_type None
     | Inr (pairing_data, seqno) \<Rightarrow>
         (case next_auth_transition (au_phase a) frame_type seqno of
            None \<Rightarrow> reject_auth_transition H frame_type (Some seqno)
          | Some (s, next_phase) \<Rightarrow>
              am_handle (run_step X H cfg s pairing_data) (\<lambda>_. reject_auth_transition H frame_type (Some seqno)) (\<lambda>completed.
                if \<not> completed then am_then (am_auth (\<lambda>a. (clear_pending a)\<lparr>au_phase := Failed\<rparr>)) (am_return False)
                else am_then (am_auth (\<lambda>a. a\<lparr>au_phase := next_phase\<rparr>)) (am_return True))))"

subsection \<open>Reasoning about handlers\<close>

text \<open>\<open>am_keeps P m\<close>: \<open>m\<close> preserves \<open>P\<close>, whether it returns or raises.\<close>

definition am_keeps :: "(('srp, 'h) peer \<Rightarrow> bool) \<Rightarrow> ('srp, 'h, 'a) am \<Rightarrow> bool" where
  "am_keeps P m \<longleftrightarrow> (\<forall>p r p'. m p = (r, p') \<longrightarrow> P p \<longrightarrow> P p')"

lemma am_keepsD: "am_keeps P m \<Longrightarrow> m p = (r, p') \<Longrightarrow> P p \<Longrightarrow> P p'"
  by (simp add: am_keeps_def)

lemma keeps_am_return: "am_keeps P (am_return x)" and keeps_am_raise: "am_keeps P (am_raise e)"
  and keeps_am_lift: "am_keeps P (am_lift r)" and keeps_am_need: "am_keeps P (need y)" and keeps_am_tlv: "am_keeps P (tlv_get d v)"
  by (simp_all add: am_keeps_def am_return_def am_raise_def am_lift_def need_def tlv_get_def split: option.split)

lemma keeps_am_handle:
  assumes "am_keeps P m" "\<And>e. am_keeps P (h e)" "\<And>x. am_keeps P (k x)" shows "am_keeps P (am_handle m h k)"
  unfolding am_keeps_def
proof (intro allI impI)
  fix p r p' assume run: "am_handle m h k p = (r, p')" and "P p"
  obtain r1 p1 where m: "m p = (r1, p1)" by fastforce
  then have "P p1" using am_keepsD [OF assms(1)] \<open>P p\<close> by blast
  then show "P p'" using run m am_keepsD [OF assms(2)] am_keepsD [OF assms(3)] by (cases r1) (simp_all add: am_handle_def)
qed

lemma keeps_am_bind:
  assumes "am_keeps P m" "\<And>x. am_keeps P (f x)" shows "am_keeps P (am_bind m f)"
proof -
  have "am_bind m f = am_handle m am_raise f"
    by (rule ext) (simp add: am_bind_def am_handle_def am_raise_def split: prod.split sum.split)
  then show ?thesis using assms by (simp add: keeps_am_handle keeps_am_raise)
qed

lemma keeps_am_then: "am_keeps P m \<Longrightarrow> am_keeps P k \<Longrightarrow> am_keeps P (am_then m k)"
  unfolding am_then_def by (rule keeps_am_bind)

lemma keeps_am_get: "(\<And>a. am_keeps P (f a)) \<Longrightarrow> am_keeps P (am_get f)"
  by (simp add: am_keeps_def am_get_def)

lemma keeps_am_if: "(c \<Longrightarrow> am_keeps P a) \<Longrightarrow> (\<not> c \<Longrightarrow> am_keeps P b) \<Longrightarrow> am_keeps P (if c then a else b)"
  by simp

lemma keeps_am_option: "am_keeps P a \<Longrightarrow> (\<And>x. am_keeps P (f x)) \<Longrightarrow> am_keeps P (case x of None \<Rightarrow> a | Some x \<Rightarrow> f x)"
  by (cases x) simp_all

lemmas keeps_plain = keeps_am_return keeps_am_raise keeps_am_lift keeps_am_need keeps_am_tlv
  keeps_am_bind keeps_am_then keeps_am_handle keeps_am_get keeps_am_if keeps_am_option

text \<open>The transport keys: everything but \<open>enable_encryption\<close> leaves them.\<close>

abbreviation keys_are :: "(bytes \<times> bytes) option \<Rightarrow> ('srp, 'h) peer \<Rightarrow> bool" where
  "keys_are k \<equiv> \<lambda>p. pe_keys p = k"

lemma keys_kept:
  "am_keeps (keys_are k) (am_auth f)" "am_keeps (keys_are k) (am_host g)" "am_keeps (keys_are k) (am_ask q)"
  "am_keeps (keys_are k) (am_send t d)" "am_keeps (keys_are k) (am_do w)"
  by (simp_all add: am_keeps_def am_auth_def am_host_def am_ask_def am_send_def am_do_def split: prod.split)

lemmas keys_rules = keeps_plain keys_kept

lemma keys_replies:
  "am_keeps (keys_are k) (send_tlv t items)" "am_keeps (keys_are k) send_verify_error"
  "am_keeps (keys_are k) (send_setup_error n e)" "am_keeps (keys_are k) send_setup_m4_error"
  "am_keeps (keys_are k) (send_setup_backoff i)" "am_keeps (keys_are k) (send_setup_admission_error adm)"
  unfolding send_tlv_def send_verify_error_def send_setup_error_def send_setup_m4_error_def send_setup_backoff_def
    send_setup_admission_error_def
  by (intro keys_rules)+

lemma keys_windows:
  "am_keeps (keys_are k) (active_pairing_window H cfg)" "am_keeps (keys_are k) (setup_window_is_current H cfg)"
proof -
  show w: "am_keeps (keys_are k) (active_pairing_window H cfg)"
    unfolding active_pairing_window_def by (intro keys_rules)
  show "am_keeps (keys_are k) (setup_window_is_current H cfg)"
    unfolding setup_window_is_current_def by (intro keys_rules w)
qed

lemma keys_setup_failed: "am_keeps (keys_are k) m \<Longrightarrow> am_keeps (keys_are k) (setup_failed H m)"
  unfolding setup_failed_def by (intro keys_rules)

lemma keys_check_client: "am_keeps (keys_are k) (check_client X H cfg data)"
  unfolding check_client_def by (intro keys_rules)

lemma keys_verify_client: "am_keeps (keys_are k) (verify_client X H cfg data)"
  unfolding verify_client_def by (intro keys_rules keys_check_client)

lemma keys_m1_verify: "am_keeps (keys_are k) (m1_verify X H cfg data)"
  unfolding m1_verify_def m1_verify_reply_def Let_def by (intro keys_rules keys_replies)

lemma keys_start_setup: "am_keeps (keys_are k) (start_setup X H window)"
  unfolding start_setup_def split_beta by (intro keys_rules)

lemma keys_m1_setup: "am_keeps (keys_are k) (m1_setup X H cfg data)"
  unfolding m1_setup_def by (intro keys_rules keys_replies keys_windows keys_start_setup)

lemma keys_check_proof: "am_keeps (keys_are k) (check_proof X data session salt)"
  unfolding check_proof_def by (intro keys_rules)

lemma keys_m3_setup: "am_keeps (keys_are k) (m3_setup X H cfg data)"
  unfolding m3_setup_def prod.case_eq_if fst_conv snd_conv
  by (intro keys_rules keys_replies keys_windows keys_setup_failed keys_check_proof)

lemma keys_register: "am_keeps (keys_are k) (register_setup_client X H cfg client_tlv key)"
proof -
  have c: "am_keeps (keys_are k) (commit_client H cfg name ltpk)" for name ltpk
    unfolding commit_client_def by (intro keys_rules keys_windows)
  have "am_keeps (keys_are k) (case decode_utf8 ident of Inl _ \<Rightarrow> am_return (Some EAuthentication)
     | Inr name \<Rightarrow> (if q then am_return (Some EAuthentication)
        else am_handle (commit_client H cfg name ltpk)
          (\<lambda>e. am_return (Some (if e = PairedClientsFull then EMaxPeers else EAuthentication))) am_return))" for ident ltpk q
    by (cases "decode_utf8 ident") (simp_all add: keys_rules c)
  then show ?thesis
    unfolding register_setup_client_def prod.case_eq_if fst_conv snd_conv by (intro keys_rules)
qed

lemma keys_m5_setup: "am_keeps (keys_are k) (m5_setup X H cfg data)"
proof -
  have "am_keeps (keys_are k) (m6_setup X H cfg s key)" "am_keeps (keys_are k) (read_m5 X cfg data key)" for s key
    unfolding m6_setup_def read_m5_def Let_def by (intro keys_rules keys_replies)+
  then show ?thesis
    unfolding m5_setup_def Let_def by (intro keys_rules keys_replies keys_windows keys_setup_failed keys_register)
qed

lemma keys_reject: "am_keeps (keys_are k) (reject_auth_transition H t n)"
  unfolding reject_auth_transition_def reject_setup_sequence_def by (intro keys_rules keys_replies)

lemma am_bind_Inr:
  assumes "am_bind m f p = (Inr y, p')"
  obtains x p1 where "m p = (Inr x, p1)" "f x p1 = (Inr y, p')"
  using assms by (auto simp: am_bind_def split: prod.splits sum.splits)

lemma am_then_Inr:
  assumes "am_then m k p = (Inr y, p')"
  obtains x p1 where "m p = (Inr x, p1)" "k p1 = (Inr y, p')"
  using assms unfolding am_then_def by (rule am_bind_Inr)

text \<open>Everything that is no call of the host leaves it alone; the handler of a frame starts with the host as it was.\<close>

lemma lift_Inr [simp]: "am_lift r p = (Inr x, p') \<longleftrightarrow> r = Inr x \<and> p' = p"
  by (auto simp: am_lift_def)

lemma need_Inr [simp]: "need y p = (Inr x, p') \<longleftrightarrow> y = Some x \<and> p' = p"
  by (auto simp: need_def am_raise_def am_return_def split: option.splits)

lemma tlv_get_Inr [simp]: "tlv_get d v p = (Inr x, p') \<longleftrightarrow> map_of d (tlv_code v) = Some x \<and> p' = p"
  by (auto simp: tlv_get_def am_raise_def am_return_def split: option.splits)

lemma return_Inr [simp]: "am_return x p = (r, p') \<longleftrightarrow> r = Inr x \<and> p' = p"
  by (auto simp: am_return_def)

lemma raise_Inr [simp]: "am_raise e p = (r, p') \<longleftrightarrow> r = Inl e \<and> p' = p"
  by (auto simp: am_raise_def)

lemma auth_Inr [simp]: "am_auth f p = (r, p') \<longleftrightarrow> r = Inr () \<and> p' = p\<lparr>pe_auth := f (pe_auth p)\<rparr>"
  by (auto simp: am_auth_def)

text \<open>A client that passed the check: its key came from the store and its signature covers this exchange.\<close>

definition proved_by :: "'srp crypto \<Rightarrow> 'h host \<Rightarrow> ('srp, 'h) peer \<Rightarrow> string \<Rightarrow> bytes \<Rightarrow> 'h \<Rightarrow> bool" where
  "proved_by X H p name ltpk h \<longleftrightarrow> (\<exists>ident signature client_pub server_pub.
     au_pv_client (pe_auth p) = Some client_pub \<and> au_pv_server (pe_auth p) = Some server_pub
     \<and> decode_utf8 ident = Inr name \<and> cr_verify X ltpk signature (client_pub @ ident @ server_pub)
     \<and> ho_ltpk H name (pe_host p) = (Inr (Some ltpk), h))"

lemma check_client_Inr:
  assumes "check_client X H cfg data p = (Inr True, p')"
  obtains name ltpk h where "proved_by X H p name ltpk h"
    "p' = p\<lparr>pe_host := h, pe_auth := (pe_auth p)\<lparr>au_client := Some name, au_client_key := Some ltpk\<rparr>\<rparr>"
proof -
  obtain key blob plain sub ident name found p1 where s: "au_pv_key (pe_auth p) = Some key"
    "map_of data (tlv_code TEncryptedData) = Some blob" "unkeyed X key ''PV-Msg03'' blob = Inr plain"
    "read_tlv (ac_depth cfg) plain = Inr sub" "map_of sub (tlv_code TIdentifier) = Some ident" "decode_utf8 ident = Inr name"
    "am_ask (ho_ltpk H name) p = (Inr found, p1)"
    and rest: "(case found of
         None \<Rightarrow> am_then (am_auth clear_client) (am_return False)
       | Some ltpk \<Rightarrow>
           am_bind (tlv_get sub TSignature) (\<lambda>signature.
           am_bind (need (au_pv_client (pe_auth p))) (\<lambda>client_pub.
           am_bind (need (au_pv_server (pe_auth p))) (\<lambda>server_pub.
             if \<not> cr_verify X ltpk signature (client_pub @ ident @ server_pub) then am_raise OtherException
             else am_then (am_auth (\<lambda>a. a\<lparr>au_client := Some name, au_client_key := Some ltpk\<rparr>)) (am_return True))))) p1 = (Inr True, p')"
    using assms unfolding check_client_def am_get_def
    by (auto elim!: am_bind_Inr)
  obtain ltpk where found: "found = Some ltpk"
    using rest by (cases found) (auto elim!: am_then_Inr)
  obtain h where h: "ho_ltpk H name (pe_host p) = (Inr found, h)" "p1 = p\<lparr>pe_host := h\<rparr>"
    using s(7) by (auto simp: am_ask_def split: prod.splits)
  obtain signature client_pub server_pub where v: "au_pv_client (pe_auth p) = Some client_pub" "au_pv_server (pe_auth p) = Some server_pub"
    "cr_verify X ltpk signature (client_pub @ ident @ server_pub)"
    "p' = p1\<lparr>pe_auth := (pe_auth p1)\<lparr>au_client := Some name, au_client_key := Some ltpk\<rparr>\<rparr>"
    using rest found by (auto elim!: am_bind_Inr am_then_Inr split: if_splits)
  show thesis
    by (rule that [of name ltpk h]) (use s(6) v h found in \<open>auto simp: proved_by_def\<close>)
qed

text \<open>The only step that installs keys.\<close>

lemma send_done: "send_tlv PV_Next [(TSeqNo, [4])] p = (Inr (), p\<lparr>pe_sent := pe_sent p @ [(PV_Next, pd [6, 1, 4])]\<rparr>)"
  by (simp add: send_tlv_def tlv_of_def am_bind_def am_lift_def am_send_def byte_lit_def tlv_chunks.simps)

lemma m3_verify_installs:
  assumes "m3_verify X H cfg data p = (r, p')" "pe_keys p = None"
  shows "pe_keys p' = None \<or> (r = Inr True \<and> (\<exists>out_key in_key. au_output_key (pe_auth p) = Some out_key
     \<and> au_input_key (pe_auth p) = Some in_key \<and> pe_keys p' = Some (out_key, in_key))
     \<and> (enforced cfg \<longrightarrow> (\<exists>name ltpk h. proved_by X H p name ltpk h \<and> pe_host p' = h
          \<and> au_client (pe_auth p') = Some name \<and> au_client_key (pe_auth p') = Some ltpk)))"
proof -
  obtain rv p1 where v: "verify_client X H cfg data p = (rv, p1)" by fastforce
  then have k1: "pe_keys p1 = None" using am_keepsD [OF keys_verify_client] assms(2) by metis
  let ?finish = "\<lambda>a. case (au_output_key a, au_input_key a) of
           (Some out_key, Some in_key) \<Rightarrow>
             am_then (send_tlv PV_Next [(TSeqNo, [4])])
             (am_then (am_encrypt out_key in_key) (am_then (am_auth clear_verify) (am_return True)))
         | _ \<Rightarrow> am_then (am_auth clear_client) (am_then (am_auth clear_verify) (am_then send_verify_error (am_return False)))"
  show ?thesis
  proof (cases "rv = Inr True")
    case False
    have k: "am_keeps (keys_are None) (am_then send_verify_error (am_then (am_auth clear_verify) (am_return False)))"
      by (intro keys_rules keys_replies)
    have "pe_keys p' = None"
    proof (cases rv)
      case (Inl e)
      then show ?thesis using assms(1) v k1 by (simp add: m3_verify_def am_bind_def)
    next
      case (Inr ok)
      then have "am_then send_verify_error (am_then (am_auth clear_verify) (am_return False)) p1 = (r, p')"
        using assms(1) v False by (simp add: m3_verify_def am_bind_def)
      from am_keepsD [OF k this] k1 show ?thesis by simp
    qed
    then show ?thesis by simp
  next
    case True
    then have run: "?finish (pe_auth p1) p1 = (r, p')"
      using assms(1) v by (simp add: m3_verify_def am_bind_def am_get_def)
    have proof_data: "pe_auth p1 = pe_auth p \<and> pe_host p1 = pe_host p \<or> enforced cfg"
      using v True by (auto simp: verify_client_def split: if_splits)
    show ?thesis
    proof (cases "\<exists>out_key in_key. au_output_key (pe_auth p1) = Some out_key \<and> au_input_key (pe_auth p1) = Some in_key")
      case False
      have k: "am_keeps (keys_are None) (am_then (am_auth clear_client) (am_then (am_auth clear_verify) (am_then send_verify_error (am_return False))))"
        by (intro keys_rules keys_replies)
      have "am_then (am_auth clear_client) (am_then (am_auth clear_verify) (am_then send_verify_error (am_return False))) p1 = (r, p')"
        using run False by (auto split: option.splits)
      from am_keepsD [OF k this] k1 show ?thesis by simp
    next
      case True
      then obtain out_key in_key where keys: "au_output_key (pe_auth p1) = Some out_key" "au_input_key (pe_auth p1) = Some in_key" by blast
      then have done1: "r = Inr True" "pe_keys p' = Some (out_key, in_key)" "pe_host p' = pe_host p1"
        "au_client (pe_auth p') = au_client (pe_auth p1)" "au_client_key (pe_auth p') = au_client_key (pe_auth p1)"
        using run k1 by (auto simp: am_then_def am_bind_def send_done am_encrypt_def am_auth_def am_return_def clear_verify_def)
      show ?thesis
      proof (cases "enforced cfg")
        case False
        then have "p1 = p" using v by (simp add: verify_client_def)
        then show ?thesis using done1 keys False by simp
      next
        case enf: True
        have "check_client X H cfg data p = (Inr True, p1)"
          using v \<open>rv = Inr True\<close> enf
          by (auto simp: verify_client_def am_handle_def split: prod.splits sum.splits elim!: am_then_Inr)
        then show ?thesis
          by (rule check_client_Inr) (use done1 keys in auto)
      qed
    qed
  qed
qed

definition cleared :: "'srp auth \<Rightarrow> bool" where
  "cleared a \<longleftrightarrow> clear_pending a = a"

lemma send_error_pair:
  "\<exists>d. send_tlv t [(TSeqNo, [n]), (TError, [b])] p = (Inr (), p\<lparr>pe_sent := pe_sent p @ [(t, d)]\<rparr>)"
  by (rule exI [of _ "pd [6, 1, n, 7, 1, b]"])
     (simp add: send_tlv_def tlv_of_def am_bind_def am_lift_def am_send_def byte_lit_def tlv_chunks.simps)

lemma reject_outcome:
  assumes "reject_auth_transition H t n p = (r, p')"
  shows "r = Inr False \<and> au_phase (pe_auth p') = Failed \<and> cleared (pe_auth p') \<and> pe_keys p' = pe_keys p"
proof -
  have sends: "\<exists>d. send_verify_error q = (Inr (), q\<lparr>pe_sent := pe_sent q @ [(PV_Next, d)]\<rparr>)"
    "\<exists>d. send_setup_error s e q = (Inr (), q\<lparr>pe_sent := pe_sent q @ [(PS_Next, d)]\<rparr>)" for q s e
    using send_error_pair unfolding send_verify_error_def send_setup_error_def by blast+
  have "pe_keys p' = pe_keys p" using am_keepsD [OF keys_reject assms] by simp
  moreover have "r = Inr False \<and> au_phase (pe_auth p') = Failed \<and> cleared (pe_auth p')"
  proof (cases "t = PS_Start \<or> t = PS_Next")
    case True
    let ?q = "p\<lparr>pe_auth := (clear_pending (pe_auth p))\<lparr>au_phase := Failed\<rparr>\<rparr>"
    let ?q2 = "?q\<lparr>pe_host := ho_failed H (pe_host ?q), pe_auth := clear_setup (pe_auth ?q)\<rparr>"
    obtain d where "send_setup_error (case n of None \<Rightarrow> 2 | Some n \<Rightarrow> if n \<le> 1 then 2 else if n \<le> 3 then 4 else 6) EAuthentication ?q2
       = (Inr (), ?q2\<lparr>pe_sent := pe_sent ?q2 @ [(PS_Next, d)]\<rparr>)" using sends(2) by blast
    then show ?thesis
      using assms True
      by (auto simp: reject_auth_transition_def reject_setup_sequence_def am_then_def am_bind_def am_auth_def am_do_def
          am_host_def am_return_def cleared_def clear_pending_def clear_setup_def clear_verify_def clear_client_def)
  next
    case False
    let ?q = "p\<lparr>pe_auth := (clear_pending (pe_auth p))\<lparr>au_phase := Failed\<rparr>\<rparr>"
    obtain d where "send_verify_error ?q = (Inr (), ?q\<lparr>pe_sent := pe_sent ?q @ [(PV_Next, d)]\<rparr>)" using sends(1) by blast
    then show ?thesis
      using assms False
      by (auto simp: reject_auth_transition_def am_then_def am_bind_def am_auth_def am_return_def cleared_def clear_pending_def
          clear_setup_def clear_verify_def clear_client_def)
  qed
  ultimately show ?thesis by simp
qed


lemma run_step_installs:
  assumes "run_step X H cfg s data p = (r, p')" "pe_keys p = None" "pe_keys p' \<noteq> None"
  shows "s = M3Verify \<and> m3_verify X H cfg data p = (r, p')"
proof -
  have "am_keeps (keys_are None) (run_step X H cfg s data)" if "s \<noteq> M3Verify"
    using that by (cases s) (simp_all add: run_step_def keys_m1_setup keys_m3_setup keys_m5_setup keys_m1_verify)
  from am_keepsD [OF this assms(1)] have "s = M3Verify" using assms(2,3) by blast
  then show ?thesis using assms(1) by (simp add: run_step_def)
qed

lemma fail_step:
  "cleared (pe_auth (p\<lparr>pe_auth := (clear_pending (pe_auth p))\<lparr>au_phase := Failed\<rparr>\<rparr>))"
  by (simp add: cleared_def clear_pending_def clear_setup_def clear_verify_def clear_client_def)

text \<open>A frame outside the Encrypted phase: either a transition whose step completed, or the phase Failed.\<close>

lemma handled:
  assumes "handle_auth_frame X H cfg t data p = (r, p')" "au_phase (pe_auth p) \<noteq> Encrypted"
  obtains (moved) d n s next_phase p1 where "decode_auth_frame (ac_depth cfg) data = Inr (d, n)"
      "next_auth_transition (au_phase (pe_auth p)) t n = Some (s, next_phase)" "run_step X H cfg s d p = (Inr True, p1)"
      "r = Inr True" "p' = p1\<lparr>pe_auth := (pe_auth p1)\<lparr>au_phase := next_phase\<rparr>\<rparr>"
  | (rejected) n where "r = Inr False" "reject_auth_transition H t n p = (r, p')"
      "\<And>d m. decode_auth_frame (ac_depth cfg) data = Inr (d, m) \<Longrightarrow> next_auth_transition (au_phase (pe_auth p)) t m = None"
  | (refused) d n s next_phase res p1 where "decode_auth_frame (ac_depth cfg) data = Inr (d, n)"
      "next_auth_transition (au_phase (pe_auth p)) t n = Some (s, next_phase)" "run_step X H cfg s d p = (res, p1)" "res \<noteq> Inr True"
      "r = Inr False" "p' = p1\<lparr>pe_auth := (clear_pending (pe_auth p1))\<lparr>au_phase := Failed\<rparr>\<rparr> \<or> reject_auth_transition H t (Some n) p1 = (r, p')"
proof (cases "decode_auth_frame (ac_depth cfg) data")
  case (Inl e)
  then have rej: "reject_auth_transition H t None p = (r, p')" using assms by (simp add: handle_auth_frame_def am_get_def)
  show thesis
    by (rule rejected [OF _ rej]) (use reject_outcome [OF rej] Inl in auto)
next
  case (Inr dn)
  obtain d n where dn: "dn = (d, n)" by fastforce
  note decoded = Inr [unfolded dn]
  show thesis
  proof (cases "next_auth_transition (au_phase (pe_auth p)) t n")
    case None
    then have rej: "reject_auth_transition H t (Some n) p = (r, p')"
      using assms decoded by (simp add: handle_auth_frame_def am_get_def)
    show thesis
      by (rule rejected [OF _ rej]) (use reject_outcome [OF rej] decoded None in auto)
  next
    case (Some tr)
    obtain s next_phase where tr: "tr = (s, next_phase)" by fastforce
    obtain res p1 where run: "run_step X H cfg s d p = (res, p1)" by fastforce
    have rest: "(case res of Inl e \<Rightarrow> reject_auth_transition H t (Some n) p1
       | Inr completed \<Rightarrow> (if \<not> completed then am_then (am_auth (\<lambda>a. (clear_pending a)\<lparr>au_phase := Failed\<rparr>)) (am_return False)
           else am_then (am_auth (\<lambda>a. a\<lparr>au_phase := next_phase\<rparr>)) (am_return True)) p1) = (r, p')"
      using assms decoded Some tr run by (simp add: handle_auth_frame_def am_get_def am_handle_def split: sum.splits)
    note legal = Some [unfolded tr]
    show thesis
    proof (cases res)
      case (Inl e)
      then have rej: "reject_auth_transition H t (Some n) p1 = (r, p')" using rest by simp
      have "r = Inr False" using reject_outcome [OF rej] by simp
      then show thesis using refused [OF decoded legal run] Inl rej by simp
    next
      case (Inr ok)
      show thesis
      proof (cases ok)
        case True
        then have "r = Inr True" "p' = p1\<lparr>pe_auth := (pe_auth p1)\<lparr>au_phase := next_phase\<rparr>\<rparr>"
          using rest Inr by (auto simp: am_then_def am_bind_def am_auth_def am_return_def)
        then show thesis using moved [OF decoded legal] run Inr True by simp
      next
        case False
        then have "r = Inr False" "p' = p1\<lparr>pe_auth := (clear_pending (pe_auth p1))\<lparr>au_phase := Failed\<rparr>\<rparr>"
          using rest Inr by (auto simp: am_then_def am_bind_def am_auth_def am_return_def)
        then show thesis using refused [OF decoded legal run] Inr False by simp
      qed
    qed
  qed
qed

lemma keys_verified:
  assumes "handle_auth_frame X H cfg t data p = (r, p')" and "pe_keys p = None" and "pe_keys p' \<noteq> None"
  shows "r = Inr True \<and> au_phase (pe_auth p) = VerifyM3 \<and> t = PV_Next \<and> au_phase (pe_auth p') = Encrypted
    \<and> (\<exists>d. decode_auth_frame (ac_depth cfg) data = Inr (d, 3))
    \<and> (\<exists>out_key in_key. au_output_key (pe_auth p) = Some out_key \<and> au_input_key (pe_auth p) = Some in_key \<and> pe_keys p' = Some (out_key, in_key))
    \<and> (enforced cfg \<longrightarrow> (\<exists>name ltpk. proved_by X H p name ltpk (pe_host p')
         \<and> au_client (pe_auth p') = Some name \<and> au_client_key (pe_auth p') = Some ltpk))"
proof -
  have open1: "au_phase (pe_auth p) \<noteq> Encrypted" using assms by (auto simp: handle_auth_frame_def am_get_def)
  from assms(1) open1 show ?thesis
  proof (cases rule: handled)
    case (moved d n s next_phase p1)
    have keys: "pe_keys p1 = pe_keys p'" using moved(5) by simp
    have s: "s = M3Verify" "m3_verify X H cfg d p = (Inr True, p1)"
      using run_step_installs [OF moved(3) assms(2)] keys assms(3) by auto
    have tr: "au_phase (pe_auth p) = VerifyM3" "t = PV_Next" "n = 3" "next_phase = Encrypted"
      using moved(2) s(1) by (auto simp: next_auth_transition_def split: phase.splits if_splits)
    have new: "pe_auth p' = (pe_auth p1)\<lparr>au_phase := Encrypted\<rparr>" "pe_host p' = pe_host p1"
      using moved(5) tr(4) by simp_all
    have d: "\<exists>d. decode_auth_frame (ac_depth cfg) data = Inr (d, 3)" using moved(1) tr(3) by blast
    have m3: "pe_keys p1 \<noteq> None" using keys assms(3) by simp
    from m3_verify_installs [OF s(2) assms(2)] m3
    have "(\<exists>out_key in_key. au_output_key (pe_auth p) = Some out_key \<and> au_input_key (pe_auth p) = Some in_key \<and> pe_keys p1 = Some (out_key, in_key))
      \<and> (enforced cfg \<longrightarrow> (\<exists>name ltpk h. proved_by X H p name ltpk h \<and> pe_host p1 = h
          \<and> au_client (pe_auth p1) = Some name \<and> au_client_key (pe_auth p1) = Some ltpk))"
      by blast
    then show ?thesis using tr(1,2) moved(4) d by (simp add: new keys)
  next
    case (rejected n)
    then show ?thesis using reject_outcome [OF rejected(2)] assms(2,3) by simp
  next
    case (refused d n s next_phase res p1)
    have "pe_keys p1 = pe_keys p'" using refused(6) reject_outcome [of H t "Some n" p1 r p'] by auto
    then have "m3_verify X H cfg d p = (res, p1)" "pe_keys p1 \<noteq> None"
      using run_step_installs [OF refused(3) assms(2)] assms(3) by simp_all
    from m3_verify_installs [OF this(1) assms(2)] this(2) refused(4) show ?thesis by blast
  qed
qed

lemma m3_verify_done:
  assumes "m3_verify X H cfg data p = (Inr True, p')" shows "pe_keys p = None \<and> pe_keys p' \<noteq> None"
proof -
  obtain rv p1 where v: "verify_client X H cfg data p = (rv, p1)" by fastforce
  then have k1: "pe_keys p1 = pe_keys p" using am_keepsD [OF keys_verify_client] by metis
  have rv: "rv = Inr True"
    using assms v send_error_pair [of PV_Next 4 "error_byte EAuthentication" p1]
    by (cases rv) (auto simp: m3_verify_def am_bind_def am_then_def send_verify_error_def am_auth_def am_return_def split: if_splits)
  then have run: "(case (au_output_key (pe_auth p1), au_input_key (pe_auth p1)) of
           (Some out_key, Some in_key) \<Rightarrow>
             am_then (send_tlv PV_Next [(TSeqNo, [4])]) (am_then (am_encrypt out_key in_key) (am_then (am_auth clear_verify) (am_return True)))
         | _ \<Rightarrow> am_then (am_auth clear_client) (am_then (am_auth clear_verify) (am_then send_verify_error (am_return False)))) p1 = (Inr True, p')"
    using assms v by (simp add: m3_verify_def am_bind_def am_get_def)
  then obtain out_key in_key where "au_output_key (pe_auth p1) = Some out_key" "au_input_key (pe_auth p1) = Some in_key"
    by (auto elim!: am_then_Inr split: option.splits)
  then show ?thesis
    using run k1
    by (cases "pe_keys p") (auto simp: am_then_def am_bind_def send_done am_encrypt_def am_auth_def am_return_def split: if_splits)
qed

text \<open>How a frame changes keys and phase together.\<close>

lemma installed_keys_stay:
  assumes "handle_auth_frame X H cfg t data p = (r, p')" "pe_keys p = Some k"
  shows "pe_keys p' = Some k"
proof -
  have enc: "am_keeps (keys_are (Some k)) (am_encrypt a b)" for a b
    by (cases k) (simp add: am_keeps_def am_encrypt_def)
  have m3: "am_keeps (keys_are (Some k)) (m3_verify X H cfg d)" for d
  proof -
    have "am_keeps (keys_are (Some k)) (case (x, y) of
           (Some out_key, Some in_key) \<Rightarrow>
             am_then (send_tlv PV_Next [(TSeqNo, [4])]) (am_then (am_encrypt out_key in_key) (am_then (am_auth clear_verify) (am_return True)))
         | _ \<Rightarrow> am_then (am_auth clear_client) (am_then (am_auth clear_verify) (am_then send_verify_error (am_return False))))" for x y
      by (cases x; cases y) (simp; intro keys_rules keys_replies enc)+
    then show ?thesis unfolding m3_verify_def by (intro keys_rules keys_replies keys_verify_client)
  qed
  have "am_keeps (keys_are (Some k)) (run_step X H cfg s d)" for s d
    by (cases s) (simp_all add: run_step_def m3 keys_m1_setup keys_m3_setup keys_m5_setup keys_m1_verify)
  then have "am_keeps (keys_are (Some k)) (handle_auth_frame X H cfg t data)"
    unfolding handle_auth_frame_def by (intro keeps_am_get keeps_am_if keys_rules keys_reject; auto intro!: keys_rules keys_reject split: sum.split option.split prod.split)
  then show ?thesis using am_keepsD assms by blast
qed

lemma phase_follows_keys:
  assumes "handle_auth_frame X H cfg t data p = (r, p')" "au_phase (pe_auth p) \<noteq> Encrypted"
  shows "au_phase (pe_auth p') = Encrypted \<longleftrightarrow> pe_keys p = None \<and> pe_keys p' \<noteq> None"
proof
  assume enc: "au_phase (pe_auth p') = Encrypted"
  from assms show "pe_keys p = None \<and> pe_keys p' \<noteq> None"
  proof (cases rule: handled)
    case (moved d n s next_phase p1)
    then have "s = M3Verify" using enc by (auto simp: next_auth_transition_def split: phase.splits if_splits)
    then show ?thesis using moved(3,5) m3_verify_done by (simp add: run_step_def)
  next
    case (rejected n)
    then show ?thesis using enc reject_outcome [OF rejected(2)] by simp
  next
    case (refused d n s next_phase res p1)
    then show ?thesis using enc reject_outcome [of H t "Some n" p1 r p'] by auto
  qed
next
  assume "pe_keys p = None \<and> pe_keys p' \<noteq> None"
  then show "au_phase (pe_auth p') = Encrypted" using keys_verified [OF assms(1)] by blast
qed

text \<open>Asking for authorization touches nothing but the host.\<close>

lemma authorized_run:
  assumes "verified_client_is_authorized H cfg p = (r, p')" shows "\<exists>b. r = Inr b" "\<exists>h. p' = p\<lparr>pe_host := h\<rparr>"
proof -
  have "(\<exists>b. r = Inr b) \<and> (\<exists>h. p' = p\<lparr>pe_host := h\<rparr>)"
    using assms
    by (auto simp: verified_client_is_authorized_def am_get_def am_handle_def am_ask_def am_return_def
        split: option.splits if_splits prod.splits sum.splits intro: exI [of _ "pe_host p"])
  then show "\<exists>b. r = Inr b" "\<exists>h. p' = p\<lparr>pe_host := h\<rparr>" by auto
qed

subsection \<open>Properties of a frame\<close>

text \<open>C34: Every frame of the handshake is answered without an exception. It is accepted exactly by completing the step that the
  transition table gives for the phase, the frame type and the sequence number, and then the phase is the table's; when it is
  not accepted the phase is Failed and no secret, session or client of the handshake is left, except on an encrypted
  connection, where the frame changes nothing.\<close>

theorem auth_frame_outcome:
  assumes "handle_auth_frame X H cfg t data p = (r, p')"
  shows "r = Inr True \<and> (\<exists>d n s p1. decode_auth_frame (ac_depth cfg) data = Inr (d, n)
      \<and> next_auth_transition (au_phase (pe_auth p)) t n = Some (s, au_phase (pe_auth p')) \<and> run_step X H cfg s d p = (Inr True, p1))
    \<or> r = Inr False \<and> (if au_phase (pe_auth p) = Encrypted then p' = p
        else au_phase (pe_auth p') = Failed \<and> cleared (pe_auth p')
          \<and> (\<forall>d n s. decode_auth_frame (ac_depth cfg) data = Inr (d, n)
               \<longrightarrow> (\<exists>next_phase. next_auth_transition (au_phase (pe_auth p)) t n = Some (s, next_phase))
               \<longrightarrow> fst (run_step X H cfg s d p) \<noteq> Inr True))"
proof (cases "au_phase (pe_auth p) = Encrypted")
  case True
  then show ?thesis using assms by (simp add: handle_auth_frame_def am_get_def)
next
  case False
  from assms False show ?thesis
  proof (cases rule: handled)
    case moved
    then show ?thesis by auto
  next
    case (rejected n)
    then show ?thesis
      using reject_outcome [OF rejected(2)] False by auto
  next
    case (refused d n s next_phase res p1)
    have "au_phase (pe_auth p') = Failed \<and> cleared (pe_auth p')"
      using refused(6) reject_outcome [of H t "Some n" p1 r p'] fail_step [of p1] by auto
    then show ?thesis using refused False by auto
  qed
qed


text \<open>C4: Keys are installed on a connection only by a pair-verify that completed in order: the phase was VerifyM3, the frame the
  one with sequence number 3, the phase becomes Encrypted and the keys are those agreed in this exchange. When
  authentication is enforced, the client's long-term key is the stored one and its signature covers both
  ephemeral keys of the exchange and its identifier, and this client is the one remembered.\<close>

theorem keys_need_verified_client:
  assumes "handle_auth_frame X H cfg t data p = (r, p')" and "pe_keys p = None" and "pe_keys p' \<noteq> None"
  shows "r = Inr True \<and> au_phase (pe_auth p) = VerifyM3 \<and> t = PV_Next \<and> au_phase (pe_auth p') = Encrypted
    \<and> (\<exists>d. decode_auth_frame (ac_depth cfg) data = Inr (d, 3))
    \<and> (\<exists>out_key in_key. au_output_key (pe_auth p) = Some out_key \<and> au_input_key (pe_auth p) = Some in_key \<and> pe_keys p' = Some (out_key, in_key))
    \<and> (enforced cfg \<longrightarrow> (\<exists>name ltpk. proved_by X H p name ltpk (pe_host p')
         \<and> au_client (pe_auth p') = Some name \<and> au_client_key (pe_auth p') = Some ltpk))"
  using assms by (rule keys_verified)

subsection \<open>A sample exchange\<close>

text \<open>A toy cryptography whose sealed text is key and data, a host that knows one client, and the last frame of its verification.\<close>

definition sample_crypto :: "nat crypto" where
  "sample_crypto = \<lparr>seal = (\<lambda>k n d a. k @ d), unseal = (\<lambda>k n d a. if take (length k) d = k then Some (drop (length k) d) else None),
     cr_public = (\<lambda>b. b), cr_exchange = (\<lambda>a b. Some [4]), cr_hkdf = (\<lambda>salt info b. b), cr_sign_public = (\<lambda>b. b),
     cr_sign = (\<lambda>a b. b), cr_verify = (\<lambda>ltpk signature b. ltpk = [1] \<and> signature = [9] \<and> b = [7, 112, 8]),
     cr_srp_start = (\<lambda>pin seed. (0, [2], [3])), cr_srp_process = (\<lambda>s pub salt. Some s), cr_srp_verify = (\<lambda>s proof. Some True),
     cr_srp_proof = (\<lambda>s. [6]), cr_srp_key = (\<lambda>s. [5])\<rparr>"

definition sample_host :: "unit host" where
  "sample_host = \<lparr>ho_admission = (\<lambda>h. (\<lparr>sa_allowed = True, sa_error = None, sa_retry_after = 0\<rparr>, h)), ho_backoff = Pair 0, ho_failed = id,
     ho_resetting = Pair False, ho_window = (\<lambda>b. Pair (Inr None)), ho_ltpk = (\<lambda>name. Pair (Inr (if name = ''p'' then Some [1] else None))),
     ho_authorizes = (\<lambda>name key. Pair (Inr True)), ho_commit = (\<lambda>g n k b. Pair (Inr True)), ho_add = (\<lambda>n k. Pair (Inr ())),
     ho_random = Pair [8], ho_paired = id\<rparr>"

definition sample_config :: auth_config where
  "sample_config = \<lparr>ac_identifier = [49], ac_generation = None, ac_seed = [3], ac_has_store = True, ac_require = True, ac_has_window = False, ac_depth = Suc (Suc (Suc 0))\<rparr>"

definition sample_auth :: "nat auth" where
  "sample_auth = new_auth\<lparr>au_phase := VerifyM3, au_output_key := Some [2], au_input_key := Some [3], au_pv_key := Some [5],
     au_pv_server := Some [8], au_pv_client := Some [7]\<rparr>"

definition sample_peer :: "(nat, unit) peer" where
  "sample_peer = \<lparr>pe_auth = sample_auth, pe_host = (), pe_sent = [], pe_keys = None\<rparr>"

definition sample_m3 :: opack where
  "sample_m3 = ODict [(OStr ''_pd'', OBytes [6, 1, 3, 5, 7, 5, 1, 1, 112, 10, 1, 9])]"

definition sample_verified :: "(nat, unit) peer" where
  "sample_verified = \<lparr>pe_auth = new_auth\<lparr>au_phase := Encrypted, au_client := Some ''p'', au_client_key := Some [1]\<rparr>, pe_host = (),
     pe_sent = [(PV_Next, pd [6, 1, 4])], pe_keys = Some ([2], [3])\<rparr>"

lemmas am_eval = am_bind_def am_handle_def am_get_def am_then_def need_def tlv_get_def am_return_def am_lift_def am_raise_def
  am_ask_def am_auth_def am_host_def am_do_def am_encrypt_def

lemma sample_decoded: "decode_auth_frame (Suc (Suc (Suc 0))) sample_m3 = Inr ([(6, [3]), (5, [5, 1, 1, 112, 10, 1, 9])], 3)"
  by (simp add: decode_auth_frame_def sample_m3_def opack_get_def read_tlv_def tlv_merge_def)

lemma sample_sub: "read_tlv (Suc (Suc (Suc 0))) [1, 1, 112, 10, 1, 9] = Inr [(1, [112]), (10, [9])]"
  by (simp add: read_tlv_def tlv_merge_def)

lemma sample_verifies: "cr_verify sample_crypto [1] [9] [7, 112, 8]"
  by (simp add: sample_crypto_def)

lemma sample_run: "handle_auth_frame sample_crypto sample_host sample_config PV_Next sample_m3 sample_peer = (Inr True, sample_verified)"
proof -
  have depth: "ac_depth sample_config = Suc (Suc (Suc 0))" by (simp add: sample_config_def)
  have plain: "unkeyed sample_crypto [5] ''PV-Msg03'' [5, 1, 1, 112, 10, 1, 9] = Inr [1, 1, 112, 10, 1, 9]"
    by (simp add: unkeyed_def cipher_decrypt_def sample_crypto_def aead.defs new_cipher_def opened_def)
  have name: "decode_utf8 [112] = Inr ''p''" by (simp add: decode_utf8_def string_of_def) code_simp
  show ?thesis
    unfolding handle_auth_frame_def am_get_def depth sample_peer_def sample_auth_def new_auth_def peer.select_convs auth.select_convs auth.update_convs
    using plain name sample_sub
    by (simp add: sample_decoded am_eval next_auth_transition_def run_step_def m3_verify_def verify_client_def enforced_def
        check_client_def send_done sample_config_def sample_host_def sample_verified_def new_auth_def clear_verify_def
        sample_verifies)
qed


theorem auth_frame_outcome_witness:
  "\<exists>d n s. decode_auth_frame (ac_depth sample_config) sample_m3 = Inr (d, n) \<and> next_auth_transition VerifyM3 PV_Next n = Some (s, Encrypted)"
  using auth_frame_outcome [OF sample_run] by (auto simp: sample_peer_def sample_auth_def sample_verified_def)

theorem keys_need_verified_client_witness:
  "handle_auth_frame sample_crypto sample_host sample_config PV_Next sample_m3 sample_peer = (Inr True, sample_verified)
   \<and> (\<exists>name ltpk. proved_by sample_crypto sample_host sample_peer name ltpk () \<and> au_client (pe_auth sample_verified) = Some name)"
proof -
  have "enforced sample_config" by (simp add: enforced_def sample_config_def)
  then show ?thesis
    using keys_need_verified_client [OF sample_run] sample_run by (auto simp: sample_peer_def sample_verified_def)
qed

end
