(* ===== verification/Gestures.thy ===== *)
theory Gestures
  imports Prelude
begin

text \<open>
  \<^verbatim>\<open>bridge/gestures.py\<close>: touch points of the remote become directions. The ratio of
  the dominant axis is an exact rational (for the default 1.3 and integer travel, Python's float
  comparison gives the same answers). Shown: the direction reported during a swipe and the keys
  emitted at its release agree, with the exact condition for each outcome.
\<close>

datatype gesture = GUp | GDown | GLeft | GRight | GSelect

datatype touch = TouchPress | TouchHold | TouchRelease | TouchClick | TouchOther

text \<open>\<open>TOUCH_ACTION_NAMES\<close>; a code without a name is ignored by the translator.\<close>

definition touch_name :: "int \<Rightarrow> touch" where
  "touch_name code =
     (if code = 1 then TouchPress else if code = 2 then TouchHold else if code = 3 then TouchHold
      else if code = 4 then TouchRelease else if code = 5 then TouchClick else TouchOther)"

record gesture_config =
  tap_max_travel :: int
  swipe_threshold :: int
  dominant_ratio :: rat
  repeat_every :: int
  max_repeat :: int
  invert_x :: bool
  invert_y :: bool

definition default_gestures :: gesture_config where
  "default_gestures = \<lparr>tap_max_travel = 60, swipe_threshold = 120, dominant_ratio = 13 / 10,
     repeat_every = 0, max_repeat = 10, invert_x = False, invert_y = False\<rparr>"

record track =
  start_x :: int
  start_y :: int
  last_x :: int
  last_y :: int

text \<open>\<open>_state\<close> is \<open>TRACKING\<close> exactly while there is a track and is read nowhere.\<close>

record swipe =
  sw_config :: gesture_config
  sw_track :: "track option"

definition new_swipe :: "gesture_config \<Rightarrow> swipe" where
  "new_swipe cfg = \<lparr>sw_config = cfg, sw_track = None\<rparr>"

definition swipe_reset :: "swipe \<Rightarrow> swipe" where
  "swipe_reset s = s\<lparr>sw_track := None\<rparr>"

definition apply_inversion :: "gesture_config \<Rightarrow> int \<Rightarrow> int \<Rightarrow> int \<times> int" where
  "apply_inversion cfg dx dy = (if invert_x cfg then - dx else dx, if invert_y cfg then - dy else dy)"

definition dominant_direction :: "gesture_config \<Rightarrow> int \<Rightarrow> int \<Rightarrow> (gesture \<times> int) option" where
  "dominant_direction cfg dx dy =
     (if max \<bar>dx\<bar> \<bar>dy\<bar> < swipe_threshold cfg then None
      else if \<bar>dy\<bar> \<le> \<bar>dx\<bar> then
        (if of_int \<bar>dx\<bar> < of_int \<bar>dy\<bar> * dominant_ratio cfg then None
         else Some (if dx > 0 then GRight else GLeft, \<bar>dx\<bar>))
      else if of_int \<bar>dy\<bar> < of_int \<bar>dx\<bar> * dominant_ratio cfg then None
      else Some (if dy > 0 then GDown else GUp, \<bar>dy\<bar>))"

definition current_direction :: "swipe \<Rightarrow> gesture option" where
  "current_direction s =
     (case sw_track s of None \<Rightarrow> None
      | Some t \<Rightarrow>
          (let (dx, dy) = apply_inversion (sw_config s) (last_x t - start_x t) (last_y t - start_y t)
           in case dominant_direction (sw_config s) dx dy of None \<Rightarrow> None | Some (d, _) \<Rightarrow> Some d))"

definition repeat_count :: "gesture_config \<Rightarrow> int \<Rightarrow> int" where
  "repeat_count cfg travel =
     (if repeat_every cfg \<le> 0 then 1
      else min (max 1 (travel div repeat_every cfg)) (max_repeat cfg))"

definition swipe_resolve :: "gesture_config \<Rightarrow> int \<Rightarrow> int \<Rightarrow> int \<Rightarrow> int \<Rightarrow> gesture list" where
  "swipe_resolve cfg x0 y0 x1 y1 =
     (let (dx, dy) = apply_inversion cfg (x1 - x0) (y1 - y0)
      in if max \<bar>dx\<bar> \<bar>dy\<bar> \<le> tap_max_travel cfg then [GSelect]
         else case dominant_direction cfg dx dy of
             None \<Rightarrow> []
           | Some (d, dominant) \<Rightarrow> replicate (nat (repeat_count cfg dominant)) d)"

definition swipe_feed :: "swipe \<Rightarrow> touch \<Rightarrow> int \<Rightarrow> int \<Rightarrow> gesture list \<times> swipe" where
  "swipe_feed s action cx cy =
     (case action of
        TouchPress \<Rightarrow> ([], s\<lparr>sw_track := Some \<lparr>start_x = cx, start_y = cy, last_x = cx, last_y = cy\<rparr>\<rparr>)
      | TouchHold \<Rightarrow>
          (case sw_track s of None \<Rightarrow> ([], s)
           | Some t \<Rightarrow> ([], s\<lparr>sw_track := Some (t\<lparr>last_x := cx, last_y := cy\<rparr>)\<rparr>))
      | TouchClick \<Rightarrow> ([GSelect], swipe_reset s)
      | TouchRelease \<Rightarrow>
          (case sw_track s of None \<Rightarrow> ([], s)
           | Some t \<Rightarrow> (swipe_resolve (sw_config s) (start_x t) (start_y t) cx cy, swipe_reset s))
      | TouchOther \<Rightarrow> ([], s))"

lemma swipe_feed_config [simp]: "sw_config (snd (swipe_feed s a x y)) = sw_config s"
  by (auto simp: swipe_feed_def swipe_reset_def split: touch.splits option.splits)

lemma dominant_not_select: "dominant_direction cfg dx dy = Some (d, n) \<Longrightarrow> d \<noteq> GSelect"
  by (auto simp: dominant_direction_def split: if_splits)

lemma current_not_select: "current_direction s \<noteq> Some GSelect"
  by (auto simp: current_direction_def split: option.splits prod.splits dest: dominant_not_select)

text \<open>The displacement along a direction and the displacement across it.\<close>

fun along :: "gesture \<Rightarrow> int \<Rightarrow> int \<Rightarrow> int" where
  "along GRight dx dy = dx" | "along GLeft dx dy = - dx" | "along GDown dx dy = dy"
| "along GUp dx dy = - dy" | "along GSelect dx dy = 0"

fun across :: "gesture \<Rightarrow> int \<Rightarrow> int \<Rightarrow> int" where
  "across GRight dx dy = \<bar>dy\<bar>" | "across GLeft dx dy = \<bar>dy\<bar>" | "across GDown dx dy = \<bar>dx\<bar>"
| "across GUp dx dy = \<bar>dx\<bar>" | "across GSelect dx dy = 0"

lemma ratio_less:
  assumes "1 < (r :: rat)" "of_int b * r \<le> of_int a" "0 < a" "0 \<le> b"
  shows "b < a"
proof (cases "b = 0")
  case False
  then have "of_int b < of_int b * r" using assms(1,4) by simp
  with assms(2) have "(of_int b :: rat) < of_int a" by linarith
  then show ?thesis by simp
qed (use assms in simp)

lemma dominant_direction_iff:
  assumes "1 < dominant_ratio cfg" "0 < swipe_threshold cfg"
  shows "dominant_direction cfg dx dy = Some (d, n) \<longleftrightarrow>
     d \<noteq> GSelect \<and> n = along d dx dy \<and> swipe_threshold cfg \<le> n
     \<and> of_int (across d dx dy) * dominant_ratio cfg \<le> of_int n"
proof -
  define thr r where "thr = swipe_threshold cfg" and "r = dominant_ratio cfg"
  define a b where "a = \<bar>dx\<bar>" and "b = \<bar>dy\<bar>"
  have pos: "0 < thr" "0 \<le> a" "0 \<le> b" using assms(2) by (simp_all add: thr_def a_def b_def)
  have x: "of_int b * r \<le> of_int a \<Longrightarrow> thr \<le> a \<Longrightarrow> b < a" and y: "of_int a * r \<le> of_int b \<Longrightarrow> thr \<le> b \<Longrightarrow> a < b"
    using ratio_less [of r b a] ratio_less [of r a b] assms(1) pos by (auto simp: r_def)
  have dir: "dominant_direction cfg dx dy =
     (if max a b < thr then None
      else if b \<le> a then (if of_int a < of_int b * r then None else Some (if dx > 0 then GRight else GLeft, a))
      else if of_int b < of_int a * r then None else Some (if dy > 0 then GDown else GUp, b))"
    by (simp add: dominant_direction_def thr_def r_def a_def b_def)
  have "dominant_direction cfg dx dy = Some (d, n) \<longleftrightarrow>
      (thr \<le> a \<and> of_int b * r \<le> of_int a \<and> d = (if dx > 0 then GRight else GLeft) \<and> n = a)
    \<or> (thr \<le> b \<and> of_int a * r \<le> of_int b \<and> d = (if dy > 0 then GDown else GUp) \<and> n = b)"
  proof (cases "b \<le> a")
    case True
    then show ?thesis using y unfolding dir by (auto simp: max_def not_less)
  next
    case False
    then show ?thesis using x unfolding dir by (auto simp: max_def not_less)
  qed
  also have "\<dots> \<longleftrightarrow> d \<noteq> GSelect \<and> n = along d dx dy \<and> thr \<le> n \<and> of_int (across d dx dy) * r \<le> of_int n"
    using pos(1) by (cases d) (auto simp: a_def b_def)
  finally show ?thesis by (simp add: thr_def r_def)
qed

subsection \<open>Properties\<close>

text \<open>A touch released where it was last seen resolves to a tap exactly when the finger travelled at
  most the tap limit, and otherwise to the direction reported for the gesture in progress: nothing when
  there is none, else that direction and only it, at least once and at most the repeat cap.\<close>

theorem release_agrees_with_current:
  assumes "sw_track s = Some t" and "1 \<le> max_repeat (sw_config s)"
  defines "out \<equiv> fst (swipe_feed s TouchRelease (last_x t) (last_y t))"
  shows "if max \<bar>last_x t - start_x t\<bar> \<bar>last_y t - start_y t\<bar> \<le> tap_max_travel (sw_config s)
         then out = [GSelect]
         else case current_direction s of
             None \<Rightarrow> out = []
           | Some d \<Rightarrow> d \<noteq> GSelect \<and> 1 \<le> length out \<and> length out \<le> nat (max_repeat (sw_config s))
                \<and> set out = {d}"
proof -
  define cfg where "cfg = sw_config s"
  obtain dx dy where inv: "apply_inversion cfg (last_x t - start_x t) (last_y t - start_y t) = (dx, dy)"
    by fastforce
  then have abs: "\<bar>dx\<bar> = \<bar>last_x t - start_x t\<bar>" "\<bar>dy\<bar> = \<bar>last_y t - start_y t\<bar>"
    by (auto simp: apply_inversion_def split: if_splits)
  have out: "out = (if max \<bar>dx\<bar> \<bar>dy\<bar> \<le> tap_max_travel cfg then [GSelect]
      else case dominant_direction cfg dx dy of None \<Rightarrow> []
        | Some (d, n) \<Rightarrow> replicate (nat (repeat_count cfg n)) d)"
    by (simp add: out_def swipe_feed_def assms(1) swipe_resolve_def inv cfg_def [symmetric])
  have cur: "current_direction s = map_option fst (dominant_direction cfg dx dy)"
    by (simp add: current_direction_def assms(1) inv cfg_def [symmetric] split: option.split)
  have "1 \<le> repeat_count cfg n \<and> repeat_count cfg n \<le> max 1 (max_repeat cfg)" for n
    using assms(2) by (auto simp: repeat_count_def cfg_def)
  moreover have "max 1 (max_repeat cfg) = max_repeat cfg" using assms(2) by (simp add: cfg_def)
  ultimately have "1 \<le> repeat_count cfg n" "repeat_count cfg n \<le> max_repeat cfg" for n by simp_all
  note rc = this
  have count: "1 \<le> nat (repeat_count cfg n) \<and> nat (repeat_count cfg n) \<le> nat (max_repeat cfg)" for n
    using rc [of n] by (auto simp: le_nat_iff intro: nat_mono)
  show ?thesis
  proof (cases "dominant_direction cfg dx dy")
    case None
    then show ?thesis unfolding abs [symmetric] out cur cfg_def [symmetric] by simp
  next
    case (Some dn)
    obtain d n where dn: "dn = (d, n)" by fastforce
    have "set (replicate (nat (repeat_count cfg n)) d) = {d}" using count [of n] by (intro set_replicate) auto
    then show ?thesis
      using count [of n] dominant_not_select [OF Some [unfolded dn]]
      unfolding abs [symmetric] out cur cfg_def [symmetric] Some dn by simp
  qed
qed

theorem release_agrees_with_current_witness:
  "current_direction \<lparr>sw_config = default_gestures,
      sw_track = Some \<lparr>start_x = 500, start_y = 500, last_x = 700, last_y = 510\<rparr>\<rparr> = Some GRight
   \<and> set (fst (swipe_feed \<lparr>sw_config = default_gestures,
      sw_track = Some \<lparr>start_x = 500, start_y = 500, last_x = 700, last_y = 510\<rparr>\<rparr> TouchRelease 700 510)) = {GRight}"
proof -
  let ?s = "\<lparr>sw_config = default_gestures,
      sw_track = Some \<lparr>start_x = 500, start_y = 500, last_x = 700, last_y = 510\<rparr>\<rparr>"
  have "current_direction ?s = Some GRight"
    by (simp add: current_direction_def default_gestures_def apply_inversion_def dominant_direction_def)
  with release_agrees_with_current [of ?s] show ?thesis by (simp add: default_gestures_def)
qed

text \<open>With a ratio above one, a displacement is a swipe in a direction exactly when it reaches the
  threshold along that direction and is at least the ratio times the displacement across it; so at most
  one direction qualifies.\<close>

theorem dominant_direction_exact:
  assumes "1 < dominant_ratio cfg" and "0 < swipe_threshold cfg"
  shows "dominant_direction cfg dx dy = Some (d, n) \<longleftrightarrow>
     d \<noteq> GSelect \<and> n = along d dx dy \<and> swipe_threshold cfg \<le> n
     \<and> of_int (across d dx dy) * dominant_ratio cfg \<le> of_int n"
  by (rule dominant_direction_iff [OF assms])

theorem dominant_direction_exact_witness:
  "dominant_direction default_gestures (- 130) 100 = Some (GLeft, 130)
   \<and> dominant_direction default_gestures (- 129) 100 \<noteq> Some (GLeft, 129)"
  using dominant_direction_exact [of default_gestures "- 130" 100 GLeft 130]
    dominant_direction_exact [of default_gestures "- 129" 100 GLeft 129]
  by (simp add: default_gestures_def)

end
