(* ===== verification/Keymap.thy ===== *)
theory Keymap
  imports Gestures
begin

text \<open>
  \<^verbatim>\<open>bridge/keymap.py\<close>: Companion HID codes and gestures to Samsung actions.
\<close>

datatype apple_button =
    BUp | BDown | BLeft | BRight | BMenu | BSelect | BHome | BVolumeUp | BVolumeDown | BSiri
  | BScreensaver | BSleep | BWake | BPlayPause | BChannelIncrement | BChannelDecrement | BGuide
  | BMute | BPower

definition all_buttons :: "apple_button list" where
  "all_buttons = [BUp, BDown, BLeft, BRight, BMenu, BSelect, BHome, BVolumeUp, BVolumeDown, BSiri,
     BScreensaver, BSleep, BWake, BPlayPause, BChannelIncrement, BChannelDecrement, BGuide, BMute, BPower]"

fun button_code :: "apple_button \<Rightarrow> int" where
  "button_code BUp = 1" | "button_code BDown = 2" | "button_code BLeft = 3" | "button_code BRight = 4"
| "button_code BMenu = 5" | "button_code BSelect = 6" | "button_code BHome = 7"
| "button_code BVolumeUp = 8" | "button_code BVolumeDown = 9" | "button_code BSiri = 10"
| "button_code BScreensaver = 11" | "button_code BSleep = 12" | "button_code BWake = 13"
| "button_code BPlayPause = 14" | "button_code BChannelIncrement = 15"
| "button_code BChannelDecrement = 16" | "button_code BGuide = 17" | "button_code BMute = 18"
| "button_code BPower = 19"

datatype action = SendKey | SendText | PowerOff | WakeOnLan | Unmapped

record mapping =
  mp_action :: action
  mp_key :: "string option"

definition send_key :: "string \<Rightarrow> mapping" where
  "send_key k = \<lparr>mp_action = SendKey, mp_key = Some k\<rparr>"

definition unmapped :: mapping where
  "unmapped = \<lparr>mp_action = Unmapped, mp_key = None\<rparr>"

fun keymap :: "apple_button \<Rightarrow> mapping" where
  "keymap BUp = send_key ''KEY_UP''"
| "keymap BDown = send_key ''KEY_DOWN''"
| "keymap BLeft = send_key ''KEY_LEFT''"
| "keymap BRight = send_key ''KEY_RIGHT''"
| "keymap BMenu = send_key ''KEY_RETURN''"
| "keymap BSelect = send_key ''KEY_ENTER''"
| "keymap BHome = send_key ''KEY_HOME''"
| "keymap BVolumeUp = send_key ''KEY_VOLUP''"
| "keymap BVolumeDown = send_key ''KEY_VOLDOWN''"
| "keymap BMute = send_key ''KEY_MUTE''"
| "keymap BPlayPause = send_key ''KEY_PLAY_BACK''"
| "keymap BPower = send_key ''KEY_POWER''"
| "keymap BSleep = \<lparr>mp_action = PowerOff, mp_key = Some ''KEY_POWER''\<rparr>"
| "keymap BWake = \<lparr>mp_action = WakeOnLan, mp_key = None\<rparr>"
| "keymap BChannelIncrement = send_key ''KEY_CHUP''"
| "keymap BChannelDecrement = send_key ''KEY_CHDOWN''"
| "keymap BGuide = send_key ''KEY_GUIDE''"
| "keymap BSiri = unmapped"
| "keymap BScreensaver = unmapped"

definition resolve_button :: "int \<Rightarrow> mapping" where
  "resolve_button code =
     (case find (\<lambda>b. button_code b = code) all_buttons of None \<Rightarrow> unmapped | Some b \<Rightarrow> keymap b)"

fun gesture_key :: "gesture \<Rightarrow> string" where
  "gesture_key GUp = ''KEY_UP''"
| "gesture_key GDown = ''KEY_DOWN''"
| "gesture_key GLeft = ''KEY_LEFT''"
| "gesture_key GRight = ''KEY_RIGHT''"
| "gesture_key GSelect = ''KEY_ENTER''"

lemma gesture_key_inject [simp]: "gesture_key a = gesture_key b \<longleftrightarrow> a = b"
  by (cases a; cases b) simp_all

lemma gesture_key_enter: "gesture_key d = ''KEY_ENTER'' \<longleftrightarrow> d = GSelect"
  by (cases d) simp_all

lemma resolve_button_code [simp]: "resolve_button (button_code b) = keymap b"
  by (cases b) (simp_all add: resolve_button_def all_buttons_def)

lemma resolve_button_unknown: "code < 1 \<or> 19 < code \<Longrightarrow> resolve_button code = unmapped"
  by (auto simp: resolve_button_def all_buttons_def)

lemma find_Some_member: "find P xs = Some x \<Longrightarrow> x \<in> set xs \<and> P x"
  by (induction xs) (auto split: if_splits)

end
