(* ===== verification/Relay.thy ===== *)
theory Relay
  imports Keymap
begin

text \<open>
  \<^verbatim>\<open>companion/relay.py\<close>: decoded input becomes commands for the television. An operation
  takes the relay, the clock reading of the call (milliseconds, a rational; no call reads the clock
  twice) and returns the commands handed to the sink and the new relay. Shown: hold commands alternate
  START and STOP of one direction, two SELECT commands are never closer than the de-duplication
  window, a quick gesture is translated as with the hold feature off, and the release of a held
  gesture emits nothing but its STOP.
\<close>

datatype repeat_phase = RepeatStart | RepeatStop

datatype provenance = FromButton int | FromGesture gesture | FromOther string

record command =
  cm_action :: action
  cm_key :: "string option"
  cm_cmd :: string
  cm_source :: provenance
  cm_text :: "string option"
  cm_repeat :: "repeat_phase option"
  cm_fast :: bool

definition key_command :: "action \<Rightarrow> string option \<Rightarrow> provenance \<Rightarrow> command" where
  "key_command a k src = \<lparr>cm_action = a, cm_key = k, cm_cmd = ''Click'', cm_source = src,
     cm_text = None, cm_repeat = None, cm_fast = False\<rparr>"

record hold_config =
  hc_enabled :: bool
  hc_activate_ms :: rat
  hc_initial_delay :: rat
  hc_interval :: rat
  hc_max_hold :: rat

definition default_hold :: hold_config where
  "default_hold = \<lparr>hc_enabled = False, hc_activate_ms = 400, hc_initial_delay = 1 / 4,
     hc_interval = 12 / 100, hc_max_hold = 15\<rparr>"

definition SELECT_DEDUPE_MS :: rat where "SELECT_DEDUPE_MS = 400"

definition volume_key_for :: "rat \<Rightarrow> rat \<Rightarrow> string \<times> rat" where
  "volume_key_for prev_pct level =
     (if prev_pct / 100 \<le> level then ''KEY_VOLUP'' else ''KEY_VOLDOWN'', max 0 (min 100 (level * 100)))"

record relay =
  rl_swipe :: swipe
  rl_hold :: hold_config
  rl_dedupe_ms :: rat
  rl_last_select :: rat
  rl_hold_dir :: "gesture option"
  rl_hold_since :: rat
  rl_hold_active :: bool
  rl_was_active :: bool
  rl_suppress :: bool

definition new_relay :: "gesture_config \<Rightarrow> hold_config \<Rightarrow> rat \<Rightarrow> relay" where
  "new_relay gcfg hcfg dedupe = \<lparr>rl_swipe = new_swipe gcfg, rl_hold = hcfg, rl_dedupe_ms = dedupe,
     rl_last_select = 0, rl_hold_dir = None, rl_hold_since = 0, rl_hold_active = False,
     rl_was_active = False, rl_suppress = False\<rparr>"

definition emit :: "rat \<Rightarrow> command \<Rightarrow> relay \<Rightarrow> command list \<times> relay" where
  "emit now c r =
     (if cm_key c = Some ''KEY_ENTER'' then
        (if now - rl_last_select r < rl_dedupe_ms r then ([], r)
         else ([c], r\<lparr>rl_last_select := now\<rparr>))
      else ([c], r))"

definition on_button :: "rat \<Rightarrow> int \<Rightarrow> int \<Rightarrow> relay \<Rightarrow> command list \<times> relay" where
  "on_button now code state r =
     (if state \<noteq> 0 \<and> state \<noteq> 2 then ([], r)
      else let mp = resolve_button code
        in if mp_action mp = Unmapped then ([], r)
           else emit now (key_command (mp_action mp) (mp_key mp) (FromButton code)) r)"

definition emit_gesture :: "rat \<Rightarrow> gesture \<Rightarrow> relay \<Rightarrow> command list \<times> relay" where
  "emit_gesture now d r = emit now (key_command SendKey (Some (gesture_key d)) (FromGesture d)) r"

fun emit_gestures :: "rat \<Rightarrow> gesture list \<Rightarrow> relay \<Rightarrow> command list \<times> relay" where
  "emit_gestures now [] r = ([], r)"
| "emit_gestures now (d # ds) r =
     (let (out1, r1) = emit_gesture now d r; (out2, r2) = emit_gestures now ds r1
      in (out1 @ out2, r2))"

definition hold_command :: "gesture \<Rightarrow> repeat_phase \<Rightarrow> command" where
  "hold_command d phase =
     (key_command SendKey (Some (gesture_key d)) (FromGesture d))
       \<lparr>cm_repeat := Some phase, cm_fast := (phase = RepeatStart)\<rparr>"

definition end_hold_if_active :: "rat \<Rightarrow> relay \<Rightarrow> command list \<times> relay" where
  "end_hold_if_active now r =
     (let (out, r1) =
        (case rl_hold_dir r of
           Some d \<Rightarrow> if rl_hold_active r then emit now (hold_command d RepeatStop) r else ([], r)
         | None \<Rightarrow> ([], r))
      in (out, r1\<lparr>rl_hold_active := False\<rparr>))"

definition reset_hold_state :: "relay \<Rightarrow> relay" where
  "reset_hold_state r =
     r\<lparr>rl_hold_dir := None, rl_hold_since := 0, rl_hold_active := False, rl_was_active := False\<rparr>"

definition update_hold :: "rat \<Rightarrow> relay \<Rightarrow> command list \<times> relay" where
  "update_hold now r =
     (let d = current_direction (rl_swipe r)
      in if d \<noteq> rl_hold_dir r then
           (let (out, r1) = end_hold_if_active now r
            in (out, r1\<lparr>rl_hold_dir := d, rl_hold_since := (if d \<noteq> None then now else 0)\<rparr>))
         else case d of
             Some g \<Rightarrow>
               if \<not> rl_hold_active r \<and> hc_activate_ms (rl_hold r) \<le> now - rl_hold_since r then
                 (let (out, r1) = emit now (hold_command g RepeatStart) r
                  in (out, r1\<lparr>rl_hold_active := True, rl_was_active := True\<rparr>))
               else ([], r)
           | None \<Rightarrow> ([], r))"

definition relay_swipe :: "touch \<Rightarrow> int \<Rightarrow> int \<Rightarrow> relay \<Rightarrow> gesture list \<times> relay" where
  "relay_swipe action cx cy r =
     (let (ds, sw) = swipe_feed (rl_swipe r) action cx cy in (ds, r\<lparr>rl_swipe := sw\<rparr>))"

definition on_touch :: "rat \<Rightarrow> touch \<Rightarrow> int \<Rightarrow> int \<Rightarrow> relay \<Rightarrow> command list \<times> relay" where
  "on_touch now action cx cy r =
     (if \<not> hc_enabled (rl_hold r) then
        (let (ds, r1) = relay_swipe action cx cy r in emit_gestures now ds r1)
      else case action of
        TouchPress \<Rightarrow>
          (let (out, r1) = end_hold_if_active now r;
               r2 = (reset_hold_state r1)\<lparr>rl_suppress := False\<rparr>
           in (out, snd (relay_swipe action cx cy r2)))
      | TouchHold \<Rightarrow> update_hold now (snd (relay_swipe action cx cy r))
      | TouchOther \<Rightarrow> ([], snd (relay_swipe action cx cy r))
      | _ \<Rightarrow>
          (let (out1, r1) = end_hold_if_active now r;
               (ds, r2) = relay_swipe action cx cy r1;
               (out2, r3) =
                 (if rl_was_active r2 then ([], r2\<lparr>rl_suppress := True\<rparr>)
                  else if rl_suppress r2 \<and> ds = [GSelect] then ([], r2)
                  else emit_gestures now ds r2)
           in (out1 @ out2, reset_hold_state r3)))"

subsection \<open>Runs\<close>

datatype relay_input = ButtonInput int int | TouchInput touch int int | OtherCommand command

fun relay_step :: "rat \<Rightarrow> relay_input \<Rightarrow> relay \<Rightarrow> command list \<times> relay" where
  "relay_step now (ButtonInput code st) r = on_button now code st r"
| "relay_step now (TouchInput a x y) r = on_touch now a x y r"
| "relay_step now (OtherCommand c) r = emit now c r"

fun relay_run :: "(rat \<times> relay_input) list \<Rightarrow> relay \<Rightarrow> (rat \<times> command) list \<times> relay" where
  "relay_run [] r = ([], r)"
| "relay_run ((t, i) # is) r =
     (let (out, r1) = relay_step t i r; (outs, r2) = relay_run is r1
      in (map (Pair t) out @ outs, r2))"

text \<open>The hold lifecycle a stream of commands describes: \<open>None\<close> is a broken alternation.\<close>

fun hold_track :: "string option \<Rightarrow> command list \<Rightarrow> string option option" where
  "hold_track cur [] = Some cur"
| "hold_track cur (c # cs) =
     (case cm_repeat c of
        None \<Rightarrow> hold_track cur cs
      | Some RepeatStart \<Rightarrow> if cur = None \<and> cm_key c \<noteq> None then hold_track (cm_key c) cs else None
      | Some RepeatStop \<Rightarrow> if cur \<noteq> None \<and> cm_key c = cur then hold_track None cs else None)"

lemma hold_track_append:
  "hold_track cur (xs @ ys) = (case hold_track cur xs of None \<Rightarrow> None | Some c \<Rightarrow> hold_track c ys)"
  by (induction cur xs rule: hold_track.induct)
    (auto split: option.splits repeat_phase.splits)

definition held_key :: "relay \<Rightarrow> string option" where
  "held_key r = (if rl_hold_active r then map_option gesture_key (rl_hold_dir r) else None)"

definition hold_inv :: "relay \<Rightarrow> bool" where
  "hold_inv r \<longleftrightarrow> rl_hold_dir r \<noteq> Some GSelect \<and> (rl_hold_active r \<longrightarrow> rl_hold_dir r \<noteq> None)"

text \<open>One operation's outputs continue the lifecycle of the relay before it to that of the relay
  after it.\<close>

definition hold_ok :: "relay \<Rightarrow> command list \<times> relay \<Rightarrow> bool" where
  "hold_ok r res \<longleftrightarrow> hold_inv (snd res) \<and> hold_track (held_key r) (fst res) = Some (held_key (snd res))"

definition plain_command :: "command \<Rightarrow> bool" where
  "plain_command c \<longleftrightarrow> cm_repeat c = None"

lemma key_command_simps [simp]:
  "cm_repeat (key_command a k src) = None" "cm_key (key_command a k src) = k"
  "cm_repeat (hold_command d ph) = Some ph" "cm_key (hold_command d ph) = Some (gesture_key d)"
  by (simp_all add: key_command_def hold_command_def)

lemma emit_fields [simp]:
  "rl_hold_dir (snd (emit now c r)) = rl_hold_dir r" "rl_hold_active (snd (emit now c r)) = rl_hold_active r"
  "rl_was_active (snd (emit now c r)) = rl_was_active r" "rl_suppress (snd (emit now c r)) = rl_suppress r"
  "rl_swipe (snd (emit now c r)) = rl_swipe r" "rl_hold (snd (emit now c r)) = rl_hold r"
  "rl_dedupe_ms (snd (emit now c r)) = rl_dedupe_ms r" "rl_hold_since (snd (emit now c r)) = rl_hold_since r"
  by (simp_all add: emit_def)

lemma emit_not_enter: "cm_key c \<noteq> Some ''KEY_ENTER'' \<Longrightarrow> emit now c r = ([c], r)"
  by (simp add: emit_def)

lemma emit_hold: "d \<noteq> GSelect \<Longrightarrow> emit now (hold_command d ph) r = ([hold_command d ph], r)"
  by (simp add: emit_not_enter gesture_key_enter)

lemma emit_plain_ok: "plain_command c \<Longrightarrow> hold_inv r \<Longrightarrow> hold_ok r (emit now c r)"
  by (auto simp: hold_ok_def hold_inv_def held_key_def emit_def plain_command_def)

lemma hold_ok_trans:
  "hold_ok r (out1, r1) \<Longrightarrow> hold_ok r1 (out2, r2) \<Longrightarrow> hold_ok r (out1 @ out2, r2)"
  by (simp add: hold_ok_def hold_track_append)

lemma emit_gestures_ok: "hold_inv r \<Longrightarrow> hold_ok r (emit_gestures now ds r)"
proof (induction ds arbitrary: r)
  case Nil
  then show ?case by (simp add: hold_ok_def)
next
  case (Cons d ds)
  obtain out1 r1 out2 r2 where 1: "emit_gesture now d r = (out1, r1)" and 2: "emit_gestures now ds r1 = (out2, r2)"
    by fastforce
  have ok1: "hold_ok r (out1, r1)"
    using emit_plain_ok [of "key_command SendKey (Some (gesture_key d)) (FromGesture d)" r now] Cons.prems 1
    by (simp add: emit_gesture_def plain_command_def)
  then have "hold_inv r1" by (simp add: hold_ok_def)
  from hold_ok_trans [OF ok1] Cons.IH [OF this] show ?case by (simp add: 1 2)
qed

lemma end_hold_eq:
  "hold_inv r \<Longrightarrow> end_hold_if_active now r =
     (if rl_hold_active r then [hold_command (the (rl_hold_dir r)) RepeatStop] else [],
      r\<lparr>rl_hold_active := False\<rparr>)"
  by (auto simp: end_hold_if_active_def emit_hold hold_inv_def split: option.splits)

lemma end_hold_ok: "hold_inv r \<Longrightarrow> hold_ok r (end_hold_if_active now r)"
  by (auto simp: end_hold_eq hold_ok_def hold_inv_def held_key_def)

lemma relay_swipe_fields [simp]:
  "rl_hold_dir (snd (relay_swipe a x y r)) = rl_hold_dir r" "rl_hold_active (snd (relay_swipe a x y r)) = rl_hold_active r"
  "rl_was_active (snd (relay_swipe a x y r)) = rl_was_active r" "rl_suppress (snd (relay_swipe a x y r)) = rl_suppress r"
  "rl_hold (snd (relay_swipe a x y r)) = rl_hold r" "rl_dedupe_ms (snd (relay_swipe a x y r)) = rl_dedupe_ms r"
  "rl_last_select (snd (relay_swipe a x y r)) = rl_last_select r"
  "rl_hold_since (snd (relay_swipe a x y r)) = rl_hold_since r"
  by (simp_all add: relay_swipe_def split_beta)

lemma relay_swipe_pair: "relay_swipe a x y r = (ds, r1) \<Longrightarrow> r1 = snd (relay_swipe a x y r)"
  by simp

text \<open>Changes of the swipe, of the hold flags while no hold is active, or of the suppression keep the
  lifecycle.\<close>

lemma hold_ok_silent:
  "hold_inv r \<Longrightarrow> rl_hold_dir r' = rl_hold_dir r \<Longrightarrow> rl_hold_active r' = rl_hold_active r \<Longrightarrow> hold_ok r ([], r')"
  by (simp add: hold_ok_def hold_inv_def held_key_def)

lemma hold_ok_idle:
  "hold_ok r (out, r1) \<Longrightarrow> \<not> rl_hold_active r1 \<Longrightarrow> \<not> rl_hold_active r2 \<Longrightarrow> rl_hold_dir r2 \<noteq> Some GSelect \<Longrightarrow>
     hold_ok r (out, r2)"
  by (simp add: hold_ok_def hold_inv_def held_key_def)

lemma update_hold_ok: "hold_inv r \<Longrightarrow> hold_ok r (update_hold now r)"
proof -
  assume inv: "hold_inv r"
  have "current_direction (rl_swipe r) \<noteq> Some GSelect" by (rule current_not_select)
  then show ?thesis
    using inv by (auto simp: update_hold_def end_hold_eq emit_hold hold_ok_def hold_inv_def held_key_def
        Let_def split: option.splits)
qed

lemma reset_hold_fields [simp]:
  "rl_hold_dir (reset_hold_state r) = None" "\<not> rl_hold_active (reset_hold_state r)"
  "\<not> rl_was_active (reset_hold_state r)" "rl_swipe (reset_hold_state r) = rl_swipe r"
  "rl_hold (reset_hold_state r) = rl_hold r" "rl_suppress (reset_hold_state r) = rl_suppress r"
  "rl_dedupe_ms (reset_hold_state r) = rl_dedupe_ms r" "rl_last_select (reset_hold_state r) = rl_last_select r"
  by (simp_all add: reset_hold_state_def)

lemma emit_gestures_fields [simp]:
  "rl_hold_dir (snd (emit_gestures now ds r)) = rl_hold_dir r"
  "rl_hold_active (snd (emit_gestures now ds r)) = rl_hold_active r"
  "rl_was_active (snd (emit_gestures now ds r)) = rl_was_active r"
  "rl_swipe (snd (emit_gestures now ds r)) = rl_swipe r"
  "rl_hold (snd (emit_gestures now ds r)) = rl_hold r"
  "rl_dedupe_ms (snd (emit_gestures now ds r)) = rl_dedupe_ms r"
  by (induction ds arbitrary: r) (simp_all add: emit_gesture_def split_beta)

text \<open>The shared part of the release and click branches.\<close>

definition touch_up :: "rat \<Rightarrow> touch \<Rightarrow> int \<Rightarrow> int \<Rightarrow> relay \<Rightarrow> command list \<times> relay" where
  "touch_up now action cx cy r =
     (let (out1, r1) = end_hold_if_active now r;
          (ds, r2) = relay_swipe action cx cy r1;
          (out2, r3) =
            (if rl_was_active r2 then ([], r2\<lparr>rl_suppress := True\<rparr>)
             else if rl_suppress r2 \<and> ds = [GSelect] then ([], r2)
             else emit_gestures now ds r2)
      in (out1 @ out2, reset_hold_state r3))"

lemma touch_up_ok:
  assumes "hold_inv r" shows "hold_ok r (touch_up now a x y r)"
proof -
  obtain out1 r1 where e: "end_hold_if_active now r = (out1, r1)" by fastforce
  obtain ds r2 where sw: "relay_swipe a x y r1 = (ds, r2)" by fastforce
  have ok1: "hold_ok r (out1, r1)" using end_hold_ok [OF assms, of now] by (simp add: e)
  have idle: "\<not> rl_hold_active r1" using e end_hold_eq [OF assms, of now] by auto
  have inv1: "hold_inv r1" using ok1 by (simp add: hold_ok_def)
  have r2: "rl_hold_dir r2 = rl_hold_dir r1" "rl_hold_active r2 = rl_hold_active r1"
    using relay_swipe_pair [OF sw] by simp_all
  then have ok2: "hold_ok r (out1, r2)" and inv2: "hold_inv r2"
    using ok1 inv1 by (simp_all add: hold_ok_def hold_inv_def held_key_def)
  define res where "res = (if rl_was_active r2 then ([], r2\<lparr>rl_suppress := True\<rparr>)
             else if rl_suppress r2 \<and> ds = [GSelect] then ([], r2)
             else emit_gestures now ds r2)"
  have "hold_ok r2 res" "\<not> rl_hold_active (snd res)" "rl_hold_dir (snd res) \<noteq> Some GSelect"
    using emit_gestures_ok [OF inv2, of now ds] inv2 idle r2 inv1
    by (auto simp: res_def hold_inv_def intro: hold_ok_silent)
  then have "hold_ok r (out1 @ fst res, reset_hold_state (snd res))"
    by (intro hold_ok_idle [OF hold_ok_trans [OF ok2]]) auto
  then show ?thesis
    unfolding touch_up_def e sw Let_def prod.case by (fold res_def) (simp add: split_beta)
qed

lemma on_touch_up:
  "hc_enabled (rl_hold r) \<Longrightarrow> a = TouchRelease \<or> a = TouchClick \<Longrightarrow> on_touch now a x y r = touch_up now a x y r"
  by (auto simp: on_touch_def touch_up_def)

lemma on_touch_ok:
  assumes "hold_inv r" shows "hold_ok r (on_touch now a x y r)"
proof (cases "hc_enabled (rl_hold r)")
  case False
  obtain ds r1 where sw: "relay_swipe a x y r = (ds, r1)" by fastforce
  then have "hold_inv r1" "held_key r1 = held_key r"
    using assms relay_swipe_pair [OF sw] by (simp_all add: hold_inv_def held_key_def)
  with emit_gestures_ok [of r1 now ds] False sw show ?thesis by (simp add: on_touch_def hold_ok_def)
next
  case True
  have silent: "hold_inv (snd (relay_swipe a x y r))" "held_key (snd (relay_swipe a x y r)) = held_key r"
    using assms by (simp_all add: hold_inv_def held_key_def)
  show ?thesis
  proof (cases a)
    case TouchPress
    obtain out1 r1 where e: "end_hold_if_active now r = (out1, r1)" by fastforce
    have "hold_ok r (out1, r1)" using end_hold_ok [OF assms, of now] by (simp add: e)
    moreover have "\<not> rl_hold_active r1" using e end_hold_eq [OF assms, of now] by auto
    ultimately show ?thesis using True by (auto simp: TouchPress on_touch_def e intro: hold_ok_idle)
  next
    case TouchHold
    then show ?thesis using True update_hold_ok [OF silent(1), of now] silent by (simp add: on_touch_def hold_ok_def)
  next
    case TouchOther
    then show ?thesis using True silent by (simp add: on_touch_def hold_ok_def)
  qed (use True touch_up_ok [OF assms] on_touch_up in auto)
qed

lemma relay_step_ok:
  assumes "hold_inv r" "\<And>c. i = OtherCommand c \<Longrightarrow> plain_command c"
  shows "hold_ok r (relay_step now i r)"
proof (cases i)
  case (ButtonInput code st)
  then show ?thesis
    using assms(1) by (auto simp: on_button_def Let_def plain_command_def hold_ok_silent intro: emit_plain_ok)
qed (use assms on_touch_ok emit_plain_ok in auto)

definition plain_inputs :: "(rat \<times> relay_input) list \<Rightarrow> bool" where
  "plain_inputs is \<longleftrightarrow> (\<forall>t c. (t, OtherCommand c) \<in> set is \<longrightarrow> plain_command c)"

lemma plain_inputs_Cons [simp]:
  "plain_inputs ((t, i) # is) \<longleftrightarrow> (\<forall>c. i = OtherCommand c \<longrightarrow> plain_command c) \<and> plain_inputs is"
  by (auto simp: plain_inputs_def)

lemma relay_run_ok:
  assumes "hold_inv r" "plain_inputs is" "relay_run is r = (outs, r')"
  shows "hold_ok r (map snd outs, r')"
  using assms
proof (induction "is" arbitrary: r outs)
  case Nil
  then show ?case by (auto simp: hold_ok_def)
next
  case (Cons ti "is")
  obtain t i where ti: "ti = (t, i)" by fastforce
  obtain out r1 where step: "relay_step t i r = (out, r1)" by fastforce
  obtain outs' where rest: "relay_run is r1 = (outs', r')" "outs = map (Pair t) out @ outs'"
    using Cons.prems(3) by (auto simp: ti step split: prod.splits)
  have ok: "hold_ok r (out, r1)" using relay_step_ok [OF Cons.prems(1), of i t] Cons.prems(2) step ti by simp
  then have "hold_ok r1 (map snd outs', r')"
    using Cons.IH [OF _ _ rest(1)] Cons.prems(2) ti by (simp add: hold_ok_def)
  from hold_ok_trans [OF ok this] show ?case by (simp add: rest(2) comp_def)
qed

lemma new_relay_inv [simp]: "hold_inv (new_relay g h d)" "held_key (new_relay g h d) = None"
  by (simp_all add: new_relay_def hold_inv_def held_key_def)

subsection \<open>Select de-duplication\<close>

definition is_enter :: "command \<Rightarrow> bool" where
  "is_enter c \<longleftrightarrow> cm_key c = Some ''KEY_ENTER''"

definition enter_times :: "(rat \<times> command) list \<Rightarrow> rat list" where
  "enter_times outs = map fst (filter (is_enter \<circ> snd) outs)"

text \<open>Each time is at least the window after the one before it.\<close>

fun spaced :: "rat \<Rightarrow> rat \<Rightarrow> rat list \<Rightarrow> bool" where
  "spaced d prev [] = True"
| "spaced d prev (t # ts) = (d \<le> t - prev \<and> spaced d t ts)"

lemma spaced_append: "spaced d l (xs @ ys) \<longleftrightarrow> spaced d l xs \<and> spaced d (if xs = [] then l else last xs) ys"
  by (induction xs arbitrary: l) auto

text \<open>An operation's outputs at one clock reading keep the de-duplication state.\<close>

definition dedupe_ok :: "rat \<Rightarrow> relay \<Rightarrow> command list \<times> relay \<Rightarrow> bool" where
  "dedupe_ok now r res \<longleftrightarrow>
     (let ts = enter_times (map (Pair now) (fst res))
      in spaced (rl_dedupe_ms r) (rl_last_select r) ts
       \<and> rl_last_select (snd res) = (if ts = [] then rl_last_select r else last ts)
       \<and> rl_dedupe_ms (snd res) = rl_dedupe_ms r)"

lemma enter_times_append [simp]: "enter_times (xs @ ys) = enter_times xs @ enter_times ys"
  by (simp add: enter_times_def)

lemma dedupe_ok_trans:
  "dedupe_ok now r (out1, r1) \<Longrightarrow> dedupe_ok now r1 (out2, r2) \<Longrightarrow> dedupe_ok now r (out1 @ out2, r2)"
  by (auto simp: dedupe_ok_def Let_def spaced_append split: if_splits)

lemma dedupe_ok_frame:
  "dedupe_ok now r (out, r1) \<Longrightarrow> rl_last_select r2 = rl_last_select r1 \<Longrightarrow> rl_dedupe_ms r2 = rl_dedupe_ms r1 \<Longrightarrow>
     dedupe_ok now r (out, r2)"
  by (simp add: dedupe_ok_def Let_def)

lemma dedupe_ok_silent:
  "rl_last_select r1 = rl_last_select r \<Longrightarrow> rl_dedupe_ms r1 = rl_dedupe_ms r \<Longrightarrow> dedupe_ok now r ([], r1)"
  by (simp add: dedupe_ok_def enter_times_def)

lemma emit_dedupe: "dedupe_ok now r (emit now c r)"
  by (auto simp: dedupe_ok_def Let_def enter_times_def emit_def is_enter_def)

lemma emit_gestures_dedupe: "dedupe_ok now r (emit_gestures now ds r)"
proof (induction ds arbitrary: r)
  case (Cons d ds)
  obtain out1 r1 out2 r2 where 1: "emit_gesture now d r = (out1, r1)" and 2: "emit_gestures now ds r1 = (out2, r2)"
    by fastforce
  have "dedupe_ok now r (out1, r1)" using emit_dedupe 1 by (metis emit_gesture_def)
  from dedupe_ok_trans [OF this] Cons.IH [of r1] show ?case by (simp add: 1 2)
qed (simp add: dedupe_ok_silent)

lemma end_hold_dedupe: "dedupe_ok now r (end_hold_if_active now r)"
  using emit_dedupe [of now r "hold_command (the (rl_hold_dir r)) RepeatStop"]
  by (auto simp: end_hold_if_active_def split_beta dedupe_ok_silent split: option.split)
    (auto simp: dedupe_ok_def Let_def)

lemma update_hold_dedupe: "dedupe_ok now r (update_hold now r)"
proof -
  obtain out1 r1 where e: "end_hold_if_active now r = (out1, r1)" by fastforce
  have "dedupe_ok now r (out1, r1)" using end_hold_dedupe [of now r] by (simp add: e)
  then have 1: "dedupe_ok now r (out1, r1\<lparr>rl_hold_dir := d, rl_hold_since := s\<rparr>)" for d s
    by (rule dedupe_ok_frame) simp_all
  have 2: "dedupe_ok now r (out, r2\<lparr>rl_hold_active := True, rl_was_active := True\<rparr>)"
    if "emit now c r = (out, r2)" for c out r2
    using emit_dedupe [of now r c] unfolding that by (rule dedupe_ok_frame) simp_all
  show ?thesis
    using 1 2 by (auto simp: update_hold_def e Let_def dedupe_ok_silent split: option.split prod.split)
qed

lemma on_touch_dedupe: "dedupe_ok now r (on_touch now a x y r)"
proof -
  obtain out1 r1 where e: "end_hold_if_active now r = (out1, r1)" by fastforce
  have ok1: "dedupe_ok now r (out1, r1)" using end_hold_dedupe [of now r] by (simp add: e)
  have press: "dedupe_ok now r (out1, snd (relay_swipe a x y ((reset_hold_state r1)\<lparr>rl_suppress := False\<rparr>)))"
    by (rule dedupe_ok_frame [OF ok1]) simp_all
  have after: "dedupe_ok now r res \<Longrightarrow> dedupe_ok now r (fst res, reset_hold_state (snd res))" for res
    by (rule dedupe_ok_frame [of now r "fst res" "snd res"]) simp_all
  have swipe: "dedupe_ok now r0 (f (snd (relay_swipe a x y r0)))"
    if "\<And>r. dedupe_ok now r (f r)" for f r0
    using that [of "snd (relay_swipe a x y r0)"] by (simp add: dedupe_ok_def Let_def)
  have up: "dedupe_ok now r (touch_up now a x y r)"
  proof -
    obtain ds r2 where sw: "relay_swipe a x y r1 = (ds, r2)" by fastforce
    have ok2: "dedupe_ok now r (out1, r2)"
      by (rule dedupe_ok_frame [OF ok1]) (use relay_swipe_pair [OF sw] in simp_all)
    define res where "res = (if rl_was_active r2 then ([], r2\<lparr>rl_suppress := True\<rparr>)
             else if rl_suppress r2 \<and> ds = [GSelect] then ([], r2) else emit_gestures now ds r2)"
    have "dedupe_ok now r2 res" by (simp add: res_def dedupe_ok_silent emit_gestures_dedupe)
    then have ok3: "dedupe_ok now r2 (fst res, snd res)" by simp
    from after [OF dedupe_ok_trans [OF ok2 this]] show ?thesis
      unfolding touch_up_def e sw Let_def prod.case by (fold res_def) (simp add: split_beta)
  qed
  show ?thesis
  proof (cases "hc_enabled (rl_hold r)")
    case False
    then show ?thesis
      using swipe [of "emit_gestures now (fst (relay_swipe a x y r))" r] emit_gestures_dedupe
      by (simp add: on_touch_def split_beta)
  next
    case True
    then show ?thesis
      using press up swipe [of "update_hold now" r] update_hold_dedupe on_touch_up [of r a now x y]
      by (cases a) (auto simp: on_touch_def e dedupe_ok_silent)
  qed
qed

lemma relay_step_dedupe: "dedupe_ok now r (relay_step now i r)"
  by (cases i) (auto simp: on_button_def Let_def on_touch_dedupe emit_dedupe dedupe_ok_silent)

lemma relay_run_dedupe:
  assumes "relay_run is r = (outs, r')"
  shows "spaced (rl_dedupe_ms r) (rl_last_select r) (enter_times outs)"
  using assms
proof (induction "is" arbitrary: r outs)
  case Nil
  then show ?case by (auto simp: enter_times_def)
next
  case (Cons ti "is")
  obtain t i where ti: "ti = (t, i)" by fastforce
  obtain out r1 where step: "relay_step t i r = (out, r1)" by fastforce
  obtain outs' where rest: "relay_run is r1 = (outs', r')" "outs = map (Pair t) out @ outs'"
    using Cons.prems by (auto simp: ti step split: prod.splits)
  show ?case
    using relay_step_dedupe [of t r i] Cons.IH [OF rest(1)]
    by (auto simp: rest(2) step dedupe_ok_def Let_def spaced_append split: if_splits)
qed

subsection \<open>Quick gestures\<close>

definition discrete :: "relay \<Rightarrow> relay" where
  "discrete r = r\<lparr>rl_hold := (rl_hold r)\<lparr>hc_enabled := False\<rparr>\<rparr>"

definition no_start :: "(rat \<times> command) list \<Rightarrow> bool" where
  "no_start outs \<longleftrightarrow> (\<forall>(t, c) \<in> set outs. cm_repeat c \<noteq> Some RepeatStart)"

text \<open>One gesture: a press, points on the way, a release.\<close>

definition gesture_inputs :: "rat \<times> int \<times> int \<Rightarrow> (rat \<times> int \<times> int) list \<Rightarrow> rat \<times> int \<times> int \<Rightarrow> (rat \<times> relay_input) list" where
  "gesture_inputs p hs q =
     (case p of (t, x, y) \<Rightarrow> (t, TouchInput TouchPress x y))
     # map (\<lambda>(t, x, y). (t, TouchInput TouchHold x y)) hs
     @ [case q of (t, x, y) \<Rightarrow> (t, TouchInput TouchRelease x y)]"

text \<open>The relay with the hold feature, no hold under way, beside the one without it.\<close>

definition quick_sim :: "relay \<Rightarrow> relay \<Rightarrow> bool" where
  "quick_sim r d \<longleftrightarrow> hc_enabled (rl_hold r) \<and> \<not> hc_enabled (rl_hold d) \<and> \<not> rl_hold_active r
     \<and> \<not> rl_was_active r \<and> \<not> rl_suppress r \<and> rl_swipe d = rl_swipe r
     \<and> rl_last_select d = rl_last_select r \<and> rl_dedupe_ms d = rl_dedupe_ms r"

lemma emit_gestures_same:
  "rl_last_select d = rl_last_select r \<Longrightarrow> rl_dedupe_ms d = rl_dedupe_ms r \<Longrightarrow>
     fst (emit_gestures now ds d) = fst (emit_gestures now ds r)"
proof (induction ds arbitrary: d r)
  case (Cons g ds)
  have "fst (emit_gesture now g d) = fst (emit_gesture now g r)"
    "rl_last_select (snd (emit_gesture now g d)) = rl_last_select (snd (emit_gesture now g r))"
    "rl_dedupe_ms (snd (emit_gesture now g d)) = rl_dedupe_ms (snd (emit_gesture now g r))"
    using Cons.prems by (simp_all add: emit_gesture_def emit_def)
  with Cons.IH [OF this(2,3)] show ?case by (simp add: split_beta)
qed simp

lemma end_hold_idle: "\<not> rl_hold_active r \<Longrightarrow> end_hold_if_active now r = ([], r\<lparr>rl_hold_active := False\<rparr>)"
  by (simp add: end_hold_if_active_def split: option.split)

lemma quick_press:
  assumes "hc_enabled (rl_hold r)" "\<not> rl_hold_active r"
  shows "fst (on_touch t TouchPress x y r) = []" "fst (on_touch t TouchPress x y (discrete r)) = []"
    "quick_sim (snd (on_touch t TouchPress x y r)) (snd (on_touch t TouchPress x y (discrete r)))"
  using assms by (simp_all add: on_touch_def end_hold_idle discrete_def relay_swipe_def swipe_feed_def
      quick_sim_def split_beta)

lemma quick_hold:
  assumes "quick_sim r d" "on_touch t TouchHold x y r = (out, r')" "\<forall>c \<in> set out. cm_repeat c \<noteq> Some RepeatStart"
  shows "out = []" "fst (on_touch t TouchHold x y d) = []" "quick_sim r' (snd (on_touch t TouchHold x y d))"
proof -
  let ?r1 = "snd (relay_swipe TouchHold x y r)"
  have run: "update_hold t ?r1 = (out, r')" using assms(1,2) by (simp add: on_touch_def quick_sim_def)
  have emits: "emit t (hold_command g RepeatStart) ?r1 = ([hold_command g RepeatStart], ?r1)"
    if "current_direction (rl_swipe ?r1) = Some g" for g
    using that current_not_select [of "rl_swipe ?r1"] emit_hold by auto
  have res: "out = []" "\<not> rl_hold_active r'" "\<not> rl_was_active r'" "\<not> rl_suppress r'" "rl_swipe r' = rl_swipe ?r1"
    "rl_last_select r' = rl_last_select r" "rl_dedupe_ms r' = rl_dedupe_ms r" "hc_enabled (rl_hold r')"
    using run assms(1,3) emits
    by (auto simp: update_hold_def end_hold_idle quick_sim_def Let_def split: if_splits option.splits)
  have nil: "fst (swipe_feed s TouchHold x y) = []" for s
    by (simp add: swipe_feed_def split: option.split)
  show "out = []" by (rule res)
  show "fst (on_touch t TouchHold x y d) = []" "quick_sim r' (snd (on_touch t TouchHold x y d))"
    using assms(1) res by (simp_all add: on_touch_def quick_sim_def relay_swipe_def split_beta nil)
qed

lemma quick_release:
  assumes "quick_sim r d"
  shows "fst (on_touch t TouchRelease x y d) = fst (on_touch t TouchRelease x y r)"
proof -
  have "on_touch t TouchRelease x y d =
      (let (ds, d1) = relay_swipe TouchRelease x y d in emit_gestures t ds d1)"
    using assms by (simp add: on_touch_def quick_sim_def)
  moreover have "fst (on_touch t TouchRelease x y r) =
      fst (let (ds, r1) = relay_swipe TouchRelease x y (r\<lparr>rl_hold_active := False\<rparr>) in emit_gestures t ds r1)"
    using assms by (simp add: on_touch_def quick_sim_def end_hold_idle split_beta)
  moreover have "fst (relay_swipe TouchRelease x y (r\<lparr>rl_hold_active := False\<rparr>)) = fst (relay_swipe TouchRelease x y d)"
    using assms by (simp add: relay_swipe_def quick_sim_def split_beta)
  ultimately show ?thesis
    using assms by (simp add: split_beta quick_sim_def) (rule emit_gestures_same; simp)
qed

lemma quick_holds:
  assumes "quick_sim r d"
    and "relay_run (map (\<lambda>(t, x, y). (t, TouchInput TouchHold x y)) hs @ [(t, TouchInput TouchRelease x y)]) r = (outs, r')"
    and "no_start outs"
  shows "fst (relay_run (map (\<lambda>(t, x, y). (t, TouchInput TouchHold x y)) hs @ [(t, TouchInput TouchRelease x y)]) d) = outs"
  using assms
proof (induction hs arbitrary: r d outs)
  case Nil
  then show ?case using quick_release [OF Nil(1), of t x y] by (auto simp: split_beta)
next
  case (Cons h hs)
  obtain t1 x1 y1 where h: "h = (t1, x1, y1)" by (cases h)
  obtain out r1 where step: "on_touch t1 TouchHold x1 y1 r = (out, r1)" by fastforce
  obtain outs' where rest: "relay_run (map (\<lambda>(t, x, y). (t, TouchInput TouchHold x y)) hs @ [(t, TouchInput TouchRelease x y)]) r1 = (outs', r')"
    "outs = map (Pair t1) out @ outs'"
    using Cons.prems(2) by (auto simp: h step split: prod.splits)
  have "\<forall>c \<in> set out. cm_repeat c \<noteq> Some RepeatStart" "no_start outs'"
    using Cons.prems(3) by (auto simp: rest(2) no_start_def)
  from quick_hold [OF Cons.prems(1) step this(1)] Cons.IH [OF _ rest(1) this(2)] show ?case
    by (simp add: h rest(2) split_beta)
qed

subsection \<open>Properties\<close>

text \<open>C24: Over any run of buttons, touches and other commands, the hold commands alternate: every STOP
  names the direction of the START before it, and no START follows a START; what is under way at the end
  is exactly what the relay holds as active. A press, a release or a click ends it.\<close>

theorem hold_alternates:
  assumes "plain_inputs is" and "relay_run is (new_relay g h d) = (outs, r)"
  shows "hold_track None (map snd outs) = Some (held_key r)
    \<and> (hc_enabled (rl_hold r) \<longrightarrow> a \<in> {TouchPress, TouchRelease, TouchClick} \<longrightarrow>
        held_key (snd (on_touch now a x y r)) = None)"
proof -
  have ok: "hold_ok (new_relay g h d) (map snd outs, r)"
    by (rule relay_run_ok [OF _ assms]) simp
  then have "hold_inv r" by (simp add: hold_ok_def)
  then have "\<not> rl_hold_active (snd (on_touch now a x y r))"
    if "hc_enabled (rl_hold r)" "a \<in> {TouchPress, TouchRelease, TouchClick}"
    using that on_touch_up [of r a now x y] by (auto simp: on_touch_def touch_up_def end_hold_eq split_beta)
  moreover have "hold_track None (map snd outs) = Some (held_key r)"
    using ok by (simp only: hold_ok_def new_relay_inv fst_conv snd_conv)
  ultimately show ?thesis by (simp add: held_key_def)
qed

text \<open>Two SELECT commands of one relay are never closer in time than the de-duplication window,
  whichever mixture of buttons and taps produced them.\<close>

theorem select_spacing:
  assumes "relay_run is r = (outs, r')" and "enter_times outs = ts @ [t1, t2] @ ts'"
  shows "rl_dedupe_ms r \<le> t2 - t1"
  using relay_run_dedupe [OF assms(1)] by (simp add: assms(2) spaced_append)

text \<open>A gesture during which no hold started is translated exactly as by the relay with the hold
  feature switched off.\<close>

theorem quick_gesture_as_discrete:
  assumes "hc_enabled (rl_hold r)" and "\<not> rl_hold_active r"
    and "relay_run (gesture_inputs p hs q) r = (outs, r')" and "no_start outs"
  shows "fst (relay_run (gesture_inputs p hs q) (discrete r)) = outs"
proof -
  obtain t x y t' x' y' where p: "p = (t, x, y)" and q: "q = (t', x', y')" by (metis prod_cases3)
  note press = quick_press [OF assms(1,2), of t x y]
  obtain outs' where rest: "relay_run (map (\<lambda>(t, x, y). (t, TouchInput TouchHold x y)) hs @ [(t', TouchInput TouchRelease x' y')])
      (snd (on_touch t TouchPress x y r)) = (outs', r')" "outs = outs'"
    using assms(3) press(1) by (auto simp: gesture_inputs_def p q split_beta)
  with quick_holds [OF press(3) rest(1)] assms(4) press(2) show ?thesis
    by (simp add: gesture_inputs_def p q split_beta)
qed

text \<open>A gesture that became a hold ends without a discrete key: its release or click emits nothing
  but the STOP of a hold still active, and a stray tap before the next press is swallowed.\<close>

theorem held_gesture_silent:
  assumes "hc_enabled (rl_hold r)" and "hold_inv r" and "rl_was_active r"
    and "a = TouchRelease \<or> a = TouchClick"
  shows "fst (on_touch now a x y r) =
      (if rl_hold_active r then [hold_command (the (rl_hold_dir r)) RepeatStop] else [])
    \<and> fst (on_touch now' TouchClick x' y' (snd (on_touch now a x y r))) = []"
proof -
  have up: "on_touch now a x y r = touch_up now a x y r" by (rule on_touch_up [OF assms(1,4)])
  obtain ds r2 where sw: "relay_swipe a x y (r\<lparr>rl_hold_active := False\<rparr>) = (ds, r2)" by fastforce
  then have r2: "rl_was_active r2 = rl_was_active r" "rl_hold r2 = rl_hold r"
    using relay_swipe_fields [of a x y "r\<lparr>rl_hold_active := False\<rparr>"] by simp_all
  have up_eq: "touch_up now a x y r =
      (if rl_hold_active r then [hold_command (the (rl_hold_dir r)) RepeatStop] else [],
       reset_hold_state (r2\<lparr>rl_suppress := True\<rparr>))"
    using assms(2,3) by (simp add: touch_up_def end_hold_eq sw r2)
  have tap: "fst (relay_swipe TouchClick x' y' s) = [GSelect]" for s
    by (simp add: relay_swipe_def swipe_feed_def)
  show ?thesis
    unfolding up up_eq using assms(1) r2
    by (simp add: on_touch_def end_hold_idle split_beta tap)
qed

subsection \<open>Witnesses\<close>

definition demo_hold :: hold_config where
  "demo_hold = default_hold\<lparr>hc_enabled := True\<rparr>"

definition demo_inputs :: "(rat \<times> relay_input) list" where
  "demo_inputs = [(1000, TouchInput TouchPress 100 100), (1010, TouchInput TouchHold 400 100),
     (1500, TouchInput TouchHold 420 100), (1600, TouchInput TouchRelease 420 100)]"

definition demo_outputs :: "(rat \<times> command) list" where
  "demo_outputs = [(1500, hold_command GRight RepeatStart), (1600, hold_command GRight RepeatStop)]"

lemmas relay_eval = new_relay_def new_swipe_def demo_hold_def default_hold_def default_gestures_def
  on_touch_def end_hold_if_active_def reset_hold_state_def relay_swipe_def swipe_feed_def swipe_reset_def
  update_hold_def current_direction_def apply_inversion_def dominant_direction_def emit_def
  hold_command_def key_command_def swipe_resolve_def repeat_count_def on_button_def emit_gesture_def

lemma demo_run: "fst (relay_run demo_inputs (new_relay default_gestures demo_hold 400)) = demo_outputs"
  by (simp add: demo_inputs_def demo_outputs_def relay_eval Let_def)

theorem hold_alternates_witness:
  "hold_track None (map snd demo_outputs) \<noteq> None"
proof -
  obtain r where run: "relay_run demo_inputs (new_relay default_gestures demo_hold 400) = (demo_outputs, r)"
    using demo_run by (metis prod.collapse)
  have "plain_inputs demo_inputs" by (auto simp: plain_inputs_def demo_inputs_def)
  from hold_alternates [OF this run] show ?thesis by auto
qed

theorem select_spacing_witness:
  "(400 :: rat) \<le> 1450 - 1000 \<and> enter_times (fst (relay_run [(1000, ButtonInput 6 2), (1100, TouchInput TouchClick 0 0),
      (1450, ButtonInput 6 0)] (new_relay default_gestures default_hold 400))) = [1000, 1450]"
proof -
  let ?is = "[(1000, ButtonInput 6 2), (1100, TouchInput TouchClick 0 0), (1450, ButtonInput 6 0)]"
  let ?r = "new_relay default_gestures default_hold 400"
  have key: "resolve_button 6 = send_key ''KEY_ENTER''" using resolve_button_code [of BSelect] by simp
  obtain outs r' where run: "relay_run ?is ?r = (outs, r')" by fastforce
  have ts: "enter_times (fst (relay_run ?is ?r)) = [1000, 1450]"
    by (simp add: relay_eval key send_key_def enter_times_def is_enter_def Let_def)
  then have "enter_times outs = [] @ [1000, 1450] @ []" unfolding run by simp
  from select_spacing [OF run this] ts show ?thesis by (simp add: new_relay_def)
qed

theorem quick_gesture_as_discrete_witness:
  "fst (relay_run (gesture_inputs (1000, 100, 100) [(1010, 400, 100)] (1100, 420, 100))
     (discrete (new_relay default_gestures demo_hold 400)))
   = [(1100, key_command SendKey (Some ''KEY_RIGHT'') (FromGesture GRight))]"
proof -
  let ?g = "gesture_inputs (1000, 100, 100) [(1010, 400, 100)] (1100, 420, 100)"
  let ?r = "new_relay default_gestures demo_hold 400"
  obtain outs r' where run: "relay_run ?g ?r = (outs, r')" by fastforce
  have "fst (relay_run ?g ?r) = [(1100, key_command SendKey (Some ''KEY_RIGHT'') (FromGesture GRight))]"
    by (simp add: gesture_inputs_def relay_eval Let_def)
  then have outs: "outs = [(1100, key_command SendKey (Some ''KEY_RIGHT'') (FromGesture GRight))]" by (simp add: run)
  have "hc_enabled (rl_hold ?r)" "\<not> rl_hold_active ?r" by (simp_all add: new_relay_def demo_hold_def)
  from quick_gesture_as_discrete [OF this run] show ?thesis by (simp add: outs no_start_def)
qed

theorem held_gesture_silent_witness:
  "fst (on_touch 1600 TouchRelease 420 100
     ((new_relay default_gestures demo_hold 400)\<lparr>rl_hold_dir := Some GRight, rl_hold_active := True, rl_was_active := True\<rparr>))
   = [hold_command GRight RepeatStop]"
  using held_gesture_silent [of "(new_relay default_gestures demo_hold 400)\<lparr>rl_hold_dir := Some GRight,
      rl_hold_active := True, rl_was_active := True\<rparr>" TouchRelease 1600 420 100]
  by (simp add: new_relay_def demo_hold_def hold_inv_def)

end
