(* ===== verification/Messages.thy ===== *)
theory Messages
  imports Opack Auth Relay
begin

text \<open>
  What the handlers of \<^verbatim>\<open>appletv.py\<close> and \<^verbatim>\<open>server.py\<close> do to the Python
  value of a decoded message: subscripts and \<open>get\<close>, \<open>int\<close>, truth and comparison with a
  number, the lookup of an enumeration member, and the key of the handler. A value is the one the OPACK
  reader built. Decimal text is ASCII (Python's \<open>int\<close> also reads the digits of other scripts).
\<close>

subsection \<open>Containers\<close>

definition item :: "opack \<Rightarrow> string \<Rightarrow> opack result" where
  "item d key = (case d of
     ODict kvs \<Rightarrow> (case opack_get kvs key of None \<Rightarrow> Inl KeyError | Some v \<Rightarrow> Inr v)
   | _ \<Rightarrow> Inl TypeError)"

definition dict_get :: "opack \<Rightarrow> string \<Rightarrow> opack option result" where
  "dict_get d key = (case d of ODict kvs \<Rightarrow> Inr (opack_get kvs key) | _ \<Rightarrow> Inl AttributeError)"

definition get_or :: "opack \<Rightarrow> string \<Rightarrow> opack \<Rightarrow> opack result" where
  "get_or d key default1 = rbind (dict_get d key) (\<lambda>x. Inr (case x of None \<Rightarrow> default1 | Some v \<Rightarrow> v))"

text \<open>\<open>message.get("_c", {})\<close>\<close>

definition content_of :: "opack \<Rightarrow> opack result" where
  "content_of message = get_or message ''_c'' (ODict [])"

subsection \<open>Numbers\<close>

datatype pynum = Fin rat | Infinite bool | NotANumber

text \<open>\<open>isinstance(x, (int, float))\<close>, with the value.\<close>

definition num_of_key :: "pykey \<Rightarrow> pynum option" where
  "num_of_key k = (case k of KNum n \<Rightarrow> Some (Fin (of_int n / of_int ulp_scale)) | KInf neg \<Rightarrow> Some (Infinite neg)
     | KNan i \<Rightarrow> Some NotANumber | _ \<Rightarrow> None)"

definition num_of :: "opack \<Rightarrow> pynum option" where
  "num_of x = (case py_key x of None \<Rightarrow> None | Some k \<Rightarrow> num_of_key k)"

definition num_less :: "pynum \<Rightarrow> rat \<Rightarrow> bool" where
  "num_less x r = (case x of Fin q \<Rightarrow> q < r | Infinite neg \<Rightarrow> neg | NotANumber \<Rightarrow> False)"

definition num_greater :: "pynum \<Rightarrow> rat \<Rightarrow> bool" where
  "num_greater x r = (case x of Fin q \<Rightarrow> r < q | Infinite neg \<Rightarrow> \<not> neg | NotANumber \<Rightarrow> False)"

text \<open>\<open>x == n\<close> for an integer literal.\<close>

definition equals_int :: "opack \<Rightarrow> int \<Rightarrow> bool" where
  "equals_int x n \<longleftrightarrow> py_key x = Some (KNum (n * ulp_scale))"

definition truthy :: "opack \<Rightarrow> bool" where
  "truthy x = (case x of ONone \<Rightarrow> False | OStr s \<Rightarrow> s \<noteq> [] | OBytes b \<Rightarrow> b \<noteq> [] | OList xs \<Rightarrow> xs \<noteq> [] | ODict kvs \<Rightarrow> kvs \<noteq> []
     | OUuid u \<Rightarrow> True | ODatetime \<Rightarrow> True | ONan w i \<Rightarrow> True | _ \<Rightarrow> \<not> equals_int x 0)"

text \<open>An \<open>int\<close> whose conversion to \<open>float\<close> overflows.\<close>

definition too_large_for_float :: "opack \<Rightarrow> bool" where
  "too_large_for_float x = (case x of OInt n sz \<Rightarrow> float_overflows n | _ \<Rightarrow> False)"

subsection \<open>\<open>int\<close>\<close>

fun digits :: "string \<Rightarrow> int \<Rightarrow> bool \<Rightarrow> int option" where
  "digits [] acc open1 = (if open1 then None else Some acc)"
| "digits (c # cs) acc open1 =
     (if is_digit c then digits cs (10 * acc + (of_char c - 48)) False
      else if c = CHR ''_'' \<and> \<not> open1 then digits cs acc True else None)"

text \<open>The interpreter's limit on decimal digits.\<close>

definition INT_MAX_STR_DIGITS :: nat where "INT_MAX_STR_DIGITS = 4300"

definition int_of_text :: "string \<Rightarrow> int result" where
  "int_of_text text =
     (let s = py_strip text;
          (neg, body) = (case s of [] \<Rightarrow> (False, []) | c # cs \<Rightarrow> if c = CHR ''-'' then (True, cs) else if c = CHR ''+'' then (False, cs) else (False, s))
      in if INT_MAX_STR_DIGITS < length (filter is_digit body) then Inl ValueError
         else case digits body 0 True of None \<Rightarrow> Inl ValueError | Some n \<Rightarrow> Inr (if neg then - n else n))"

definition truncate_rat :: "rat \<Rightarrow> int" where
  "truncate_rat r = (if r < 0 then - \<lfloor>- r\<rfloor> else \<lfloor>r\<rfloor>)"

definition py_int :: "opack \<Rightarrow> int result" where
  "py_int x = (case x of
     OInt n sz \<Rightarrow> Inr n
   | OBool b \<Rightarrow> Inr (if b then 1 else 0)
   | OStr s \<Rightarrow> int_of_text s
   | OBytes b \<Rightarrow> int_of_text (string_of b)
   | OUuid u \<Rightarrow> Inr (int (be_nat u))
   | OFloat w \<Rightarrow> (case num_of x of Some (Fin r) \<Rightarrow> Inr (truncate_rat r) | _ \<Rightarrow> Inl OverflowError)
   | ONan w i \<Rightarrow> Inl ValueError
   | _ \<Rightarrow> Inl TypeError)"

subsection \<open>Enumerations\<close>

text \<open>\<open>Enum(value)\<close>: a member with an equal value, whatever the type of the number.\<close>

definition enum_member :: "int list \<Rightarrow> opack \<Rightarrow> int result" where
  "enum_member members x = (case find (\<lambda>n. equals_int x n) members of None \<Rightarrow> Inl ValueError | Some n \<Rightarrow> Inr n)"

definition HID_COMMANDS :: "(int \<times> string) list" where
  "HID_COMMANDS = [(1, ''Up''), (2, ''Down''), (3, ''Left''), (4, ''Right''), (5, ''Menu''), (6, ''Select''), (7, ''Home''),
     (8, ''VolumeUp''), (9, ''VolumeDown''), (10, ''Siri''), (11, ''Screensaver''), (12, ''Sleep''), (13, ''Wake''),
     (14, ''PlayPause''), (15, ''ChannelIncrement''), (16, ''ChannelDecrement''), (17, ''Guide''), (18, ''PageUp''),
     (19, ''PageDown''), (29, ''Mute''), (30, ''Power'')]"

definition hid_command :: "opack \<Rightarrow> int result" where
  "hid_command = enum_member (map fst HID_COMMANDS)"

definition HID_BUTTON_MAP :: "(int \<times> string) list" where
  "HID_BUTTON_MAP = [(1, ''up''), (2, ''down''), (3, ''left''), (4, ''right''), (6, ''select''), (5, ''menu''), (7, ''home''),
     (9, ''volume_down''), (8, ''volume_up''), (14, ''play_pause''), (15, ''channel_up''), (16, ''channel_down''),
     (11, ''screensaver''), (17, ''guide''), (19, ''control_center''), (29, ''mute''), (30, ''power'')]"

datatype media = MPlay | MPause | MNext | MPrevious | MGetVolume | MSetVolume | MSkipBy | MFastBegin | MFastEnd | MRewindBegin
  | MRewindEnd | MGetCaption | MSetCaption

definition media_commands :: "(int \<times> media) list" where
  "media_commands = [(1, MPlay), (2, MPause), (3, MNext), (4, MPrevious), (5, MGetVolume), (6, MSetVolume), (7, MSkipBy),
     (8, MFastBegin), (9, MFastEnd), (10, MRewindBegin), (11, MRewindEnd), (12, MGetCaption), (13, MSetCaption)]"

definition media_command :: "opack \<Rightarrow> media result" where
  "media_command x = rbind (enum_member (map fst media_commands) x) (\<lambda>n. Inr (the (map_of media_commands n)))"

fun media_label :: "media \<Rightarrow> string option" where
  "media_label MPlay = Some ''play''"
| "media_label MPause = Some ''pause''"
| "media_label MNext = Some ''next''"
| "media_label MPrevious = Some ''previous''"
| "media_label MSetVolume = Some ''set_volume''"
| "media_label MSkipBy = Some ''skip''"
| "media_label _ = None"

text \<open>The members that \<open>TouchAction\<close> has.\<close>

definition touch_action :: "int \<Rightarrow> int result" where
  "touch_action n = (if n \<in> {1, 2, 3, 4, 5} then Inr n else Inl ValueError)"

subsection \<open>The handler of a message\<close>

text \<open>ASCII \<open>lower\<close>: no name of a handler holds a letter that another script folds to.\<close>

definition lower_text :: "string \<Rightarrow> string" where
  "lower_text = map (\<lambda>c. let n = of_char c :: nat in if 65 \<le> n \<and> n \<le> 90 then char_of (n + 32) else c)"

text \<open>What follows \<open>handle_\<close>; the name built from bytes, or \<open>b'...'\<close>, names no method.\<close>

definition handler_name :: "opack \<Rightarrow> string option result" where
  "handler_name message = rbind (item message ''_i'') (\<lambda>i.
     case i of OStr s \<Rightarrow> Inr (Some (lower_text s)) | OBytes b \<Rightarrow> Inr None | _ \<Rightarrow> Inl AttributeError)"

subsection \<open>The volume\<close>

text \<open>\<open>volume_key_for\<close> on any float: \<open>min(100.0, nan)\<close> is 100.0.\<close>

definition volume_step :: "rat \<Rightarrow> pynum \<Rightarrow> string \<times> rat" where
  "volume_step prev level = (case level of
     Fin r \<Rightarrow> volume_key_for prev r
   | Infinite neg \<Rightarrow> if neg then (''KEY_VOLDOWN'', 0) else (''KEY_VOLUP'', 100)
   | NotANumber \<Rightarrow> (''KEY_VOLDOWN'', 100))"

end
