(* ===== verification/Config.thy ===== *)
theory Config
  imports Messages
begin

text \<open>
  \<^verbatim>\<open>config.py\<close>: from the parsed YAML document to the typed configuration. The YAML parser, the home directory
  and the text of values other than strings are parameters.

  Shown: an accepted configuration names the television, its ports are in range and its state directory is a real
  path; which documents are refused with a \<open>ValueError\<close>, the only error that \<open>main\<close> turns into advice, and
  which escape it.
\<close>

subsection \<open>YAML values\<close>

text \<open>What \<open>yaml.safe_load\<close> builds. \<open>YOther\<close> is a date or a time; binary data and sets are left out.\<close>

datatype yaml =
    YNull | YBool bool | YInt int | YFloat pynum | YStr string | YList "yaml list" | YMap "(yaml \<times> yaml) list" | YOther nat

fun yaml_true :: "yaml \<Rightarrow> bool" where
  "yaml_true YNull = False"
| "yaml_true (YBool b) = b"
| "yaml_true (YInt i) = (i \<noteq> 0)"
| "yaml_true (YFloat x) = (x \<noteq> Fin 0)"
| "yaml_true (YStr s) = (s \<noteq> [])"
| "yaml_true (YList xs) = (xs \<noteq> [])"
| "yaml_true (YMap kvs) = (kvs \<noteq> [])"
| "yaml_true (YOther n) = True"

text \<open>\<open>str\<close>, \<open>int\<close>, and the values that a key of a dictionary can be\<close>

definition yaml_str :: "(yaml \<Rightarrow> string) \<Rightarrow> yaml \<Rightarrow> string" where
  "yaml_str text_of x = (case x of YStr s \<Rightarrow> s | _ \<Rightarrow> text_of x)"

definition yaml_int :: "yaml \<Rightarrow> int result" where
  "yaml_int x = (case x of
     YInt i \<Rightarrow> Inr i
   | YBool b \<Rightarrow> Inr (if b then 1 else 0)
   | YStr s \<Rightarrow> int_of_text s
   | YFloat (Fin r) \<Rightarrow> Inr (truncate_rat r)
   | YFloat (Infinite neg) \<Rightarrow> Inl OverflowError
   | YFloat NotANumber \<Rightarrow> Inl ValueError
   | _ \<Rightarrow> Inl TypeError)"

definition hashable :: "yaml \<Rightarrow> bool" where
  "hashable x = (case x of YList xs \<Rightarrow> False | YMap kvs \<Rightarrow> False | _ \<Rightarrow> True)"

text \<open>\<open>dict(x)\<close>: a copy of a mapping, or the pairs that an iterable yields. A pair may be a list, a string of two
  characters or the keys of a mapping with two of them.\<close>

definition pair_of :: "yaml \<Rightarrow> (yaml \<times> yaml) result" where
  "pair_of x =
     (case (case x of
          YList xs \<Rightarrow> Inr xs
        | YStr s \<Rightarrow> Inr (map YStr (py_chars s))
        | YMap kvs \<Rightarrow> Inr (map fst kvs)
        | _ \<Rightarrow> Inl TypeError) of
        Inl e \<Rightarrow> Inl e
      | Inr [k, v] \<Rightarrow> if hashable k then Inr (k, v) else Inl TypeError
      | Inr _ \<Rightarrow> Inl ValueError)"

fun pairs_of :: "yaml list \<Rightarrow> (yaml \<times> yaml) list result" where
  "pairs_of [] = Inr []"
| "pairs_of (x # xs) = rbind (pair_of x) (\<lambda>(k, v). rbind (pairs_of xs) (\<lambda>kvs. Inr (if map_of kvs k = None then (k, v) # kvs else kvs)))"

definition py_dict :: "yaml \<Rightarrow> (yaml \<times> yaml) list result" where
  "py_dict x = (case x of
     YMap kvs \<Rightarrow> Inr kvs
   | YList xs \<Rightarrow> pairs_of xs
   | YStr s \<Rightarrow> pairs_of (map YStr (py_chars s))
   | _ \<Rightarrow> Inl TypeError)"

text \<open>\<open>d.get(key)\<close>, and \<open>dict(d.get(key) or {})\<close>\<close>

definition yaml_get :: "(yaml \<times> yaml) list \<Rightarrow> string \<Rightarrow> yaml" where
  "yaml_get d key = (case map_of d (YStr key) of None \<Rightarrow> YNull | Some x \<Rightarrow> x)"

definition get_default :: "(yaml \<times> yaml) list \<Rightarrow> string \<Rightarrow> yaml \<Rightarrow> yaml" where
  "get_default d key dflt = (case map_of d (YStr key) of None \<Rightarrow> dflt | Some x \<Rightarrow> x)"

definition section_of :: "(yaml \<times> yaml) list \<Rightarrow> string \<Rightarrow> (yaml \<times> yaml) list result" where
  "section_of d key = (let x = yaml_get d key in py_dict (if yaml_true x then x else YMap []))"

subsection \<open>Fields\<close>

definition as_bool :: "yaml \<Rightarrow> bool \<Rightarrow> bool result" where
  "as_bool value dflt = (case value of
     YNull \<Rightarrow> Inr dflt
   | YBool b \<Rightarrow> Inr b
   | YInt i \<Rightarrow> Inr (i \<noteq> 0)
   | YStr s \<Rightarrow> (let normalized = lower_text (py_strip s)
       in if normalized \<in> {''1'', ''true'', ''yes'', ''on''} then Inr True
          else if normalized \<in> {''0'', ''false'', ''no'', ''off'', []} then Inr False else Inl ValueError)
   | _ \<Rightarrow> Inl ValueError)"

definition as_port :: "yaml \<Rightarrow> int \<Rightarrow> int result" where
  "as_port value dflt =
     (case yaml_int (if value = YNull then YInt dflt else value) of
        Inl e \<Rightarrow> Inl (if e = TypeError \<or> e = ValueError then ValueError else e)
      | Inr port \<Rightarrow> if 1 \<le> port \<and> port \<le> 65535 then Inr port else Inl ValueError)"

text \<open>\<open>_expand\<close>; \<open>home\<close> is \<open>os.path.expanduser\<close>\<close>

definition expand :: "(string \<Rightarrow> string) \<Rightarrow> yaml \<Rightarrow> string option result" where
  "expand home value =
     (if \<not> yaml_true value then Inr None
      else case value of YStr s \<Rightarrow> Inr (Some (home s)) | _ \<Rightarrow> Inl TypeError)"

subsection \<open>The configuration\<close>

record wol_config =
  wc_enabled :: bool
  wc_broadcast :: string
  wc_port :: int

record samsung_config =
  sc_host :: string
  sc_mac :: string
  sc_port :: int
  sc_name :: string
  sc_token_file :: "string option"
  sc_wol :: wol_config

record companion_config =
  cc_device_name :: string
  cc_port :: int
  cc_model :: string
  cc_state_dir :: "string option"

record configuration =
  cf_companion :: companion_config
  cf_samsung :: samsung_config
  cf_log_level :: string

definition samsung_from :: "(yaml \<Rightarrow> string) \<Rightarrow> (string \<Rightarrow> string) \<Rightarrow> (yaml \<times> yaml) list \<Rightarrow> samsung_config result" where
  "samsung_from text_of home sams =
     (if \<not> yaml_true (yaml_get sams ''host'') then Inl ValueError
      else if \<not> yaml_true (yaml_get sams ''mac'') then Inl ValueError
      else rbind (section_of sams ''wol'') (\<lambda>wol.
        rbind (as_port (yaml_get sams ''port'') 8002) (\<lambda>port.
          if port \<noteq> 8002 then Inl ValueError
          else rbind (expand home (yaml_get sams ''token_file'')) (\<lambda>token.
            rbind (as_bool (yaml_get wol ''enabled'') True) (\<lambda>enabled.
              rbind (as_port (yaml_get wol ''port'') 9) (\<lambda>wol_port.
                Inr \<lparr>sc_host = yaml_str text_of (yaml_get sams ''host''), sc_mac = yaml_str text_of (yaml_get sams ''mac''),
                  sc_port = port, sc_name = yaml_str text_of (get_default sams ''name'' (YStr ''atvr4samsung'')), sc_token_file = token,
                  sc_wol = \<lparr>wc_enabled = enabled,
                    wc_broadcast = yaml_str text_of (get_default wol ''broadcast'' (YStr ''255.255.255.255'')), wc_port = wol_port\<rparr>\<rparr>))))))"

definition companion_from :: "(yaml \<Rightarrow> string) \<Rightarrow> (string \<Rightarrow> string) \<Rightarrow> (yaml \<times> yaml) list \<Rightarrow> companion_config result" where
  "companion_from text_of home comps = rbind (yaml_int (get_default comps ''port'' (YInt 49152))) (\<lambda>port.
     if \<not> (0 \<le> port \<and> port \<le> 65535) then Inl ValueError
     else if map_of comps (YStr ''pin'') \<noteq> None then Inl ValueError
     else rbind (expand home (yaml_get comps ''state_dir'')) (\<lambda>dir.
       Inr \<lparr>cc_device_name = yaml_str text_of (get_default comps ''device_name'' (YStr ''Frame Living Room'')), cc_port = port,
         cc_model = yaml_str text_of (get_default comps ''model'' (YStr ''AppleTV14,1'')), cc_state_dir = dir\<rparr>))"

text \<open>\<open>(data.get("logging") or {}).get("level", "INFO")\<close>: only a mapping has \<open>get\<close>.\<close>

definition log_level_from :: "(yaml \<Rightarrow> string) \<Rightarrow> (yaml \<times> yaml) list \<Rightarrow> string result" where
  "log_level_from text_of data =
     (let x = yaml_get data ''logging''
      in if \<not> yaml_true x then Inr ''INFO''
         else case x of YMap d \<Rightarrow> Inr (yaml_str text_of (get_default d ''level'' (YStr ''INFO''))) | _ \<Rightarrow> Inl AttributeError)"

definition from_mapping :: "(yaml \<Rightarrow> string) \<Rightarrow> (string \<Rightarrow> string) \<Rightarrow> (yaml \<times> yaml) list \<Rightarrow> configuration result" where
  "from_mapping text_of home data = rbind (section_of data ''companion'') (\<lambda>comps.
     rbind (section_of data ''samsung'') (\<lambda>sams.
       rbind (samsung_from text_of home sams) (\<lambda>samsung.
         rbind (companion_from text_of home comps) (\<lambda>companion.
           rbind (log_level_from text_of data) (\<lambda>level.
             Inr \<lparr>cf_companion = companion, cf_samsung = samsung, cf_log_level = level\<rparr>)))))"

text \<open>A directory and a name in it.\<close>

definition samsung_tls_certificate_file :: "configuration \<Rightarrow> (string \<times> string) option" where
  "samsung_tls_certificate_file c = map_option (\<lambda>dir. (dir, ''samsung-tls-cert.pem'')) (cc_state_dir (cf_companion c))"

text \<open>\<open>load_config\<close>: \<open>file\<close> is what opening and decoding gave, \<open>None\<close> when there is no such file; \<open>parse\<close> is the
  YAML parser, \<open>None\<close> for text that it refuses.\<close>

definition load_config :: "(yaml \<Rightarrow> string) \<Rightarrow> (string \<Rightarrow> string) \<Rightarrow> (string \<Rightarrow> yaml option) \<Rightarrow> string result option \<Rightarrow> configuration result" where
  "load_config text_of home parse file =
     (case file of
        None \<Rightarrow> Inl FileNotFound
      | Some (Inl e) \<Rightarrow> Inl e
      | Some (Inr text) \<Rightarrow>
          (case parse text of
             None \<Rightarrow> Inl ValueError
           | Some x \<Rightarrow> (case (if yaml_true x then x else YMap []) of
               YMap data \<Rightarrow> from_mapping text_of home data
             | _ \<Rightarrow> Inl ValueError)))"

text \<open>How \<open>main\<close> meets it: exit status 2 with advice, or an exception that leaves the program.\<close>

definition main_config :: "configuration result \<Rightarrow> (int option + configuration)" where
  "main_config r = (case r of
     Inr c \<Rightarrow> Inr c
   | Inl e \<Rightarrow> Inl (if e \<in> {FileNotFound, ValueError, UnicodeError} then Some 2 else None))"

subsection \<open>Fields that were accepted\<close>

lemma rbind_Inl_iff: "rbind m f = Inl e \<longleftrightarrow> m = Inl e \<or> (\<exists>x. m = Inr x \<and> f x = Inl e)"
  by (cases m) simp_all

lemma as_port_range: "as_port value dflt = Inr port \<Longrightarrow> 1 \<le> port \<and> port \<le> 65535"
  by (auto simp: as_port_def split: sum.splits if_splits)

lemma yaml_str_named: "yaml_true x \<Longrightarrow> (\<And>v. text_of v \<noteq> []) \<Longrightarrow> yaml_str text_of x \<noteq> []"
  by (cases x) (auto simp: yaml_str_def)

lemma samsung_accepted:
  assumes "samsung_from text_of home sams = Inr c" "\<And>v. text_of v \<noteq> []"
  shows "sc_host c \<noteq> [] \<and> sc_mac c \<noteq> [] \<and> sc_port c = 8002 \<and> 1 \<le> wc_port (sc_wol c) \<and> wc_port (sc_wol c) \<le> 65535"
  using assms(1) yaml_str_named [OF _ assms(2)]
  by (auto simp: samsung_from_def rbind_eq_Inr dest: as_port_range split: if_splits)

lemma expanded:
  assumes "expand home x = Inr r" "\<And>s. s \<noteq> [] \<Longrightarrow> home s \<noteq> []"
  shows "(r = None \<longleftrightarrow> \<not> yaml_true x) \<and> r \<noteq> Some []"
  using assms by (cases x) (auto simp: expand_def split: if_splits)

lemma companion_accepted:
  assumes "companion_from text_of home comps = Inr c" "\<And>s. s \<noteq> [] \<Longrightarrow> home s \<noteq> []"
  shows "0 \<le> cc_port c \<and> cc_port c \<le> 65535 \<and> map_of comps (YStr ''pin'') = None \<and> cc_state_dir c \<noteq> Some []
    \<and> (cc_state_dir c = None \<longleftrightarrow> \<not> yaml_true (yaml_get comps ''state_dir''))"
proof -
  obtain port dir where "0 \<le> port" "port \<le> 65535" "map_of comps (YStr ''pin'') = None" "cc_port c = port" "cc_state_dir c = dir"
    and dir: "expand home (yaml_get comps ''state_dir'') = Inr dir"
    using assms(1) by (auto simp: companion_from_def rbind_eq_Inr split: if_splits)
  then show ?thesis using expanded [OF dir assms(2)] by simp
qed

subsection \<open>Errors\<close>

lemma text_errors: "int_of_text t = Inl e \<Longrightarrow> e = ValueError"
  by (auto simp: int_of_text_def Let_def split: prod.splits option.splits if_splits)

text \<open>Values that \<open>int\<close> converts or refuses with a \<open>ValueError\<close>.\<close>

definition infinite_port :: "yaml \<Rightarrow> bool" where
  "infinite_port x \<longleftrightarrow> (\<exists>neg. x = YFloat (Infinite neg))"

fun scalar_port :: "yaml \<Rightarrow> bool" where
  "scalar_port (YBool b) = True"
| "scalar_port (YInt i) = True"
| "scalar_port (YFloat x) = (\<not> infinite_port (YFloat x))"
| "scalar_port (YStr s) = True"
| "scalar_port x = False"

lemma int_errors:
  assumes "yaml_int x = Inl e"
  shows "e \<in> {ValueError, TypeError, OverflowError} \<and> (scalar_port x \<longrightarrow> e = ValueError) \<and> (e = OverflowError \<longrightarrow> infinite_port x)"
proof (cases x)
  case (YFloat v)
  then show ?thesis using assms by (cases v) (auto simp: yaml_int_def infinite_port_def)
qed (use assms text_errors in \<open>auto simp: yaml_int_def\<close>)

lemma pairs_errors: "pairs_of xs = Inl e \<Longrightarrow> e \<in> {ValueError, TypeError}"
  by (induction xs) (auto simp: rbind_Inl_iff pair_of_def split: yaml.splits list.splits if_splits prod.splits)

lemma dict_errors: "py_dict x = Inl e \<Longrightarrow> e \<in> {ValueError, TypeError}"
  using pairs_errors by (auto simp: py_dict_def split: yaml.splits)

text \<open>Documents of the expected shape: sections are mappings or empty, paths are text, and a port is no infinity, the
  one of the listener no null either.\<close>

definition is_section :: "yaml \<Rightarrow> bool" where
  "is_section x \<longleftrightarrow> \<not> yaml_true x \<or> (\<exists>kvs. x = YMap kvs)"

definition is_path :: "yaml \<Rightarrow> bool" where
  "is_path x \<longleftrightarrow> \<not> yaml_true x \<or> (\<exists>s. x = YStr s)"

definition well_shaped :: "(yaml \<times> yaml) list \<Rightarrow> bool" where
  "well_shaped data \<longleftrightarrow> is_section (yaml_get data ''companion'') \<and> is_section (yaml_get data ''samsung'') \<and> is_section (yaml_get data ''logging'')
     \<and> (\<forall>comps. section_of data ''companion'' = Inr comps \<longrightarrow>
          scalar_port (get_default comps ''port'' (YInt 49152)) \<and> is_path (yaml_get comps ''state_dir''))
     \<and> (\<forall>sams. section_of data ''samsung'' = Inr sams \<longrightarrow> is_section (yaml_get sams ''wol'') \<and> is_path (yaml_get sams ''token_file'')
          \<and> \<not> infinite_port (yaml_get sams ''port'')
          \<and> (\<forall>wol. section_of sams ''wol'' = Inr wol \<longrightarrow> \<not> infinite_port (yaml_get wol ''port'')))"

lemma section_errors:
  assumes "section_of d key = Inl e"
  shows "e \<in> {ValueError, TypeError}" "\<not> is_section (yaml_get d key)"
  using assms dict_errors by (auto simp: section_of_def is_section_def Let_def py_dict_def split: if_splits)

lemma port_errors:
  assumes "as_port value dflt = Inl e"
  shows "e \<in> {ValueError, OverflowError} \<and> (\<not> infinite_port value \<longrightarrow> e = ValueError)"
proof -
  let ?x = "if value = YNull then YInt dflt else value"
  consider "e = ValueError" | e' where "yaml_int ?x = Inl e'" "e = e'" "e' \<noteq> TypeError"
    using assms unfolding as_port_def by (cases "yaml_int ?x") (auto split: if_splits)
  then show ?thesis
  proof cases
    case 2
    then have "e = ValueError \<or> e = OverflowError \<and> infinite_port ?x" using int_errors [of ?x e'] by auto
    then show ?thesis by (auto simp: infinite_port_def split: if_splits)
  qed simp
qed

lemma expand_errors: "expand home value = Inl e \<Longrightarrow> e = TypeError \<and> \<not> is_path value"
  by (auto simp: expand_def is_path_def split: if_splits yaml.splits)

lemma bool_errors: "as_bool value dflt = Inl e \<Longrightarrow> e = ValueError"
  by (auto simp: as_bool_def Let_def split: yaml.splits if_splits)

lemma samsung_errors:
  assumes "samsung_from text_of home sams = Inl e"
  shows "e \<in> {ValueError, TypeError, OverflowError}"
    and "is_section (yaml_get sams ''wol'') \<and> is_path (yaml_get sams ''token_file'') \<and> \<not> infinite_port (yaml_get sams ''port'')
      \<and> (\<forall>wol. section_of sams ''wol'' = Inr wol \<longrightarrow> \<not> infinite_port (yaml_get wol ''port'')) \<Longrightarrow> e = ValueError"
  using assms
  by (auto simp: samsung_from_def rbind_Inl_iff dest!: bool_errors expand_errors dest: section_errors port_errors split: if_splits)

lemma companion_errors:
  assumes "companion_from text_of home comps = Inl e"
  shows "e \<in> {ValueError, TypeError, OverflowError}"
    and "scalar_port (get_default comps ''port'' (YInt 49152)) \<and> is_path (yaml_get comps ''state_dir'') \<Longrightarrow> e = ValueError"
proof -
  consider "yaml_int (get_default comps ''port'' (YInt 49152)) = Inl e" | "e = ValueError" | "expand home (yaml_get comps ''state_dir'') = Inl e"
    using assms by (auto simp: companion_from_def rbind_Inl_iff split: if_splits)
  then have "e \<in> {ValueError, TypeError, OverflowError} \<and>
      (scalar_port (get_default comps ''port'' (YInt 49152)) \<and> is_path (yaml_get comps ''state_dir'') \<longrightarrow> e = ValueError)"
  proof cases
    case 1
    from int_errors [OF this] show ?thesis by auto
  qed (auto dest: expand_errors)
  then show "e \<in> {ValueError, TypeError, OverflowError}"
    "scalar_port (get_default comps ''port'' (YInt 49152)) \<and> is_path (yaml_get comps ''state_dir'') \<Longrightarrow> e = ValueError" by blast+
qed

subsection \<open>Properties\<close>

text \<open>An accepted configuration names the television and its hardware address, speaks to it on the TLS port only, has
  its other ports in range and no fixed PIN, and has a state directory exactly when the document gives one, a path
  that is not empty.\<close>

theorem config_accepted:
  assumes "from_mapping text_of home data = Inr c" and "\<And>v. text_of v \<noteq> []" and "\<And>s. s \<noteq> [] \<Longrightarrow> home s \<noteq> []"
  shows "sc_host (cf_samsung c) \<noteq> [] \<and> sc_mac (cf_samsung c) \<noteq> [] \<and> sc_port (cf_samsung c) = 8002
    \<and> 1 \<le> wc_port (sc_wol (cf_samsung c)) \<and> wc_port (sc_wol (cf_samsung c)) \<le> 65535
    \<and> 0 \<le> cc_port (cf_companion c) \<and> cc_port (cf_companion c) \<le> 65535
    \<and> (\<exists>comps. section_of data ''companion'' = Inr comps \<and> map_of comps (YStr ''pin'') = None
        \<and> (samsung_tls_certificate_file c = None \<longleftrightarrow> \<not> yaml_true (yaml_get comps ''state_dir'')))
    \<and> (\<forall>dir name. samsung_tls_certificate_file c = Some (dir, name) \<longrightarrow> dir \<noteq> [])"
proof -
  obtain comps sams where parts: "section_of data ''companion'' = Inr comps" "samsung_from text_of home sams = Inr (cf_samsung c)"
    "companion_from text_of home comps = Inr (cf_companion c)"
    using assms(1) by (auto simp: from_mapping_def rbind_eq_Inr)
  from samsung_accepted [OF parts(2) assms(2)] companion_accepted [OF parts(3) assms(3)] parts(1)
  show ?thesis by (auto simp: samsung_tls_certificate_file_def)
qed

text \<open>C40: A document that parses to a mapping of the expected shape is accepted or refused with a \<open>ValueError\<close>, which
  \<open>main\<close> turns into exit status 2; whatever its shape, no other errors occur than \<open>TypeError\<close>, \<open>OverflowError\<close> and
  \<open>AttributeError\<close>, and those leave the program.\<close>

theorem config_errors:
  assumes "from_mapping text_of home data = Inl e"
  shows "e \<in> {ValueError, TypeError, OverflowError, AttributeError} \<and> (well_shaped data \<longrightarrow> e = ValueError)
    \<and> (main_config (from_mapping text_of home data) = Inl (Some 2) \<longleftrightarrow> e = ValueError)"
proof -
  consider (sect) key where "key \<in> {''companion'', ''samsung''}" "section_of data key = Inl e"
    | (samsung) sams where "section_of data ''samsung'' = Inr sams" "samsung_from text_of home sams = Inl e"
    | (companion) comps where "section_of data ''companion'' = Inr comps" "companion_from text_of home comps = Inl e"
    | (level) "log_level_from text_of data = Inl e"
    using assms by (auto simp: from_mapping_def rbind_Inl_iff)
  then have "e \<in> {ValueError, TypeError, OverflowError, AttributeError} \<and> (well_shaped data \<longrightarrow> e = ValueError)"
  proof cases
    case sect
    then show ?thesis using section_errors by (auto simp: well_shaped_def)
  next
    case samsung
    then show ?thesis using samsung_errors [OF samsung(2)] by (auto simp: well_shaped_def)
  next
    case companion
    then show ?thesis using companion_errors [OF companion(2)] by (auto simp: well_shaped_def)
  next
    case level
    then show ?thesis by (auto simp: log_level_from_def well_shaped_def is_section_def Let_def split: if_splits yaml.splits)
  qed
  then show ?thesis using assms by (auto simp: main_config_def)
qed

subsection \<open>Witnesses\<close>

definition sample_document :: "yaml \<Rightarrow> (yaml \<times> yaml) list" where
  "sample_document port =
     [(YStr ''samsung'', YMap [(YStr ''host'', YStr ''192.0.2.7''), (YStr ''mac'', YStr ''02:00:00:00:00:01''), (YStr ''port'', YStr '' 8_002'')]),
      (YStr ''companion'', YMap [(YStr ''port'', port), (YStr ''state_dir'', YStr ''~/state'')])]"

text \<open>A port without a value, an infinite one, and a log level in the place of its section.\<close>

lemmas sample_eval = sample_document_def from_mapping_def section_of_def yaml_get_def py_dict_def samsung_from_def as_port_def
  yaml_int_def expand_def as_bool_def companion_from_def get_default_def log_level_from_def

lemma sample_port: "int_of_text '' 8_002'' = Inr 8002"
  by code_simp

lemma escaping_errors:
  "from_mapping text_of home (sample_document YNull) = Inl TypeError"
  "from_mapping text_of home (sample_document (YFloat (Infinite False))) = Inl OverflowError"
  "from_mapping text_of home (sample_document (YInt 0) @ [(YStr ''logging'', YStr ''DEBUG'')]) = Inl AttributeError"
  using sample_port by (simp_all add: sample_eval)

theorem config_accepted_witness:
  "\<exists>c. from_mapping (\<lambda>v. ''?'') (\<lambda>s. ''/home'' @ s) (sample_document (YInt 0)) = Inr c
     \<and> sc_host (cf_samsung c) \<noteq> [] \<and> samsung_tls_certificate_file c = Some (''/home~/state'', ''samsung-tls-cert.pem'')"
proof -
  obtain c where run: "from_mapping (\<lambda>v. ''?'') (\<lambda>s. ''/home'' @ s) (sample_document (YInt 0)) = Inr c"
    "cc_state_dir (cf_companion c) = Some ''/home~/state''"
    using sample_port by (simp add: sample_eval)
  from config_accepted [OF run(1)] have "sc_host (cf_samsung c) \<noteq> []" by simp
  then show ?thesis using run by (auto simp: samsung_tls_certificate_file_def)
qed

theorem config_errors_witness:
  "main_config (from_mapping (\<lambda>v. ''?'') id (sample_document (YStr ''70000''))) = Inl (Some 2)"
proof -
  have "int_of_text ''70000'' = Inr 70000" by code_simp
  then have "from_mapping (\<lambda>v. ''?'') id (sample_document (YStr ''70000'')) = Inl ValueError"
    using sample_port by (simp add: sample_eval)
  from config_errors [OF this] show ?thesis by simp
qed

end
