(* ===== verification/Effects.thy ===== *)
theory Effects
  imports Prelude
begin

text \<open>
  The effects of a Python method on an object: it reads and updates the object's state, and returns or
  raises; what it did before raising stays. The first half are the combinators the later components are
  written with, the second half a relational logic for them: a locale, to be interpreted on each
  preorder between the states before and after that a component's methods respect.
\<close>

type_synonym ('s, 'a) st = "'s \<Rightarrow> 'a result \<times> 's"

definition st_return :: "'a \<Rightarrow> ('s, 'a) st" where "st_return x s = (Inr x, s)"
definition st_raise :: "exn \<Rightarrow> ('s, 'a) st" where "st_raise e s = (Inl e, s)"
definition st_lift :: "'a result \<Rightarrow> ('s, 'a) st" where "st_lift r s = (r, s)"
definition st_modify :: "('s \<Rightarrow> 's) \<Rightarrow> ('s, unit) st" where "st_modify f s = (Inr (), f s)"

text \<open>Reading the state: the rest of the method depends on it.\<close>

definition st_get :: "('s \<Rightarrow> ('s, 'a) st) \<Rightarrow> ('s, 'a) st" where "st_get f s = f s s"

text \<open>\<open>try\<close> with \<open>except\<close> and \<open>else\<close>.\<close>

definition st_handle :: "('s, 'a) st \<Rightarrow> (exn \<Rightarrow> ('s, 'b) st) \<Rightarrow> ('a \<Rightarrow> ('s, 'b) st) \<Rightarrow> ('s, 'b) st" where
  "st_handle m h k s = (case m s of (Inl e, s') \<Rightarrow> h e s' | (Inr x, s') \<Rightarrow> k x s')"

definition st_bind :: "('s, 'a) st \<Rightarrow> ('a \<Rightarrow> ('s, 'b) st) \<Rightarrow> ('s, 'b) st" where
  "st_bind m f = st_handle m st_raise f"

definition st_then :: "('s, 'a) st \<Rightarrow> ('s, 'b) st \<Rightarrow> ('s, 'b) st" where
  "st_then m k = st_bind m (\<lambda>_. k)"

primrec st_for :: "('a \<Rightarrow> ('s, unit) st) \<Rightarrow> 'a list \<Rightarrow> ('s, unit) st" where
  "st_for f [] = st_return ()"
| "st_for f (x # xs) = st_then (f x) (st_for f xs)"

text \<open>The value of an optional field that the code uses without a test.\<close>

definition st_need :: "exn \<Rightarrow> 'a option \<Rightarrow> ('s, 'a) st" where
  "st_need e x = (case x of None \<Rightarrow> st_raise e | Some y \<Rightarrow> st_return y)"

lemmas st_eval = st_return_def st_raise_def st_lift_def st_modify_def st_get_def st_handle_def st_bind_def st_then_def st_need_def

subsection \<open>A relational logic\<close>

definition st_rel :: "('s \<Rightarrow> 's \<Rightarrow> bool) \<Rightarrow> ('s, 'a) st \<Rightarrow> bool" where
  "st_rel R m \<longleftrightarrow> (\<forall>s r s'. m s = (r, s') \<longrightarrow> R s s')"

lemma st_relD: "st_rel R m \<Longrightarrow> m s = (r, s') \<Longrightarrow> R s s'"
  by (simp add: st_rel_def)

lemma st_relI: "(\<And>s. R s (snd (m s))) \<Longrightarrow> st_rel R m"
  unfolding st_rel_def by (metis snd_conv)

locale step_preorder =
  fixes R :: "'s \<Rightarrow> 's \<Rightarrow> bool"
  assumes R_refl: "R s s" and R_trans: "R s t \<Longrightarrow> R t u \<Longrightarrow> R s u"
begin

lemma rel_return: "st_rel R (st_return x)" and rel_raise: "st_rel R (st_raise e)" and rel_lift: "st_rel R (st_lift r)"
  and rel_need: "st_rel R (st_need e y)"
  by (simp_all add: st_rel_def st_return_def st_raise_def st_lift_def st_need_def R_refl split: option.split)

lemma rel_handle:
  assumes "st_rel R m" "\<And>e. st_rel R (h e)" "\<And>x. st_rel R (k x)" shows "st_rel R (st_handle m h k)"
  unfolding st_rel_def
proof (intro allI impI)
  fix s r s' assume run: "st_handle m h k s = (r, s')"
  obtain r1 s1 where m: "m s = (r1, s1)" by fastforce
  have "R s s1" using st_relD [OF assms(1) m] .
  moreover have "R s1 s'" using run m st_relD [OF assms(2)] st_relD [OF assms(3)] by (cases r1) (auto simp: st_handle_def)
  ultimately show "R s s'" by (rule R_trans)
qed

lemma rel_bind: "st_rel R m \<Longrightarrow> (\<And>x. st_rel R (f x)) \<Longrightarrow> st_rel R (st_bind m f)"
  unfolding st_bind_def by (intro rel_handle rel_raise)

lemma rel_then: "st_rel R m \<Longrightarrow> st_rel R k \<Longrightarrow> st_rel R (st_then m k)"
  unfolding st_then_def by (intro rel_bind)

lemma rel_modify: "(\<And>s. R s (f s)) \<Longrightarrow> st_rel R (st_modify f)"
  by (simp add: st_rel_def st_modify_def)

lemma rel_get: "(\<And>a. st_rel R (f a)) \<Longrightarrow> st_rel R (st_get f)"
  by (simp add: st_rel_def st_get_def)

lemma rel_if: "(c \<Longrightarrow> st_rel R a) \<Longrightarrow> (\<not> c \<Longrightarrow> st_rel R b) \<Longrightarrow> st_rel R (if c then a else b)"
  by simp

lemma rel_option: "st_rel R a \<Longrightarrow> (\<And>x. st_rel R (f x)) \<Longrightarrow> st_rel R (case y of None \<Rightarrow> a | Some x \<Rightarrow> f x)"
  by (cases y) simp_all

lemma rel_sum: "(\<And>e. st_rel R (h e)) \<Longrightarrow> (\<And>x. st_rel R (f x)) \<Longrightarrow> st_rel R (case y of Inl e \<Rightarrow> h e | Inr x \<Rightarrow> f x)"
  by (cases y) simp_all

lemma rel_for: "(\<And>x. st_rel R (f x)) \<Longrightarrow> st_rel R (st_for f xs)"
  by (induction xs) (simp_all add: rel_return rel_then)

lemmas rel_rules = rel_return rel_raise rel_lift rel_need rel_handle rel_bind rel_then rel_get rel_if rel_option rel_sum rel_for

end

subsection \<open>Triples\<close>

text \<open>From a state with \<open>P\<close>, a return satisfies \<open>Q\<close> and an exception \<open>X\<close>.\<close>

definition st_triple :: "('s \<Rightarrow> bool) \<Rightarrow> ('s, 'a) st \<Rightarrow> ('a \<Rightarrow> 's \<Rightarrow> bool) \<Rightarrow> (exn \<Rightarrow> 's \<Rightarrow> bool) \<Rightarrow> bool" where
  "st_triple P m Q X \<longleftrightarrow> (\<forall>s. P s \<longrightarrow> (case m s of (Inr x, s') \<Rightarrow> Q x s' | (Inl e, s') \<Rightarrow> X e s'))"

lemma tripleD_return: "st_triple P m Q X \<Longrightarrow> P s \<Longrightarrow> m s = (Inr x, s') \<Longrightarrow> Q x s'"
  and tripleD_raise: "st_triple P m Q X \<Longrightarrow> P s \<Longrightarrow> m s = (Inl e, s') \<Longrightarrow> X e s'"
  by (force simp: st_triple_def)+

lemma triple_weaken:
  "st_triple P m Q X \<Longrightarrow> (\<And>s. P' s \<Longrightarrow> P s) \<Longrightarrow> (\<And>x s. Q x s \<Longrightarrow> Q' x s) \<Longrightarrow> (\<And>e s. X e s \<Longrightarrow> X' e s) \<Longrightarrow> st_triple P' m Q' X'"
  by (fastforce simp: st_triple_def split: prod.split sum.split)

lemma triple_pre: "st_triple P m Q X \<Longrightarrow> (\<And>s. P' s \<Longrightarrow> P s) \<Longrightarrow> st_triple P' m Q X"
  by (rule triple_weaken)

lemma triple_return: "(\<And>s. P s \<Longrightarrow> Q x s) \<Longrightarrow> st_triple P (st_return x) Q X"
  by (simp add: st_triple_def st_return_def)

lemma triple_raise: "(\<And>s. P s \<Longrightarrow> X e s) \<Longrightarrow> st_triple P (st_raise e) Q X"
  by (simp add: st_triple_def st_raise_def)

lemma triple_modify: "(\<And>s. P s \<Longrightarrow> Q () (f s)) \<Longrightarrow> st_triple P (st_modify f) Q X"
  by (simp add: st_triple_def st_modify_def)

lemma triple_lift: "(\<And>s x. P s \<Longrightarrow> r = Inr x \<Longrightarrow> Q x s) \<Longrightarrow> (\<And>s e. P s \<Longrightarrow> r = Inl e \<Longrightarrow> X e s) \<Longrightarrow> st_triple P (st_lift r) Q X"
  by (auto simp: st_triple_def st_lift_def split: sum.split)

lemma triple_handle:
  assumes "st_triple P m M E" "\<And>e. st_triple (E e) (h e) Q X" "\<And>x. st_triple (M x) (k x) Q X"
  shows "st_triple P (st_handle m h k) Q X"
  unfolding st_triple_def
proof (intro allI impI)
  fix s assume "P s"
  then show "case st_handle m h k s of (Inr x, s') \<Rightarrow> Q x s' | (Inl e, s') \<Rightarrow> X e s'"
    using assms by (cases "m s"; cases "fst (m s)") (force simp: st_triple_def st_handle_def)+
qed

lemma triple_bind: "st_triple P m M X \<Longrightarrow> (\<And>x. st_triple (M x) (f x) Q X) \<Longrightarrow> st_triple P (st_bind m f) Q X"
  unfolding st_bind_def by (rule triple_handle [where E = X]) (simp_all add: st_triple_def st_raise_def)

lemma triple_then: "st_triple P m (\<lambda>_. M) X \<Longrightarrow> st_triple M k Q X \<Longrightarrow> st_triple P (st_then m k) Q X"
  unfolding st_then_def by (rule triple_bind)

lemma triple_get: "(\<And>c. st_triple (\<lambda>s. s = c \<and> P s) (f c) Q X) \<Longrightarrow> st_triple P (st_get f) Q X"
  by (auto simp: st_triple_def st_get_def)

lemma triple_if: "(c \<Longrightarrow> st_triple P a Q X) \<Longrightarrow> (\<not> c \<Longrightarrow> st_triple P b Q X) \<Longrightarrow> st_triple P (if c then a else b) Q X"
  by simp

text \<open>To keep a property is to respect a relation, so the rules above apply to it.\<close>

interpretation keep: step_preorder "\<lambda>s s'. I s \<longrightarrow> I s'" for I
  by unfold_locales auto

lemma triple_keep: "st_rel (\<lambda>s s'. I s \<longrightarrow> I s') m \<Longrightarrow> st_triple I m (\<lambda>_. I) (\<lambda>_. I)"
  by (auto simp: st_rel_def st_triple_def split: prod.split sum.split)

lemma keep_triple: "st_triple I m (\<lambda>_. I) (\<lambda>_. I) \<Longrightarrow> st_rel (\<lambda>s s'. I s \<longrightarrow> I s') m"
  unfolding st_rel_def by (metis tripleD_return tripleD_raise sum.exhaust)

end
