(* ===== verification/StateLock.thy ===== *)
theory StateLock
  imports Effects
begin

text \<open>
  \<^verbatim>\<open>protocol/pairing_state.py\<close>: the lock file behind every transaction on the pairing state. Each acquisition opens
  the file anew, so the parties are the processes and, inside the daemon, its tasks; the kernel grants the lock
  to one open descriptor, until it is unlocked or closed. Any system call may fail.

  Shown: at most one party is inside a transaction, a party that is inside holds the lock, and no party leaves a
  descriptor behind, whatever fails.
\<close>

subsection \<open>The kernel\<close>

text \<open>The lock file with whether it is private, the open descriptors of it and of its directory, and the holder.\<close>

record lock_kernel =
  lk_file :: "bool option"
  lk_fds :: "nat list"
  lk_directories :: nat
  lk_holder :: "nat option"
  lk_next :: nat
  lk_faults :: "bool list"

type_synonym 'a locking = "(lock_kernel, 'a) st"

definition lock_call :: "unit locking" where
  "lock_call s = (case lk_faults s of [] \<Rightarrow> (Inr (), s) | b # bs \<Rightarrow> (if b then Inl OsError else Inr (), s\<lparr>lk_faults := bs\<rparr>))"

text \<open>A descriptor is closed even if \<open>close\<close> reports an error.\<close>

definition close_lock_fd :: "nat \<Rightarrow> unit locking" where
  "close_lock_fd fd = st_then (st_modify (\<lambda>s. s\<lparr>lk_fds := removeAll fd (lk_fds s),
     lk_holder := if lk_holder s = Some fd then None else lk_holder s\<rparr>)) lock_call"

definition new_lock_fd :: "nat locking" where
  "new_lock_fd = st_get (\<lambda>s. st_then (st_modify (\<lambda>s. s\<lparr>lk_fds := lk_next s # lk_fds s, lk_next := Suc (lk_next s)\<rparr>)) (st_return (lk_next s)))"

definition cleanup :: "'a locking \<Rightarrow> unit locking \<Rightarrow> 'a locking" where
  "cleanup m n = st_handle m (\<lambda>e. st_then n (st_raise e)) st_return"

subsection \<open>The lock\<close>

text \<open>\<open>_open_lock_file\<close>: creates the file, or opens the one that is there; then it must be private.\<close>

definition open_named :: "(nat \<times> bool) locking" where
  "open_named = st_get (\<lambda>s. st_then lock_call
     (if lk_file s = None
      then st_then (st_modify (\<lambda>s. s\<lparr>lk_file := Some False\<rparr>)) (st_bind new_lock_fd (\<lambda>fd. st_return (fd, True)))
      else st_then lock_call (st_bind new_lock_fd (\<lambda>fd. st_return (fd, False)))))"

definition open_lock_file :: "(nat \<times> bool) locking" where
  "open_lock_file = st_bind open_named (\<lambda>(fd, created). cleanup
     (st_then (if created then st_then lock_call (st_modify (\<lambda>s. s\<lparr>lk_file := Some True\<rparr>)) else st_return ())
       (st_then lock_call (st_get (\<lambda>s. if lk_file s = Some True then st_return (fd, created) else st_raise OsError))))
     (close_lock_fd fd))"

text \<open>\<open>_acquire\<close> up to \<open>flock\<close>: the directory is closed behind the file, which is closed on every error.\<close>

definition close_directory :: "unit locking" where
  "close_directory = st_then (st_modify (\<lambda>s. s\<lparr>lk_directories := lk_directories s - 1\<rparr>)) lock_call"

definition open_lock :: "nat locking" where
  "open_lock = st_then lock_call (st_then (st_modify (\<lambda>s. s\<lparr>lk_directories := Suc (lk_directories s)\<rparr>))
     (st_handle open_lock_file
       (\<lambda>e. st_then close_directory (st_raise e))
       (\<lambda>(fd, created). cleanup
          (st_handle (if created then lock_call else st_return ())
             (\<lambda>e. st_then close_directory (st_raise e)) (\<lambda>_. st_then close_directory (st_return fd)))
          (close_lock_fd fd))))"

text \<open>\<open>flock\<close> on a descriptor: \<open>False\<close> when another one has the lock, which is \<open>BlockingIOError\<close> without blocking.\<close>

definition flock :: "nat \<Rightarrow> bool locking" where
  "flock fd = cleanup (st_then lock_call (st_get (\<lambda>s.
     if lk_holder s = None then st_then (st_modify (\<lambda>s. s\<lparr>lk_holder := Some fd\<rparr>)) (st_return True) else st_return False)))
     (close_lock_fd fd)"

definition try_acquire :: "nat option locking" where
  "try_acquire = st_bind open_lock (\<lambda>fd. st_bind (flock fd) (\<lambda>got.
     if got then st_return (Some fd) else st_then (close_lock_fd fd) (st_return None)))"

text \<open>\<open>release\<close>: the descriptor is closed even if unlocking fails.\<close>

definition release_lock :: "nat \<Rightarrow> unit locking" where
  "release_lock fd = st_handle (st_then lock_call (st_modify (\<lambda>s. s\<lparr>lk_holder := if lk_holder s = Some fd then None else lk_holder s\<rparr>)))
     (\<lambda>e. st_then (close_lock_fd fd) (st_raise e)) (\<lambda>_. close_lock_fd fd)"

subsection \<open>Parties\<close>

text \<open>A party is outside, waits in \<open>flock\<close>, or runs its transaction. \<open>pairing_state_lock\<close> opens and waits;
  \<open>async_pairing_state_lock\<close> tries again after a pause. The context managers leave through \<open>release\<close>.\<close>

datatype party = Outside | Awaiting nat | Inside nat

definition set_party :: "nat \<Rightarrow> party \<Rightarrow> party list \<Rightarrow> party list" where
  "set_party i p ps = ps[i := p]"

text \<open>What a party becomes when its call returns or raises.\<close>

definition opened_party :: "nat result \<Rightarrow> party" where
  "opened_party r = (case r of Inl e \<Rightarrow> Outside | Inr fd \<Rightarrow> Awaiting fd)"

definition granted_party :: "nat \<Rightarrow> bool result \<Rightarrow> party" where
  "granted_party fd r = (case r of Inl e \<Rightarrow> Outside | Inr got \<Rightarrow> if got then Inside fd else Awaiting fd)"

definition tried_party :: "nat option result \<Rightarrow> party" where
  "tried_party r = (case r of Inr (Some fd) \<Rightarrow> Inside fd | _ \<Rightarrow> Outside)"

inductive lock_step :: "lock_kernel \<times> party list \<Rightarrow> lock_kernel \<times> party list \<Rightarrow> bool" where
  opens: "i < length ps \<Longrightarrow> ps ! i = Outside \<Longrightarrow> open_lock s = (r, s') \<Longrightarrow> lock_step (s, ps) (s', set_party i (opened_party r) ps)"
| locks: "i < length ps \<Longrightarrow> ps ! i = Awaiting fd \<Longrightarrow> flock fd s = (r, s') \<Longrightarrow> lock_step (s, ps) (s', set_party i (granted_party fd r) ps)"
| tries: "i < length ps \<Longrightarrow> ps ! i = Outside \<Longrightarrow> try_acquire s = (r, s') \<Longrightarrow> lock_step (s, ps) (s', set_party i (tried_party r) ps)"
| leaves: "i < length ps \<Longrightarrow> ps ! i = Inside fd \<Longrightarrow> release_lock fd s = (r, s') \<Longrightarrow> lock_step (s, ps) (s', set_party i Outside ps)"

inductive lock_reach :: "nat \<Rightarrow> bool option \<Rightarrow> bool list \<Rightarrow> lock_kernel \<times> party list \<Rightarrow> bool" for n present faults where
  idle: "lock_reach n present faults (\<lparr>lk_file = present, lk_fds = [], lk_directories = 0, lk_holder = None, lk_next = 0, lk_faults = faults\<rparr>,
     replicate n Outside)"
| moved: "lock_reach n present faults x \<Longrightarrow> lock_step x y \<Longrightarrow> lock_reach n present faults y"

subsection \<open>The calls\<close>

text \<open>The descriptors \<open>F\<close> are open, one of them may hold the lock, new ones are fresh.\<close>

definition lock_open :: "nat set \<Rightarrow> nat option \<Rightarrow> nat \<Rightarrow> lock_kernel \<Rightarrow> bool" where
  "lock_open F h d s \<longleftrightarrow> set (lk_fds s) = F \<and> lk_holder s = h \<and> lk_directories s = d \<and> (\<forall>fd \<in> F. fd < lk_next s)
     \<and> (\<forall>fd. h = Some fd \<longrightarrow> fd \<in> F)"

abbreviation lock_other :: "nat set \<Rightarrow> nat option \<Rightarrow> nat \<Rightarrow> nat \<Rightarrow> lock_kernel \<Rightarrow> bool" where
  "lock_other F h d fd s \<equiv> lock_open (insert fd F) h d s \<and> fd \<notin> F \<and> h \<noteq> Some fd"

lemma call_triple: "st_triple (lock_open F h d) lock_call (\<lambda>_. lock_open F h d) (\<lambda>_. lock_open F h d)"
  by (auto simp: st_triple_def lock_call_def lock_open_def split: list.split)

lemma call_other: "st_triple (lock_other F h d fd) lock_call (\<lambda>_. lock_other F h d fd) (\<lambda>_. lock_other F h d fd)"
  by (auto simp: st_triple_def lock_call_def lock_open_def split: list.split)

lemma close_triple:
  "st_triple (lock_other F h d fd) (close_lock_fd fd) (\<lambda>_. lock_open F h d) (\<lambda>_. lock_open F h d)"
  unfolding close_lock_fd_def
  by (rule triple_then [OF triple_modify call_triple]) (auto simp: lock_open_def)

lemma cleanup_triple:
  assumes "st_triple P m Q (\<lambda>_. E)" "st_triple E n (\<lambda>_. X) (\<lambda>_. X)"
  shows "st_triple P (cleanup m n) Q (\<lambda>_. X)"
  unfolding cleanup_def by (rule triple_handle [OF assms(1) triple_then [OF assms(2)] triple_return]) (rule triple_raise)

lemma new_triple: "st_triple (lock_open F h d) new_lock_fd (\<lambda>fd. lock_other F h d fd) X"
  by (auto simp: st_triple_def new_lock_fd_def st_eval lock_open_def)

lemma named_triple: "st_triple (lock_open F h d) open_named (\<lambda>(fd, created). lock_other F h d fd) (\<lambda>_. lock_open F h d)"
proof -
  have new: "st_triple (lock_open F h d) (st_bind new_lock_fd (\<lambda>fd. st_return (fd, b))) (\<lambda>(fd, created). lock_other F h d fd) (\<lambda>_. lock_open F h d)" for b
    by (rule triple_bind [OF new_triple triple_return]) simp
  have made: "st_triple (lock_open F h d) (st_modify (\<lambda>s. s\<lparr>lk_file := Some False\<rparr>)) (\<lambda>_. lock_open F h d) (\<lambda>_. lock_open F h d)"
    by (rule triple_modify) (simp add: lock_open_def)
  show ?thesis
    unfolding open_named_def
  proof (rule triple_get, rule triple_then)
    fix c
    show "st_triple (\<lambda>s. s = c \<and> lock_open F h d s) lock_call (\<lambda>_. lock_open F h d) (\<lambda>_. lock_open F h d)"
      by (rule triple_pre [OF call_triple]) simp
    show "st_triple (lock_open F h d) (if lk_file c = None
        then st_then (st_modify (\<lambda>s. s\<lparr>lk_file := Some False\<rparr>)) (st_bind new_lock_fd (\<lambda>fd. st_return (fd, True)))
        else st_then lock_call (st_bind new_lock_fd (\<lambda>fd. st_return (fd, False))))
       (\<lambda>(fd, created). lock_other F h d fd) (\<lambda>_. lock_open F h d)"
      by (rule triple_if) (rule triple_then [OF made new], rule triple_then [OF call_triple new])
  qed
qed

lemma file_triple: "st_triple (lock_open F h d) open_lock_file (\<lambda>(fd, created). lock_other F h d fd) (\<lambda>_. lock_open F h d)"
proof -
  have check: "st_triple (lock_other F h d fd)
     (st_then (if created then st_then lock_call (st_modify (\<lambda>s. s\<lparr>lk_file := Some True\<rparr>)) else st_return ())
       (st_then lock_call (st_get (\<lambda>s. if lk_file s = Some True then st_return (fd, created) else st_raise OsError))))
     (\<lambda>(fd, created). lock_other F h d fd) (\<lambda>_. lock_other F h d fd)" for fd created
  proof -
    have made: "st_triple (lock_other F h d fd) (st_modify (\<lambda>s. s\<lparr>lk_file := Some True\<rparr>)) (\<lambda>_. lock_other F h d fd) (\<lambda>_. lock_other F h d fd)"
      by (rule triple_modify) (simp add: lock_open_def)
    have first: "st_triple (lock_other F h d fd)
       (if created then st_then lock_call (st_modify (\<lambda>s. s\<lparr>lk_file := Some True\<rparr>)) else st_return ())
       (\<lambda>_. lock_other F h d fd) (\<lambda>_. lock_other F h d fd)"
      using triple_then [OF call_other made] by (auto intro: triple_return)
    have last: "st_triple (lock_other F h d fd) (st_get (\<lambda>s. if lk_file s = Some True then st_return (fd, created) else st_raise OsError))
       (\<lambda>(fd, created). lock_other F h d fd) (\<lambda>_. lock_other F h d fd)"
      by (auto simp: st_triple_def st_eval)
    show ?thesis by (rule triple_then [OF first triple_then [OF call_other last]])
  qed
  show ?thesis
    unfolding open_lock_file_def
    by (rule triple_bind [OF named_triple]) (auto intro: cleanup_triple [OF check close_triple])
qed

lemma directory_triple:
  "st_triple (lock_open F h (Suc d)) close_directory (\<lambda>_. lock_open F h d) (\<lambda>_. lock_open F h d)"
  "st_triple (lock_other F h (Suc d) fd) close_directory (\<lambda>_. lock_other F h d fd) (\<lambda>_. lock_other F h d fd)"
  unfolding close_directory_def
  by (rule triple_then [OF triple_modify call_triple], simp add: lock_open_def)
    (rule triple_then [OF triple_modify call_other], simp add: lock_open_def)

lemma open_triple: "st_triple (lock_open F h d) open_lock (\<lambda>fd. lock_other F h d fd) (\<lambda>_. lock_open F h d)"
proof -
  have entered: "st_triple (lock_open F h d) (st_modify (\<lambda>s. s\<lparr>lk_directories := Suc (lk_directories s)\<rparr>))
      (\<lambda>_. lock_open F h (Suc d)) (\<lambda>_. lock_open F h d)"
    by (rule triple_modify) (simp add: lock_open_def)
  have failed: "st_triple (lock_open F h (Suc d)) (st_then close_directory (st_raise e)) Q (\<lambda>_. lock_open F h d)" for e Q
    by (rule triple_then [OF directory_triple(1) triple_raise]) simp
  have synced: "st_triple (lock_other F h (Suc d) fd)
      (st_handle (if created then lock_call else st_return ())
         (\<lambda>e. st_then close_directory (st_raise e)) (\<lambda>_. st_then close_directory (st_return fd)))
      (\<lambda>fd. lock_other F h d fd) (\<lambda>_. lock_other F h d fd)" for fd created
  proof (rule triple_handle)
    show "st_triple (lock_other F h (Suc d) fd) (if created then lock_call else st_return ())
        (\<lambda>_. lock_other F h (Suc d) fd) (\<lambda>_. lock_other F h (Suc d) fd)"
      using call_other by (auto intro: triple_return)
    show "st_triple (lock_other F h (Suc d) fd) (st_then close_directory (st_raise e)) (\<lambda>fd. lock_other F h d fd) (\<lambda>_. lock_other F h d fd)" for e
      by (rule triple_then [OF directory_triple(2) triple_raise]) simp
    show "st_triple (lock_other F h (Suc d) fd) (st_then close_directory (st_return fd)) (\<lambda>fd. lock_other F h d fd) (\<lambda>_. lock_other F h d fd)"
      by (rule triple_then [OF directory_triple(2) triple_return]) simp
  qed
  have "st_triple (lock_open F h (Suc d))
     (st_handle open_lock_file
       (\<lambda>e. st_then close_directory (st_raise e))
       (\<lambda>(fd, created). cleanup
          (st_handle (if created then lock_call else st_return ())
             (\<lambda>e. st_then close_directory (st_raise e)) (\<lambda>_. st_then close_directory (st_return fd)))
          (close_lock_fd fd)))
     (\<lambda>fd. lock_other F h d fd) (\<lambda>_. lock_open F h d)"
    by (rule triple_handle [OF file_triple failed]) (auto intro: cleanup_triple [OF synced close_triple])
  then show ?thesis
    unfolding open_lock_def by (rule triple_then [OF call_triple triple_then [OF entered]])
qed

text \<open>Granting the lock to a descriptor that is open and does not hold it.\<close>

definition granted :: "nat set \<Rightarrow> nat option \<Rightarrow> nat \<Rightarrow> nat \<Rightarrow> bool \<Rightarrow> lock_kernel \<Rightarrow> bool" where
  "granted F h d fd got s \<longleftrightarrow> (if got then h = None \<and> lock_open (insert fd F) (Some fd) d s \<and> fd \<notin> F else lock_other F h d fd s)"

lemma flock_triple: "st_triple (lock_other F h d fd) (flock fd) (\<lambda>got. granted F h d fd got) (\<lambda>_. lock_open F h d)"
  unfolding flock_def
proof (rule cleanup_triple [OF triple_then [OF call_other] close_triple])
  show "st_triple (lock_other F h d fd) (st_get (\<lambda>s. if lk_holder s = None
      then st_then (st_modify (\<lambda>s. s\<lparr>lk_holder := Some fd\<rparr>)) (st_return True) else st_return False))
     (\<lambda>got. granted F h d fd got) (\<lambda>_. lock_other F h d fd)"
    by (auto simp: st_triple_def st_eval granted_def lock_open_def)
qed

lemma try_triple:
  "st_triple (lock_open F h d) try_acquire
     (\<lambda>r s. case r of Some fd \<Rightarrow> granted F h d fd True s | None \<Rightarrow> lock_open F h d s) (\<lambda>_. lock_open F h d)"
proof -
  have "st_triple (granted F h d fd got) (if got then st_return (Some fd) else st_then (close_lock_fd fd) (st_return None))
     (\<lambda>r s. case r of Some fd \<Rightarrow> granted F h d fd True s | None \<Rightarrow> lock_open F h d s) (\<lambda>_. lock_open F h d)" for fd got
  proof (cases got)
    case True
    then show ?thesis by (auto intro: triple_return)
  next
    case False
    then have "granted F h d fd got = lock_other F h d fd" by (intro ext) (simp add: granted_def)
    moreover have "st_triple (lock_other F h d fd) (st_then (close_lock_fd fd) (st_return None))
       (\<lambda>r s. case r of Some fd \<Rightarrow> granted F h d fd True s | None \<Rightarrow> lock_open F h d s) (\<lambda>_. lock_open F h d)"
      by (rule triple_then [OF close_triple triple_return]) simp
    ultimately show ?thesis using False by simp
  qed
  then show ?thesis unfolding try_acquire_def by (rule triple_bind [OF open_triple triple_bind [OF flock_triple]])
qed

lemma release_lock_triple:
  assumes "fd \<notin> F"
  shows "st_triple (lock_open (insert fd F) (Some fd) d) (release_lock fd) (\<lambda>_. lock_open F None d) (\<lambda>_. lock_open F None d)"
proof -
  have unlocked: "st_triple (lock_open (insert fd F) (Some fd) d)
     (st_modify (\<lambda>s. s\<lparr>lk_holder := if lk_holder s = Some fd then None else lk_holder s\<rparr>))
     (\<lambda>_. lock_other F None d fd) (\<lambda>_. lock_open (insert fd F) (Some fd) d)"
    by (rule triple_modify) (use assms in \<open>auto simp: lock_open_def\<close>)
  have held: "st_triple (lock_open (insert fd F) (Some fd) d) (close_lock_fd fd) (\<lambda>_. lock_open F None d) (\<lambda>_. lock_open F None d)"
    unfolding close_lock_fd_def
    by (rule triple_then [OF triple_modify call_triple]) (use assms in \<open>auto simp: lock_open_def\<close>)
  show ?thesis
    unfolding release_lock_def
    by (rule triple_handle [OF triple_then [OF call_triple unlocked] triple_then [OF held triple_raise] close_triple]) simp
qed

subsection \<open>Mutual exclusion\<close>

definition party_fds :: "party \<Rightarrow> nat set" where
  "party_fds p = (case p of Outside \<Rightarrow> {} | Awaiting fd \<Rightarrow> {fd} | Inside fd \<Rightarrow> {fd})"

text \<open>The open descriptors are those of the parties, each has its own, and who is inside holds the lock.\<close>

definition lock_inv :: "lock_kernel \<times> party list \<Rightarrow> bool" where
  "lock_inv x \<longleftrightarrow> (case x of (s, ps) \<Rightarrow>
     lock_open (\<Union>i<length ps. party_fds (ps ! i)) (lk_holder s) 0 s
     \<and> (\<forall>i j. i < length ps \<longrightarrow> j < length ps \<longrightarrow> i \<noteq> j \<longrightarrow> party_fds (ps ! i) \<inter> party_fds (ps ! j) = {})
     \<and> (\<forall>i fd. i < length ps \<longrightarrow> (ps ! i = Inside fd \<longleftrightarrow> lk_holder s = Some fd \<and> fd \<in> party_fds (ps ! i))))"

lemma others_fds:
  assumes "i < length ps"
  shows "(\<Union>j<length ps. party_fds (ps[i := p] ! j)) = party_fds p \<union> (\<Union>j \<in> {..<length ps} - {i}. party_fds (ps ! j))"
proof -
  have "{..<length ps} = insert i ({..<length ps} - {i})" using assms by auto
  then have "(\<Union>j<length ps. party_fds (ps[i := p] ! j)) = party_fds (ps[i := p] ! i) \<union> (\<Union>j \<in> {..<length ps} - {i}. party_fds (ps[i := p] ! j))"
    by (metis UN_insert)
  then show ?thesis using assms by simp
qed

text \<open>A party that moved: its descriptors are its own, and it is inside exactly when one of them holds the lock.\<close>

lemma lock_inv_set:
  assumes "lock_inv (s, ps)" "i < length ps" "\<And>F. F = (\<Union>j \<in> {..<length ps} - {i}. party_fds (ps ! j)) \<Longrightarrow>
      lock_open (party_fds p \<union> F) (lk_holder s') 0 s' \<and> party_fds p \<inter> F = {}
      \<and> (\<forall>fd. p = Inside fd \<longleftrightarrow> lk_holder s' = Some fd \<and> fd \<in> party_fds p) \<and> (\<forall>fd \<in> F. lk_holder s' = Some fd \<longleftrightarrow> lk_holder s = Some fd)"
  shows "lock_inv (s', set_party i p ps)"
proof -
  let ?F = "\<Union>j \<in> {..<length ps} - {i}. party_fds (ps ! j)"
  note new = assms(3) [OF refl]
  have own: "party_fds (ps ! j) \<subseteq> ?F" if "j < length ps" "j \<noteq> i" for j using that by auto
  have "party_fds (ps[i := p] ! j) \<inter> party_fds (ps[i := p] ! k) = {}" if "j < length ps" "k < length ps" "j \<noteq> k" for j k
    using that assms(1,2) new own [of j] own [of k] by (cases "j = i"; cases "k = i") (auto simp: lock_inv_def)
  moreover have "ps[i := p] ! j = Inside fd \<longleftrightarrow> lk_holder s' = Some fd \<and> fd \<in> party_fds (ps[i := p] ! j)" if "j < length ps" for j fd
    using that assms(1,2) new own [of j] by (cases "j = i") (auto simp: lock_inv_def)
  ultimately show ?thesis
    unfolding lock_inv_def set_party_def using new others_fds [OF assms(2), of p] by simp
qed

lemma lock_inv_party:
  assumes "lock_inv (s, ps)" "i < length ps" "F = (\<Union>j \<in> {..<length ps} - {i}. party_fds (ps ! j))"
  shows "lock_open (party_fds (ps ! i) \<union> F) (lk_holder s) 0 s \<and> party_fds (ps ! i) \<inter> F = {}
    \<and> (\<forall>fd. ps ! i = Inside fd \<longleftrightarrow> lk_holder s = Some fd \<and> fd \<in> party_fds (ps ! i))"
  using assms others_fds [OF assms(2), of "ps ! i"] by (auto simp: lock_inv_def)

lemma lock_inv_step:
  assumes "lock_inv x" "lock_step x y"
  shows "lock_inv y"
proof -
  have moved: "lock_inv (s', set_party i p ps)"
    if inv: "lock_inv (s, ps)" and i: "i < length ps"
      and made: "\<And>F. lock_open (party_fds (ps ! i) \<union> F) (lk_holder s) 0 s \<Longrightarrow> party_fds (ps ! i) \<inter> F = {} \<Longrightarrow>
        (\<forall>fd. ps ! i = Inside fd \<longleftrightarrow> lk_holder s = Some fd \<and> fd \<in> party_fds (ps ! i)) \<Longrightarrow>
        lock_open (party_fds p \<union> F) (lk_holder s') 0 s' \<and> party_fds p \<inter> F = {}
        \<and> (\<forall>fd. p = Inside fd \<longleftrightarrow> lk_holder s' = Some fd \<and> fd \<in> party_fds p) \<and> (\<forall>fd \<in> F. lk_holder s' = Some fd \<longleftrightarrow> lk_holder s = Some fd)"
    for s s' ps i p
  proof (rule lock_inv_set [OF inv i])
    fix F assume "F = (\<Union>j \<in> {..<length ps} - {i}. party_fds (ps ! j))"
    then show "lock_open (party_fds p \<union> F) (lk_holder s') 0 s' \<and> party_fds p \<inter> F = {}
        \<and> (\<forall>fd. p = Inside fd \<longleftrightarrow> lk_holder s' = Some fd \<and> fd \<in> party_fds p) \<and> (\<forall>fd \<in> F. lk_holder s' = Some fd \<longleftrightarrow> lk_holder s = Some fd)"
      using lock_inv_party [OF inv i] by (intro made) blast+
  qed
  show ?thesis
    using assms(2)
  proof cases
    case (opens i ps s r s')
    have "lock_inv (s', set_party i (opened_party r) ps)"
    proof (rule moved)
      fix F assume "lock_open (party_fds (ps ! i) \<union> F) (lk_holder s) 0 s"
      then have "lock_open F (lk_holder s) 0 s" using opens by (simp add: party_fds_def)
      from tripleD_return [OF open_triple this] tripleD_raise [OF open_triple this] opens
      show "lock_open (party_fds (opened_party r) \<union> F) (lk_holder s') 0 s' \<and> party_fds (opened_party r) \<inter> F = {}
        \<and> (\<forall>fd. opened_party r = Inside fd \<longleftrightarrow> lk_holder s' = Some fd \<and> fd \<in> party_fds (opened_party r))
        \<and> (\<forall>fd \<in> F. lk_holder s' = Some fd \<longleftrightarrow> lk_holder s = Some fd)"
        by (cases r) (auto simp: opened_party_def party_fds_def lock_open_def)
    qed (use opens assms(1) in simp_all)
    then show ?thesis using opens by simp
  next
    case (locks i ps fd s r s')
    have "lock_inv (s', set_party i (granted_party fd r) ps)"
    proof (rule moved)
      fix F assume *: "lock_open (party_fds (ps ! i) \<union> F) (lk_holder s) 0 s" "party_fds (ps ! i) \<inter> F = {}"
        "\<forall>fd. ps ! i = Inside fd \<longleftrightarrow> lk_holder s = Some fd \<and> fd \<in> party_fds (ps ! i)"
      have "lk_holder s \<noteq> Some fd" using *(3) locks(4) by (auto simp: party_fds_def)
      then have "lock_other F (lk_holder s) 0 fd s" using * locks by (simp add: party_fds_def)
      from tripleD_return [OF flock_triple this] tripleD_raise [OF flock_triple this] locks this
      show "lock_open (party_fds (granted_party fd r) \<union> F) (lk_holder s') 0 s' \<and> party_fds (granted_party fd r) \<inter> F = {}
        \<and> (\<forall>fd'. granted_party fd r = Inside fd' \<longleftrightarrow> lk_holder s' = Some fd' \<and> fd' \<in> party_fds (granted_party fd r))
        \<and> (\<forall>fd \<in> F. lk_holder s' = Some fd \<longleftrightarrow> lk_holder s = Some fd)"
        by (cases r) (auto simp: granted_party_def granted_def party_fds_def lock_open_def split: if_splits)
    qed (use locks assms(1) in simp_all)
    then show ?thesis using locks by simp
  next
    case (tries i ps s r s')
    have "lock_inv (s', set_party i (tried_party r) ps)"
    proof (rule moved)
      fix F assume "lock_open (party_fds (ps ! i) \<union> F) (lk_holder s) 0 s"
      then have "lock_open F (lk_holder s) 0 s" using tries by (simp add: party_fds_def)
      from tripleD_return [OF try_triple this] tripleD_raise [OF try_triple this] tries this
      show "lock_open (party_fds (tried_party r) \<union> F) (lk_holder s') 0 s' \<and> party_fds (tried_party r) \<inter> F = {}
        \<and> (\<forall>fd. tried_party r = Inside fd \<longleftrightarrow> lk_holder s' = Some fd \<and> fd \<in> party_fds (tried_party r))
        \<and> (\<forall>fd \<in> F. lk_holder s' = Some fd \<longleftrightarrow> lk_holder s = Some fd)"
        by (cases r) (auto simp: tried_party_def granted_def party_fds_def lock_open_def split: option.splits)
    qed (use tries assms(1) in simp_all)
    then show ?thesis using tries by simp
  next
    case (leaves i ps fd s r s')
    have "lock_inv (s', set_party i Outside ps)"
    proof (rule moved)
      fix F assume *: "lock_open (party_fds (ps ! i) \<union> F) (lk_holder s) 0 s" "party_fds (ps ! i) \<inter> F = {}"
        "\<forall>fd. ps ! i = Inside fd \<longleftrightarrow> lk_holder s = Some fd \<and> fd \<in> party_fds (ps ! i)"
      have "lk_holder s = Some fd" using *(3) leaves(4) by auto
      with * leaves have h: "lk_holder s = Some fd" "fd \<notin> F" "lock_open (insert fd F) (Some fd) 0 s" by (simp_all add: party_fds_def)
      from tripleD_return [OF release_lock_triple [OF h(2)] h(3)] tripleD_raise [OF release_lock_triple [OF h(2)] h(3)] leaves h
      show "lock_open (party_fds Outside \<union> F) (lk_holder s') 0 s' \<and> party_fds Outside \<inter> F = {}
        \<and> (\<forall>fd. Outside = Inside fd \<longleftrightarrow> lk_holder s' = Some fd \<and> fd \<in> party_fds Outside)
        \<and> (\<forall>fd \<in> F. lk_holder s' = Some fd \<longleftrightarrow> lk_holder s = Some fd)"
        by (cases r) (auto simp: party_fds_def lock_open_def)
    qed (use leaves assms(1) in simp_all)
    then show ?thesis using leaves by simp
  qed
qed

lemma lock_reach_inv: "lock_reach n present faults x \<Longrightarrow> lock_inv x"
proof (induction rule: lock_reach.induct)
  case idle
  show ?case by (auto simp: lock_inv_def lock_open_def party_fds_def)
qed (rule lock_inv_step)

subsection \<open>Properties\<close>

text \<open>C16: However the parties' calls interleave and whichever of them fail, at most one party is inside a transaction
  at any time, and it holds the lock; the only open descriptors are one of each party that waits or is inside, so
  a party that is outside has left nothing behind, and when nobody is inside the lock is free.\<close>

theorem transactions_exclusive:
  assumes "lock_reach n present faults (s, ps)"
  shows "(\<forall>i j fd fd'. i < length ps \<and> j < length ps \<and> ps ! i = Inside fd \<and> ps ! j = Inside fd' \<longrightarrow> i = j)
    \<and> (\<forall>i fd. i < length ps \<and> ps ! i = Inside fd \<longrightarrow> lk_holder s = Some fd)
    \<and> set (lk_fds s) = {fd. Awaiting fd \<in> set ps \<or> Inside fd \<in> set ps} \<and> lk_directories s = 0
    \<and> ((\<forall>fd. Inside fd \<notin> set ps) \<longrightarrow> lk_holder s = None)"
proof -
  have inv: "lock_inv (s, ps)" using assms by (rule lock_reach_inv)
  have inside: "lk_holder s = Some fd \<and> fd \<in> party_fds (ps ! i)" if "i < length ps" "ps ! i = Inside fd" for i fd
    using inv that by (auto simp: lock_inv_def)
  have one: "i = j" if "i < length ps" "j < length ps" "ps ! i = Inside fd" "ps ! j = Inside fd'" for i j fd fd'
  proof (rule ccontr)
    assume "i \<noteq> j"
    then have "party_fds (ps ! i) \<inter> party_fds (ps ! j) = {}" using inv that(1,2) by (simp add: lock_inv_def)
    then show False using inside [OF that(1,3)] inside [OF that(2,4)] by auto
  qed
  have fds: "(\<Union>i<length ps. party_fds (ps ! i)) = {fd. Awaiting fd \<in> set ps \<or> Inside fd \<in> set ps}"
  proof -
    have "party_fds p = {fd. p = Awaiting fd \<or> p = Inside fd}" for p by (cases p) (auto simp: party_fds_def)
    moreover have "(\<Union>i<length ps. party_fds (ps ! i)) = (\<Union>p \<in> set ps. party_fds p)" by (auto simp: set_conv_nth)
    ultimately show ?thesis by auto
  qed
  have opened: "lock_open {fd. Awaiting fd \<in> set ps \<or> Inside fd \<in> set ps} (lk_holder s) 0 s"
    using inv fds by (simp add: lock_inv_def)
  have free: "lk_holder s = None" if none: "\<forall>fd. Inside fd \<notin> set ps"
  proof (cases "lk_holder s")
    case (Some fd)
    then have "fd \<in> (\<Union>i<length ps. party_fds (ps ! i))" using inv by (simp add: lock_inv_def lock_open_def)
    then obtain i where i: "i < length ps" "fd \<in> party_fds (ps ! i)" by auto
    then have "ps ! i = Inside fd" using inv Some unfolding lock_inv_def by simp
    then show ?thesis using none i(1) nth_mem [of i ps] by simp
  qed simp
  show ?thesis
  proof (intro conjI)
    show "\<forall>i j fd fd'. i < length ps \<and> j < length ps \<and> ps ! i = Inside fd \<and> ps ! j = Inside fd' \<longrightarrow> i = j" using one by blast
    show "\<forall>i fd. i < length ps \<and> ps ! i = Inside fd \<longrightarrow> lk_holder s = Some fd" using inside by blast
  qed (use opened free in \<open>simp_all add: lock_open_def\<close>)
qed

subsection \<open>Witness\<close>

text \<open>Of two parties one is inside, and the other is told to come back.\<close>

definition sample_lock :: "nat list \<Rightarrow> nat option \<Rightarrow> nat \<Rightarrow> lock_kernel" where
  "sample_lock fds h k = \<lparr>lk_file = if k = 0 then None else Some True, lk_fds = fds, lk_directories = 0, lk_holder = h, lk_next = k, lk_faults = []\<rparr>"

lemmas lock_eval = try_acquire_def open_lock_def open_lock_file_def open_named_def new_lock_fd_def close_directory_def cleanup_def
  flock_def close_lock_fd_def lock_call_def st_eval

lemma sample_tries:
  "try_acquire (sample_lock [] None 0) = (Inr (Some 0), sample_lock [0] (Some 0) 1)"
  "try_acquire (sample_lock [0] (Some 0) 1) = (Inr None, sample_lock [0] (Some 0) 2)"
  by (simp_all add: lock_eval sample_lock_def)

theorem transactions_exclusive_witness:
  "\<exists>s. lock_reach 2 None [] (s, [Inside 0, Outside]) \<and> lk_holder s = Some 0 \<and> set (lk_fds s) = {0} \<and> fst (try_acquire s) = Inr None"
proof -
  have start: "lock_reach 2 None [] (sample_lock [] None 0, [Outside, Outside])"
    using lock_reach.idle [of 2 None "[]"] by (simp add: sample_lock_def numeral_eq_Suc)
  have "lock_step (sample_lock [] None 0, [Outside, Outside]) (sample_lock [0] (Some 0) 1, set_party 0 (tried_party (Inr (Some 0))) [Outside, Outside])"
    by (rule lock_step.tries) (simp_all add: sample_tries)
  then have reach: "lock_reach 2 None [] (sample_lock [0] (Some 0) 1, [Inside 0, Outside])"
    using lock_reach.moved [OF start] by (simp add: set_party_def tried_party_def)
  have inside: "0 < length [Inside 0, Outside]" "[Inside 0, Outside] ! 0 = Inside 0" by simp_all
  have "lk_holder (sample_lock [0] (Some 0) 1) = Some 0" using transactions_exclusive [OF reach] inside by blast
  moreover have "lk_fds (sample_lock [0] (Some 0) 1) = [0]" by (simp add: sample_lock_def)
  ultimately show ?thesis
    using reach sample_tries(2) by (intro exI [of _ "sample_lock [0] (Some 0) 1"]) (simp only: fst_conv list.set simp_thms)
qed

end
