(* ===== verification/Directories.thy ===== *)
theory Directories
  imports Storage Effects
begin

text \<open>
  The walk to the state directory in \<^verbatim>\<open>companion/protocol/atomic_io.py\<close>, on Linux: descriptor by
  descriptor, no symbolic link followed, each directory checked, missing ones created. The file system
  is a map from objects to their metadata; a descriptor stands for an object. Before each system call
  other processes may change the file system in any way, and the call may fail (\<open>dk_ticks\<close>). The file
  systems that the calls saw are remembered (\<open>dk_seen\<close>).

  Shown: which descriptors a walk leaves open, and what a retained chain proves when it is found
  current.
\<close>

subsection \<open>The file system\<close>

text \<open>\<open>nd_attrs\<close> are the ACL attributes, \<open>None\<close> where the file system has none; \<open>nd_children\<close> the entries of a directory.\<close>

record node =
  nd_mode :: mode
  nd_uid :: nat
  nd_links :: nat
  nd_mtime :: nat
  nd_ctime :: nat
  nd_attrs :: "(string \<times> bytes) list option"
  nd_children :: "string \<Rightarrow> nat option"

type_synonym nodes = "nat \<Rightarrow> node option"

record disk =
  dk_euid :: nat
  dk_root :: nat
  dk_nodes :: nodes
  dk_fds :: "(nat \<times> nat) list"
  dk_next :: nat
  dk_free :: "nat list"
  dk_born :: "node \<Rightarrow> node"
  dk_ticks :: "(bool \<times> (nodes \<Rightarrow> nodes)) list"
  dk_seen :: "nodes list"

type_synonym 'a dm = "(disk, 'a) st"

text \<open>The moment of a system call.\<close>

definition tick :: "disk \<Rightarrow> bool \<times> disk" where
  "tick d =
     (case dk_ticks d of
        [] \<Rightarrow> (False, d\<lparr>dk_seen := dk_seen d @ [dk_nodes d]\<rparr>)
      | (bad, f) # rest \<Rightarrow> (bad, d\<lparr>dk_nodes := f (dk_nodes d), dk_ticks := rest, dk_seen := dk_seen d @ [f (dk_nodes d)]\<rparr>))"

definition kernel :: "'a dm \<Rightarrow> 'a dm" where
  "kernel f d = (case tick d of (bad, d1) \<Rightarrow> if bad then (Inl OsError, d1) else f d1)"

definition fd_node :: "disk \<Rightarrow> nat \<Rightarrow> (nat \<times> node) option" where
  "fd_node d fd = Option.bind (map_of (dk_fds d) fd) (\<lambda>obj. map_option (Pair obj) (dk_nodes d obj))"

text \<open>The object under a name of a directory.\<close>

definition linked :: "nodes \<Rightarrow> nat \<Rightarrow> string \<Rightarrow> nat option" where
  "linked nodes dir name = Option.bind (nodes dir) (\<lambda>n. nd_children n name)"

definition with_node :: "nat \<Rightarrow> (nat \<Rightarrow> node \<Rightarrow> 'a dm) \<Rightarrow> 'a dm" where
  "with_node fd f d = (case fd_node d fd of None \<Rightarrow> (Inl OsError, d) | Some (obj, n) \<Rightarrow> f obj n d)"

definition with_child :: "nat \<Rightarrow> string \<Rightarrow> (nat \<Rightarrow> node \<Rightarrow> 'a dm) \<Rightarrow> 'a dm" where
  "with_child fd name f = with_node fd (\<lambda>dir n d.
     case linked (dk_nodes d) dir name of
       None \<Rightarrow> (Inl FileNotFound, d)
     | Some obj \<Rightarrow> (case dk_nodes d obj of None \<Rightarrow> (Inl FileNotFound, d) | Some n \<Rightarrow> f obj n d))"

definition fstat :: "nat \<Rightarrow> (nat \<times> node) dm" where
  "fstat fd = kernel (with_node fd (\<lambda>obj n. st_return (obj, n)))"

definition stat_at :: "nat \<Rightarrow> string \<Rightarrow> (nat \<times> node) dm" where
  "stat_at fd name = kernel (with_child fd name (\<lambda>obj n. st_return (obj, n)))"

definition new_fd :: "nat \<Rightarrow> nat dm" where
  "new_fd obj d = (Inr (dk_next d), d\<lparr>dk_fds := (dk_next d, obj) # dk_fds d, dk_next := Suc (dk_next d)\<rparr>)"

text \<open>\<open>O_DIRECTORY | O_NOFOLLOW\<close>: an entry that is no directory is refused.\<close>

definition open_directory_at :: "nat \<Rightarrow> string \<Rightarrow> nat dm" where
  "open_directory_at fd name = kernel (with_child fd name (\<lambda>obj n.
     if nd_mode n AND S_IFMT = S_IFDIR then new_fd obj else st_raise OsError))"

definition open_directory_root :: "nat dm" where
  "open_directory_root = kernel (\<lambda>d. new_fd (dk_root d) d)"

text \<open>A descriptor is gone even when its \<open>close\<close> reports an error.\<close>

definition close_fd :: "nat \<Rightarrow> unit dm" where
  "close_fd fd d = (case tick d of (bad, d1) \<Rightarrow>
     if map_of (dk_fds d1) fd = None then (Inl OsError, d1)
     else (if bad then Inl OsError else Inr (), d1\<lparr>dk_fds := AList.delete fd (dk_fds d1)\<rparr>))"

definition close_fd_ignoring_errors :: "nat \<Rightarrow> unit dm" where
  "close_fd_ignoring_errors fd = st_handle (close_fd fd) (\<lambda>_. st_return ()) (\<lambda>_. st_return ())"

text \<open>Whether this call created the directory; its metadata are those the kernel gives it (\<open>dk_born\<close>).\<close>

definition make_directory_at :: "nat \<Rightarrow> string \<Rightarrow> bool dm" where
  "make_directory_at fd name = kernel (with_node fd (\<lambda>dir n d.
     if nd_children n name \<noteq> None then (Inr False, d)
     else case dk_free d of
         [] \<Rightarrow> (Inl OsError, d)
       | obj # rest \<Rightarrow>
           (if dk_nodes d obj \<noteq> None then (Inl OsError, d\<lparr>dk_free := rest\<rparr>)
            else (Inr True, d\<lparr>dk_free := rest, dk_nodes := (dk_nodes d)
              (obj \<mapsto> (dk_born d n)\<lparr>nd_children := Map.empty\<rparr>,
               dir \<mapsto> n\<lparr>nd_children := (nd_children n)(name \<mapsto> obj), nd_links := Suc (nd_links n),
                        nd_mtime := Suc (nd_mtime n), nd_ctime := Suc (nd_ctime n)\<rparr>)\<rparr>))))"

definition sync_fd :: "nat \<Rightarrow> unit dm" where
  "sync_fd fd = kernel (with_node fd (\<lambda>obj n. st_return ()))"

subsection \<open>Checks\<close>

definition node_stat :: "node \<Rightarrow> stat" where
  "node_stat n = \<lparr>st_mode = nd_mode n, st_uid = nd_uid n, st_acl = (case nd_attrs n of None \<Rightarrow> False | Some xs \<Rightarrow> xs \<noteq> [])\<rparr>"

definition validate_directory_fd :: "nat \<Rightarrow> bool \<Rightarrow> unit dm" where
  "validate_directory_fd fd final = st_bind (fstat fd) (\<lambda>(obj, n). st_get (\<lambda>d.
     if directory_ok (dk_euid d) final (node_stat n) then st_return () else st_raise OsError))"

text \<open>\<open>None\<close>: the file system has no such attributes.\<close>

definition getxattr :: "nat \<Rightarrow> string \<Rightarrow> bytes option option dm" where
  "getxattr fd name = kernel (with_node fd (\<lambda>obj n. st_return (map_option (\<lambda>xs. map_of xs name) (nd_attrs n))))"

definition removexattr :: "nat \<Rightarrow> string \<Rightarrow> unit dm" where
  "removexattr fd name = kernel (with_node fd (\<lambda>obj n d.
     (Inr (), d\<lparr>dk_nodes := (dk_nodes d)(obj \<mapsto> n\<lparr>nd_attrs := map_option (AList.delete name) (nd_attrs n), nd_ctime := Suc (nd_ctime n)\<rparr>)\<rparr>)))"

definition POSIX_ACL_XATTRS :: "string list" where
  "POSIX_ACL_XATTRS = [''system.posix_acl_access'', ''system.posix_acl_default'']"

fun collect_attributes :: "nat \<Rightarrow> string list \<Rightarrow> (string \<times> bytes) list \<Rightarrow> (string \<times> bytes) list dm" where
  "collect_attributes fd [] found = st_return found"
| "collect_attributes fd (name # names) found = st_bind (getxattr fd name) (\<lambda>x.
     case x of
       None \<Rightarrow> st_return []
     | Some None \<Rightarrow> collect_attributes fd names found
     | Some (Some value) \<Rightarrow> collect_attributes fd names (found @ [(name, value)]))"

definition posix_acl_attributes :: "nat \<Rightarrow> (string \<times> bytes) list dm" where
  "posix_acl_attributes fd = collect_attributes fd POSIX_ACL_XATTRS []"

definition validate_acl_fd :: "nat \<Rightarrow> bool \<Rightarrow> bool \<Rightarrow> unit dm" where
  "validate_acl_fd fd created ancestor = st_bind (posix_acl_attributes fd) (\<lambda>attributes.
     if attributes = [] then st_return ()
     else if ancestor then (if ancestor_acl_unsafe attributes then st_raise OsError else st_return ())
     else st_bind (if created then st_then (st_for (removexattr fd) (map fst attributes)) (posix_acl_attributes fd)
                   else st_return attributes)
       (\<lambda>attributes. if attributes \<noteq> [] then st_raise OsError else st_return ()))"

definition validate_new_directory_fd :: "nat \<Rightarrow> unit dm" where
  "validate_new_directory_fd fd = st_bind (fstat fd) (\<lambda>(obj, n). st_get (\<lambda>d.
     if nd_mode n AND S_IFMT \<noteq> S_IFDIR \<or> nd_uid n \<noteq> dk_euid d then st_raise OsError
     else st_then (validate_acl_fd fd True False) (st_then (validate_directory_fd fd True) (sync_fd fd))))"

subsection \<open>One component\<close>

definition open_or_make :: "bool \<Rightarrow> nat \<Rightarrow> string \<Rightarrow> (nat \<times> bool) dm" where
  "open_or_make create fd name = st_handle (open_directory_at fd name)
     (\<lambda>e. if e \<noteq> FileNotFound \<or> \<not> create then st_raise e
          else st_bind (make_directory_at fd name) (\<lambda>created.
            st_bind (open_directory_at fd name) (\<lambda>child. st_return (child, created))))
     (\<lambda>child. st_return (child, False))"

definition validate_child :: "bool \<Rightarrow> bool \<Rightarrow> bool \<Rightarrow> nat \<Rightarrow> nat \<Rightarrow> unit dm" where
  "validate_child create created final fd child =
     st_then (if created then validate_new_directory_fd child
              else st_then (validate_directory_fd child final) (validate_acl_fd child False (\<not> final)))
       (if create then sync_fd fd else st_return ())"

text \<open>An exception of \<open>m\<close> closes the descriptor and is raised again.\<close>

definition or_close :: "nat \<Rightarrow> 'a dm \<Rightarrow> 'a dm" where
  "or_close fd m = st_handle m (\<lambda>e. st_then (close_fd_ignoring_errors fd) (st_raise e)) st_return"

subsection \<open>The walk that keeps the last descriptor\<close>

definition walk_step :: "bool \<Rightarrow> bool \<Rightarrow> nat \<Rightarrow> string \<Rightarrow> nat dm" where
  "walk_step create final fd name = st_bind (open_or_make create fd name) (\<lambda>(child, created).
     st_then (or_close child (validate_child create created final fd child))
       (st_then (or_close child (close_fd fd)) (st_return child)))"

fun walk_directories :: "bool \<Rightarrow> nat \<Rightarrow> string list \<Rightarrow> nat dm" where
  "walk_directories create fd [] = st_return fd"
| "walk_directories create fd (name # names) = st_bind (or_close fd (walk_step create (names = []) fd name)) (\<lambda>child. walk_directories create child names)"

definition open_durable_directory :: "bool \<Rightarrow> string list \<Rightarrow> nat dm" where
  "open_durable_directory create names = st_bind open_directory_root (\<lambda>rt.
     st_then (or_close rt (st_then (validate_directory_fd rt False) (st_then (validate_acl_fd rt False True)
         (if names = [] then st_then (validate_directory_fd rt True) (validate_acl_fd rt False False) else st_return ()))))
       (walk_directories create rt names))"

subsection \<open>The walk that keeps the chain\<close>

type_synonym stamp = "nat \<times> mode \<times> nat \<times> nat \<times> nat \<times> nat"

definition directory_chain_stamp :: "nat \<Rightarrow> node \<Rightarrow> stamp" where
  "directory_chain_stamp obj n = (obj, nd_mode n, nd_uid n, nd_links n, nd_mtime n, nd_ctime n)"

definition directory_identity_from_stamp :: "stamp \<Rightarrow> nat" where
  "directory_identity_from_stamp s = fst s"

record chain_entry =
  ce_fd :: nat
  ce_name :: "string option"
  ce_stamp :: stamp

definition close_durable_directory_chain :: "chain_entry list \<Rightarrow> unit dm" where
  "close_durable_directory_chain chain = st_for (\<lambda>c. close_fd_ignoring_errors (ce_fd c)) (rev chain)"

definition or_close_all :: "chain_entry list \<Rightarrow> 'a dm \<Rightarrow> 'a dm" where
  "or_close_all entries m = st_handle m (\<lambda>e. st_then (close_durable_directory_chain entries) (st_raise e)) st_return"

definition stamped_entry :: "string option \<Rightarrow> nat \<Rightarrow> chain_entry dm" where
  "stamped_entry name fd = st_bind (fstat fd) (\<lambda>(obj, n). st_return \<lparr>ce_fd = fd, ce_name = name, ce_stamp = directory_chain_stamp obj n\<rparr>)"

text \<open>The stamps are taken again at the end, when the walk itself no longer changes a directory.\<close>

fun restamp_after :: "nat \<Rightarrow> chain_entry list \<Rightarrow> chain_entry list dm" where
  "restamp_after parent [] = st_return []"
| "restamp_after parent (c # cs) = st_bind (fstat (ce_fd c)) (\<lambda>(obj, n). st_bind (stat_at parent (the (ce_name c))) (\<lambda>(obj', n').
     if directory_identity_from_stamp (directory_chain_stamp obj' n') \<noteq> directory_identity_from_stamp (directory_chain_stamp obj n)
     then st_raise OsError
     else st_bind (restamp_after (ce_fd c) cs) (\<lambda>rest. st_return (c\<lparr>ce_stamp := directory_chain_stamp obj n\<rparr> # rest))))"

definition restamp_directory_chain :: "chain_entry list \<Rightarrow> chain_entry list dm" where
  "restamp_directory_chain entries =
     (case entries of
        [] \<Rightarrow> st_return []
      | c # cs \<Rightarrow> st_bind (fstat (ce_fd c)) (\<lambda>(obj, n). st_bind (restamp_after (ce_fd c) cs) (\<lambda>rest.
          st_return (c\<lparr>ce_stamp := directory_chain_stamp obj n\<rparr> # rest))))"

definition chain_step :: "bool \<Rightarrow> bool \<Rightarrow> nat \<Rightarrow> string \<Rightarrow> chain_entry dm" where
  "chain_step create final fd name = st_bind (open_or_make create fd name) (\<lambda>(child, created).
     or_close child (st_then (validate_child create created final fd child) (stamped_entry (Some name) child)))"

fun chain_walk :: "bool \<Rightarrow> string list \<Rightarrow> nat \<Rightarrow> chain_entry list \<Rightarrow> chain_entry list dm" where
  "chain_walk create [] fd entries = or_close_all entries (restamp_directory_chain entries)"
| "chain_walk create (name # names) fd entries = st_bind (or_close_all entries (chain_step create (names = []) fd name)) (\<lambda>c.
     chain_walk create names (ce_fd c) (entries @ [c]))"

text \<open>A failure before the root is an entry closes nothing.\<close>

definition chain_root :: "string list \<Rightarrow> nat \<Rightarrow> chain_entry dm" where
  "chain_root names rt =
     st_then (validate_directory_fd rt (names = [])) (st_then (validate_acl_fd rt False (names \<noteq> [])) (stamped_entry None rt))"

definition open_durable_directory_chain :: "bool \<Rightarrow> string list \<Rightarrow> chain_entry list dm" where
  "open_durable_directory_chain create names = st_bind open_directory_root (\<lambda>rt.
     st_bind (chain_root names rt) (\<lambda>c. chain_walk create names rt [c]))"

fun current_after :: "nat \<Rightarrow> chain_entry list \<Rightarrow> bool dm" where
  "current_after parent [] = st_return True"
| "current_after parent (c # cs) = st_bind (fstat (ce_fd c)) (\<lambda>(obj, n).
     if directory_chain_stamp obj n \<noteq> ce_stamp c then st_return False
     else st_bind (stat_at parent (the (ce_name c))) (\<lambda>(obj', n').
       if directory_chain_stamp obj' n' \<noteq> ce_stamp c then st_return False else current_after (ce_fd c) cs))"

definition retained_directory_chain_is_current :: "chain_entry list \<Rightarrow> bool dm" where
  "retained_directory_chain_is_current chain =
     (case chain of
        [] \<Rightarrow> st_return True
      | c # cs \<Rightarrow> st_handle (st_bind (fstat (ce_fd c)) (\<lambda>(obj, n).
            if directory_chain_stamp obj n \<noteq> ce_stamp c then st_return False else current_after (ce_fd c) cs))
          (\<lambda>e. if e \<in> {OsError, FileNotFound} then st_return False else st_raise e) st_return)"

definition retained_directory_chains_match :: "chain_entry list \<Rightarrow> chain_entry list \<Rightarrow> bool" where
  "retained_directory_chains_match previous replacement \<longleftrightarrow> length previous = length replacement
     \<and> list_all2 (\<lambda>old new. directory_identity_from_stamp (ce_stamp old) = directory_identity_from_stamp (ce_stamp new)) previous replacement"

subsection \<open>Descriptors\<close>

definition holds :: "(nat \<times> nat) list \<Rightarrow> disk \<Rightarrow> bool" where
  "holds L d \<longleftrightarrow> dk_fds d = L \<and> distinct (map fst L) \<and> (\<forall>fd \<in> set (map fst L). fd < dk_next d)"

abbreviation keeps_fds :: "(nat \<times> nat) list \<Rightarrow> 'a dm \<Rightarrow> bool" where
  "keeps_fds L \<equiv> st_rel (\<lambda>d d'. holds L d \<longrightarrow> holds L d')"

lemma tick_fields:
  assumes "tick d = (bad, d1)"
  shows "dk_fds d1 = dk_fds d" "dk_next d1 = dk_next d" "dk_seen d1 = dk_seen d @ [dk_nodes d1]" "dk_euid d1 = dk_euid d" "dk_root d1 = dk_root d"
  using assms by (auto simp: tick_def split: list.splits)

lemma holds_tick: "tick d = (bad, d1) \<Longrightarrow> holds L d1 \<longleftrightarrow> holds L d"
  using tick_fields by (simp add: holds_def)

lemma keeps_kernel: "keeps_fds L f \<Longrightarrow> keeps_fds L (kernel f)"
  unfolding st_rel_def kernel_def using holds_tick by (auto split: prod.splits if_splits)

lemma keeps_node: "(\<And>obj n. keeps_fds L (f obj n)) \<Longrightarrow> keeps_fds L (with_node fd f)"
  unfolding st_rel_def with_node_def by (auto split: option.splits)

lemma keeps_child: "(\<And>obj n. keeps_fds L (f obj n)) \<Longrightarrow> keeps_fds L (with_child fd name f)"
  unfolding with_child_def by (rule keeps_node) (auto simp: st_rel_def split: option.splits)

lemma keeps_calls:
  "keeps_fds L (fstat fd)" "keeps_fds L (stat_at fd name)" "keeps_fds L (sync_fd fd)" "keeps_fds L (getxattr fd name)"
  unfolding fstat_def stat_at_def sync_fd_def getxattr_def
  by (rule keeps_kernel, rule keeps_node, rule keep.rel_return)
    (rule keeps_kernel, rule keeps_child, rule keep.rel_return,
     (rule keeps_kernel, rule keeps_node, rule keep.rel_return)+)

lemma keeps_changes: "keeps_fds L (make_directory_at fd name)" "keeps_fds L (removexattr fd name)"
proof -
  show "keeps_fds L (make_directory_at fd name)" unfolding make_directory_at_def
    by (rule keeps_kernel, rule keeps_node) (auto simp: st_rel_def holds_def split: list.splits if_splits)
  show "keeps_fds L (removexattr fd name)" unfolding removexattr_def
    by (rule keeps_kernel, rule keeps_node) (auto simp: st_rel_def holds_def)
qed

lemma keeps_attributes: "keeps_fds L (posix_acl_attributes fd)"
proof -
  have "keeps_fds L (collect_attributes fd names found)" for names found
    by (induction fd names found rule: collect_attributes.induct)
      (auto intro!: keep.rel_return keep.rel_bind keeps_calls split: option.split)
  then show ?thesis by (simp add: posix_acl_attributes_def)
qed

lemmas fd_rules = keep.rel_rules keeps_calls keeps_changes keeps_attributes

lemma keeps_validate: "keeps_fds L (validate_directory_fd fd final)" "keeps_fds L (validate_acl_fd fd created ancestor)"
  unfolding validate_directory_fd_def validate_acl_fd_def split_beta by (intro fd_rules)+

lemma keeps_child_checks: "keeps_fds L (validate_child create created final fd child)"
  unfolding validate_child_def validate_new_directory_fd_def split_beta by (intro fd_rules keeps_validate)

lemma keeps_stamped: "keeps_fds L (stamped_entry name fd)"
  unfolding stamped_entry_def split_beta by (intro fd_rules)

lemma triple_run: "st_triple P m Q X \<longleftrightarrow> (\<forall>s r s'. P s \<longrightarrow> m s = (r, s') \<longrightarrow> (case r of Inl e \<Rightarrow> X e s' | Inr x \<Rightarrow> Q x s'))"
  unfolding st_triple_def by (auto split: prod.split)

lemma triple_kernel: "st_triple (holds L) f Q (\<lambda>_. holds L) \<Longrightarrow> st_triple (holds L) (kernel f) Q (\<lambda>_. holds L)"
proof -
  assume f: "st_triple (holds L) f Q (\<lambda>_. holds L)"
  show "st_triple (holds L) (kernel f) Q (\<lambda>_. holds L)"
    unfolding st_triple_def
  proof (intro allI impI)
    fix d assume "holds L d"
    moreover obtain bad d1 where t: "tick d = (bad, d1)" by fastforce
    ultimately have "holds L d1" by (simp add: holds_tick)
    moreover from this have "case f d1 of (Inl e, s') \<Rightarrow> holds L s' | (Inr x, s') \<Rightarrow> Q x s'" using f by (simp add: st_triple_def)
    ultimately show "case kernel f d of (Inl e, s') \<Rightarrow> holds L s' | (Inr x, s') \<Rightarrow> Q x s'" by (simp add: kernel_def t)
  qed
qed

lemma triple_child:
  "(\<And>obj n. st_triple (holds L) (f obj n) Q (\<lambda>_. holds L)) \<Longrightarrow> st_triple (holds L) (with_child fd name f) Q (\<lambda>_. holds L)"
  unfolding st_triple_def with_child_def with_node_def by (auto split: option.split)

lemma triple_new: "st_triple (holds L) (new_fd obj) (\<lambda>fd d. \<exists>obj. holds ((fd, obj) # L) d) X"
  by (auto simp: st_triple_def new_fd_def holds_def less_Suc_eq)

lemma triple_open:
  "st_triple (holds L) open_directory_root (\<lambda>fd d. \<exists>obj. holds ((fd, obj) # L) d) (\<lambda>_. holds L)"
  "st_triple (holds L) (open_directory_at fd name) (\<lambda>fd d. \<exists>obj. holds ((fd, obj) # L) d) (\<lambda>_. holds L)"
proof -
  have "st_triple (holds L) (\<lambda>d. new_fd (dk_root d) d) (\<lambda>fd d. \<exists>obj. holds ((fd, obj) # L) d) X" for X
    by (auto simp: st_triple_def new_fd_def holds_def less_Suc_eq)
  then show "st_triple (holds L) open_directory_root (\<lambda>fd d. \<exists>obj. holds ((fd, obj) # L) d) (\<lambda>_. holds L)"
    unfolding open_directory_root_def by (rule triple_kernel)
  show "st_triple (holds L) (open_directory_at fd name) (\<lambda>fd d. \<exists>obj. holds ((fd, obj) # L) d) (\<lambda>_. holds L)"
    unfolding open_directory_at_def by (intro triple_kernel triple_child triple_if triple_new triple_raise)
qed

lemma triple_close:
  assumes "fd \<in> fst ` set L"
  shows "st_triple (holds L) (close_fd fd) (\<lambda>_. holds (AList.delete fd L)) (\<lambda>_. holds (AList.delete fd L))"
    "st_triple (holds L) (close_fd_ignoring_errors fd) (\<lambda>_. holds (AList.delete fd L)) X"
proof -
  have gone: "holds (AList.delete fd L) (d1\<lparr>dk_fds := AList.delete fd (dk_fds d1)\<rparr>)" if "holds L d1" for d1
    using that by (auto simp: holds_def delete_keys distinct_removeAll)
  have inside: "map_of (dk_fds d1) fd \<noteq> None" if "holds L d1" for d1
    using that assms by (simp add: holds_def map_of_eq_None_iff)
  show c: "st_triple (holds L) (close_fd fd) (\<lambda>_. holds (AList.delete fd L)) (\<lambda>_. holds (AList.delete fd L))"
    unfolding triple_run
  proof (intro allI impI)
    fix d r d' assume "holds L d" and run: "close_fd fd d = (r, d')"
    moreover obtain bad d1 where t: "tick d = (bad, d1)" by fastforce
    ultimately have "holds L d1" by (simp add: holds_tick)
    with inside [OF this] gone [OF this] run show "case r of Inl e \<Rightarrow> holds (AList.delete fd L) d' | Inr x \<Rightarrow> holds (AList.delete fd L) d'"
      by (auto simp: close_fd_def t split: if_splits)
  qed
  show "st_triple (holds L) (close_fd_ignoring_errors fd) (\<lambda>_. holds (AList.delete fd L)) X"
    unfolding close_fd_ignoring_errors_def by (rule triple_handle [OF c]) (simp_all add: triple_return)
qed

lemma triple_or_close:
  assumes "st_triple P m Q (\<lambda>_. holds L)" "fd \<in> fst ` set L"
  shows "st_triple P (or_close fd m) Q (\<lambda>_. holds (AList.delete fd L))"
  unfolding or_close_def
  by (rule triple_handle [OF assms(1)], rule triple_then [OF triple_close(2) [OF assms(2)]])
    (simp_all add: triple_return triple_raise)

lemma triple_or_make:
  "st_triple (holds L) (open_or_make create fd name) (\<lambda>x d. \<exists>obj. holds ((fst x, obj) # L) d) (\<lambda>_. holds L)"
  unfolding open_or_make_def
  by (rule triple_handle [OF triple_open(2)])
    (auto intro!: triple_if triple_raise triple_return triple_bind [OF triple_keep [OF keeps_changes(1)]] triple_bind [OF triple_open(2)])

lemma triple_ex: "(\<And>x. st_triple (P x) m Q X) \<Longrightarrow> st_triple (\<lambda>d. \<exists>x. P x d) m Q X"
  unfolding triple_run by blast

lemma triple_disj: "st_triple P m Q X \<Longrightarrow> st_triple P' m Q X \<Longrightarrow> st_triple (\<lambda>d. P d \<or> P' d) m Q X"
  unfolding triple_run by blast

lemma holds_head: "holds ((fd, obj) # L) d \<Longrightarrow> fd \<notin> fst ` set L"
  by (auto simp: holds_def)

lemma triple_fresh: "(fd \<notin> fst ` set L \<Longrightarrow> st_triple (holds ((fd, obj) # L)) m Q X) \<Longrightarrow> st_triple (holds ((fd, obj) # L)) m Q X"
  unfolding triple_run using holds_head by blast

lemma triple_walk_step:
  "st_triple (holds ((fd, o1) # L)) (or_close fd (walk_step create final fd name)) (\<lambda>c d. \<exists>obj. holds ((c, obj) # L) d) (\<lambda>_. holds L)"
proof (rule triple_fresh)
  assume fresh: "fd \<notin> fst ` set L"
  have body: "st_triple (holds ((c, o2) # (fd, o1) # L))
      (st_then (or_close c (validate_child create created final fd c)) (st_then (or_close c (close_fd fd)) (st_return c)))
      (\<lambda>c d. \<exists>obj. holds ((c, obj) # L) d) (\<lambda>_ d. holds ((fd, o1) # L) d \<or> holds L d)" for c o2 created
  proof (rule triple_fresh)
    assume c: "c \<notin> fst ` set ((fd, o1) # L)"
    have "st_triple (holds ((c, o2) # (fd, o1) # L)) (or_close c (validate_child create created final fd c))
        (\<lambda>_. holds ((c, o2) # (fd, o1) # L)) (\<lambda>_. holds (AList.delete c ((c, o2) # (fd, o1) # L)))"
      by (rule triple_or_close [OF triple_keep [OF keeps_child_checks]]) simp
    moreover have "st_triple (holds ((c, o2) # (fd, o1) # L)) (or_close c (close_fd fd))
        (\<lambda>_. holds (AList.delete fd ((c, o2) # (fd, o1) # L))) (\<lambda>_. holds (AList.delete c (AList.delete fd ((c, o2) # (fd, o1) # L))))"
      by (rule triple_or_close [OF triple_close(1)]) (use c in auto)
    ultimately show "st_triple (holds ((c, o2) # (fd, o1) # L))
      (st_then (or_close c (validate_child create created final fd c)) (st_then (or_close c (close_fd fd)) (st_return c)))
      (\<lambda>c d. \<exists>obj. holds ((c, obj) # L) d) (\<lambda>_ d. holds ((fd, o1) # L) d \<or> holds L d)"
      using c fresh
      by (intro triple_then [where M = "holds ((c, o2) # (fd, o1) # L)"] triple_then [where M = "holds ((c, o2) # L)"] triple_return)
        (auto elim!: triple_weaken)
  qed
  have step: "st_triple (holds ((fd, o1) # L)) (walk_step create final fd name) (\<lambda>c d. \<exists>obj. holds ((c, obj) # L) d)
      (\<lambda>_ d. holds ((fd, o1) # L) d \<or> holds L d)"
    unfolding walk_step_def split_beta
    by (rule triple_bind [OF triple_weaken [OF triple_or_make [of "(fd, o1) # L"]]]) (assumption, assumption, blast, rule triple_ex, rule body)
  have gone: "st_triple (holds L) (close_fd_ignoring_errors fd) (\<lambda>_. holds L) X" for X
    unfolding triple_run
  proof (intro allI impI)
    fix d r d' assume "holds L d" and run: "close_fd_ignoring_errors fd d = (r, d')"
    moreover obtain bad d1 where t: "tick d = (bad, d1)" by fastforce
    ultimately have h: "holds L d1" by (simp add: holds_tick)
    then have "map_of (dk_fds d1) fd = None" using fresh by (simp add: holds_def map_of_eq_None_iff)
    then show "case r of Inl e \<Rightarrow> X e d' | Inr x \<Rightarrow> holds L d'"
      using run h by (auto simp: close_fd_ignoring_errors_def close_fd_def st_handle_def st_return_def t)
  qed
  have there: "st_triple (holds ((fd, o1) # L)) (close_fd_ignoring_errors fd) (\<lambda>_. holds L) X" for X
    using triple_close(2) [of fd "(fd, o1) # L" X] fresh by simp
  show "st_triple (holds ((fd, o1) # L)) (or_close fd (walk_step create final fd name)) (\<lambda>c d. \<exists>obj. holds ((c, obj) # L) d) (\<lambda>_. holds L)"
    unfolding or_close_def
  proof (rule triple_handle [OF step])
    fix e
    have "st_triple (\<lambda>d. holds ((fd, o1) # L) d \<or> holds L d) (close_fd_ignoring_errors fd) (\<lambda>_. holds L) (\<lambda>_. holds L)"
      by (rule triple_disj [OF there gone])
    then show "st_triple (\<lambda>d. holds ((fd, o1) # L) d \<or> holds L d) (st_then (close_fd_ignoring_errors fd) (st_raise e))
        (\<lambda>c d. \<exists>obj. holds ((c, obj) # L) d) (\<lambda>_. holds L)"
      by (rule triple_then) (simp add: triple_raise)
  qed (simp add: triple_return)
qed

lemma triple_walk:
  "st_triple (holds ((fd, o1) # L)) (walk_directories create fd names) (\<lambda>c d. \<exists>obj. holds ((c, obj) # L) d) (\<lambda>_. holds L)"
proof (induction names arbitrary: fd o1)
  case (Cons name names)
  show ?case unfolding walk_directories.simps by (rule triple_bind [OF triple_walk_step]) (rule triple_ex, rule Cons.IH)
qed (auto intro: triple_return)

lemma triple_open_directory:
  "st_triple (holds L) (open_durable_directory create names) (\<lambda>fd d. \<exists>obj. holds ((fd, obj) # L) d) (\<lambda>_. holds L)"
  unfolding open_durable_directory_def
proof (rule triple_bind [OF triple_open(1)], rule triple_ex, rule triple_fresh)
  fix rt obj assume fresh: "rt \<notin> fst ` set L"
  have "keeps_fds ((rt, obj) # L) (st_then (validate_directory_fd rt False) (st_then (validate_acl_fd rt False True)
      (if names = [] then st_then (validate_directory_fd rt True) (validate_acl_fd rt False False) else st_return ())))"
    by (intro fd_rules keeps_validate)
  from triple_or_close [OF triple_keep [OF this], of rt]
  show "st_triple (holds ((rt, obj) # L)) (st_then (or_close rt (st_then (validate_directory_fd rt False) (st_then (validate_acl_fd rt False True)
      (if names = [] then st_then (validate_directory_fd rt True) (validate_acl_fd rt False False) else st_return ())))) (walk_directories create rt names))
      (\<lambda>fd d. \<exists>obj. holds ((fd, obj) # L) d) (\<lambda>_. holds L)"
    using fresh by (intro triple_then [OF _ triple_walk]) simp
qed

text \<open>The descriptors of a chain, on top of the others.\<close>

definition chain_fds :: "chain_entry list \<Rightarrow> nat list \<Rightarrow> (nat \<times> nat) list" where
  "chain_fds cs objs = rev (zip (map ce_fd cs) objs)"

definition retained :: "chain_entry list \<Rightarrow> (nat \<times> nat) list \<Rightarrow> disk \<Rightarrow> bool" where
  "retained cs L d \<longleftrightarrow> (\<exists>objs. length objs = length cs \<and> holds (chain_fds cs objs @ L) d)"

lemma chain_fds_append: "length objs = length cs \<Longrightarrow> chain_fds (cs @ [c]) (objs @ [obj]) = (ce_fd c, obj) # chain_fds cs objs"
  by (simp add: chain_fds_def)

lemma triple_close_chain: "st_triple (retained cs L) (close_durable_directory_chain cs) (\<lambda>_. holds L) X"
proof (induction cs rule: rev_induct)
  case Nil
  then show ?case by (auto simp: close_durable_directory_chain_def retained_def chain_fds_def intro: triple_return)
next
  case (snoc c cs)
  have "st_triple (holds (chain_fds (cs @ [c]) objs @ L)) (close_fd_ignoring_errors (ce_fd c)) (\<lambda>_. retained cs L) X"
    if len: "length objs = Suc (length cs)" for objs
  proof -
    obtain objs' obj where o: "objs = objs' @ [obj]" "length objs' = length cs" using len by (metis length_Suc_conv_rev)
    have "st_triple (holds ((ce_fd c, obj) # chain_fds cs objs' @ L)) (close_fd_ignoring_errors (ce_fd c)) (\<lambda>_. retained cs L) X"
    proof (rule triple_fresh)
      assume "ce_fd c \<notin> fst ` set (chain_fds cs objs' @ L)"
      then show "st_triple (holds ((ce_fd c, obj) # chain_fds cs objs' @ L)) (close_fd_ignoring_errors (ce_fd c)) (\<lambda>_. retained cs L) X"
        using triple_close(2) [of "ce_fd c" "(ce_fd c, obj) # chain_fds cs objs' @ L" X] o(2)
        by (auto simp: retained_def elim!: triple_weaken)
    qed
    then show ?thesis by (simp add: o chain_fds_append)
  qed
  then have "st_triple (retained (cs @ [c]) L) (close_fd_ignoring_errors (ce_fd c)) (\<lambda>_. retained cs L) X"
    unfolding retained_def triple_run by simp blast
  then show ?case
    using snoc unfolding close_durable_directory_chain_def by (simp add: triple_then)
qed

lemma triple_or_close_all:
  assumes "st_triple P m Q (\<lambda>_. retained cs L)"
  shows "st_triple P (or_close_all cs m) Q (\<lambda>_. holds L)"
  unfolding or_close_all_def
  by (rule triple_handle [OF assms], rule triple_then [OF triple_close_chain]) (simp_all add: triple_return triple_raise)

lemma triple_chain_step:
  "st_triple (holds L) (chain_step create final fd name) (\<lambda>c d. \<exists>obj. holds ((ce_fd c, obj) # L) d) (\<lambda>_. holds L)"
  unfolding chain_step_def split_beta
proof (rule triple_bind [OF triple_or_make], rule triple_ex, rule triple_fresh)
  fix x :: "nat \<times> bool" and obj assume fresh: "fst x \<notin> fst ` set L"
  let ?m = "st_then (validate_child create (snd x) final fd (fst x)) (stamped_entry (Some name) (fst x))"
  have "st_triple (holds ((fst x, obj) # L)) (stamped_entry (Some name) (fst x)) (\<lambda>c d. holds ((ce_fd c, obj) # L) d) (\<lambda>_. holds ((fst x, obj) # L))"
    unfolding stamped_entry_def split_beta by (rule triple_bind [OF triple_keep [OF keeps_calls(1)]]) (simp add: triple_return)
  then have "st_triple (holds ((fst x, obj) # L)) ?m (\<lambda>c d. \<exists>obj. holds ((ce_fd c, obj) # L) d) (\<lambda>_. holds ((fst x, obj) # L))"
    by (intro triple_then [OF triple_keep [OF keeps_child_checks]]) (auto elim: triple_weaken)
  from triple_or_close [OF this, of "fst x"] fresh
  show "st_triple (holds ((fst x, obj) # L)) (or_close (fst x) ?m) (\<lambda>c d. \<exists>obj. holds ((ce_fd c, obj) # L) d) (\<lambda>_. holds L)" by simp
qed

lemma keeps_restamp: "keeps_fds L (restamp_directory_chain cs)"
proof -
  have "keeps_fds L (restamp_after parent cs)" for parent cs
    by (induction parent cs rule: restamp_after.induct) (auto simp: split_beta intro!: fd_rules)
  then show ?thesis unfolding restamp_directory_chain_def by (cases cs) (auto simp: split_beta intro!: fd_rules)
qed

lemma restamp_same:
  "restamp_directory_chain cs d = (Inr cs', d') \<Longrightarrow> map ce_fd cs' = map ce_fd cs \<and> map ce_name cs' = map ce_name cs \<and> length cs' = length cs"
proof -
  have after: "restamp_after parent cs d = (Inr cs', d') \<Longrightarrow> map ce_fd cs' = map ce_fd cs \<and> map ce_name cs' = map ce_name cs
      \<and> length cs' = length cs" for parent cs d cs'
    by (induction parent cs arbitrary: d cs' rule: restamp_after.induct) (auto simp: st_eval split: prod.splits sum.splits if_splits)
  show "restamp_directory_chain cs d = (Inr cs', d') \<Longrightarrow> ?thesis"
    by (cases cs) (auto simp: restamp_directory_chain_def st_eval dest: after split: prod.splits sum.splits)
qed

lemma triple_chain_walk:
  "st_triple (retained cs L) (chain_walk create names fd cs) (\<lambda>chain. retained chain L) (\<lambda>_. holds L)"
proof (induction names arbitrary: fd cs)
  case Nil
  have "st_triple (retained cs L) (restamp_directory_chain cs) (\<lambda>chain. retained chain L) (\<lambda>_. retained cs L)"
    unfolding triple_run
  proof (intro allI impI)
    fix d r d' assume "retained cs L d" and run: "restamp_directory_chain cs d = (r, d')"
    then obtain objs where o: "length objs = length cs" "holds (chain_fds cs objs @ L) d" by (auto simp: retained_def)
    then have "holds (chain_fds cs objs @ L) d'" using st_relD [OF keeps_restamp run] by blast
    then show "case r of Inl e \<Rightarrow> retained cs L d' | Inr chain \<Rightarrow> retained chain L d'"
      using o(1) restamp_same [of cs d] run by (cases r) (auto simp: retained_def chain_fds_def)
  qed
  then show ?case by (simp add: triple_or_close_all)
next
  case (Cons name names)
  have "st_triple (retained cs L) (chain_step create (names = []) fd name) (\<lambda>c. retained (cs @ [c]) L) (\<lambda>_. retained cs L)"
    unfolding triple_run
  proof (intro allI impI)
    fix d r d' assume "retained cs L d" and run: "chain_step create (names = []) fd name d = (r, d')"
    then obtain objs where o: "length objs = length cs" "holds (chain_fds cs objs @ L) d" by (auto simp: retained_def)
    then show "case r of Inl e \<Rightarrow> retained cs L d' | Inr c \<Rightarrow> retained (cs @ [c]) L d'"
    proof (cases r)
      case (Inl e)
      then show ?thesis using tripleD_raise [OF triple_chain_step o(2)] run o(1) by (auto simp: retained_def)
    next
      case (Inr c)
      then obtain obj where "holds ((ce_fd c, obj) # chain_fds cs objs @ L) d'" using tripleD_return [OF triple_chain_step o(2)] run by blast
      then have "holds (chain_fds (cs @ [c]) (objs @ [obj]) @ L) d'" using o(1) by (simp add: chain_fds_append)
      then have "retained (cs @ [c]) L d'" using o(1) unfolding retained_def by (intro exI [of _ "objs @ [obj]"]) simp
      then show ?thesis using Inr by simp
    qed
  qed
  then show ?case unfolding chain_walk.simps by (rule triple_bind [OF triple_or_close_all]) (rule Cons)
qed

lemma chain_root_run:
  assumes "holds ((rt, obj) # L) d" "chain_root names rt d = (r, d')"
  shows "holds ((rt, obj) # L) d'" "r = Inr c \<Longrightarrow> ce_fd c = rt \<and> ce_name c = None"
proof -
  have "keeps_fds ((rt, obj) # L) (chain_root names rt)"
    unfolding chain_root_def by (intro fd_rules keeps_validate keeps_stamped)
  then show "holds ((rt, obj) # L) d'" using assms by (auto simp: st_rel_def)
  show "r = Inr c \<Longrightarrow> ce_fd c = rt \<and> ce_name c = None"
    using assms(2) by (auto simp: chain_root_def stamped_entry_def st_eval split: prod.splits sum.splits)
qed

lemma chain_opened:
  assumes "holds L d" "open_durable_directory_chain create names d = (r, d')"
  shows "case r of Inr chain \<Rightarrow> retained chain L d'
    | Inl e \<Rightarrow> holds L d' \<or> (\<exists>rt obj d1. open_directory_root d = (Inr rt, d1) \<and> chain_root names rt d1 = (Inl e, d') \<and> dk_fds d' = (rt, obj) # L)"
proof -
  obtain r1 d1 where op: "open_directory_root d = (r1, d1)" by fastforce
  show ?thesis
  proof (cases r1)
    case (Inl e)
    then show ?thesis using tripleD_raise [OF triple_open(1) assms(1)] op assms(2)
      by (auto simp: open_durable_directory_chain_def st_bind_def st_handle_def st_raise_def)
  next
    case (Inr rt)
    then obtain obj where h: "holds ((rt, obj) # L) d1" using tripleD_return [OF triple_open(1) assms(1)] op by blast
    obtain r2 d2 where cr: "chain_root names rt d1 = (r2, d2)" by fastforce
    note h2 = chain_root_run [OF h cr]
    show ?thesis
    proof (cases r2)
      case (Inl e)
      then show ?thesis using op Inr cr h2(1) assms(2)
        by (auto simp: open_durable_directory_chain_def st_bind_def st_handle_def st_raise_def holds_def)
    next
      case (Inr c)
      then have run: "chain_walk create names rt [c] d2 = (r, d')"
        using op \<open>r1 = Inr rt\<close> cr assms(2) by (auto simp: open_durable_directory_chain_def st_bind_def st_handle_def)
      have "retained [c] L d2" using h2(1) h2(2) [OF Inr] by (auto simp: retained_def chain_fds_def intro!: exI [of _ "[obj]"])
      then have "case r of Inl e \<Rightarrow> holds L d' | Inr chain \<Rightarrow> retained chain L d'"
        using triple_chain_walk [of "[c]" L create names rt] run unfolding triple_run by blast
      then show ?thesis by (cases r) simp_all
    qed
  qed
qed

text \<open>C29: Whatever other processes change and whichever system calls fail: the walk to a strict directory leaves exactly one more descriptor
  open, the one it returns, and none when it raises; the walk that keeps the chain leaves exactly those of the chain, closing the chain
  restores the descriptors from before, and when it raises none is left either, but for the root's when the check of the root itself failed.\<close>

theorem walk_descriptors:
  assumes "distinct (map fst (dk_fds d))" and "\<forall>fd \<in> set (map fst (dk_fds d)). fd < dk_next d"
  shows "(case open_durable_directory create names d of
        (Inl e, d') \<Rightarrow> dk_fds d' = dk_fds d
      | (Inr fd, d') \<Rightarrow> \<exists>obj. dk_fds d' = (fd, obj) # dk_fds d)
    \<and> (case open_durable_directory_chain create names d of
        (Inr chain, d') \<Rightarrow> (\<exists>objs. length objs = length chain \<and> dk_fds d' = rev (zip (map ce_fd chain) objs) @ dk_fds d)
          \<and> dk_fds (snd (close_durable_directory_chain chain d')) = dk_fds d
      | (Inl e, d') \<Rightarrow> dk_fds d' = dk_fds d
          \<or> (\<exists>rt obj d1. open_directory_root d = (Inr rt, d1) \<and> chain_root names rt d1 = (Inl e, d') \<and> dk_fds d' = (rt, obj) # dk_fds d))"
proof -
  have h: "holds (dk_fds d) d" using assms by (simp add: holds_def)
  obtain r d' where one: "open_durable_directory create names d = (r, d')" by fastforce
  have "case r of Inl e \<Rightarrow> dk_fds d' = dk_fds d | Inr fd \<Rightarrow> \<exists>obj. dk_fds d' = (fd, obj) # dk_fds d"
  proof (cases r)
    case (Inl e)
    then show ?thesis using tripleD_raise [OF triple_open_directory h] one by (simp add: holds_def)
  next
    case (Inr fd)
    then show ?thesis using tripleD_return [OF triple_open_directory h] one by (fastforce simp: holds_def)
  qed
  moreover obtain r1 d1 where two: "open_durable_directory_chain create names d = (r1, d1)" by fastforce
  moreover have "case r1 of
        Inr chain \<Rightarrow> (\<exists>objs. length objs = length chain \<and> dk_fds d1 = rev (zip (map ce_fd chain) objs) @ dk_fds d)
          \<and> dk_fds (snd (close_durable_directory_chain chain d1)) = dk_fds d
      | Inl e \<Rightarrow> dk_fds d1 = dk_fds d
          \<or> (\<exists>rt obj d2. open_directory_root d = (Inr rt, d2) \<and> chain_root names rt d2 = (Inl e, d1) \<and> dk_fds d1 = (rt, obj) # dk_fds d)"
  proof (cases r1)
    case (Inr chain)
    then have kept: "retained chain (dk_fds d) d1" using chain_opened [OF h two] by simp
    obtain r2 d2 where close: "close_durable_directory_chain chain d1 = (r2, d2)" by fastforce
    then have "holds (dk_fds d) d2"
      using tripleD_return [OF triple_close_chain kept] tripleD_raise [OF triple_close_chain kept] by (cases r2) auto
    then show ?thesis using kept Inr close by (auto simp: retained_def holds_def chain_fds_def)
  qed (use chain_opened [OF h two] in \<open>auto simp: holds_def\<close>)
  ultimately show ?thesis using one by simp
qed

subsection \<open>What the calls saw\<close>

text \<open>Every operation only adds to what was seen.\<close>

definition grows :: "disk \<Rightarrow> disk \<Rightarrow> bool" where
  "grows d d' \<longleftrightarrow> (\<exists>new. dk_seen d' = dk_seen d @ new) \<and> dk_euid d' = dk_euid d \<and> dk_root d' = dk_root d"

interpretation gr: step_preorder grows
  by unfold_locales (auto simp: grows_def)

lemma grows_kernel:
  assumes "\<And>d r d'. f d = (r, d') \<Longrightarrow> dk_seen d' = dk_seen d \<and> dk_euid d' = dk_euid d \<and> dk_root d' = dk_root d"
  shows "st_rel grows (kernel f)"
  unfolding st_rel_def
proof (intro allI impI)
  fix d r d' assume run: "kernel f d = (r, d')"
  obtain bad d1 where t: "tick d = (bad, d1)" by fastforce
  show "grows d d'" using run assms [of d1] tick_fields [OF t] by (cases bad) (auto simp: kernel_def t grows_def)
qed

lemma grows_calls:
  "st_rel grows (fstat fd)" "st_rel grows (stat_at fd name)" "st_rel grows (sync_fd fd)" "st_rel grows (getxattr fd name)"
  "st_rel grows (removexattr fd name)" "st_rel grows (make_directory_at fd name)" "st_rel grows (open_directory_at fd name)"
  "st_rel grows open_directory_root"
  unfolding fstat_def stat_at_def sync_fd_def getxattr_def removexattr_def make_directory_at_def open_directory_at_def open_directory_root_def
    with_child_def
  by (rule grows_kernel; auto simp: with_node_def st_return_def st_raise_def new_fd_def split: option.splits list.splits if_splits)+

lemma grows_close: "st_rel grows (close_fd_ignoring_errors fd)"
proof -
  have "st_rel grows (close_fd fd)"
    unfolding st_rel_def close_fd_def using tick_fields by (auto simp: grows_def split: prod.splits if_splits; fastforce)
  then show ?thesis unfolding close_fd_ignoring_errors_def by (intro gr.rel_rules)
qed

lemma grows_attributes: "st_rel grows (posix_acl_attributes fd)"
proof -
  have "st_rel grows (collect_attributes fd names found)" for names found
    by (induction fd names found rule: collect_attributes.induct)
      (auto intro!: gr.rel_return gr.rel_bind grows_calls split: option.split)
  then show ?thesis by (simp add: posix_acl_attributes_def)
qed

lemmas grows_rules = gr.rel_rules grows_calls grows_attributes grows_close

lemma grows_checks: "st_rel grows (validate_directory_fd fd final)" "st_rel grows (validate_acl_fd fd created ancestor)"
  "st_rel grows (stamped_entry name fd)"
  unfolding validate_directory_fd_def validate_acl_fd_def stamped_entry_def split_beta by (intro grows_rules)+

lemma grows_step: "st_rel grows (validate_child create created final fd child)" "st_rel grows (open_or_make create fd name)"
  unfolding validate_child_def validate_new_directory_fd_def open_or_make_def split_beta by (intro grows_rules grows_checks)+

lemma grows_or_close: "st_rel grows m \<Longrightarrow> st_rel grows (or_close fd m)"
  unfolding or_close_def by (intro grows_rules)

lemma grows_chain_step: "st_rel grows (chain_step create final fd name)"
  unfolding chain_step_def split_beta by (intro grows_rules grows_or_close grows_step grows_checks)

lemma grows_restamp: "st_rel grows (restamp_directory_chain cs)"
proof -
  have "st_rel grows (restamp_after parent cs)" for parent cs
    by (induction parent cs rule: restamp_after.induct) (auto simp: split_beta intro!: grows_rules)
  then show ?thesis unfolding restamp_directory_chain_def by (cases cs) (auto simp: split_beta intro!: grows_rules)
qed

definition observed :: "(nodes \<Rightarrow> bool) \<Rightarrow> disk \<Rightarrow> bool" where
  "observed Q d \<longleftrightarrow> (\<exists>ns \<in> set (dk_seen d). Q ns)"

lemma observed_grows: "observed Q d \<Longrightarrow> grows d d' \<Longrightarrow> observed Q d'"
  by (auto simp: observed_def grows_def)

text \<open>An object with metadata that pass the check.\<close>

definition vouched :: "nat \<Rightarrow> bool \<Rightarrow> nat \<Rightarrow> nodes \<Rightarrow> bool" where
  "vouched euid final obj ns \<longleftrightarrow> (\<exists>n. ns obj = Some n \<and> directory_ok euid final (node_stat n))"

lemma fstat_run:
  assumes "fstat fd d = (Inr (obj, n), d')"
  shows "dk_seen d' = dk_seen d @ [dk_nodes d']" "dk_fds d' = dk_fds d" "map_of (dk_fds d) fd = Some obj" "dk_nodes d' obj = Some n"
  using assms tick_fields by (auto simp: fstat_def kernel_def with_node_def fd_node_def st_return_def bind_eq_Some_conv
      split: prod.splits if_splits option.splits)

lemma stat_at_run:
  assumes "stat_at fd name d = (Inr (obj, n), d')"
  shows "dk_seen d' = dk_seen d @ [dk_nodes d']" "dk_fds d' = dk_fds d"
    "\<exists>dir. map_of (dk_fds d) fd = Some dir \<and> linked (dk_nodes d') dir name = Some obj" "dk_nodes d' obj = Some n"
  using assms tick_fields by (auto simp: stat_at_def kernel_def with_child_def with_node_def fd_node_def st_return_def bind_eq_Some_conv
      split: prod.splits if_splits option.splits)

lemma validate_directory_run:
  assumes "validate_directory_fd fd final d = (Inr u, d')" "map_of (dk_fds d) fd = Some obj"
  shows "observed (vouched (dk_euid d) final obj) d'"
proof -
  obtain obj' n d1 where f: "fstat fd d = (Inr (obj', n), d1)"
    using assms(1) by (auto simp: validate_directory_fd_def st_eval split: prod.splits sum.splits)
  have "dk_euid d1 = dk_euid d" using st_relD [OF grows_calls(1) f] by (simp add: grows_def)
  then have "d' = d1" "directory_ok (dk_euid d) final (node_stat n)"
    using assms(1) f by (auto simp: validate_directory_fd_def st_eval split: if_splits)
  then show ?thesis using fstat_run [OF f] assms(2) by (auto simp: observed_def vouched_def)
qed

lemma mode_private: "directory_ok euid True info \<Longrightarrow> directory_ok euid final info"
  by (auto simp: directory_ok_def split: if_splits)

lemma vouched_weaken: "vouched euid True obj ns \<Longrightarrow> vouched euid final obj ns"
  using mode_private by (auto simp: vouched_def)

lemma holds_objects: "holds L d \<Longrightarrow> map_of (dk_fds d) = map_of L"
  by (simp add: holds_def)

lemma then_run: "st_then m k d = (Inr x, d') \<Longrightarrow> (\<And>y d1. m d = (Inr y, d1) \<Longrightarrow> k d1 = (Inr x, d') \<Longrightarrow> thesis) \<Longrightarrow> thesis"
  and bind_run: "st_bind m f d = (Inr x, d') \<Longrightarrow> (\<And>y d1. m d = (Inr y, d1) \<Longrightarrow> f y d1 = (Inr x, d') \<Longrightarrow> thesis) \<Longrightarrow> thesis"
  for thesis
  by (auto simp: st_eval split: prod.splits sum.splits)

lemma or_close_run: "or_close fd m d = (Inr x, d') \<Longrightarrow> m d = (Inr x, d')"
  and or_close_all_run: "or_close_all cs m d = (Inr x, d') \<Longrightarrow> m d = (Inr x, d')"
proof -
  have raised: "st_then k (st_raise e) d1 \<noteq> (Inr x, d')" for k :: "unit dm" and e d1
    by (auto simp: st_eval split: prod.splits sum.splits)
  show "or_close fd m d = (Inr x, d') \<Longrightarrow> m d = (Inr x, d')" "or_close_all cs m d = (Inr x, d') \<Longrightarrow> m d = (Inr x, d')"
    using raised by (auto simp: or_close_def or_close_all_def st_handle_def st_return_def split: prod.splits sum.splits)
qed

lemma validate_child_run:
  assumes "validate_child create created final fd child d = (Inr u, d')" "holds ((child, obj) # L) d"
  shows "observed (vouched (dk_euid d) final obj) d'"
proof -
  show ?thesis
  proof (cases created)
    case False
    from assms(1) False obtain d1 u1 d2 u2 where v: "validate_directory_fd child final d = (Inr u1, d1)"
      and "validate_acl_fd child False (\<not> final) d1 = (Inr u2, d2)" "(if create then sync_fd fd else st_return ()) d2 = (Inr u, d')"
      unfolding validate_child_def by (auto elim!: then_run)
    moreover have "st_rel grows (if create then sync_fd fd else st_return ())" by (intro grows_rules)
    ultimately have "grows d1 d'" using st_relD [OF grows_checks(2)] st_relD gr.R_trans by metis
    moreover have "map_of (dk_fds d) child = Some obj" using holds_objects [OF assms(2)] by simp
    ultimately show ?thesis using validate_directory_run [OF v] observed_grows by blast
  next
    case True
    from assms(1) True obtain d1 u1 where v: "validate_new_directory_fd child d = (Inr u1, d1)"
      and last: "(if create then sync_fd fd else st_return ()) d1 = (Inr u, d')"
      unfolding validate_child_def by (auto elim!: then_run)
    from v obtain o1 n d2 where f: "fstat child d = (Inr (o1, n), d2)"
      and rest: "(if nd_mode n AND S_IFMT \<noteq> S_IFDIR \<or> nd_uid n \<noteq> dk_euid d2 then st_raise OsError
        else st_then (validate_acl_fd child True False) (st_then (validate_directory_fd child True) (sync_fd child))) d2 = (Inr u1, d1)"
      unfolding validate_new_directory_fd_def by (auto elim!: bind_run simp: st_get_def)
    then obtain d3 u3 d4 u4 where acl: "validate_acl_fd child True False d2 = (Inr u3, d3)"
      and dir: "validate_directory_fd child True d3 = (Inr u4, d4)" and sync: "sync_fd child d4 = (Inr u1, d1)"
      by (auto elim!: then_run simp: st_raise_def split: if_splits)
    have "holds ((child, obj) # L) d2" using st_relD [OF keeps_calls(1) f] assms(2) by blast
    then have h3: "holds ((child, obj) # L) d3" using st_relD [OF keeps_validate(2) acl] by blast
    have "dk_euid d3 = dk_euid d" using st_relD [OF grows_calls(1) f] st_relD [OF grows_checks(2) acl] by (simp add: grows_def)
    then have "observed (vouched (dk_euid d) True obj) d4" using validate_directory_run [OF dir] holds_objects [OF h3] by simp
    moreover have "grows d4 d'"
    proof -
      have s: "st_rel grows (if create then sync_fd fd else st_return ())" by (intro grows_rules)
      show ?thesis using st_relD [OF grows_calls(3) sync] st_relD [OF s last] gr.R_trans by blast
    qed
    ultimately have "observed (vouched (dk_euid d) True obj) d'" using observed_grows by blast
    then show ?thesis unfolding observed_def by (blast intro: vouched_weaken)
  qed
qed

lemma chain_step_run:
  assumes "chain_step create final fd name d = (Inr c, d')" "holds L d"
  obtains obj where "holds ((ce_fd c, obj) # L) d'" "observed (vouched (dk_euid d) final obj) d'" "ce_name c = Some name" "grows d d'"
proof -
  from assms(1) obtain child created d1 where make: "open_or_make create fd name d = (Inr (child, created), d1)"
    and body: "st_then (validate_child create created final fd child) (stamped_entry (Some name) child) d1 = (Inr c, d')"
    unfolding chain_step_def by (auto elim!: bind_run dest!: or_close_run)
  from make obtain obj where h1: "holds ((child, obj) # L) d1" using tripleD_return [OF triple_or_make assms(2)] by fastforce
  from body obtain u d2 where v: "validate_child create created final fd child d1 = (Inr u, d2)" and st: "stamped_entry (Some name) child d2 = (Inr c, d')"
    by (auto elim!: then_run)
  have g: "grows d d1" "grows d1 d2" "grows d2 d'"
    using st_relD [OF grows_step(2) make] st_relD [OF grows_step(1) v] st_relD [OF grows_checks(3) st] by simp_all
  have c: "ce_fd c = child" "ce_name c = Some name" using st by (auto simp: stamped_entry_def st_eval split: prod.splits sum.splits)
  have "holds ((child, obj) # L) d'"
    using st_relD [OF keeps_child_checks v] st_relD [OF keeps_stamped st] h1 by blast
  moreover have "observed (vouched (dk_euid d) final obj) d'"
    using validate_child_run [OF v h1] observed_grows g by (auto simp: grows_def)
  ultimately show thesis using that c g gr.R_trans by blast
qed

lemma chain_walk_run:
  assumes "chain_walk create names fd cs d = (Inr chain, d')" "holds (chain_fds cs objs @ L) d" "length objs = length cs"
  shows "\<exists>new. length new = length names \<and> holds (chain_fds chain (objs @ new) @ L) d' \<and> length chain = length cs + length names
    \<and> map ce_name chain = map ce_name cs @ map Some names \<and> grows d d'
    \<and> (\<forall>i < length names. observed (vouched (dk_euid d) (Suc i = length names) (new ! i)) d')"
  using assms
proof (induction names arbitrary: fd cs d objs)
  case Nil
  then have run: "restamp_directory_chain cs d = (Inr chain, d')" by (auto dest: or_close_all_run)
  have "holds (chain_fds cs objs @ L) d'" using st_relD [OF keeps_restamp run] Nil.prems(2) by blast
  then show ?case using restamp_same [OF run] st_relD [OF grows_restamp run] Nil.prems(3) by (simp add: chain_fds_def)
next
  case (Cons name names)
  from Cons.prems(1) obtain c d1 where step: "chain_step create (names = []) fd name d = (Inr c, d1)"
    and rest: "chain_walk create names (ce_fd c) (cs @ [c]) d1 = (Inr chain, d')"
    by (auto elim!: bind_run dest!: or_close_all_run)
  obtain obj where c: "holds ((ce_fd c, obj) # chain_fds cs objs @ L) d1" "observed (vouched (dk_euid d) (names = []) obj) d1"
    "ce_name c = Some name" "grows d d1" by (rule chain_step_run [OF step Cons.prems(2)])
  have "holds (chain_fds (cs @ [c]) (objs @ [obj]) @ L) d1" using c(1) Cons.prems(3) by (simp add: chain_fds_append)
  from Cons.IH [OF rest this] Cons.prems(3) obtain new where new: "length new = length names" "holds (chain_fds chain ((objs @ [obj]) @ new) @ L) d'"
    "length chain = length (cs @ [c]) + length names" "map ce_name chain = map ce_name (cs @ [c]) @ map Some names" "grows d1 d'"
    "\<forall>i < length names. observed (vouched (dk_euid d1) (Suc i = length names) (new ! i)) d'" by auto
  have "observed (vouched (dk_euid d) (Suc i = length (name # names)) ((obj # new) ! i)) d'" if "i < length (name # names)" for i
  proof (cases i)
    case 0
    then show ?thesis using observed_grows [OF c(2) new(5)] by simp
  next
    case (Suc k)
    then show ?thesis using new(6) that c(4) by (simp add: grows_def)
  qed
  moreover have "grows d d'" using c(4) new(5) gr.R_trans by blast
  ultimately show ?case using new(1-4) c(3) by (intro exI [of _ "obj # new"]) simp
qed

text \<open>Each entry was, at a moment, what its name meant in the directory before it, with the metadata of its stamp.\<close>

fun linked_chain :: "nodes set \<Rightarrow> nat \<Rightarrow> (chain_entry \<times> nat) list \<Rightarrow> bool" where
  "linked_chain S dir [] \<longleftrightarrow> True"
| "linked_chain S dir ((c, obj) # cs) \<longleftrightarrow>
     (\<exists>ns \<in> S. linked ns dir (the (ce_name c)) = Some obj \<and> (\<exists>n. ns obj = Some n \<and> directory_chain_stamp obj n = ce_stamp c)) \<and> linked_chain S obj cs"

lemma linked_chain_mono: "linked_chain S dir cs \<Longrightarrow> S \<subseteq> S' \<Longrightarrow> linked_chain S' dir cs"
  by (induction S dir cs rule: linked_chain.induct) auto

lemma current_after_run:
  assumes "current_after parent cs d = (Inr True, d')" "map_of (dk_fds d) parent = Some dir"
  shows "\<exists>objs new. length objs = length cs \<and> map (\<lambda>c. map_of (dk_fds d) (ce_fd c)) cs = map Some objs \<and> dk_seen d' = dk_seen d @ new
    \<and> linked_chain (set new) dir (zip cs objs)"
  using assms
proof (induction parent cs arbitrary: d dir rule: current_after.induct)
  case (2 parent c cs)
  from 2(2) obtain obj n d1 obj' n' d2 where f: "fstat (ce_fd c) d = (Inr (obj, n), d1)" and st: "stat_at parent (the (ce_name c)) d1 = (Inr (obj', n'), d2)"
    and same: "directory_chain_stamp obj n = ce_stamp c" "directory_chain_stamp obj' n' = ce_stamp c"
    and rest: "current_after (ce_fd c) cs d2 = (Inr True, d')"
    by (auto elim!: bind_run simp: st_return_def split: if_splits)
  note fr = fstat_run [OF f] and sr = stat_at_run [OF st]
  have fds: "dk_fds d2 = dk_fds d" using fr(2) sr(2) by simp
  have obj: "obj' = obj" using arg_cong [OF same(1), of fst] arg_cong [OF same(2), of fst] by (simp add: directory_chain_stamp_def)
  have "map_of (dk_fds d2) (ce_fd c) = Some obj" using fr(3) fds by simp
  from 2(1) [OF _ _ rest this] same obtain objs new where ih: "length objs = length cs" "map (\<lambda>c. map_of (dk_fds d2) (ce_fd c)) cs = map Some objs"
    "dk_seen d' = dk_seen d2 @ new" "linked_chain (set new) obj (zip cs objs)" by blast
  have seen: "dk_seen d' = dk_seen d @ [dk_nodes d1, dk_nodes d2] @ new" using ih(3) fr(1) sr(1) by simp
  have "linked (dk_nodes d2) dir (the (ce_name c)) = Some obj" using sr(2,3) fr(2) 2(3) obj by auto
  then have "linked_chain (set ([dk_nodes d1, dk_nodes d2] @ new)) dir ((c, obj) # zip cs objs)"
    using sr(4) same obj linked_chain_mono [OF ih(4), of "set ([dk_nodes d1, dk_nodes d2] @ new)"] by auto
  then show ?case using ih(1,2) fr(3) seen fds by (intro exI [of _ "obj # objs"] exI [of _ "[dk_nodes d1, dk_nodes d2] @ new"]) simp
qed (auto simp: st_return_def)

text \<open>Without changes by others, what was seen is what there is.\<close>

definition undisturbed :: "disk \<Rightarrow> bool" where "undisturbed d \<longleftrightarrow> (\<forall>t \<in> set (dk_ticks d). snd t = id)"

definition calm_step :: "disk \<Rightarrow> disk \<Rightarrow> bool" where
  "calm_step d d' \<longleftrightarrow> (\<exists>new. dk_seen d' = dk_seen d @ new \<and> (undisturbed d \<longrightarrow> undisturbed d' \<and> dk_nodes d' = dk_nodes d \<and> set new \<subseteq> {dk_nodes d}))"

interpretation cs: step_preorder calm_step
proof
  show "calm_step d d" for d by (simp add: calm_step_def)
  show "calm_step d u" if "calm_step d t" "calm_step t u" for d t u
    using that by (force simp: calm_step_def)
qed

lemma calm_calls: "st_rel calm_step (fstat fd)" "st_rel calm_step (stat_at fd name)"
proof -
  have t: "calm_step d d1" if "tick d = (bad, d1)" for d bad d1
    using that by (auto simp: tick_def calm_step_def undisturbed_def split: list.splits)
  have k: "st_rel calm_step (kernel f)" if "\<And>d r d'. f d = (r, d') \<Longrightarrow> d' = d" for f :: "'a dm"
    unfolding st_rel_def
  proof (intro allI impI)
    fix d r d' assume run: "kernel f d = (r, d')"
    obtain bad d1 where tick: "tick d = (bad, d1)" by fastforce
    then have "d' = d1" using run that by (auto simp: kernel_def split: if_splits)
    then show "calm_step d d'" using t [OF tick] by simp
  qed
  show "st_rel calm_step (fstat fd)" "st_rel calm_step (stat_at fd name)"
    unfolding fstat_def stat_at_def with_child_def with_node_def
    by (rule k; auto simp: st_return_def split: option.splits)+
qed

lemma calm_current: "st_rel calm_step (current_after parent cs)"
  by (induction parent cs rule: current_after.induct) (auto simp: split_beta intro!: cs.rel_rules calm_calls)

fun resolve :: "nodes \<Rightarrow> nat \<Rightarrow> string list \<Rightarrow> nat option" where
  "resolve ns dir [] = Some dir"
| "resolve ns dir (name # names) = Option.bind (linked ns dir name) (\<lambda>obj. resolve ns obj names)"

lemma linked_chain_resolve:
  "length objs = length cs \<Longrightarrow> linked_chain {ns} dir (zip cs objs) \<Longrightarrow> resolve ns dir (map (\<lambda>c. the (ce_name c)) cs) = Some (last (dir # objs))"
  by (induction cs objs arbitrary: dir rule: list_induct2') auto

lemma open_root_run:
  assumes "open_directory_root d = (Inr rt, d1)" "holds L d"
  shows "holds ((rt, dk_root d) # L) d1" "grows d d1"
proof -
  obtain bad d2 where t: "tick d = (bad, d2)" by fastforce
  then have "holds L d2" "dk_root d2 = dk_root d" using assms(2) tick_fields by (auto simp: holds_tick)
  then show "holds ((rt, dk_root d) # L) d1"
    using assms(1) by (auto simp: open_directory_root_def kernel_def t new_fd_def holds_def less_Suc_eq split: if_splits)
  show "grows d d1" using st_relD [OF grows_calls(8) assms(1)] .
qed

lemma chain_objects:
  assumes "open_durable_directory_chain create names d = (Inr chain, d')" "holds L d"
  obtains objs where "length objs = length names" "length chain = Suc (length names)" "holds (chain_fds chain (dk_root d # objs) @ L) d'"
    "map ce_name chain = None # map Some names"
    "\<forall>i < length chain. observed (vouched (dk_euid d) (Suc i = length chain) ((dk_root d # objs) ! i)) d'"
proof -
  from assms(1) obtain rt d1 c d2 where op: "open_directory_root d = (Inr rt, d1)" and root: "chain_root names rt d1 = (Inr c, d2)"
    and walk: "chain_walk create names rt [c] d2 = (Inr chain, d')"
    unfolding open_durable_directory_chain_def by (auto elim!: bind_run)
  note h1 = open_root_run [OF op assms(2)]
  note h2 = chain_root_run [OF h1(1) root]
  from root obtain u1 d3 u2 d4 where v: "validate_directory_fd rt (names = []) d1 = (Inr u1, d3)" and a: "validate_acl_fd rt False (names \<noteq> []) d3 = (Inr u2, d4)"
    and s: "stamped_entry None rt d4 = (Inr c, d2)"
    unfolding chain_root_def by (auto elim!: then_run)
  have g: "grows d d2" "grows d3 d2"
    using h1(2) st_relD [OF grows_checks(1) v] st_relD [OF grows_checks(2) a] st_relD [OF grows_checks(3) s] gr.R_trans by blast+
  have "observed (vouched (dk_euid d) (names = []) (dk_root d)) d3"
    using validate_directory_run [OF v] holds_objects [OF h1(1)] h1(2) by (simp add: grows_def)
  then have v2: "observed (vouched (dk_euid d) (names = []) (dk_root d)) d2" using g(2) observed_grows by blast
  have "holds (chain_fds [c] [dk_root d] @ L) d2" using h2(1) h2(2) [OF refl] by (simp add: chain_fds_def)
  from chain_walk_run [OF walk this] obtain new where new: "length new = length names" "holds (chain_fds chain ([dk_root d] @ new) @ L) d'"
    "length chain = length [c] + length names" "map ce_name chain = map ce_name [c] @ map Some names" "grows d2 d'"
    "\<forall>i < length names. observed (vouched (dk_euid d2) (Suc i = length names) (new ! i)) d'" by auto
  have "observed (vouched (dk_euid d) (Suc i = length chain) ((dk_root d # new) ! i)) d'" if "i < length chain" for i
    using that new(3,6) observed_grows [OF v2 new(5)] g(1) by (cases i) (auto simp: grows_def)
  then show thesis using that [of new] new h2(2) [OF refl] by simp
qed

lemma chain_fds_lookup:
  assumes "holds (chain_fds chain objs @ L) d" "length objs = length chain"
  shows "map (\<lambda>c. map_of (dk_fds d) (ce_fd c)) chain = map Some objs"
proof (rule nth_equalityI)
  fix i assume "i < length (map (\<lambda>c. map_of (dk_fds d) (ce_fd c)) chain)"
  then have i: "i < length chain" by simp
  have "(ce_fd (chain ! i), objs ! i) \<in> set (zip (map ce_fd chain) objs)" using i assms(2) by (auto simp: set_zip intro!: exI [of _ i])
  then have "(ce_fd (chain ! i), objs ! i) \<in> set (dk_fds d)" using assms(1) by (simp add: holds_def chain_fds_def)
  moreover have "distinct (map fst (dk_fds d))" using assms(1) by (auto simp: holds_def)
  ultimately show "map (\<lambda>c. map_of (dk_fds d) (ce_fd c)) chain ! i = map Some objs ! i" using i assms(2) by (simp add: map_of_is_SomeI)
qed (simp add: assms(2))

text \<open>C30: When a retained chain is found current, its descriptors still are what the configured path means: they stand for a chain of
  directories from the root, each of which passed its check when the chain was opened, and each was during the check linked in the one before
  under its component of the path, with unchanged metadata; if nothing else changes the file system during the check, resolving the path
  gives the directory of the last descriptor.\<close>

theorem current_chain_is_path:
  assumes "distinct (map fst (dk_fds d0))" and "\<forall>fd \<in> set (map fst (dk_fds d0)). fd < dk_next d0"
    and "open_durable_directory_chain create names d0 = (Inr chain, d1)"
    and "\<forall>c \<in> set chain. map_of (dk_fds d) (ce_fd c) = map_of (dk_fds d1) (ce_fd c)"
    and "retained_directory_chain_is_current chain d = (Inr True, d')"
  shows "\<exists>objs. length objs = length names \<and> map (\<lambda>c. map_of (dk_fds d) (ce_fd c)) chain = map Some (dk_root d0 # objs)
    \<and> (\<forall>i < length chain. \<exists>ns \<in> set (dk_seen d1). vouched (dk_euid d0) (Suc i = length chain) ((dk_root d0 # objs) ! i) ns)
    \<and> linked_chain (set (drop (length (dk_seen d)) (dk_seen d'))) (dk_root d0) (zip (tl chain) objs)
    \<and> (undisturbed d \<longrightarrow> resolve (dk_nodes d) (dk_root d0) names = Some (last (dk_root d0 # objs)))"
proof -
  have "holds (dk_fds d0) d0" using assms(1,2) by (simp add: holds_def)
  from chain_objects [OF assms(3) this] obtain objs where o: "length objs = length names" "length chain = Suc (length names)"
    "holds (chain_fds chain (dk_root d0 # objs) @ dk_fds d0) d1" "map ce_name chain = None # map Some names"
    "\<forall>i < length chain. observed (vouched (dk_euid d0) (Suc i = length chain) ((dk_root d0 # objs) ! i)) d1" by blast
  have fds: "map (\<lambda>c. map_of (dk_fds d) (ce_fd c)) chain = map Some (dk_root d0 # objs)"
  proof -
    have "map (\<lambda>c. map_of (dk_fds d) (ce_fd c)) chain = map (\<lambda>c. map_of (dk_fds d1) (ce_fd c)) chain" using assms(4) by simp
    then show ?thesis using chain_fds_lookup [OF o(3)] o(1,2) by simp
  qed
  obtain c cs where chain: "chain = c # cs" using o(2) by (cases chain) auto
  from assms(5) obtain obj n d2 where f: "fstat (ce_fd c) d = (Inr (obj, n), d2)" and after: "current_after (ce_fd c) cs d2 = (Inr True, d')"
    by (auto simp: retained_directory_chain_is_current_def chain st_eval split: prod.splits sum.splits if_splits)
  note fr = fstat_run [OF f]
  have root: "map_of (dk_fds d2) (ce_fd c) = Some (dk_root d0)" using fds chain fr(2) by simp
  from current_after_run [OF after this] obtain objs' new where run: "length objs' = length cs"
    "map (\<lambda>c. map_of (dk_fds d2) (ce_fd c)) cs = map Some objs'" "dk_seen d' = dk_seen d2 @ new" "linked_chain (set new) (dk_root d0) (zip cs objs')" by blast
  have same: "objs' = objs" using run(2) fds chain fr(2) by (simp add: inj_map_eq_map)
  have dropped: "drop (length (dk_seen d)) (dk_seen d') = dk_nodes d2 # new" using run(3) fr(1) by simp
  have con: "linked_chain (set (drop (length (dk_seen d)) (dk_seen d'))) (dk_root d0) (zip (tl chain) objs)"
    using linked_chain_mono [OF run(4)] same chain dropped by auto
  have "resolve (dk_nodes d) (dk_root d0) names = Some (last (dk_root d0 # objs))" if "undisturbed d"
  proof -
    have "calm_step d d'" using st_relD [OF calm_calls(1) f] st_relD [OF calm_current after] cs.R_trans by blast
    then have "set (drop (length (dk_seen d)) (dk_seen d')) \<subseteq> {dk_nodes d}" using that by (auto simp: calm_step_def)
    from linked_chain_mono [OF con this] have "linked_chain {dk_nodes d} (dk_root d0) (zip cs objs)" by (simp add: chain)
    then have "resolve (dk_nodes d) (dk_root d0) (map (\<lambda>c. the (ce_name c)) cs) = Some (last (dk_root d0 # objs))"
      using linked_chain_resolve o(1,2) chain by simp
    moreover have "map (\<lambda>c. the (ce_name c)) cs = names"
    proof -
      have "map ce_name cs = map Some names" using o(4) chain by simp
      then have "map the (map ce_name cs) = map the (map Some names)" by simp
      then show ?thesis by (simp add: comp_def)
    qed
    ultimately show ?thesis by simp
  qed
  then show ?thesis using o(1,5) fds con unfolding observed_def by blast
qed

subsection \<open>A directory below the root\<close>

definition sample_nodes :: "mode \<Rightarrow> nodes" where
  "sample_nodes m = [0 \<mapsto> \<lparr>nd_mode = m, nd_uid = 0, nd_links = 3, nd_mtime = 1, nd_ctime = 1, nd_attrs = Some [], nd_children = [''s'' \<mapsto> 1]\<rparr>,
     1 \<mapsto> \<lparr>nd_mode = 0x41C0, nd_uid = 5, nd_links = 2, nd_mtime = 1, nd_ctime = 1, nd_attrs = Some [], nd_children = Map.empty\<rparr>]"

definition sample_disk :: "mode \<Rightarrow> disk" where
  "sample_disk m = \<lparr>dk_euid = 5, dk_root = 0, dk_nodes = sample_nodes m, dk_fds = [], dk_next = 0, dk_free = [2, 3], dk_born = id,
     dk_ticks = [], dk_seen = []\<rparr>"

definition sample_chain :: "chain_entry list" where
  "sample_chain = [\<lparr>ce_fd = 0, ce_name = None, ce_stamp = (0, 0x41ED, 0, 3, 1, 1)\<rparr>, \<lparr>ce_fd = 1, ce_name = Some ''s'', ce_stamp = (1, 0x41C0, 5, 2, 1, 1)\<rparr>]"

lemma sample_opened:
  "fst (open_durable_directory_chain False [''s''] (sample_disk 0x41ED)) = Inr sample_chain"
  "fst (retained_directory_chain_is_current sample_chain (snd (open_durable_directory_chain False [''s''] (sample_disk 0x41ED)))) = Inr True"
  "dk_ticks (snd (open_durable_directory_chain False [''s''] (sample_disk 0x41ED))) = []"
  by code_simp+

text \<open>A root that other users may write to is refused, and its descriptor stays open.\<close>

lemma refused_root_leaks:
  "fst (open_durable_directory_chain False [''s''] (sample_disk 0x41FF)) = Inl OsError"
  "dk_fds (snd (open_durable_directory_chain False [''s''] (sample_disk 0x41FF))) = [(0, 0)]"
  "dk_fds (snd (open_durable_directory False [''s''] (sample_disk 0x41FF))) = []"
  by code_simp+

theorem walk_descriptors_witness:
  "dk_fds (snd (close_durable_directory_chain sample_chain (snd (open_durable_directory_chain False [''s''] (sample_disk 0x41ED))))) = []"
proof -
  let ?d = "sample_disk 0x41ED"
  have "distinct (map fst (dk_fds ?d))" "\<forall>fd \<in> set (map fst (dk_fds ?d)). fd < dk_next ?d" "dk_fds ?d = []" by (simp_all add: sample_disk_def)
  with walk_descriptors [OF this(1,2), of False "[''s'']"] sample_opened(1) show ?thesis by (auto split: prod.splits)
qed

theorem current_chain_is_path_witness:
  "\<exists>chain d d'. fst (open_durable_directory_chain False [''s''] (sample_disk 0x41ED)) = Inr chain
     \<and> retained_directory_chain_is_current chain d = (Inr True, d') \<and> resolve (dk_nodes d) 0 [''s''] = map_of (dk_fds d) (ce_fd (last chain))"
proof -
  let ?d0 = "sample_disk 0x41ED"
  obtain d where op: "open_durable_directory_chain False [''s''] ?d0 = (Inr sample_chain, d)" using sample_opened(1) by (metis prod.collapse)
  then obtain d' where cur: "retained_directory_chain_is_current sample_chain d = (Inr True, d')" using sample_opened(2) by (metis prod.collapse snd_conv)
  have "undisturbed d" using sample_opened(3) op by (simp add: undisturbed_def)
  have "distinct (map fst (dk_fds ?d0))" "\<forall>fd \<in> set (map fst (dk_fds ?d0)). fd < dk_next ?d0" and root: "dk_root ?d0 = 0"
    by (simp_all add: sample_disk_def)
  from current_chain_is_path [OF this(1,2) op _ cur] \<open>undisturbed d\<close> obtain objs where "length objs = length [''s'']"
    "map (\<lambda>c. map_of (dk_fds d) (ce_fd c)) sample_chain = map Some (dk_root ?d0 # objs)"
    "resolve (dk_nodes d) (dk_root ?d0) [''s''] = Some (last (dk_root ?d0 # objs))" by blast
  then have "resolve (dk_nodes d) 0 [''s''] = map_of (dk_fds d) (ce_fd (last sample_chain))"
    unfolding root by (cases objs) (auto simp: sample_chain_def)
  then show ?thesis using op cur by (metis fst_conv)
qed

end
