(* ===== verification/Trust.thy ===== *)
theory Trust
  imports Messages
begin

text \<open>
  \<^verbatim>\<open>samsung/trust.py\<close> and the \<open>trust-tv\<close> command of \<^verbatim>\<open>app.py\<close>: the one television
  certificate that an operator approved. The \<open>ssl\<close> and \<open>hashlib\<close> modules are parameters; reading
  and writing the private pin file are those of the storage theories, seen here as a result.
  Shown: what \<open>trust-tv\<close> stores is exactly the certificate whose fingerprint was approved, it
  loads back as itself, and a connection passes exactly when its peer presents that certificate.
\<close>

subsection \<open>The library\<close>

text \<open>\<open>ts_to_pem\<close> and \<open>ts_to_der\<close> are \<open>None\<close> when the conversion raises an error that the code
  catches; \<open>ts_loads\<close> tells whether a context accepts the certificate as a trust anchor.\<close>

record tls_library =
  ts_to_pem :: "bytes \<Rightarrow> string option"
  ts_to_der :: "string \<Rightarrow> bytes option"
  ts_sha256 :: "bytes \<Rightarrow> bytes"
  ts_loads :: "string \<Rightarrow> bool"

record certificate =
  ct_pem :: string
  ct_der :: bytes
  ct_sha256 :: string

text \<open>\<open>str.count\<close>: occurrences that do not overlap.\<close>

function count_text :: "string \<Rightarrow> string \<Rightarrow> nat" where
  "count_text sub [] = 0"
| "count_text sub (c # s) =
     (if sub \<noteq> [] \<and> take (length sub) (c # s) = sub then Suc (count_text sub (drop (length sub) (c # s))) else count_text sub s)"
  by pat_completeness auto
termination
  by (relation "measure (length \<circ> snd)") auto

subsection \<open>Certificates\<close>

definition certificate_sha256 :: "tls_library \<Rightarrow> bytes \<Rightarrow> string" where
  "certificate_sha256 L der = concat (map (\<lambda>b. map (\<lambda>d. if d < 10 then char_of (48 + d) else char_of (87 + d)) [unat b div 16, unat b mod 16]) (ts_sha256 L der))"

text \<open>The peer's certificate, \<open>None\<close> when it is no bytes object.\<close>

definition certificate_from_der :: "tls_library \<Rightarrow> bytes option \<Rightarrow> certificate result" where
  "certificate_from_der L der =
     (case der of
        None \<Rightarrow> Inl TlsTrustError
      | Some d \<Rightarrow> if d = [] then Inl TlsTrustError
          else (case ts_to_pem L d of
              None \<Rightarrow> Inl TlsTrustError
            | Some pem \<Rightarrow> Inr \<lparr>ct_pem = pem, ct_der = d, ct_sha256 = certificate_sha256 L d\<rparr>))"

definition certificate_from_pem :: "tls_library \<Rightarrow> string \<Rightarrow> certificate result" where
  "certificate_from_pem L pem =
     (if count_text ''-----BEGIN CERTIFICATE-----'' pem \<noteq> 1 \<or> count_text ''-----END CERTIFICATE-----'' pem \<noteq> 1 then Inl TlsTrustError
      else case ts_to_der L pem of
        None \<Rightarrow> Inl TlsTrustError
      | Some der \<Rightarrow> rbind (certificate_from_der L (Some der)) (\<lambda>c.
          if py_strip pem \<noteq> py_strip (ct_pem c) then Inl TlsTrustError else Inr c))"

text \<open>\<open>create_pinned_ssl_context\<close>: the context trusts this certificate alone.\<close>

definition create_pinned_ssl_context :: "tls_library \<Rightarrow> certificate \<Rightarrow> unit result" where
  "create_pinned_ssl_context L c = (if ts_loads L (ct_pem c) then Inr () else Inl TlsTrustError)"

subsection \<open>The pin\<close>

text \<open>The result of reading the pin file; other exceptions than those of the file pass.\<close>

definition load_trusted_certificate :: "tls_library \<Rightarrow> string result \<Rightarrow> certificate result" where
  "load_trusted_certificate L content =
     (case content of
        Inl e \<Rightarrow> Inl (if e \<in> {FileNotFound, OsError, ConnectionError, TimeoutError, UnicodeError} then TlsTrustError else e)
      | Inr pem \<Rightarrow> rbind (certificate_from_pem L pem) (\<lambda>c. rbind (create_pinned_ssl_context L c) (\<lambda>_. Inr c)))"

text \<open>What is written to the pin file.\<close>

definition persist_trusted_certificate :: "tls_library \<Rightarrow> certificate \<Rightarrow> (string \<times> certificate) result" where
  "persist_trusted_certificate L c =
     rbind (certificate_from_pem L (ct_pem c)) (\<lambda>validated.
       if ct_der validated \<noteq> ct_der c then Inl TlsTrustError
       else rbind (create_pinned_ssl_context L validated) (\<lambda>_. Inr (ct_pem validated, validated)))"

text \<open>What a websocket shows of its peer: no transport, no TLS, a failing or an empty answer.\<close>

datatype tls_peer = NoTlsTransport | NotTls | PeerUnreadable | PeerCertificate "bytes option"

definition verify_connected_certificate :: "tls_peer \<Rightarrow> certificate \<Rightarrow> unit result" where
  "verify_connected_certificate peer c =
     (case peer of
        PeerCertificate (Some der) \<Rightarrow> if der \<noteq> [] \<and> der = ct_der c then Inr () else Inl TlsTrustError
      | _ \<Rightarrow> Inl TlsTrustError)"

text \<open>The bootstrap handshake: the peer's certificate, or an error of the socket or the handshake.\<close>

definition fetch_tv_certificate :: "tls_library \<Rightarrow> bytes option result \<Rightarrow> certificate result" where
  "fetch_tv_certificate L handshake =
     (case handshake of
        Inl e \<Rightarrow> Inl (if e \<in> {FileNotFound, OsError, ConnectionError, TimeoutError, ValueError, UnicodeError} then TlsTrustError else e)
      | Inr der \<Rightarrow> certificate_from_der L der)"

subsection \<open>The command\<close>

text \<open>The exit code and the text written to the pin file. \<open>saved\<close> is the result of the write.\<close>

definition cmd_trust_tv :: "tls_library \<Rightarrow> bool \<Rightarrow> bytes option result \<Rightarrow> string option \<Rightarrow> (string \<Rightarrow> unit result) \<Rightarrow> (int \<times> string option) result" where
  "cmd_trust_tv L has_state_dir handshake approved saved =
     (if \<not> has_state_dir then Inr (2, None)
      else case fetch_tv_certificate L handshake of
        Inl e \<Rightarrow> if e = TlsTrustError then Inr (1, None) else Inl e
      | Inr c \<Rightarrow>
          (case approved of
             None \<Rightarrow> Inr (0, None)
           | Some text \<Rightarrow>
               if lower_text (py_strip (filter (\<lambda>ch. ch \<noteq> CHR '':'') text)) \<noteq> ct_sha256 c then Inr (1, None)
               else (case persist_trusted_certificate L c of
                 Inl e \<Rightarrow> Inr (1, None)
               | Inr (pem, v) \<Rightarrow>
                   (case saved pem of
                      Inr u \<Rightarrow> Inr (0, Some pem)
                    | Inl e \<Rightarrow> if e \<in> {FileNotFound, OsError, ConnectionError, TimeoutError, TlsTrustError} then Inr (1, None) else Inl e))))"

subsection \<open>The pin round trip\<close>

lemma from_der_parts: "certificate_from_der L der = Inr c \<Longrightarrow> der = Some (ct_der c) \<and> ct_der c \<noteq> [] \<and> ts_to_pem L (ct_der c) = Some (ct_pem c)
    \<and> ct_sha256 c = certificate_sha256 L (ct_der c)"
  by (auto simp: certificate_from_der_def split: option.splits if_splits)

lemma from_der_inject:
  assumes "certificate_from_der L (Some d) = Inr c" "certificate_from_der L (Some d) = Inr c'" shows "c = c'"
  using assms by simp

lemma persisted_is_itself:
  assumes "persist_trusted_certificate L c = Inr (pem, v)" "certificate_from_der L der = Inr c"
  shows "pem = ct_pem c \<and> v = c \<and> certificate_from_pem L pem = Inr c \<and> ts_loads L pem"
proof -
  have v: "certificate_from_pem L (ct_pem c) = Inr v" "ct_der v = ct_der c" "ts_loads L (ct_pem v)" "pem = ct_pem v"
    using assms(1) by (auto simp: persist_trusted_certificate_def create_pinned_ssl_context_def result_simps split: if_splits)
  obtain d where "certificate_from_der L (Some d) = Inr v"
    using v(1) by (auto simp: certificate_from_pem_def result_simps split: if_splits option.splits)
  moreover have "d = ct_der c" using from_der_parts [OF calculation] v(2) by simp
  moreover have "certificate_from_der L (Some (ct_der c)) = Inr c" using from_der_parts [OF assms(2)] assms(2) by simp
  ultimately have "v = c" by simp
  with v show ?thesis by simp
qed

text \<open>C27: When \<open>trust-tv\<close> stores a pin, the operator approved the fingerprint of the certificate that the television
  presented; the stored text loads as that certificate; and a connection is then accepted exactly when its peer presents
  the same certificate, byte for byte, over TLS.\<close>

theorem trust_pin_exact:
  assumes "cmd_trust_tv L has_state_dir handshake approved saved = Inr (code, Some pem)"
  shows "code = 0 \<and> has_state_dir \<and> saved pem = Inr () \<and> (\<exists>der c. handshake = Inr (Some der) \<and> ct_der c = der
    \<and> load_trusted_certificate L (Inr pem) = Inr c
    \<and> approved \<noteq> None \<and> lower_text (py_strip (filter (\<lambda>ch. ch \<noteq> CHR '':'') (the approved))) = certificate_sha256 L der
    \<and> (\<forall>peer. verify_connected_certificate peer c = Inr () \<longleftrightarrow> peer = PeerCertificate (Some der)))"
proof -
  obtain c where fetched: "fetch_tv_certificate L handshake = Inr c" "has_state_dir"
    using assms by (auto simp: cmd_trust_tv_def split: if_splits sum.splits)
  obtain given where given: "approved = Some given" "lower_text (py_strip (filter (\<lambda>ch. ch \<noteq> CHR '':'') given)) = ct_sha256 c"
    using assms fetched by (auto simp: cmd_trust_tv_def split: if_splits option.splits)
  have run: "(case persist_trusted_certificate L c of Inl e \<Rightarrow> Inr (1, None)
      | Inr (pem, v) \<Rightarrow> (case saved pem of Inr u \<Rightarrow> Inr (0, Some pem)
          | Inl e \<Rightarrow> if e \<in> {FileNotFound, OsError, ConnectionError, TimeoutError, TlsTrustError} then Inr (1, None) else Inl e)) = Inr (code, Some pem)"
    using assms by (simp add: cmd_trust_tv_def fetched given)
  obtain v where v: "persist_trusted_certificate L c = Inr (pem, v)" "saved pem = Inr ()" "code = 0"
  proof (cases "persist_trusted_certificate L c")
    case (Inl e)
    then show thesis using run by simp
  next
    case (Inr pv)
    then have "saved (fst pv) = Inr () \<and> code = 0 \<and> fst pv = pem"
      using run by (cases "saved (fst pv)") (simp_all add: split_beta split: if_split_asm)
    then show thesis using Inr that [of "snd pv"] by auto
  qed
  obtain der where der: "handshake = Inr der" "certificate_from_der L der = Inr c"
    using fetched(1) by (auto simp: fetch_tv_certificate_def split: sum.splits)
  note parts = from_der_parts [OF der(2)] and same = persisted_is_itself [OF v(1) der(2)]
  have "load_trusted_certificate L (Inr pem) = Inr c"
    using same by (auto simp: load_trusted_certificate_def create_pinned_ssl_context_def)
  moreover have "verify_connected_certificate peer c = Inr () \<longleftrightarrow> peer = PeerCertificate (Some (ct_der c))" for peer
    using parts by (auto simp: verify_connected_certificate_def split: tls_peer.splits option.splits if_splits)
  ultimately show ?thesis using v fetched given der parts by auto
qed

definition sample_tls :: tls_library where
  "sample_tls = \<lparr>ts_to_pem = (\<lambda>d. Some (''-----BEGIN CERTIFICATE-----'' @ string_of d @ ''-----END CERTIFICATE-----'')),
     ts_to_der = (\<lambda>pem. Some (bytes_of (take (length pem - 52) (drop 27 pem)))), ts_sha256 = id, ts_loads = (\<lambda>_. True)\<rparr>"

theorem trust_pin_exact_witness:
  "\<exists>c. load_trusted_certificate sample_tls (Inr ''-----BEGIN CERTIFICATE-----A-----END CERTIFICATE-----'') = Inr c \<and> ct_der c = [65]"
proof -
  have "cmd_trust_tv sample_tls True (Inr (Some [65])) (Some ''41'') (\<lambda>_. Inr ())
      = Inr (0, Some ''-----BEGIN CERTIFICATE-----A-----END CERTIFICATE-----'')"
    by code_simp
  from trust_pin_exact [OF this] show ?thesis by auto
qed

end
