(* ===== verification/Commands.thy ===== *)
theory Commands
  imports PairedClients Trust
begin

text \<open>
  The administrative commands of \<^verbatim>\<open>app.py\<close> that work on the state directory next to the running
  daemon: \<open>pair\<close>, \<open>pairs\<close>, \<open>revoke\<close>, and the readiness probe \<open>healthcheck\<close>. A command returns its
  exit status with what it reports; an exception it does not catch is a value. What other processes do
  to the directory while a store is opened are the moments of the theory on paired clients.

  Shown: a PIN that was printed belongs to a durable window of the persisted identity, and a client
  that was revoked stays revoked over a power loss, for the running daemon too.
\<close>

subsection \<open>Reports\<close>

datatype report =
    NeedStateDir | NeedIdentifier | StateError | NotCommitted | ResetPending | NoIdentity | BadIdentity | BadDuration
  | Enrollment string string | Listed "string list" | Revoked string | NoMatch string
  | NeedPort | HealthFailed | Healthy

definition is_os_error :: "exn \<Rightarrow> bool" where
  "is_os_error e \<longleftrightarrow> e \<in> {OsError, FileNotFound, TimeoutError, ConnectionError}"

definition is_store_error :: "exn \<Rightarrow> bool" where
  "is_store_error e \<longleftrightarrow> e \<in> {PairedClientsError, PairedClientsFull}"

definition is_value_error :: "exn \<Rightarrow> bool" where
  "is_value_error e \<longleftrightarrow> e \<in> {ValueError, UnicodeError, FrameTooLarge}"

text \<open>\<open>_state_dir_for_management\<close>; \<open>code\<close> is how the command returns an exit status.\<close>

definition with_state_dir :: "bool \<Rightarrow> (int \<times> report \<Rightarrow> 'a) \<Rightarrow> 'a result \<times> world \<Rightarrow> world \<Rightarrow> 'a result \<times> world" where
  "with_state_dir has_dir code outcome w = (if has_dir then outcome else (Inr (code (2, NeedStateDir)), w))"

subsection \<open>The commands\<close>

text \<open>\<open>now\<close>, \<open>later\<close> and the two supplies of random draws are those of the opening of a window: \<open>None\<close> when
  they are used up before a fresh PIN or generation is drawn. \<open>local_time\<close> renders the expiry, outside the handlers.\<close>

definition open_enrollment :: "rat \<Rightarrow> rat \<Rightarrow> nat list \<Rightarrow> bytes list \<Rightarrow> rat \<Rightarrow> pairing_window option io" where
  "open_enrollment now later pins tokens duration = transaction (io_bind load_persisted_identity (\<lambda>ident.
     open_locked now later pins tokens (si_identifier ident) (si_generation ident) duration))"

definition pair_failure :: "exn \<Rightarrow> (int \<times> report) option result" where
  "pair_failure e =
     (if e = ResetInProgress then Inr (Some (1, ResetPending))
      else if e = MissingIdentity then Inr (Some (1, NoIdentity))
      else if e = IdentityError then Inr (Some (1, BadIdentity))
      else if is_os_error e then Inr (Some (1, NotCommitted))
      else if is_value_error e then Inr (Some (1, BadDuration))
      else Inl e)"

definition cmd_pair :: "bool \<Rightarrow> (rat \<Rightarrow> string result) \<Rightarrow> rat \<Rightarrow> rat \<Rightarrow> nat list \<Rightarrow> bytes list \<Rightarrow> rat \<Rightarrow> world
    \<Rightarrow> (int \<times> report) option result \<times> world" where
  "cmd_pair has_dir local_time now later pins tokens duration w = with_state_dir has_dir Some
     (case open_enrollment now later pins tokens duration w of
        (Inl e, w1) \<Rightarrow> (pair_failure e, w1)
      | (Inr None, w1) \<Rightarrow> (Inr None, w1)
      | (Inr (Some window), w1) \<Rightarrow>
          (rbind (local_time (pw_expires_at window)) (\<lambda>expiry. Inr (Some (0, Enrollment expiry (pw_pin window)))), w1)) w"

definition store_failure :: "exn \<Rightarrow> (int \<times> report) result" where
  "store_failure e = (if is_os_error e \<or> is_store_error e then Inr (1, StateError) else Inl e)"

definition cmd_pairs :: "bool \<Rightarrow> moment list \<Rightarrow> (int \<times> report) result" where
  "cmd_pairs has_dir ms =
     (if \<not> has_dir then Inr (2, NeedStateDir)
      else case open_store True ms of
        (Inl e, _) \<Rightarrow> store_failure e
      | (Inr st, ms1) \<Rightarrow> (case fst (identifiers (st, ms1)) of Inl e \<Rightarrow> store_failure e | Inr ids \<Rightarrow> Inr (0, Listed ids)))"

definition cmd_revoke :: "bool \<Rightarrow> moment list \<Rightarrow> conditions \<Rightarrow> conditions \<Rightarrow> string \<Rightarrow> world \<Rightarrow> (int \<times> report) result \<times> world" where
  "cmd_revoke has_dir ms before after identifier w = with_state_dir has_dir id
     (if identifier = [] then (Inr (2, NeedIdentifier), w)
      else case open_store True ms of
        (Inl e, _) \<Rightarrow> (store_failure e, w)
      | (Inr st, _) \<Rightarrow> (case remove_client before after identifier st w of
          (Inl e, _, w1) \<Rightarrow> (store_failure e, w1)
        | (Inr removed, _, w1) \<Rightarrow> (Inr (0, if removed then Revoked identifier else NoMatch identifier), w1))) w"

text \<open>\<open>content\<close> is what reading the pin file gave, \<open>connect\<close> the outcome of the connection to the listener.\<close>

definition cmd_healthcheck :: "tls_library \<Rightarrow> int \<Rightarrow> bool \<Rightarrow> string result \<Rightarrow> unit result \<Rightarrow> (int \<times> report) result" where
  "cmd_healthcheck L port has_dir content connect =
     (if port = 0 then Inr (1, NeedPort)
      else if \<not> has_dir then Inr (1, NeedStateDir)
      else case rbind (load_trusted_certificate L content) (\<lambda>_. connect) of
        Inl e \<Rightarrow> if is_os_error e \<or> e = TlsTrustError then Inr (1, HealthFailed) else Inl e
      | Inr _ \<Rightarrow> Inr (0, Healthy))"

subsection \<open>A removal\<close>

lemma remove_prepared:
  assumes "prepare_remove (st, ms) = (Inr u, st1, ms1)" "pc_file st" "\<And>mo. mo \<in> set ms \<Longrightarrow> mo_view mo = v \<and> mo_walk mo \<noteq> NoDirectory"
  shows "pc_file st1 \<and> (case vw_now v PAIRED_CLIENTS of None \<Rightarrow> pc_clients st1 = [] | Some e \<Rightarrow> parse_store (fl_text e) = Some (pc_clients st1))"
proof -
  from assms(1) have "reload True (st, ms) = (Inr u, st1, ms1)"
    unfolding prepare_remove_def by (elim pc_then_Inr) (auto dest: ensure_Inr)
  from reload_shown [OF this assms(2)] have "shown ms st1" "pc_file st1"
    using assms(3) by (auto simp: empty_cache_def)
  then obtain mo where "mo \<in> set ms" "saw mo (pc_clients st1) (pc_stamp st1)"
    unfolding shown_def by (metis in_set_conv_decomp)
  then show ?thesis using \<open>pc_file st1\<close> assms(3) by (auto simp: saw_def split: option.splits)
qed

lemma synced_parent:
  assumes "fsync_parent w = (Inr (), w')"
  shows "w_view w' = sync_directory (w_view w)"
  using assms by (auto simp: fsync_parent_def fsync_dir_strict_def open_directory_def io_then_def io_bind_def syscall_def change_def
      split: list.splits if_splits prod.splits sum.splits)

text \<open>What any power loss leaves of the record after a removal.\<close>

definition removed_from :: "clients \<Rightarrow> string \<Rightarrow> entry option \<Rightarrow> bool" where
  "removed_from old identifier x \<longleftrightarrow>
     (case x of
        None \<Rightarrow> old = []
      | Some e \<Rightarrow> \<exists>clients. parse_store (fl_text e) = Some clients \<and> map_of clients = (map_of old)(identifier := None))"

lemma removal_stored:
  assumes "remove_locked before after identifier st w = (Inr removed, st', w')" "pc_file st"
    and "list_all (\<lambda>(f, c, k). k \<noteq> NoDirectory) before"
    and "case vw_now (w_view w) PAIRED_CLIENTS of None \<Rightarrow> True | Some e \<Rightarrow> fl_synced e"
  obtains old where "case vw_now (w_view w) PAIRED_CLIENTS of None \<Rightarrow> old = [] | Some e \<Rightarrow> parse_store (fl_text e) = Some old"
    "removed \<longleftrightarrow> map_of old identifier \<noteq> None" "\<And>x. x \<in> after_crash (w_view w') PAIRED_CLIENTS \<Longrightarrow> removed_from old identifier x"
proof -
  let ?v = "w_view w"
  obtain u st1 ms1 where prep: "prepare_remove (st, moments before w) = (Inr u, st1, ms1)"
    using assms(1) by (auto simp: remove_locked_def split: prod.splits sum.splits)
  let ?old = "pc_clients st1"
  have "mo_view mo = ?v \<and> mo_walk mo \<noteq> NoDirectory" if "mo \<in> set (moments before w)" for mo
    using that assms(3) by (auto simp: moments_def list_all_iff)
  from remove_prepared [OF prep assms(2) this]
  have old: "pc_file st1" "case vw_now ?v PAIRED_CLIENTS of None \<Rightarrow> ?old = [] | Some e \<Rightarrow> parse_store (fl_text e) = Some ?old"
    by auto
  then have valid: "length ?old \<le> MAX_PAIRED_CLIENTS" "list_all valid_entry ?old"
    by (auto dest: parse_valid split: option.splits)
  show thesis
  proof (cases "map_of ?old identifier = None")
    case True
    then have run: "removed = False" "fsync_parent w = (Inr (), w')"
      using assms(1) prep old(1) by (auto simp: remove_locked_def sync_parent_def rbind_def split: prod.splits sum.splits)
    have "removed_from ?old identifier x" if "x \<in> after_crash (w_view w') PAIRED_CLIENTS" for x
    proof -
      have "x = vw_now ?v PAIRED_CLIENTS"
        using that synced_parent [OF run(2)] assms(4)
        by (auto simp: crash_commit sync_directory_def file_outcomes_def split: option.splits if_splits)
      then show ?thesis using old(2) True by (auto simp: removed_from_def fun_upd_idem split: option.splits)
    qed
    then show thesis using that [of ?old] old(2) True run(1) by simp
  next
    case False
    let ?new = "AList.delete identifier ?old"
    have save: "save_store after ?new st1 w = (Inr (), st', w')" and "removed"
      using assms(1) prep False by (auto simp: remove_locked_def rbind_def split: prod.splits sum.splits)
    have "length ?new \<le> MAX_PAIRED_CLIENTS" by (rule le_trans [OF length_delete_le valid(1)])
    moreover have "list_all valid_entry ?new" using valid(2) by (auto simp: list_all_iff AList.delete_eq)
    ultimately have "parse_store (Some (clients_json ?new)) = Some ?new" by (rule parse_clients_json)
    then have "removed_from ?old identifier x" if "x \<in> after_crash (w_view w') PAIRED_CLIENTS" for x
      using saved_store [OF save old(1) that] by (auto simp: removed_from_def delete_conv')
    then show thesis using that [of ?old] old(2) False \<open>removed\<close> by simp
  qed
qed

lemma unlisted_refused:
  assumes "pc_file st" "list_all (stamped content) ms" "cache_ok content st"
    and "\<And>mo. mo \<in> set ms \<Longrightarrow> removed_from old identifier (vw_now (mo_view mo) PAIRED_CLIENTS)"
  shows "fst (authorizes identifier key (st, ms)) \<noteq> Inr True"
proof
  assume yes: "fst (authorizes identifier key (st, ms)) = Inr True"
  obtain st' ms' where "authorizes identifier key (st, ms) = (Inr True, st', ms')" using yes by (metis prod.collapse)
  from authorized_shown [OF this assms(1-3)] obtain mo where mo: "mo \<in> set ms" "saw mo (pc_clients st') (pc_stamp st')"
    "map_of (pc_clients st') identifier = Some (hex_of key)"
    unfolding shown_def by (metis in_set_conv_decomp)
  then show False using assms(4) [OF mo(1)] by (auto simp: saw_def removed_from_def split: option.splits)
qed

text \<open>A store as \<open>open_store\<close> leaves it keeps its file.\<close>

lemma opened_file:
  assumes "open_store True ms = (Inr st, ms')"
  shows "pc_file st"
  using assms by (auto simp: open_store_def dest!: keepsD [OF keeps_reload] split: prod.splits sum.splits)

lemma removal_run:
  assumes "cmd_revoke has_dir ms before after identifier w = (Inr (0, rep), w')"
  obtains st ms1 removed w0 st' where "has_dir" "open_store True ms = (Inr st, ms1)" "w_view w0 = w_view w"
    "remove_locked before after identifier st w0 = (Inr removed, st', w')"
    "rep = (if removed then Revoked identifier else NoMatch identifier)"
proof -
  obtain st ms1 where opened: "has_dir" "open_store True ms = (Inr st, ms1)"
    using assms by (auto simp: cmd_revoke_def with_state_dir_def store_failure_def split: if_splits prod.splits sum.splits)
  then obtain removed st' where removal: "remove_client before after identifier st w = (Inr removed, st', w')"
    "rep = (if removed then Revoked identifier else NoMatch identifier)"
    using assms by (auto simp: cmd_revoke_def with_state_dir_def store_failure_def split: if_splits prod.splits sum.splits)
  moreover from removal(1) obtain w0 where locked: "syscall w = (Inr (), w0)" "remove_locked before after identifier st w0 = (Inr removed, st', w')"
    using opened_file [OF opened(2)] by (auto simp: remove_client_def with_lock_def split: if_splits prod.splits sum.splits)
  moreover from locked(1) have "w_view w0 = w_view w" by (auto simp: syscall_def split: list.splits if_splits)
  ultimately show thesis using that opened by blast
qed

subsection \<open>Properties\<close>

text \<open>C8: A revocation that reports success is final: every power loss leaves a record that lists the same other
  clients with the same keys and not this one, and on any such record the daemon, whatever its store had cached,
  refuses every key for the identifier. The report says whether the client had been listed.\<close>

theorem revoke_final:
  assumes "cmd_revoke has_dir ms before after identifier w = (Inr (0, rep), w')"
    and "list_all (\<lambda>(f, c, k). k \<noteq> NoDirectory) before"
    and "case vw_now (w_view w) PAIRED_CLIENTS of None \<Rightarrow> True | Some e \<Rightarrow> fl_synced e"
  shows "\<exists>old. (case vw_now (w_view w) PAIRED_CLIENTS of None \<Rightarrow> old = [] | Some e \<Rightarrow> parse_store (fl_text e) = Some old)
    \<and> rep = (if map_of old identifier = None then NoMatch identifier else Revoked identifier)
    \<and> (\<forall>x \<in> after_crash (w_view w') PAIRED_CLIENTS. removed_from old identifier x)
    \<and> (\<forall>st lookup content key. pc_file st \<and> cache_ok content st \<and> list_all (stamped content) lookup
         \<and> (\<forall>mo \<in> set lookup. vw_now (mo_view mo) PAIRED_CLIENTS \<in> after_crash (w_view w') PAIRED_CLIENTS)
         \<longrightarrow> fst (authorizes identifier key (st, lookup)) \<noteq> Inr True)"
proof -
  obtain st ms1 removed w0 st' where run: "open_store True ms = (Inr st, ms1)" "w_view w0 = w_view w"
    "remove_locked before after identifier st w0 = (Inr removed, st', w')"
    "rep = (if removed then Revoked identifier else NoMatch identifier)"
    using assms(1) by (rule removal_run)
  from run(3) opened_file [OF run(1)] assms(2)
  obtain old where old: "case vw_now (w_view w0) PAIRED_CLIENTS of None \<Rightarrow> old = [] | Some e \<Rightarrow> parse_store (fl_text e) = Some old"
    "removed \<longleftrightarrow> map_of old identifier \<noteq> None"
    "\<And>x. x \<in> after_crash (w_view w') PAIRED_CLIENTS \<Longrightarrow> removed_from old identifier x"
    by (rule removal_stored) (use assms(3) run(2) in auto)
  have "fst (authorizes identifier key (st, lookup)) \<noteq> Inr True"
    if "pc_file st" "cache_ok content st" "list_all (stamped content) lookup"
      "\<forall>mo \<in> set lookup. vw_now (mo_view mo) PAIRED_CLIENTS \<in> after_crash (w_view w') PAIRED_CLIENTS" for st content lookup key
    using that old(3) by (intro unlisted_refused) auto
  then show ?thesis using old run(2,4) by (intro exI [of _ old] conjI allI impI ballI) auto
qed

text \<open>C17: A PIN that \<open>pair\<close> prints is strong and belongs to a window for the identity that the directory held, of the
  duration asked for and of at most a day; over any power loss a lookup for that identity finds this window until
  it expires, and a lookup for another identity finds none.\<close>

theorem pair_announces_durable:
  assumes "cmd_pair has_dir local_time now later pins tokens d w = (Inr (Some (0, rep)), w')" and "list_all (\<lambda>t. length t = 16) tokens"
    and "es PAIRING_WINDOW \<in> after_crash (w_view w') PAIRING_WINDOW" and "es RESET_FENCE = None" and "es LEGACY_FENCE = None"
  shows "\<exists>w1 w2 ident expiry wd. syscall w = (Inr (), w1) \<and> load_persisted_identity w1 = (Inr ident, w2)
    \<and> local_time (later + d) = Inr expiry \<and> rep = Enrollment expiry (pw_pin wd)
    \<and> is_strong_window_pin (pw_pin wd) \<and> 0 < d \<and> d \<le> 24 * 60 * 60
    \<and> (\<forall>t si sg. fst (active_for_server t si sg (rebooted w' es)) =
          Inr (if si = si_identifier ident \<and> sg = si_generation ident \<and> t < later + d then Some wd else None))"
proof -
  obtain wd expiry where wd: "open_enrollment now later pins tokens d w = (Inr (Some wd), w')"
    "local_time (pw_expires_at wd) = Inr expiry" "rep = Enrollment expiry (pw_pin wd)"
    using assms(1) by (auto simp: cmd_pair_def with_state_dir_def pair_failure_def rbind_def
        split: if_splits prod.splits sum.splits option.splits)
  from wd(1) obtain w1 ident w2 where run: "syscall w = (Inr (), w1)" "load_persisted_identity w1 = (Inr ident, w2)"
    "open_locked now later pins tokens (si_identifier ident) (si_generation ident) d w2 = (Inr (Some wd), w')"
    by (auto simp: open_enrollment_def transaction_def io_then_def io_bind_def split: prod.splits sum.splits)
  note found = opening_found [OF run(3) assms(2-5)]
  from found [of 0 "[]" "[]"] wd(2,3) run(1,2) show ?thesis
    by (intro exI [of _ w1] exI [of _ w2] exI [of _ ident] exI [of _ expiry] exI [of _ wd]) (simp add: found)
qed

subsection \<open>Witnesses\<close>

lemma calm_stamps_at:
  assumes "vw_now (w_view w) PAIRED_CLIENTS = Some e" "vw_now (w_view w) LEGACY_FENCE = None" "vw_now (w_view w) RESET_FENCE = None"
  shows "cheap_stamps (st, moments (calm (Suc (Suc (Suc n)))) w) = (Inr (Some (fl_stamp e), None, None), st, moments (calm n) w)"
  using assms by (simp add: cheap_stamps_def lstat_at_def pc_bind_def calm_call pc_return_def)

lemma calm_reading:
  assumes "vw_now (w_view w) PAIRED_CLIENTS = Some e" "vw_now (w_view w) LEGACY_FENCE = None" "vw_now (w_view w) RESET_FENCE = None"
    and "private_file_ok (vw_euid (w_view w)) (stat.truncate e)" "parse_store (fl_text e) = Some cs"
  shows "reload_attempts 2 (st, moments (calm 10) w) = (Inr (), set_cache cs (Some (fl_stamp e), None, None) st, [])"
proof -
  note calls = calm_call [where w = w]
  have "read_store (st, moments (calm (Suc (Suc n))) w) = (Inr (cs, Some (fl_stamp e)), st, moments (calm n) w)" for n
    using assms by (simp add: read_store_def open_at_def pc_handle_def pc_bind_def pc_then_def calls pc_return_def)
  moreover have "open_at LEGACY_FENCE (st, moments (calm (Suc n)) w) = (Inl FileNotFound, st, moments (calm n) w)"
    "open_at RESET_FENCE (st, moments (calm (Suc n)) w) = (Inl FileNotFound, st, moments (calm n) w)" for n
    using assms by (simp_all add: open_at_def calls)
  ultimately show ?thesis
    by (simp add: numeral_eq_Suc pc_bind_def strict_def pc_handle_def calm_stamps_at [OF assms(1-3)] pc_return_def tombstone_stamp_def
        pc_modify_def) (simp add: moments_def calm_def)
qed

lemma calm_reloading:
  assumes "vw_now (w_view w) PAIRED_CLIENTS = Some e" "vw_now (w_view w) LEGACY_FENCE = None" "vw_now (w_view w) RESET_FENCE = None"
    and "private_file_ok (vw_euid (w_view w)) (stat.truncate e)" "parse_store (fl_text e) = Some cs"
    and "pc_file st" "\<not> pc_closed st" "\<not> pc_unsafe st" "b \<or> \<not> pc_chain st"
  shows "reload b (st, moments (calm 11) w) = (Inr (), set_cache cs (Some (fl_stamp e), None, None) (st\<lparr>pc_chain := True\<rparr>), [])"
proof -
  have "st\<lparr>pc_chain := True\<rparr> = st" if "pc_chain st" using that by simp
  then show ?thesis
    using assms(6-9) calm_reading [OF assms(1-5)]
    by (auto simp: reload_def pc_get_def pc_then_def pc_bind_def ensure_mutable_def pc_return_def pc_handle_def walk_directory_def
        strict_def pc_modify_def calm_call [of _ _ 10, simplified] simp del: reload_attempts.simps)
qed

lemma sample_reload:
  assumes "pc_file st" "\<not> pc_closed st" "\<not> pc_unsafe st" "b \<or> \<not> pc_chain st"
  shows "reload b (st, moments (calm 11) store_world) =
     (Inr (), set_cache [(''phone'', hex_of sample_key)] (Some 0, None, None) (st\<lparr>pc_chain := True\<rparr>), [])"
  using calm_reloading [OF sample_view(1,3,2,5) _ assms] sample_parse by (simp add: stored_def new_entry_def)

lemma empty_record: "parse_store (Some (clients_json [])) = Some []"
  by (rule parse_clients_json) simp_all

lemma sample_removal:
  obtains w' where "cmd_revoke True (moments (calm 11) store_world) (calm 11) (calm 11) ''phone'' store_world = (Inr (0, Revoked ''phone''), w')"
proof -
  have "vw_now (w_view store_world) (temp_name PAIRED_CLIENTS ''0a'') = None" "w_temps store_world = [''0a'', ''0b'', ''0c'']"
    by (simp_all add: store_world_def paired_world_def)
  then obtain w' where wrote: "durable_write PAIRED_CLIENTS (Some (clients_json [])) store_world = (Inr (), w')"
    using write_ok [OF sample_view(4)] by metis
  have "replaced (w_view store_world) PAIRED_CLIENTS (Some (clients_json [])) (w_view w')"
    by (rule write_run [OF wrote record_names_ok(1)]) simp
  then obtain e where e: "vw_now (w_view w') PAIRED_CLIENTS = Some e" "fl_text e = Some (clients_json [])"
    "private_file_ok (vw_euid (w_view w')) (stat.truncate e)" "vw_now (w_view w') LEGACY_FENCE = None" "vw_now (w_view w') RESET_FENCE = None"
    using record_names_ok sample_view by (auto simp: replaced_def written_def)
  have store_opens: "open_store True (moments (calm 11) store_world) = (Inr sample_store, [])"
    by (simp add: open_store_def sample_reload set_cache_def sample_store_def)
  have "prepare_remove (sample_store, moments (calm 11) store_world) = (Inr (), sample_store, [])"
    by (simp add: prepare_remove_def pc_then_def pc_bind_def ensure_mutable_def pc_get_def pc_return_def sample_reload
        sample_store_def set_cache_def)
  moreover have "fst (reload True (sample_store\<lparr>pc_clients := []\<rparr>, moments (calm 11) w')) = Inr ()"
    by (subst calm_reloading [OF e(1,4,5,3)]) (use e(2) empty_record in \<open>simp_all add: sample_store_def\<close>)
  ultimately have "\<exists>st'. remove_locked (calm 11) (calm 11) ''phone'' sample_store store_world = (Inr True, st', w')"
    using wrote by (auto simp: remove_locked_def save_store_def sample_store_def split: prod.splits)
  moreover have "syscall store_world = (Inr (), store_world)" by (simp add: syscall_def sample_view)
  ultimately have "\<exists>st'. remove_client (calm 11) (calm 11) ''phone'' sample_store store_world = (Inr True, st', w')"
    by (simp add: remove_client_def with_lock_def) (simp add: sample_store_def)
  then show thesis using store_opens by (intro that [of w']) (auto simp: cmd_revoke_def with_state_dir_def)
qed

theorem revoke_final_witness:
  "\<exists>w'. cmd_revoke True (moments (calm 11) store_world) (calm 11) (calm 11) ''phone'' store_world = (Inr (0, Revoked ''phone''), w')
     \<and> (\<forall>x \<in> after_crash (w_view w') PAIRED_CLIENTS. removed_from [(''phone'', hex_of sample_key)] ''phone'' x)"
proof -
  obtain w' where run: "cmd_revoke True (moments (calm 11) store_world) (calm 11) (calm 11) ''phone'' store_world
     = (Inr (0, Revoked ''phone''), w')" by (rule sample_removal)
  have "list_all (\<lambda>(f, c, k). k \<noteq> NoDirectory) (calm 11)" by (simp add: calm_def list_all_iff)
  from revoke_final [OF run this] run show ?thesis
    by (auto simp: sample_view stored_text sample_parse) (simp add: stored_def)
qed

lemma paired_identity:
  "load_persisted_identity (paired_world []) = (Inr old_identity, snd (fsync_parent (paired_world [])))"
proof -
  have "load_identity False (Some (identity_json old_identity)) =
      Inr (si_identifier old_identity, si_private_key old_identity, Some (si_generation old_identity))"
    using hex_of_lower [of "replicate 16 2" 16] by (simp add: load_identity_def identity_json_def old_identity_def)
  moreover have "private_file_ok 7 (stat.truncate (stored j))" for j
    using new_entry_private [of 7 0] by (simp add: stored_def stat.truncate_def)
  ultimately show ?thesis
    by (simp add: load_persisted_identity_def pairing_reset_in_progress_def identity_reset_in_progress_def
        legacy_clear_all_in_progress_def io_bind_def absent_fence paired_world_def io_return_def io_handle_def stat_identity_def
        stat_private_def read_private_def open_private_at_def open_directory_def io_then_def syscall_def io_look_def
        fsync_parent_def fsync_dir_strict_def change_def sync_directory_def stored_text)
qed

lemma sample_pairing:
  obtains w' where "cmd_pair True (\<lambda>t. Inr ''soon'') 10 11 [8317] [replicate 16 3] 60 (paired_world [])
      = (Inr (Some (0, Enrollment ''soon'' ''8317'')), w')"
    "\<exists>e. Some e \<in> after_crash (w_view w') PAIRING_WINDOW"
proof -
  let ?w = "snd (fsync_parent (paired_world []))"
  let ?wd = "\<lparr>pw_pin = ''8317'', pw_expires_at = 11 + 60, pw_generation = hex_of (replicate 16 3),
     pw_server_identifier = ''A'', pw_server_generation = hex_of (replicate 16 2)\<rparr>"
  have w: "w_faults ?w = []" "vw_now (w_view ?w) RESET_FENCE = None" "vw_now (w_view ?w) LEGACY_FENCE = None"
    "vw_now (w_view ?w) PAIRING_WINDOW = Some (stored JNull)" "vw_euid (w_view ?w) = 7"
    "vw_now (w_view ?w) (temp_name PAIRING_WINDOW ''0a'') = None" "w_temps ?w = [''0a'', ''0b'', ''0c'']"
    by (simp_all add: fsync_ok paired_world_def sync_directory_def)
  have "private_file_ok (vw_euid (w_view ?w)) (stat.truncate (stored JNull))"
    using new_entry_private [of 7 0] by (simp add: w(5) stored_def stat.truncate_def)
  from active_found [OF w(1-4) this] have active: "window_active 10 ?w = (Inr None, ?w)"
    by (simp add: stored_text parse_window_def)
  obtain w' where wrote: "durable_write PAIRING_WINDOW (Some (window_json ?wd)) ?w = (Inr (), w')"
    using write_ok [OF w(1,7,6)] by metis
  have "\<exists>e. Some e \<in> after_crash (w_view w') PAIRING_WINDOW"
    by (rule write_run [OF wrote record_names_ok(2)]) (auto simp: crash_commit replaced_def written_def file_outcomes_def)
  moreover have "open_locked 10 11 [8317] [replicate 16 3] ''A'' (hex_of (replicate 16 2)) 60 ?w = (Inr (Some ?wd), w')"
  proof -
    have "fresh_pin None [8317] = Some ''8317''"
      using sample_pin(1) by (simp add: fresh_pin.simps [of _ "[_]"] pin_of_def char_of_def bit_0)
    moreover have "is_valid_binding ''A'' (hex_of (replicate 16 2))" using sample_binding(2) by (simp add: sample_generation_def)
    ultimately show ?thesis
      using unfenced_reset [OF w(1-3)] active wrote by (simp add: open_locked_def io_bind_def io_then_def io_return_def Let_def)
  qed
  moreover have "syscall (paired_world []) = (Inr (), paired_world [])" by (simp add: syscall_def paired_world_def)
  ultimately show thesis
    using paired_identity
    by (intro that [of w']) (simp_all add: cmd_pair_def with_state_dir_def open_enrollment_def transaction_def io_then_def io_bind_def
        old_identity_def)
qed

theorem pair_announces_durable_witness:
  "\<exists>w' e wd. cmd_pair True (\<lambda>t. Inr ''soon'') 10 11 [8317] [replicate 16 3] 60 (paired_world [])
      = (Inr (Some (0, Enrollment ''soon'' ''8317'')), w')
    \<and> pw_pin wd = ''8317''
    \<and> fst (active_for_server 70 ''A'' (hex_of (replicate 16 2)) (rebooted w' [PAIRING_WINDOW \<mapsto> e])) = Inr (Some wd)"
proof -
  obtain w' e where run: "cmd_pair True (\<lambda>t. Inr ''soon'') 10 11 [8317] [replicate 16 3] 60 (paired_world [])
      = (Inr (Some (0, Enrollment ''soon'' ''8317'')), w')" "Some e \<in> after_crash (w_view w') PAIRING_WINDOW"
    by (rule sample_pairing) blast
  from pair_announces_durable [OF run(1), of "[PAIRING_WINDOW \<mapsto> e]"] run(2)
  obtain w1 w2 ident wd where "syscall (paired_world []) = (Inr (), w1)" "load_persisted_identity w1 = (Inr ident, w2)"
    "pw_pin wd = ''8317''"
    "fst (active_for_server 70 (si_identifier ident) (si_generation ident) (rebooted w' [PAIRING_WINDOW \<mapsto> e])) = Inr (Some wd)"
    by auto
  moreover have "ident = old_identity"
    using calculation(1,2) paired_identity by (simp add: syscall_def paired_world_def)
  ultimately show ?thesis using run(1) by (auto simp: old_identity_def)
qed

end
