(* ===== verification/Discovery.thy ===== *)
theory Discovery
  imports PairingReset
begin

text \<open>
  \<^verbatim>\<open>companion/discovery.py\<close>: the TXT records of the advertised service, and the advertiser that keeps its address
  current. The hash, the packing of an address and the \<open>zeroconf\<close> registry are outside the program: the first two
  are parameters, the last is what is published and what a call of the executor does to it.

  Shown: only services at usable addresses are ever published; without failures the published service is the one
  of the address last seen, every change is acted on, and after the advertiser was closed nothing is published.
\<close>

subsection \<open>TXT records\<close>

definition identity_bytes :: "(string \<Rightarrow> bytes) \<Rightarrow> string \<Rightarrow> string \<Rightarrow> bytes result" where
  "identity_bytes sha256 identifier fld =
     (if identifier = [] then Inl ValueError
      else Inr (take 6 (sha256 (''atvr4samsung-companion-txt-v1'' @ [char_of (0 :: nat)] @ fld @ [char_of (0 :: nat)] @ identifier))))"

text \<open>A locally administered unicast address, octets joined by colons.\<close>

definition bluetooth_address :: "bytes \<Rightarrow> bytes result" where
  "bluetooth_address bs = (case bs of [] \<Rightarrow> Inl IndexError | b # rest \<Rightarrow> Inr (((b OR 0x02) AND 0xFE) # rest))"

fun colons :: "string list \<Rightarrow> string" where
  "colons [] = []"
| "colons [s] = s"
| "colons (s # ss) = s @ '':'' @ colons ss"

type_synonym records = "(string \<times> string) list"

definition companion_txt_records :: "(string \<Rightarrow> bytes) \<Rightarrow> string \<Rightarrow> string \<Rightarrow> records \<Rightarrow> records result" where
  "companion_txt_records sha256 identifier model overrides =
     rbind (rbind (identity_bytes sha256 identifier ''rpBA'') bluetooth_address) (\<lambda>address.
     rbind (identity_bytes sha256 identifier ''rpHA'') (\<lambda>ha.
     rbind (identity_bytes sha256 identifier ''rpHN'') (\<lambda>hn.
     rbind (identity_bytes sha256 identifier ''rpAD'') (\<lambda>ad.
     rbind (identity_bytes sha256 identifier ''rpHI'') (\<lambda>hi.
       Inr (foldl (\<lambda>props (k, v). AList.update k v props)
         [(''rpMac'', ''1''), (''rpHA'', hex_of ha), (''rpHN'', hex_of hn), (''rpVr'', ''715.2''), (''rpMd'', model),
          (''rpFl'', ''0x36782''), (''rpAD'', hex_of ad), (''rpHI'', hex_of hi),
          (''rpBA'', colons (map (\<lambda>octet. hex_upper (hex_of [octet])) address)), (''rpMRtID'', identifier)] overrides))))))"

subsection \<open>The service\<close>

record service_info =
  inf_name :: string
  inf_address :: bytes
  inf_port :: int
  inf_properties :: records
  inf_host_ttl :: nat
  inf_server :: "string option"

definition HOST_TTL_SECONDS :: nat where "HOST_TTL_SECONDS = 4500"

definition NO_IP :: string where "NO_IP = ''0.0.0.0''"

text \<open>\<open>advertise_companion\<close>: what it registers, and unregisters later.\<close>

definition advertise_companion :: "(string \<Rightarrow> bytes) \<Rightarrow> (string \<Rightarrow> bytes result) \<Rightarrow> string \<Rightarrow> int \<Rightarrow> string \<Rightarrow> string \<Rightarrow> string
    \<Rightarrow> records \<Rightarrow> service_info result" where
  "advertise_companion sha256 packed address port device_name identifier model properties =
     rbind (if properties \<noteq> [] then Inr properties else companion_txt_records sha256 identifier model []) (\<lambda>props.
     rbind (packed address) (\<lambda>bs.
       Inr \<lparr>inf_name = device_name @ ''._companion-link._tcp.local.'', inf_address = bs, inf_port = port, inf_properties = props,
         inf_host_ttl = HOST_TTL_SECONDS, inf_server = None\<rparr>))"

subsection \<open>The advertiser\<close>

text \<open>What the constructor fixes: \<open>packed\<close> is \<open>IPv4Address(address).packed\<close>.\<close>

record advert =
  ad_packed :: "string \<Rightarrow> bytes result"
  ad_port :: int
  ad_device_name :: string
  ad_properties :: records

record advertiser =
  av_current_ip :: "string option"
  av_info :: "service_info option"
  av_registered :: bool
  av_closing :: bool

definition new_advertiser :: "(string \<Rightarrow> bytes) \<Rightarrow> (string \<Rightarrow> bytes result) \<Rightarrow> int \<Rightarrow> string \<Rightarrow> string \<Rightarrow> string \<Rightarrow> records
    \<Rightarrow> (advert \<times> advertiser) result" where
  "new_advertiser sha256 packed port device_name identifier model properties =
     rbind (if properties \<noteq> [] then Inr properties else companion_txt_records sha256 identifier model []) (\<lambda>props.
       Inr (\<lparr>ad_packed = packed, ad_port = port, ad_device_name = device_name, ad_properties = props\<rparr>,
         \<lparr>av_current_ip = None, av_info = None, av_registered = False, av_closing = False\<rparr>))"

definition build_info :: "advert \<Rightarrow> string \<Rightarrow> service_info result" where
  "build_info ad address = rbind (ad_packed ad address) (\<lambda>bs.
     let name = ad_device_name ad @ ''._companion-link._tcp.local.''
     in Inr \<lparr>inf_name = name, inf_address = bs, inf_port = ad_port ad, inf_properties = ad_properties ad,
          inf_host_ttl = HOST_TTL_SECONDS, inf_server = Some name\<rparr>)"

text \<open>The blocking calls that run on the executor.\<close>

datatype zcall = Register service_info | Update service_info | Unregister service_info

text \<open>\<open>refresh\<close> up to its await: the call to make, if any; and behind it. \<open>ip\<close> is what \<open>detect_ip\<close> gave.\<close>

definition refresh_call :: "advert \<Rightarrow> string result \<Rightarrow> advertiser \<Rightarrow> (string \<times> zcall) option result" where
  "refresh_call ad ip av =
     (if av_closing av then Inr None
      else rbind ip (\<lambda>ip.
        if ip = NO_IP \<or> Some ip = av_current_ip av then Inr None
        else rbind (build_info ad ip) (\<lambda>info. Inr (Some (ip, if av_registered av then Update info else Register info)))))"

fun call_info :: "zcall \<Rightarrow> service_info" where
  "call_info (Register i) = i"
| "call_info (Update i) = i"
| "call_info (Unregister i) = i"

definition refreshed :: "string \<Rightarrow> zcall \<Rightarrow> advertiser \<Rightarrow> advertiser" where
  "refreshed ip c av =
     (if av_registered av then av else av\<lparr>av_registered := True\<rparr>)\<lparr>av_current_ip := Some ip, av_info := Some (call_info c)\<rparr>"

text \<open>\<open>close\<close>: the call to make once the poller is cancelled.\<close>

definition closing :: "advertiser \<Rightarrow> advertiser" where
  "closing av = av\<lparr>av_closing := True\<rparr>"

definition unregister_call :: "advertiser \<Rightarrow> zcall option" where
  "unregister_call av = (if av_registered av then map_option Unregister (av_info av) else None)"

subsection \<open>Runs\<close>

text \<open>Where the coroutines stand: before \<open>start\<close>, awaiting a call in \<open>start\<close> or in the poller, sleeping, awaiting the
  last call of \<open>close\<close>, done, or after a \<open>start\<close> that raised. A call that was being awaited when \<open>close\<close> came goes on
  on its thread (\<open>dv_late\<close>). A call that raises may have changed the registry or not. \<open>dv_trouble\<close> records that a
  call raised or was abandoned, \<open>dv_calls\<close> every call made. A second cancellation, during \<open>close\<close>, is left out.\<close>

datatype advert_phase = Fresh | Waiting bool string zcall | Sleeping | StartFailed exn | Unregistering zcall | Stopped

record advertising =
  dv_state :: advertiser
  dv_phase :: advert_phase
  dv_published :: "service_info option"
  dv_late :: "zcall option"
  dv_calls :: "zcall list"
  dv_trouble :: bool

definition new_advertising :: "advertiser \<Rightarrow> advertising" where
  "new_advertising av = \<lparr>dv_state = av, dv_phase = Fresh, dv_published = None, dv_late = None, dv_calls = [], dv_trouble = False\<rparr>"

definition published_by :: "zcall \<Rightarrow> service_info option" where
  "published_by c = (case c of Unregister i \<Rightarrow> None | _ \<Rightarrow> Some (call_info c))"

definition call_effect :: "bool \<Rightarrow> zcall \<Rightarrow> advertising \<Rightarrow> advertising" where
  "call_effect done c x = (if done then x\<lparr>dv_published := published_by c\<rparr> else x)"

text \<open>A refresh, of \<open>start\<close> (\<open>first\<close>) or of the poller, which survives every error.\<close>

definition launch :: "bool \<Rightarrow> (string \<times> zcall) option result \<Rightarrow> advertising \<Rightarrow> advertising" where
  "launch first r x = (case r of
     Inl e \<Rightarrow> x\<lparr>dv_phase := if first then StartFailed e else Sleeping\<rparr>
   | Inr None \<Rightarrow> x\<lparr>dv_phase := Sleeping\<rparr>
   | Inr (Some (ip, c)) \<Rightarrow> x\<lparr>dv_phase := Waiting first ip c, dv_calls := c # dv_calls x\<rparr>)"

text \<open>The awaited call returned.\<close>

definition refresh_done :: "string \<Rightarrow> zcall \<Rightarrow> advertising \<Rightarrow> advertising" where
  "refresh_done ip c x = (call_effect True c x)\<lparr>dv_state := refreshed ip c (dv_state x), dv_phase := Sleeping\<rparr>"

definition stop_polling :: "advertising \<Rightarrow> advertising" where
  "stop_polling x =
     (let av = closing (dv_state x); late = (case dv_phase x of Waiting first ip c \<Rightarrow> Some c | _ \<Rightarrow> None);
          y = x\<lparr>dv_state := av, dv_late := late, dv_trouble := dv_trouble x \<or> late \<noteq> None\<rparr>
      in case unregister_call av of
           None \<Rightarrow> y\<lparr>dv_phase := Stopped\<rparr>
         | Some c \<Rightarrow> y\<lparr>dv_phase := Unregistering c, dv_calls := c # dv_calls x\<rparr>)"

inductive advert_step :: "advert \<Rightarrow> advertising \<Rightarrow> advertising \<Rightarrow> bool" for ad where
  start: "dv_phase x = Fresh \<Longrightarrow> advert_step ad x (launch True (refresh_call ad ip (dv_state x)) x)"
| wake: "dv_phase x = Sleeping \<Longrightarrow> advert_step ad x (launch False (refresh_call ad ip (dv_state x)) x)"
| returned: "dv_phase x = Waiting first ip c \<Longrightarrow> advert_step ad x (refresh_done ip c x)"
| raised: "dv_phase x = Waiting first ip c \<Longrightarrow>
    advert_step ad x ((call_effect partial c x)\<lparr>dv_phase := if first then StartFailed e else Sleeping, dv_trouble := True\<rparr>)"
| close: "dv_phase x \<in> {Fresh, Sleeping} \<or> (\<exists>e. dv_phase x = StartFailed e) \<or> (\<exists>first ip c. dv_phase x = Waiting first ip c) \<Longrightarrow>
    advert_step ad x (stop_polling x)"
| late: "dv_late x = Some c \<Longrightarrow> advert_step ad x ((call_effect finished c x)\<lparr>dv_late := None\<rparr>)"
| unregistered: "dv_phase x = Unregistering c \<Longrightarrow>
    advert_step ad x ((call_effect True c x)\<lparr>dv_state := (dv_state x)\<lparr>av_registered := False\<rparr>, dv_phase := Stopped\<rparr>)"
| kept: "dv_phase x = Unregistering c \<Longrightarrow>
    advert_step ad x ((call_effect partial c x)\<lparr>dv_state := (dv_state x)\<lparr>av_registered := False\<rparr>, dv_phase := Stopped, dv_trouble := True\<rparr>)"

inductive_cases advert_stepE: "advert_step ad x y"

inductive advert_reach :: "advert \<Rightarrow> advertiser \<Rightarrow> advertising \<Rightarrow> bool" for ad av where
  fresh: "advert_reach ad av (new_advertising av)"
| step: "advert_reach ad av x \<Longrightarrow> advert_step ad x y \<Longrightarrow> advert_reach ad av y"

subsection \<open>The invariant\<close>

text \<open>A service that the code builds for a usable address.\<close>

definition usable :: "advert \<Rightarrow> service_info \<Rightarrow> bool" where
  "usable ad i \<longleftrightarrow> (\<exists>ip. ip \<noteq> NO_IP \<and> build_info ad ip = Inr i)"

definition state_ok :: "advert \<Rightarrow> advertiser \<Rightarrow> bool" where
  "state_ok ad av \<longleftrightarrow> (case av_info av of
     None \<Rightarrow> av_current_ip av = None
   | Some i \<Rightarrow> \<exists>ip. av_current_ip av = Some ip \<and> ip \<noteq> NO_IP \<and> build_info ad ip = Inr i)"

definition settled :: "advertising \<Rightarrow> service_info option" where
  "settled x = (if dv_phase x = Stopped then None else av_info (dv_state x))"

text \<open>Nothing is called after the removal of the service.\<close>

definition removes :: "zcall \<Rightarrow> bool" where
  "removes c \<longleftrightarrow> c = Unregister (call_info c)"

definition advert_inv :: "advert \<Rightarrow> advertising \<Rightarrow> bool" where
  "advert_inv ad x \<longleftrightarrow> state_ok ad (dv_state x)
     \<and> (av_closing (dv_state x) \<longleftrightarrow> dv_phase x = Stopped \<or> (\<exists>c. dv_phase x = Unregistering c))
     \<and> (dv_phase x \<noteq> Stopped \<longrightarrow> (av_registered (dv_state x) \<longleftrightarrow> av_info (dv_state x) \<noteq> None))
     \<and> (\<forall>first ip c. dv_phase x = Waiting first ip c \<longrightarrow> refresh_call ad (Inr ip) (dv_state x) = Inr (Some (ip, c)))
     \<and> (\<forall>c. dv_phase x = Unregistering c \<longrightarrow> unregister_call (dv_state x) = Some c)
     \<and> (\<forall>i. dv_published x = Some i \<longrightarrow> usable ad i) \<and> list_all (\<lambda>c. usable ad (call_info c)) (dv_calls x)
     \<and> (\<forall>c. dv_late x = Some c \<longrightarrow> usable ad (call_info c) \<and> dv_trouble x)
     \<and> (\<not> dv_trouble x \<longrightarrow> dv_published x = settled x)
     \<and> list_all (\<lambda>c. \<not> removes c) (if av_closing (dv_state x) then tl (dv_calls x) else dv_calls x)"

lemma call_usable:
  assumes "refresh_call ad ip av = Inr (Some (ip', c))"
  shows "ip = Inr ip' \<and> ip' \<noteq> NO_IP \<and> build_info ad ip' = Inr (call_info c) \<and> usable ad (call_info c) \<and> \<not> av_closing av
    \<and> c = (if av_registered av then Update (call_info c) else Register (call_info c))"
  using assms by (cases ip) (auto simp: refresh_call_def rbind_def usable_def split: if_splits sum.splits)

lemma refreshed_fields [simp]:
  "av_info (refreshed ip c av) = Some (call_info c)" "av_current_ip (refreshed ip c av) = Some ip"
  "av_registered (refreshed ip c av)" "av_closing (refreshed ip c av) = av_closing av"
  by (simp_all add: refreshed_def)

lemma unregister_info: "unregister_call av = Some c \<Longrightarrow> av_info av = Some (call_info c) \<and> published_by c = None \<and> av_registered av"
  by (auto simp: unregister_call_def published_by_def split: if_splits)

lemma inv_launch:
  assumes "advert_inv ad x" "dv_phase x = Fresh \<or> dv_phase x = Sleeping"
  shows "advert_inv ad (launch first (refresh_call ad ip (dv_state x)) x)"
proof (cases "refresh_call ad ip (dv_state x)")
  case (Inr r)
  show ?thesis
  proof (cases r)
    case (Some p)
    obtain ip' c where p: "p = (ip', c)" by (cases p)
    with Inr Some have run: "refresh_call ad ip (dv_state x) = Inr (Some (ip', c))" by simp
    note call = call_usable [OF run]
    have "refresh_call ad (Inr ip') (dv_state x) = Inr (Some (ip', c))" using run call by simp
    moreover have "\<not> removes c" using call by (cases c) (auto simp: removes_def split: if_splits)
    ultimately show ?thesis using assms call run by (auto simp: launch_def advert_inv_def settled_def)
  qed (use assms Inr in \<open>auto simp: launch_def advert_inv_def settled_def\<close>)
qed (use assms in \<open>auto simp: launch_def advert_inv_def settled_def\<close>)

lemma inv_returned:
  assumes "advert_inv ad x" "dv_phase x = Waiting first ip c"
  shows "advert_inv ad (refresh_done ip c x)"
proof -
  have run: "refresh_call ad (Inr ip) (dv_state x) = Inr (Some (ip, c))" using assms by (simp add: advert_inv_def)
  note call = call_usable [OF run]
  then have "published_by c = Some (call_info c)" by (cases c) (auto simp: published_by_def split: if_splits)
  then show ?thesis using assms call by (auto simp: refresh_done_def advert_inv_def call_effect_def state_ok_def settled_def)
qed

lemma inv_raised:
  assumes "advert_inv ad x" "dv_phase x = Waiting first ip c"
  shows "advert_inv ad ((call_effect partial c x)\<lparr>dv_phase := if first then StartFailed e else Sleeping, dv_trouble := True\<rparr>)"
proof -
  have run: "refresh_call ad (Inr ip) (dv_state x) = Inr (Some (ip, c))" using assms by (simp add: advert_inv_def)
  note call = call_usable [OF run]
  then have "\<And>i. published_by c = Some i \<Longrightarrow> usable ad i" by (cases c) (auto simp: published_by_def)
  then show ?thesis using assms by (auto simp: advert_inv_def call_effect_def)
qed

lemma inv_stop:
  assumes "advert_inv ad x" "\<not> av_closing (dv_state x)"
  shows "advert_inv ad (stop_polling x)"
proof -
  have late: "usable ad (call_info c)" if "dv_phase x = Waiting first ip c" for first ip c
    using assms(1) that call_usable unfolding advert_inv_def by blast
  have reg: "av_registered (dv_state x) \<longleftrightarrow> av_info (dv_state x) \<noteq> None" "state_ok ad (dv_state x)" "dv_phase x \<noteq> Stopped"
    "\<not> dv_trouble x \<longrightarrow> dv_published x = av_info (dv_state x)" "list_all (\<lambda>c. \<not> removes c) (dv_calls x)"
    using assms by (auto simp: advert_inv_def settled_def)
  then have "list_all (\<lambda>c. \<not> removes c) (tl (dv_calls x))" by (cases "dv_calls x") simp_all
  note reg = reg this
  show ?thesis
  proof (cases "av_info (dv_state x)")
    case None
    then have "unregister_call (closing (dv_state x)) = None" using reg by (simp add: unregister_call_def closing_def)
    then show ?thesis
      using assms None reg late
      by (auto simp: stop_polling_def advert_inv_def closing_def state_ok_def settled_def Let_def split: advert_phase.splits)
  next
    case (Some i)
    then have "unregister_call (closing (dv_state x)) = Some (Unregister i)" using reg by (simp add: unregister_call_def closing_def)
    moreover have "usable ad i" using reg(2) Some by (auto simp: state_ok_def usable_def)
    ultimately show ?thesis
      using assms Some reg late
      by (auto simp: stop_polling_def advert_inv_def closing_def state_ok_def settled_def Let_def unregister_call_def split: advert_phase.splits)
  qed
qed

lemma inv_unregistering:
  assumes "advert_inv ad x" "dv_phase x = Unregistering c" "removed \<or> troubled"
  shows "advert_inv ad ((call_effect removed c x)\<lparr>dv_state := (dv_state x)\<lparr>av_registered := False\<rparr>, dv_phase := Stopped,
     dv_trouble := dv_trouble x \<or> troubled\<rparr>)"
proof -
  have "published_by c = None" using assms unregister_info by (auto simp: advert_inv_def)
  then show ?thesis using assms by (auto simp: advert_inv_def call_effect_def state_ok_def settled_def split: option.splits)
qed

lemma inv_late:
  assumes "advert_inv ad x" "dv_late x = Some c"
  shows "advert_inv ad ((call_effect finished c x)\<lparr>dv_late := None\<rparr>)"
proof -
  have "\<And>i. published_by c = Some i \<Longrightarrow> i = call_info c" by (cases c) (auto simp: published_by_def)
  then show ?thesis using assms by (auto simp: advert_inv_def call_effect_def settled_def)
qed

lemma inv_step:
  assumes "advert_inv ad x" "advert_step ad x y"
  shows "advert_inv ad y"
  using assms(2)
proof cases
  case close
  have "\<not> av_closing (dv_state x)" using close(2) assms(1) by (auto simp: advert_inv_def)
  then show ?thesis using inv_stop assms(1) close(1) by simp
next
  case (unregistered c)
  then show ?thesis using inv_unregistering [OF assms(1) unregistered(2), of True False] by (cases x) (simp add: call_effect_def)
next
  case (kept c partial)
  then show ?thesis using inv_unregistering [OF assms(1) kept(2), of partial True] by simp
qed (use assms(1) inv_launch inv_returned inv_raised inv_late in auto)

lemma advert_reach_inv:
  assumes "advert_reach ad av x" "new_advertiser sha256 packed port name identifier model properties = Inr (ad, av)"
  shows "advert_inv ad x"
  using assms(1)
proof induction
  case fresh
  then show ?case
    using assms(2) by (auto simp: advert_inv_def new_advertising_def new_advertiser_def rbind_def state_ok_def settled_def split: sum.splits)
qed (rule inv_step)

subsection \<open>Properties\<close>

text \<open>C35: Only services at a usable address of the host are ever published. As long as no call failed, a sleeping poller
  means that the published service is the one of the recorded address; and a poller that wakes to another usable
  address makes a call that, when it returns, publishes and records that address, whatever failed before.\<close>

theorem advertised_current:
  assumes "new_advertiser sha256 packed port name identifier model properties = Inr (ad, av)" and "advert_reach ad av x"
  shows "(\<forall>i. dv_published x = Some i \<longrightarrow> (\<exists>ip. ip \<noteq> NO_IP \<and> build_info ad ip = Inr i))
    \<and> (dv_phase x = Sleeping \<and> \<not> dv_trouble x \<longrightarrow> dv_published x = av_info (dv_state x)
         \<and> (\<forall>i. av_info (dv_state x) = Some i \<longrightarrow> (\<exists>ip. av_current_ip (dv_state x) = Some ip \<and> build_info ad ip = Inr i)))
    \<and> (\<forall>ip i. dv_phase x = Sleeping \<and> ip \<noteq> NO_IP \<and> Some ip \<noteq> av_current_ip (dv_state x) \<and> build_info ad ip = Inr i \<longrightarrow>
         (\<exists>c. launch False (refresh_call ad (Inr ip) (dv_state x)) x = x\<lparr>dv_phase := Waiting False ip c, dv_calls := c # dv_calls x\<rparr>
            \<and> (\<forall>y. dv_state y = dv_state x \<longrightarrow> dv_published (refresh_done ip c y) = Some i
                 \<and> av_current_ip (dv_state (refresh_done ip c y)) = Some ip)))"
proof -
  have inv: "advert_inv ad x" by (rule advert_reach_inv [OF assms(2,1)])
  have "\<exists>c. refresh_call ad (Inr ip) (dv_state x) = Inr (Some (ip, c)) \<and> call_info c = i \<and> published_by c = Some i"
    if "dv_phase x = Sleeping" "ip \<noteq> NO_IP" "Some ip \<noteq> av_current_ip (dv_state x)" "build_info ad ip = Inr i" for ip i
    using inv that by (auto simp: advert_inv_def refresh_call_def published_by_def)
  then show ?thesis
    using inv by (fastforce simp: advert_inv_def state_ok_def settled_def usable_def launch_def refresh_done_def call_effect_def split: option.splits)
qed

text \<open>Once \<open>close\<close> has begun the advertiser makes no further call, whatever happens, and the removal of the
  service, if there is one, is the last and the only one; when \<open>close\<close> is through, nothing is published, unless a call
  failed or was abandoned on its thread.\<close>

theorem closing_quiet:
  assumes "new_advertiser sha256 packed port name identifier model properties = Inr (ad, av)" and "advert_reach ad av x"
    and "av_closing (dv_state x)"
  shows "(\<forall>y. advert_step ad x y \<longrightarrow> dv_calls y = dv_calls x \<and> av_closing (dv_state y))
    \<and> list_all (\<lambda>c. \<not> removes c) (tl (dv_calls x))
    \<and> (dv_phase x = Stopped \<and> \<not> dv_trouble x \<longrightarrow> dv_published x = None)"
proof -
  have inv: "advert_inv ad x" by (rule advert_reach_inv [OF assms(2,1)])
  have "dv_calls y = dv_calls x \<and> av_closing (dv_state y)" if "advert_step ad x y" for y
    using that assms(3) inv by cases (auto simp: advert_inv_def call_effect_def)
  then show ?thesis using inv assms(3) by (simp add: advert_inv_def settled_def)
qed

subsection \<open>Witnesses\<close>

definition sample_advert :: advert where
  "sample_advert = \<lparr>ad_packed = (\<lambda>s. Inr (map of_char s)), ad_port = 49152, ad_device_name = ''TV'', ad_properties = [(''rpMd'', ''X'')]\<rparr>"

abbreviation sample_advertiser :: advertiser where
  "sample_advertiser \<equiv> \<lparr>av_current_ip = None, av_info = None, av_registered = False, av_closing = False\<rparr>"

lemma sample_new:
  "new_advertiser sha256 (\<lambda>s. Inr (map of_char s)) 49152 ''TV'' ''A'' ''X'' [(''rpMd'', ''X'')] = Inr (sample_advert, sample_advertiser)"
  by (simp add: new_advertiser_def sample_advert_def)

definition sample_info :: "string \<Rightarrow> service_info" where
  "sample_info ip = \<lparr>inf_name = ''TV._companion-link._tcp.local.'', inf_address = map of_char ip, inf_port = 49152,
     inf_properties = [(''rpMd'', ''X'')], inf_host_ttl = 4500, inf_server = Some ''TV._companion-link._tcp.local.''\<rparr>"

lemma sample_build: "build_info sample_advert ip = Inr (sample_info ip)"
  by (simp add: build_info_def sample_advert_def sample_info_def HOST_TTL_SECONDS_def Let_def)

text \<open>No address, then one, then the registration returns.\<close>

definition sample_advertised :: advertising where
  "sample_advertised = \<lparr>dv_state = \<lparr>av_current_ip = Some ''10.0.0.5'', av_info = Some (sample_info ''10.0.0.5''), av_registered = True, av_closing = False\<rparr>,
     dv_phase = Sleeping, dv_published = Some (sample_info ''10.0.0.5''), dv_late = None, dv_calls = [Register (sample_info ''10.0.0.5'')],
     dv_trouble = False\<rparr>"

lemma sample_reached: "advert_reach sample_advert sample_advertiser sample_advertised"
proof -
  let ?ad = sample_advert and ?x0 = "new_advertising sample_advertiser" and ?c = "Register (sample_info ''10.0.0.5'')"
  have fields: "dv_phase ?x0 = Fresh" "dv_state ?x0 = sample_advertiser" by (simp_all add: new_advertising_def)
  have "advert_step ?ad ?x0 (launch True (refresh_call ?ad (Inr NO_IP) (dv_state ?x0)) ?x0)" by (rule advert_step.start) (rule fields)
  then have 1: "advert_step ?ad ?x0 (?x0\<lparr>dv_phase := Sleeping\<rparr>)" by (simp add: fields launch_def refresh_call_def)
  let ?x1 = "?x0\<lparr>dv_phase := Sleeping\<rparr>"
  have "advert_step ?ad ?x1 (launch False (refresh_call ?ad (Inr ''10.0.0.5'') (dv_state ?x1)) ?x1)" by (rule advert_step.wake) simp
  then have 2: "advert_step ?ad ?x1 (?x1\<lparr>dv_phase := Waiting False ''10.0.0.5'' ?c, dv_calls := [?c]\<rparr>)"
    by (simp add: fields launch_def refresh_call_def sample_build NO_IP_def) (simp add: new_advertising_def)
  let ?x2 = "?x1\<lparr>dv_phase := Waiting False ''10.0.0.5'' ?c, dv_calls := [?c]\<rparr>"
  have "advert_step ?ad ?x2 (refresh_done ''10.0.0.5'' ?c ?x2)" by (rule advert_step.returned [where first = False]) simp
  moreover have "refresh_done ''10.0.0.5'' ?c ?x2 = sample_advertised"
    by (simp add: refresh_done_def call_effect_def published_by_def refreshed_def new_advertising_def sample_advertised_def)
  ultimately show ?thesis using advert_reach.step [OF advert_reach.step [OF advert_reach.step [OF advert_reach.fresh 1] 2]] by simp
qed

theorem advertised_current_witness:
  "\<exists>c. launch False (refresh_call sample_advert (Inr ''10.0.0.6'') (dv_state sample_advertised)) sample_advertised
      = sample_advertised\<lparr>dv_phase := Waiting False ''10.0.0.6'' c, dv_calls := c # dv_calls sample_advertised\<rparr>
    \<and> dv_published (refresh_done ''10.0.0.6'' c sample_advertised) = Some (sample_info ''10.0.0.6'')"
proof -
  have "dv_phase sample_advertised = Sleeping" "''10.0.0.6'' \<noteq> NO_IP" "Some ''10.0.0.6'' \<noteq> av_current_ip (dv_state sample_advertised)"
    by (simp_all add: sample_advertised_def NO_IP_def)
  with advertised_current [OF sample_new sample_reached] sample_build show ?thesis by blast
qed

theorem closing_quiet_witness:
  "\<exists>x. advert_reach sample_advert sample_advertiser x \<and> dv_phase x = Stopped \<and> dv_published x = None
     \<and> dv_calls x = [Unregister (sample_info ''10.0.0.5''), Register (sample_info ''10.0.0.5'')]"
proof -
  let ?ad = sample_advert and ?c = "Unregister (sample_info ''10.0.0.5'')"
  let ?y = "stop_polling sample_advertised"
  have y: "dv_phase ?y = Unregistering ?c" "dv_trouble ?y = False" "dv_calls ?y = [?c, Register (sample_info ''10.0.0.5'')]"
    by (simp_all add: stop_polling_def sample_advertised_def closing_def unregister_call_def)
  let ?z = "(call_effect True ?c ?y)\<lparr>dv_state := (dv_state ?y)\<lparr>av_registered := False\<rparr>, dv_phase := Stopped\<rparr>"
  have "advert_step ?ad sample_advertised ?y" by (rule advert_step.close) (simp add: sample_advertised_def)
  then have "advert_reach ?ad sample_advertiser ?y" by (rule advert_reach.step [OF sample_reached])
  moreover have "advert_step ?ad ?y ?z" by (rule advert_step.unregistered) (rule y(1))
  ultimately have reach: "advert_reach ?ad sample_advertiser ?z" by (rule advert_reach.step)
  have z: "dv_phase ?z = Stopped" "av_closing (dv_state ?z)" "\<not> dv_trouble ?z" "dv_calls ?z = dv_calls ?y"
    using y(2) by (simp_all add: call_effect_def) (simp add: stop_polling_def sample_advertised_def closing_def unregister_call_def)
  from closing_quiet [OF sample_new reach z(2)] z(1,3) have "dv_published ?z = None" by blast
  then show ?thesis using reach z y(3) by (intro exI [of _ ?z]) simp
qed

end
