(* ===== verification/Startup.thy ===== *)
theory Startup
  imports Effects
begin

text \<open>
  The lifetime of the process: \<open>run\<close> and \<open>_start_companion_listener_with_identity\<close> of \<^verbatim>\<open>app.py\<close>, and the
  error paths of \<open>serve\<close> and \<open>close_server\<close> in \<^verbatim>\<open>companion/server.py\<close>. The state is what the process holding_only, the
  callbacks of its exit stack, and a log; each operation that can raise does so when the parameter \<open>f\<close> says so.
  What the operations do is the subject of the other theories.

  Shown: nothing is opened without a state directory and a trusted certificate; whatever raises or is cancelled,
  all that was opened is released, but for what a failing release itself leaves; the television's client comes
  last; and a television that is away is no reason to stop.
\<close>

subsection \<open>The process\<close>

datatype resource = TvClient | StateLock | Store | Lane | Listening | Mdns | Advertisement

datatype callback = CloseTheClient | CloseTheServer | CloseTheMdns | CloseTheAdvertiser

datatype operation =
    LoadPin | AcquireLock | LoadIdentity | OpenStore | Bind | ReadPort | ReleaseLock | BoundPort | MakeMdns | StartAdvertising | Connect
  | AddSignals | AwaitStop | ShutServices | WaitClosed | CloseLane | CloseStore | CloseMdns | CloseAdvertiser | CloseClient

datatype effect = Opened resource | Closed resource

record process =
  pr_open :: "resource list"
  pr_stack :: "callback list"
  pr_server_closed :: bool
  pr_log :: "effect list"

type_synonym 'a step_action = "(process, 'a) st"
type_synonym faults = "operation \<Rightarrow> exn option"

definition perform :: "faults \<Rightarrow> operation \<Rightarrow> unit step_action" where
  "perform f op = (case f op of None \<Rightarrow> st_return () | Some e \<Rightarrow> st_raise e)"

definition hold :: "resource \<Rightarrow> unit step_action" where
  "hold r = st_modify (\<lambda>p. p\<lparr>pr_open := r # pr_open p, pr_log := Opened r # pr_log p\<rparr>)"

definition let_go :: "resource \<Rightarrow> unit step_action" where
  "let_go r = st_modify (\<lambda>p. p\<lparr>pr_open := removeAll r (pr_open p), pr_log := Closed r # pr_log p\<rparr>)"

text \<open>A release that raises may leave the resource open.\<close>

definition acquire :: "faults \<Rightarrow> operation \<Rightarrow> resource \<Rightarrow> unit step_action" where
  "acquire f op r = st_then (perform f op) (hold r)"

definition release :: "faults \<Rightarrow> operation \<Rightarrow> resource \<Rightarrow> unit step_action" where
  "release f op r = st_then (perform f op) (let_go r)"

text \<open>\<open>try: m finally: n\<close> and \<open>try: m except BaseException: n; raise\<close>\<close>

definition ending :: "'a step_action \<Rightarrow> unit step_action \<Rightarrow> 'a step_action" where
  "ending m n = st_handle m (\<lambda>e. st_then n (st_raise e)) (\<lambda>x. st_then n (st_return x))"

definition undoing :: "'a step_action \<Rightarrow> unit step_action \<Rightarrow> 'a step_action" where
  "undoing m n = st_handle m (\<lambda>e. st_then n (st_raise e)) st_return"

subsection \<open>The listener\<close>

text \<open>Closing the store again does nothing.\<close>

definition close_store_once :: "faults \<Rightarrow> unit step_action" where
  "close_store_once f = st_get (\<lambda>p. if Store \<in> set (pr_open p) then release f CloseStore Store else st_return ())"

definition serve_listener :: "faults \<Rightarrow> unit step_action" where
  "serve_listener f = st_then (hold Lane) (undoing (st_then (acquire f Bind Listening) (perform f ReadPort))
     (ending (st_then (let_go Listening) (st_then (perform f ShutServices) (perform f WaitClosed)))
       (st_then (release f CloseLane Lane) (close_store_once f))))"

definition close_listener :: "faults \<Rightarrow> unit step_action" where
  "close_listener f = ending
     (st_then (let_go Listening) (st_then (perform f ShutServices) (st_then (perform f WaitClosed) (release f CloseLane Lane))))
     (close_store_once f)"

definition start_listener_with_identity :: "faults \<Rightarrow> unit step_action" where
  "start_listener_with_identity f = st_then (acquire f AcquireLock StateLock) (ending
     (st_then (perform f LoadIdentity) (st_then (acquire f OpenStore Store)
       (undoing (serve_listener f) (close_store_once f))))
     (release f ReleaseLock StateLock))"

subsection \<open>\<open>run\<close>\<close>

definition push :: "callback \<Rightarrow> unit step_action" where
  "push cb = st_modify (\<lambda>p. p\<lparr>pr_stack := cb # pr_stack p\<rparr>)"

text \<open>The local \<open>close_server\<close>, at most once.\<close>

definition close_server_once :: "faults \<Rightarrow> unit step_action" where
  "close_server_once f = st_get (\<lambda>p. if pr_server_closed p then st_return ()
     else st_then (st_modify (\<lambda>p. p\<lparr>pr_server_closed := True\<rparr>)) (close_listener f))"

definition run_callback :: "faults \<Rightarrow> callback \<Rightarrow> unit step_action" where
  "run_callback f cb = (case cb of
     CloseTheClient \<Rightarrow> release f CloseClient TvClient
   | CloseTheServer \<Rightarrow> close_server_once f
   | CloseTheMdns \<Rightarrow> release f CloseMdns Mdns
   | CloseTheAdvertiser \<Rightarrow> release f CloseAdvertiser Advertisement)"

text \<open>The exit stack: the callbacks in reverse order, each of them whatever the others did; the last exception wins.\<close>

fun unwind :: "faults \<Rightarrow> callback list \<Rightarrow> unit result \<Rightarrow> unit step_action" where
  "unwind f [] r = st_lift r"
| "unwind f (cb # cbs) r = st_handle (run_callback f cb) (\<lambda>e. unwind f cbs (Inl e)) (\<lambda>_. unwind f cbs r)"

definition with_exit_stack :: "faults \<Rightarrow> unit step_action \<Rightarrow> unit step_action" where
  "with_exit_stack f m = st_handle m (\<lambda>e. st_get (\<lambda>p. unwind f (pr_stack p) (Inl e))) (\<lambda>_. st_get (\<lambda>p. unwind f (pr_stack p) (Inr ())))"

text \<open>An advertiser that registered nothing yet is closed like any other.\<close>

definition advertise :: "faults \<Rightarrow> unit step_action" where
  "advertise f = st_then (acquire f MakeMdns Mdns) (st_then (push CloseTheMdns)
     (st_then (hold Advertisement) (st_then (push CloseTheAdvertiser) (perform f StartAdvertising))))"

definition advertise_or_close :: "faults \<Rightarrow> unit step_action" where
  "advertise_or_close f = st_handle (advertise f)
     (\<lambda>e. st_then (close_server_once f) (st_raise (if e \<in> {OsError, FileNotFound, TimeoutError, ConnectionError} then RuntimeError else e)))
     st_return"

definition connect_best_effort :: "faults \<Rightarrow> unit step_action" where
  "connect_best_effort f = st_handle (perform f Connect) (\<lambda>e. if e = CancelledError then st_raise e else st_return ()) st_return"

definition run_body :: "faults \<Rightarrow> unit step_action" where
  "run_body f = st_then (hold TvClient) (st_then (push CloseTheClient) (st_then (start_listener_with_identity f)
     (st_then (perform f BoundPort) (st_then (advertise_or_close f) (st_then (push CloseTheServer) (st_then (connect_best_effort f)
       (st_then (perform f AddSignals) (perform f AwaitStop))))))))"

definition run_bridge :: "bool \<Rightarrow> faults \<Rightarrow> unit step_action" where
  "run_bridge has_dir f = (if \<not> has_dir then st_raise RuntimeError else st_then (perform f LoadPin) (with_exit_stack f (run_body f)))"

definition new_process :: process where
  "new_process = \<lparr>pr_open = [], pr_stack = [], pr_server_closed = False, pr_log = []\<rparr>"

subsection \<open>What a failure leaves\<close>

text \<open>The operations whose failure can leave a resource open: its own release, what comes before it in \<open>close_server\<close>,
  and the two steps between the bind and the \<open>try\<close> block whose handlers close the listener.\<close>

fun guards_release :: "resource \<Rightarrow> operation list" where
  "guards_release TvClient = [CloseClient]"
| "guards_release StateLock = [ReleaseLock]"
| "guards_release Store = [CloseStore, ReleaseLock, BoundPort]"
| "guards_release Lane = [ShutServices, WaitClosed, CloseLane, ReleaseLock, BoundPort]"
| "guards_release Listening = [ReleaseLock, BoundPort]"
| "guards_release Mdns = [CloseMdns]"
| "guards_release Advertisement = [CloseAdvertiser]"

definition blamed :: "faults \<Rightarrow> resource \<Rightarrow> bool" where
  "blamed f r \<longleftrightarrow> list_ex (\<lambda>op. f op \<noteq> None) (guards_release r)"

fun covered :: "callback \<Rightarrow> resource set" where
  "covered CloseTheClient = {TvClient}"
| "covered CloseTheServer = {Listening, Lane, Store}"
| "covered CloseTheMdns = {Mdns}"
| "covered CloseTheAdvertiser = {Advertisement}"

text \<open>Nothing is open but \<open>R\<close> and what a failure explains; the exit stack is \<open>K\<close>.\<close>

definition holding_only :: "faults \<Rightarrow> resource set \<Rightarrow> callback list \<Rightarrow> bool \<Rightarrow> process \<Rightarrow> bool" where
  "holding_only f R K c p \<longleftrightarrow> set (pr_open p) \<subseteq> R \<union> {r. blamed f r} \<and> pr_stack p = K \<and> pr_server_closed p = c"

lemma perform_triple: "st_triple P (perform f op) (\<lambda>_ p. P p \<and> f op = None) (\<lambda>e p. P p \<and> f op = Some e)"
  by (cases "f op") (simp_all add: perform_def st_triple_def st_return_def st_raise_def)

lemma perform_keeps: "st_triple P (perform f op) (\<lambda>_. P) (\<lambda>_. P)"
  by (rule triple_weaken [OF perform_triple [of P]]) auto

text \<open>What the failing operation guards needs no release.\<close>

lemma perform_blamed:
  assumes "\<And>r. r \<in> B \<Longrightarrow> op \<in> set (guards_release r)"
  shows "st_triple (holding_only f (B \<union> R) K c) (perform f op) (\<lambda>_. holding_only f (B \<union> R) K c) (\<lambda>_. holding_only f R K c)"
proof (rule triple_weaken [OF perform_triple [of "holding_only f (B \<union> R) K c"]])
  fix e p assume "holding_only f (B \<union> R) K c p \<and> f op = Some e"
  moreover from this have "r \<in> B \<Longrightarrow> blamed f r" for r using assms by (auto simp: blamed_def list_ex_iff)
  ultimately show "holding_only f R K c p" by (auto simp: holding_only_def)
qed auto

lemma perform_blamed1:
  "op \<in> set (guards_release r) \<Longrightarrow>
     st_triple (holding_only f (insert r R) K c) (perform f op) (\<lambda>_. holding_only f (insert r R) K c) (\<lambda>_. holding_only f R K c)"
  using perform_blamed [of "{r}" op f R K c] by simp

lemma hold_triple: "st_triple (holding_only f R K c) (hold r) (\<lambda>_. holding_only f (insert r R) K c) X"
  by (auto simp: hold_def holding_only_def intro!: triple_modify)

lemma let_go_triple: "st_triple (holding_only f (insert r R) K c) (let_go r) (\<lambda>_. holding_only f R K c) X"
  by (auto simp: let_go_def holding_only_def intro!: triple_modify)

lemma push_triple: "st_triple (holding_only f R K c) (push cb) (\<lambda>_. holding_only f R (cb # K) c) X"
  by (auto simp: push_def holding_only_def intro!: triple_modify)

lemma acquire_triple: "st_triple (holding_only f R K c) (acquire f op r) (\<lambda>_. holding_only f (insert r R) K c) (\<lambda>_. holding_only f R K c)"
  unfolding acquire_def by (rule triple_then [OF perform_keeps hold_triple])

lemma release_triple:
  assumes "op \<in> set (guards_release r)"
  shows "st_triple (holding_only f (insert r R) K c) (release f op r) (\<lambda>_. holding_only f R K c) (\<lambda>_. holding_only f R K c)"
  unfolding release_def by (rule triple_then [OF perform_blamed1 [OF assms] let_go_triple])

lemma ending_triple:
  assumes "st_triple P m (\<lambda>_. M) (\<lambda>_. E)" "st_triple M n (\<lambda>_. Q) (\<lambda>_. X)" "st_triple E n (\<lambda>_. X) (\<lambda>_. X)"
  shows "st_triple P (ending m n) (\<lambda>_. Q) (\<lambda>_. X)"
  unfolding ending_def
  by (rule triple_handle [OF assms(1)]; rule triple_then) (rule assms triple_raise triple_return; assumption?)+

lemma undoing_triple:
  assumes "st_triple P m (\<lambda>_. Q) (\<lambda>_. E)" "st_triple E n (\<lambda>_. X) (\<lambda>_. X)"
  shows "st_triple P (undoing m n) (\<lambda>_. Q) (\<lambda>_. X)"
  unfolding undoing_def
  by (rule triple_handle [OF assms(1) triple_then [OF assms(2)] triple_return]) (rule triple_raise)

lemma store_once_triple: "st_triple (holding_only f (insert Store R) K c) (close_store_once f) (\<lambda>_. holding_only f R K c) (\<lambda>_. holding_only f R K c)"
  unfolding close_store_once_def
proof (rule triple_get, rule triple_if)
  fix p
  show "st_triple (\<lambda>s. s = p \<and> holding_only f (insert Store R) K c s) (release f CloseStore Store) (\<lambda>_. holding_only f R K c) (\<lambda>_. holding_only f R K c)"
    by (rule triple_pre [OF release_triple]) auto
  assume "Store \<notin> set (pr_open p)"
  then show "st_triple (\<lambda>s. s = p \<and> holding_only f (insert Store R) K c s) (st_return ()) (\<lambda>_. holding_only f R K c) (\<lambda>_. holding_only f R K c)"
    by (auto simp: holding_only_def intro!: triple_return)
qed

lemma serve_triple:
  "st_triple (holding_only f (insert Store R) K c) (serve_listener f) (\<lambda>_. holding_only f (insert Listening (insert Lane (insert Store R))) K c)
     (\<lambda>_. holding_only f (insert Store R) K c)"
proof -
  let ?L = "insert Lane (insert Store R)"
  have cleanup: "st_triple (holding_only f (insert Listening ?L) K c)
      (ending (st_then (let_go Listening) (st_then (perform f ShutServices) (perform f WaitClosed)))
        (st_then (release f CloseLane Lane) (close_store_once f)))
      (\<lambda>_. holding_only f (insert Store R) K c) (\<lambda>_. holding_only f (insert Store R) K c)"
  proof (rule ending_triple)
    show "st_triple (holding_only f (insert Listening ?L) K c) (st_then (let_go Listening) (st_then (perform f ShutServices) (perform f WaitClosed)))
       (\<lambda>_. holding_only f ?L K c) (\<lambda>_. holding_only f ?L K c)"
      by (rule triple_then [OF let_go_triple triple_then [OF perform_keeps perform_keeps]])
    have "holding_only f R K c p \<Longrightarrow> holding_only f (insert Store R) K c p" for p by (auto simp: holding_only_def)
    then have once: "st_triple (holding_only f (insert Store R) K c) (close_store_once f) (\<lambda>_. holding_only f (insert Store R) K c) (\<lambda>_. holding_only f (insert Store R) K c)"
      by (intro triple_weaken [OF store_once_triple])
    show second: "st_triple (holding_only f ?L K c) (st_then (release f CloseLane Lane) (close_store_once f))
        (\<lambda>_. holding_only f (insert Store R) K c) (\<lambda>_. holding_only f (insert Store R) K c)"
      by (rule triple_then [OF release_triple once]) simp
    show "st_triple (holding_only f ?L K c) (st_then (release f CloseLane Lane) (close_store_once f))
        (\<lambda>_. holding_only f (insert Store R) K c) (\<lambda>_. holding_only f (insert Store R) K c)" by (rule second)
  qed
  have bound: "st_triple (holding_only f ?L K c) (st_then (acquire f Bind Listening) (perform f ReadPort))
      (\<lambda>_. holding_only f (insert Listening ?L) K c) (\<lambda>_. holding_only f (insert Listening ?L) K c)"
    by (rule triple_then [OF triple_weaken [OF acquire_triple [of f ?L K c Bind Listening]] perform_keeps]) (auto simp: holding_only_def)
  show ?thesis
    unfolding serve_listener_def by (rule triple_then [OF hold_triple undoing_triple [OF bound cleanup]])
qed

lemma close_listener_triple:
  "st_triple (holding_only f (insert Listening (insert Lane (insert Store R))) K c) (close_listener f) (\<lambda>_. holding_only f R K c) (\<lambda>_. holding_only f R K c)"
  unfolding close_listener_def
proof (rule ending_triple [OF _ store_once_triple store_once_triple])
  let ?L = "insert Lane (insert Store R)"
  show "st_triple (holding_only f (insert Listening ?L) K c)
      (st_then (let_go Listening) (st_then (perform f ShutServices) (st_then (perform f WaitClosed) (release f CloseLane Lane))))
      (\<lambda>_. holding_only f (insert Store R) K c) (\<lambda>_. holding_only f (insert Store R) K c)"
    by (rule triple_then [OF let_go_triple triple_then [OF perform_blamed1 triple_then [OF perform_blamed1 release_triple]]]) simp_all
qed

lemma start_listener_triple:
  "st_triple (holding_only f R K c) (start_listener_with_identity f)
     (\<lambda>_. holding_only f (insert Listening (insert Lane (insert Store R))) K c) (\<lambda>_. holding_only f R K c)"
proof -
  let ?S = "insert StateLock R" and ?all = "{Listening, Lane, Store}"
  have "st_triple (holding_only f ?S K c) (st_then (perform f LoadIdentity) (st_then (acquire f OpenStore Store)
       (undoing (serve_listener f) (close_store_once f))))
     (\<lambda>_. holding_only f (insert Listening (insert Lane (insert Store ?S))) K c) (\<lambda>_. holding_only f ?S K c)"
    by (rule triple_then [OF perform_keeps triple_then [OF acquire_triple undoing_triple [OF serve_triple store_once_triple]]])
  moreover have "st_triple (holding_only f (insert Listening (insert Lane (insert Store ?S))) K c) (release f ReleaseLock StateLock)
     (\<lambda>_. holding_only f (insert Listening (insert Lane (insert Store R))) K c) (\<lambda>_. holding_only f R K c)"
  proof -
    have "st_triple (holding_only f (insert StateLock ?all \<union> R) K c) (perform f ReleaseLock)
       (\<lambda>_. holding_only f (insert StateLock ?all \<union> R) K c) (\<lambda>_. holding_only f R K c)"
      by (rule perform_blamed) auto
    moreover have "insert StateLock ?all \<union> R = insert StateLock (?all \<union> R)" "?all \<union> R = insert Listening (insert Lane (insert Store R))"
      "insert Listening (insert Lane (insert Store ?S)) = insert StateLock (?all \<union> R)" by auto
    ultimately show ?thesis unfolding release_def using triple_then [OF _ let_go_triple] by simp
  qed
  moreover have "st_triple (holding_only f ?S K c) (release f ReleaseLock StateLock) (\<lambda>_. holding_only f R K c) (\<lambda>_. holding_only f R K c)"
    by (rule release_triple) simp
  ultimately show ?thesis
    unfolding start_listener_with_identity_def by (rule triple_then [OF acquire_triple ending_triple])
qed

subsection \<open>The exit stack\<close>

lemma server_once_triple:
  "st_triple (holding_only f (insert Listening (insert Lane (insert Store R))) K False) (close_server_once f)
     (\<lambda>_. holding_only f R K True) (\<lambda>_. holding_only f R K True)"
  unfolding close_server_once_def
proof (rule triple_get, rule triple_if)
  let ?P = "\<lambda>p s. s = p \<and> holding_only f (insert Listening (insert Lane (insert Store R))) K False s"
  fix p
  show "pr_server_closed p \<Longrightarrow> st_triple (?P p) (st_return ()) (\<lambda>_. holding_only f R K True) (\<lambda>_. holding_only f R K True)"
    by (auto simp: holding_only_def intro!: triple_return)
  have "st_triple (?P p) (st_modify (\<lambda>p. p\<lparr>pr_server_closed := True\<rparr>))
      (\<lambda>_. holding_only f (insert Listening (insert Lane (insert Store R))) K True) (\<lambda>_. holding_only f R K True)"
    by (auto simp: holding_only_def intro!: triple_modify)
  then show "st_triple (?P p) (st_then (st_modify (\<lambda>p. p\<lparr>pr_server_closed := True\<rparr>)) (close_listener f))
      (\<lambda>_. holding_only f R K True) (\<lambda>_. holding_only f R K True)"
    by (rule triple_then [OF _ close_listener_triple])
qed

lemma callback_triple:
  assumes "cb = CloseTheServer \<longrightarrow> \<not> c"
  shows "st_triple (holding_only f (covered cb \<union> R) K c) (run_callback f cb)
     (\<lambda>_. holding_only f R K (c \<or> cb = CloseTheServer)) (\<lambda>_. holding_only f R K (c \<or> cb = CloseTheServer))"
  using assms server_once_triple [of f R K] by (cases cb) (auto simp: run_callback_def intro!: release_triple)

lemma unwind_triple:
  assumes "distinct cbs" "CloseTheServer \<in> set cbs \<longrightarrow> \<not> c"
  shows "st_triple (holding_only f (\<Union> (covered ` set cbs)) K c) (unwind f cbs r)
     (\<lambda>_ p. \<exists>c. holding_only f {} K c p) (\<lambda>_ p. \<exists>c. holding_only f {} K c p)"
  using assms
proof (induction cbs arbitrary: c r)
  case Nil
  then show ?case by (auto intro!: triple_lift)
next
  case (Cons cb cbs)
  have later: "distinct cbs" "CloseTheServer \<in> set cbs \<longrightarrow> \<not> (c \<or> cb = CloseTheServer)" and now: "cb = CloseTheServer \<longrightarrow> \<not> c"
    using Cons.prems by auto
  have "st_triple (holding_only f (covered cb \<union> \<Union> (covered ` set cbs)) K c) (unwind f (cb # cbs) r)
     (\<lambda>_ p. \<exists>c. holding_only f {} K c p) (\<lambda>_ p. \<exists>c. holding_only f {} K c p)"
    unfolding unwind.simps by (rule triple_handle [OF callback_triple [OF now] Cons.IH [OF later] Cons.IH [OF later]])
  then show ?case by simp
qed

text \<open>The first callback that was pushed runs last.\<close>

definition client_last :: "faults \<Rightarrow> process \<Rightarrow> bool" where
  "client_last f p \<longleftrightarrow> (f CloseClient = None \<longrightarrow> (\<exists>log. pr_log p = Closed TvClient # log))"

lemma unwind_client:
  "st_triple (\<lambda>_. True) (unwind f (cbs @ [CloseTheClient]) r) (\<lambda>_. client_last f) (\<lambda>_. client_last f)"
proof (induction cbs arbitrary: r)
  case Nil
  show ?case
    by (cases "f CloseClient"; cases r)
      (simp_all add: st_triple_def client_last_def run_callback_def release_def perform_def let_go_def st_eval)
next
  case (Cons cb cbs)
  have any: "st_triple (\<lambda>_. True) m (\<lambda>_ _. True) (\<lambda>_ _. True)" for m :: "unit step_action"
    by (auto simp: st_triple_def split: prod.split sum.split)
  show ?case by (simp, rule triple_handle [OF any Cons Cons])
qed

lemma triple_conj:
  "st_triple P m Q X \<Longrightarrow> st_triple P' m Q' X' \<Longrightarrow> st_triple (\<lambda>s. P s \<and> P' s) m (\<lambda>x s. Q x s \<and> Q' x s) (\<lambda>e s. X e s \<and> X' e s)"
  by (fastforce simp: st_triple_def split: prod.split sum.split)

text \<open>The stacks that the body leaves, with what is open then.\<close>

definition stacked :: "faults \<Rightarrow> process \<Rightarrow> bool" where
  "stacked f p \<longleftrightarrow> (\<exists>cbs c. distinct (cbs @ [CloseTheClient]) \<and> (CloseTheServer \<in> set cbs \<longrightarrow> \<not> c)
     \<and> holding_only f (\<Union> (covered ` set (cbs @ [CloseTheClient]))) (cbs @ [CloseTheClient]) c p)"

definition released :: "faults \<Rightarrow> process \<Rightarrow> bool" where
  "released f p \<longleftrightarrow> set (pr_open p) \<subseteq> {r. blamed f r} \<and> client_last f p"

lemma exit_stack_triple:
  assumes "st_triple P m (\<lambda>_. stacked f) (\<lambda>_. stacked f)"
  shows "st_triple P (with_exit_stack f m) (\<lambda>_. released f) (\<lambda>_. released f)"
proof -
  have "st_triple (stacked f) (st_get (\<lambda>p. unwind f (pr_stack p) r)) (\<lambda>_. released f) (\<lambda>_. released f)" for r
  proof (rule triple_get)
    fix p
    show "st_triple (\<lambda>s. s = p \<and> stacked f s) (unwind f (pr_stack p) r) (\<lambda>_. released f) (\<lambda>_. released f)"
    proof (cases "stacked f p")
      case True
      then obtain cbs c where cbs: "distinct (cbs @ [CloseTheClient])" "CloseTheServer \<in> set (cbs @ [CloseTheClient]) \<longrightarrow> \<not> c"
        "holding_only f (\<Union> (covered ` set (cbs @ [CloseTheClient]))) (cbs @ [CloseTheClient]) c p" "pr_stack p = cbs @ [CloseTheClient]"
        unfolding stacked_def by (auto simp: holding_only_def)
      show ?thesis
        unfolding cbs(4)
        by (rule triple_weaken [OF triple_conj [OF unwind_triple [OF cbs(1,2)] unwind_client]])
          (use cbs(3) in \<open>auto simp: released_def holding_only_def\<close>)
    qed (simp add: st_triple_def)
  qed
  note unwinding = this
  show ?thesis unfolding with_exit_stack_def by (rule triple_handle [OF assms]; rule unwinding)
qed

lemma stackedI:
  "distinct (cbs @ [CloseTheClient]) \<Longrightarrow> (CloseTheServer \<in> set cbs \<longrightarrow> \<not> c) \<Longrightarrow>
     holding_only f (\<Union> (covered ` set (cbs @ [CloseTheClient]))) (cbs @ [CloseTheClient]) c p \<Longrightarrow> stacked f p"
  unfolding stacked_def by blast

abbreviation served :: "resource set" where
  "served \<equiv> {Listening, Lane, Store}"

lemma advertise_triple:
  "st_triple (holding_only f (served \<union> {TvClient}) [CloseTheClient] False) (advertise_or_close f)
     (\<lambda>_. holding_only f (served \<union> {Advertisement, Mdns, TvClient}) [CloseTheAdvertiser, CloseTheMdns, CloseTheClient] False)
     (\<lambda>_. stacked f)"
proof -
  let ?Q = "holding_only f (served \<union> {Advertisement, Mdns, TvClient}) [CloseTheAdvertiser, CloseTheMdns, CloseTheClient] False"
  let ?E = "\<lambda>p. ?Q p \<or> holding_only f (served \<union> {TvClient}) [CloseTheClient] False p"
  have ad: "st_triple (holding_only f (served \<union> {TvClient}) [CloseTheClient] False) (advertise f) (\<lambda>_. ?Q) (\<lambda>_. ?E)"
  proof -
    let ?M = "holding_only f (insert Mdns (served \<union> {TvClient}))"
    have acquired: "st_triple (holding_only f (served \<union> {TvClient}) [CloseTheClient] False) (acquire f MakeMdns Mdns) (\<lambda>_. ?M [CloseTheClient] False) (\<lambda>_. ?E)"
      by (rule triple_weaken [OF acquire_triple]) auto
    have held: "st_triple (?M [CloseTheMdns, CloseTheClient] False) (hold Advertisement)
        (\<lambda>_. holding_only f (insert Advertisement (insert Mdns (served \<union> {TvClient}))) [CloseTheMdns, CloseTheClient] False) (\<lambda>_. ?E)"
      by (rule hold_triple)
    have pushed: "st_triple (holding_only f (insert Advertisement (insert Mdns (served \<union> {TvClient}))) [CloseTheMdns, CloseTheClient] False)
        (push CloseTheAdvertiser) (\<lambda>_. ?Q) (\<lambda>_. ?E)"
      by (rule triple_weaken [OF push_triple [of f "insert Advertisement (insert Mdns (served \<union> {TvClient}))"]]) (auto simp: holding_only_def)
    have "st_triple ?Q (perform f StartAdvertising) (\<lambda>_. ?Q) (\<lambda>_. ?E)"
      by (rule triple_weaken [OF perform_keeps [of ?Q]]) auto
    then show ?thesis
      unfolding advertise_def
      by (rule triple_then [OF acquired triple_then [OF push_triple triple_then [OF held triple_then [OF pushed]]]])
  qed
  have failing: "st_triple ?E (st_then (close_server_once f) (st_raise e)) (\<lambda>_. ?Q) (\<lambda>_. stacked f)" for e
  proof -
    have split: "st_triple (\<lambda>p. A p \<or> B p) m Q X" if "st_triple A m Q X" "st_triple B m Q X" for A B and m :: "unit step_action" and Q X
      using that by (auto simp: st_triple_def)
    have all: "st_triple (holding_only f (insert Listening (insert Lane (insert Store R))) (cbs @ [CloseTheClient]) False) (close_server_once f)
        (\<lambda>_. stacked f) (\<lambda>_. stacked f)"
      if "R = \<Union> (covered ` set (cbs @ [CloseTheClient]))" "distinct (cbs @ [CloseTheClient])" "CloseTheServer \<notin> set cbs" for R cbs
      by (rule triple_weaken [OF server_once_triple]) (use that in \<open>auto intro: stackedI\<close>)
    have "st_triple ?Q (close_server_once f) (\<lambda>_. stacked f) (\<lambda>_. stacked f)"
    proof -
      have "served \<union> {Advertisement, Mdns, TvClient} =
          insert Listening (insert Lane (insert Store (\<Union> (covered ` set ([CloseTheAdvertiser, CloseTheMdns] @ [CloseTheClient])))))" by auto
      then show ?thesis using all [OF refl, of "[CloseTheAdvertiser, CloseTheMdns]"] by simp
    qed
    moreover have "st_triple (holding_only f (served \<union> {TvClient}) [CloseTheClient] False) (close_server_once f) (\<lambda>_. stacked f) (\<lambda>_. stacked f)"
    proof -
      have "served \<union> {TvClient} = insert Listening (insert Lane (insert Store (\<Union> (covered ` set ([] @ [CloseTheClient])))))" by auto
      then show ?thesis using all [OF refl, of "[]"] by simp
    qed
    ultimately have "st_triple ?E (close_server_once f) (\<lambda>_. stacked f) (\<lambda>_. stacked f)" by (rule split)
    then show ?thesis by (rule triple_then) (rule triple_raise)
  qed
  show ?thesis
    unfolding advertise_or_close_def by (rule triple_handle [OF ad failing triple_return])
qed

lemma body_triple:
  "st_triple (holding_only f {} [] False) (run_body f) (\<lambda>_. stacked f) (\<lambda>_. stacked f)"
proof -
  let ?R = "served \<union> {Advertisement, Mdns, TvClient}" and ?K = "[CloseTheServer, CloseTheAdvertiser, CloseTheMdns, CloseTheClient]"
  have up: "stacked f p" if "holding_only f ?R ?K False p" for p
    by (rule stackedI [of "[CloseTheServer, CloseTheAdvertiser, CloseTheMdns]" False]) (use that in \<open>auto simp: insert_commute\<close>)
  have low: "stacked f p" if "holding_only f {TvClient} [CloseTheClient] False p" for p
    by (rule stackedI [of "[]" False]) (use that in auto)
  have start: "st_triple (holding_only f {TvClient} [CloseTheClient] False) (start_listener_with_identity f)
      (\<lambda>_. holding_only f (served \<union> {TvClient}) [CloseTheClient] False) (\<lambda>_. stacked f)"
    by (rule triple_weaken [OF start_listener_triple]) (auto simp: insert_commute intro: low)
  have still: "st_triple (holding_only f ?R ?K False) (perform f op) (\<lambda>_. holding_only f ?R ?K False) (\<lambda>_. stacked f)" for op
    by (rule triple_weaken [OF perform_keeps [of "holding_only f ?R ?K False"]]) (use up in auto)
  have connect: "st_triple (holding_only f ?R ?K False) (connect_best_effort f) (\<lambda>_. holding_only f ?R ?K False) (\<lambda>_. stacked f)"
    unfolding connect_best_effort_def
    by (rule triple_handle [OF perform_keeps]) (auto intro!: triple_raise triple_return up)
  have stop: "st_triple (holding_only f ?R ?K False) (perform f AwaitStop) (\<lambda>_. stacked f) (\<lambda>_. stacked f)"
    by (rule triple_weaken [OF perform_keeps [of "holding_only f ?R ?K False"]]) (use up in auto)
  have "st_triple (holding_only f ?R ?K False) (st_then (perform f AddSignals) (perform f AwaitStop)) (\<lambda>_. stacked f) (\<lambda>_. stacked f)"
    by (rule triple_then [OF still stop])
  note rest = triple_then [OF push_triple triple_then [OF connect this]]
  have port: "st_triple (holding_only f (served \<union> {TvClient}) [CloseTheClient] False) (perform f BoundPort)
      (\<lambda>_. holding_only f (served \<union> {TvClient}) [CloseTheClient] False) (\<lambda>_. stacked f)"
    by (rule triple_weaken [OF perform_blamed [of served BoundPort f "{TvClient}"]]) (auto intro: low)
  show ?thesis
    unfolding run_body_def
    by (rule triple_then [OF hold_triple triple_then [OF push_triple triple_then [OF start
          triple_then [OF port triple_then [OF advertise_triple rest]]]]])
qed

text \<open>What comes of the connection to the television matters to none of the others.\<close>

lemma other_operations: "op \<noteq> Connect \<Longrightarrow> perform (f(Connect := x)) op = perform f op"
  by (simp add: perform_def)

lemma connect_irrelevant:
  assumes "e \<noteq> CancelledError"
  shows "run_bridge has_dir (f(Connect := Some e)) = run_bridge has_dir (f(Connect := None))"
proof -
  have parts: "acquire (f(Connect := x)) op r = acquire f op r" "release (f(Connect := x)) op r = release f op r" if "op \<noteq> Connect" for x op r
    using that by (simp_all add: acquire_def release_def other_operations)
  then have once: "close_store_once (f(Connect := x)) = close_store_once f" for x by (simp add: close_store_once_def cong: if_cong)
  then have server: "close_server_once (f(Connect := x)) = close_server_once f" for x
    by (simp add: close_server_once_def close_listener_def parts other_operations cong: if_cong)
  then have "run_callback (f(Connect := x)) cb = run_callback f cb" for x cb
    by (cases cb) (simp_all add: run_callback_def parts)
  then have stack: "unwind (f(Connect := x)) cbs r = unwind f cbs r" for x cbs r
    by (induction cbs arbitrary: r) simp_all
  have "start_listener_with_identity (f(Connect := x)) = start_listener_with_identity f" "advertise_or_close (f(Connect := x)) = advertise_or_close f" for x
    by (simp_all add: start_listener_with_identity_def serve_listener_def advertise_or_close_def advertise_def parts other_operations once server)
  moreover have "connect_best_effort (f(Connect := Some e)) = connect_best_effort (f(Connect := None))"
    using assms by (intro ext) (simp add: connect_best_effort_def perform_def st_eval)
  ultimately show ?thesis
    by (simp add: run_bridge_def run_body_def with_exit_stack_def stack other_operations)
qed

subsection \<open>Properties\<close>

text \<open>C18: Whatever operations raise or are cancelled, when \<open>run\<close> ends nothing is open but a resource that one of the
  few failures listed for it explains, and the television's client was the last to close; without a state directory or a
  trusted certificate nothing was opened at all; and a television that does not answer changes nothing.\<close>

theorem run_releases:
  assumes "run_bridge has_dir f new_process = (r, p)"
  shows "(\<forall>x \<in> set (pr_open p). blamed f x)
    \<and> (\<not> has_dir \<or> f LoadPin \<noteq> None \<longrightarrow> (\<exists>e. r = Inl e) \<and> pr_log p = [])
    \<and> (has_dir \<and> f LoadPin = None \<and> f CloseClient = None \<longrightarrow> (\<exists>log. pr_log p = Closed TvClient # log))
    \<and> (\<forall>e. e \<noteq> CancelledError \<longrightarrow> run_bridge has_dir (f(Connect := Some e)) = run_bridge has_dir (f(Connect := None)))"
proof (cases "has_dir \<and> f LoadPin = None")
  case True
  then have run: "with_exit_stack f (run_body f) new_process = (r, p)"
    using assms by (simp add: run_bridge_def perform_def st_eval)
  have "holding_only f {} [] False new_process" by (simp add: holding_only_def new_process_def)
  then have "released f p"
    using tripleD_return [OF exit_stack_triple [OF body_triple]] tripleD_raise [OF exit_stack_triple [OF body_triple]] run
    by (cases r) blast+
  then show ?thesis using True connect_irrelevant by (auto simp: released_def client_last_def)
next
  case False
  then have "(\<exists>e. r = Inl e) \<and> p = new_process"
    using assms by (auto simp: run_bridge_def perform_def st_eval split: if_splits option.splits)
  then show ?thesis using False connect_irrelevant by (auto simp: new_process_def)
qed

subsection \<open>Witnesses\<close>

text \<open>The mDNS registration is refused and the command lane does not drain.\<close>

theorem run_releases_witness:
  "\<exists>p. run_bridge True (\<lambda>op. if op = StartAdvertising then Some OsError else if op = CloseLane then Some CancelledError else None) new_process
      = (Inl CancelledError, p) \<and> pr_open p = [Lane] \<and> (\<exists>log. pr_log p = Closed TvClient # log)"
proof -
  let ?f = "\<lambda>op. if op = StartAdvertising then Some OsError else if op = CloseLane then Some CancelledError else None"
  obtain p where run: "run_bridge True ?f new_process = (Inl CancelledError, p)" "pr_open p = [Lane]"
    by (simp add: run_bridge_def run_body_def with_exit_stack_def start_listener_with_identity_def serve_listener_def
        advertise_or_close_def advertise_def close_server_once_def close_listener_def close_store_once_def run_callback_def
        acquire_def release_def ending_def undoing_def perform_def hold_def let_go_def push_def new_process_def st_eval)
  from run_releases [OF run(1)] run show ?thesis by auto
qed

end
