(* ===== verification/Connection.thy ===== *)
theory Connection
  imports Auth Framing Effects
begin

text \<open>
  The transport half of \<^verbatim>\<open>companion/protocol/appletv.py\<close>: one TCP connection of
  \<open>FakeCompanionService\<close>, from the bytes received to an authenticated message, with its
  admission, its deadline and its count of malformed frames. What the service does with a message, and
  with its session when the connection comes and goes, is an argument (\<open>app\<close>), given by the
  theory on the bridge session; the limiters and stores that the handshake asks are those of the
  peer's address. What the event loop delivers is a sequence of \<open>event\<close>s.
\<close>

subsection \<open>State\<close>

datatype transport = NoTransport | Live | Closing

record ('srp, 'h, 'a) service =
  sv_auth :: "'srp auth"
  sv_host :: 'h
  sv_parser :: frame_parser
  sv_cipher :: "cipher option"
  sv_transport :: transport
  sv_written :: "bytes list"
  sv_id :: nat
  sv_admission :: "nat admission option"
  sv_admitted :: bool
  sv_closed :: bool
  sv_malformed :: nat
  sv_source :: "string option"
  sv_deadline :: bool
  sv_app :: 'a

type_synonym ('srp, 'h, 'a, 'b) sv = "(('srp, 'h, 'a) service, 'b) st"

record ('srp, 'h, 'a) app =
  ap_attach :: "'a \<Rightarrow> 'a"
  ap_detach :: "'a \<Rightarrow> 'a"
  ap_close :: "'a \<Rightarrow> 'a"
  ap_lost :: "'a \<Rightarrow> 'a"
  ap_message :: "opack \<Rightarrow> ('srp, 'h, 'a, unit) sv"

record ('srp, 'h, 'a) env =
  en_crypto :: "'srp crypto"
  en_host :: "string option \<Rightarrow> 'h host"
  en_config :: auth_config
  en_timeout :: rat
  en_app :: "('srp, 'h, 'a) app"

definition new_service :: "nat \<Rightarrow> nat admission option \<Rightarrow> 'h \<Rightarrow> 'a \<Rightarrow> ('srp, 'h, 'a) service" where
  "new_service i adm h a = \<lparr>sv_auth = new_auth, sv_host = h,
     sv_parser = \<lparr>fp_max = MAX_WIRE_PAYLOAD, fp_buffer = [], fp_size = None\<rparr>, sv_cipher = None, sv_transport = NoTransport,
     sv_written = [], sv_id = i, sv_admission = adm, sv_admitted = False, sv_closed = False, sv_malformed = 0,
     sv_source = None, sv_deadline = False, sv_app = a\<rparr>"

definition is_connection_active :: "('srp, 'h, 'a) service \<Rightarrow> bool" where
  "is_connection_active s \<longleftrightarrow> \<not> sv_closed s \<and> sv_admitted s \<and> sv_transport s = Live"

text \<open>\<open>transport is None or not transport.is_closing()\<close>\<close>

definition still_open :: "('srp, 'h, 'a) service \<Rightarrow> bool" where
  "still_open s \<longleftrightarrow> sv_transport s \<noteq> Closing"

subsection \<open>Sending and closing\<close>

definition write_transport :: "bytes \<Rightarrow> ('srp, 'h, 'a, unit) sv" where
  "write_transport b = st_modify (\<lambda>s. if sv_transport s = Live then s\<lparr>sv_written := sv_written s @ [b]\<rparr> else s)"

definition cipher_seal :: "aead \<Rightarrow> bytes \<Rightarrow> bytes \<Rightarrow> ('srp, 'h, 'a, bytes) sv" where
  "cipher_seal A data aad s =
     (case sv_cipher s of
        None \<Rightarrow> (Inr data, s)
      | Some c \<Rightarrow> (case cipher_encrypt A data None (Some aad) c of (r, c') \<Rightarrow> (r, s\<lparr>sv_cipher := Some c'\<rparr>)))"

definition send_to_client :: "('srp, 'h, 'a) env \<Rightarrow> frame_type \<Rightarrow> opack \<Rightarrow> ('srp, 'h, 'a, unit) sv" where
  "send_to_client E t data =
     st_bind (st_lift (opack_pack (ac_depth (en_config E)) data)) (\<lambda>encoded.
       if MAX_APPLICATION_PAYLOAD < length encoded then st_return ()
       else st_get (\<lambda>s.
         let payload_length = length encoded + (if sv_cipher s \<noteq> None then 16 else 0);
             header = word_of_nat (frame_code t) # be_bytes 3 payload_length
         in st_bind (cipher_seal (aead.truncate (en_crypto E)) encoded header) (\<lambda>payload.
              write_transport (header @ payload))))"

text \<open>\<open>_close_connection\<close>, with what the bridge does first.\<close>

definition close_connection :: "('srp, 'h, 'a) env \<Rightarrow> ('srp, 'h, 'a, unit) sv" where
  "close_connection E = st_modify (\<lambda>s. s\<lparr>sv_app := ap_close (en_app E) (sv_app s), sv_parser := fp_clear (sv_parser s),
     sv_transport := (if sv_transport s = NoTransport then NoTransport else Closing)\<rparr>)"

definition malformed_frame :: "('srp, 'h, 'a) env \<Rightarrow> ('srp, 'h, 'a, bool) sv" where
  "malformed_frame E =
     st_then (st_modify (\<lambda>s. s\<lparr>sv_malformed := Suc (sv_malformed s)\<rparr>))
       (st_get (\<lambda>s. if MALFORMED_FRAME_LIMIT \<le> sv_malformed s then st_then (close_connection E) (st_return False) else st_return True))"

subsection \<open>The handshake on the connection\<close>

definition peer_of :: "('srp, 'h, 'a) service \<Rightarrow> ('srp, 'h) peer" where
  "peer_of s = \<lparr>pe_auth = sv_auth s, pe_host = sv_host s, pe_sent = [],
     pe_keys = map_option (\<lambda>c. (ci_out_key c, ci_in_key c)) (sv_cipher s)\<rparr>"

text \<open>\<open>enable_encryption\<close>: the cipher, the deadline and the admission.\<close>

definition enable_encryption :: "bytes \<Rightarrow> bytes \<Rightarrow> ('srp, 'h, 'a) service \<Rightarrow> ('srp, 'h, 'a) service" where
  "enable_encryption out_key in_key s =
     s\<lparr>sv_cipher := Some (new_cipher out_key in_key 12), sv_deadline := False,
       sv_admission := map_option (adm_authenticated (sv_id s)) (sv_admission s)\<rparr>"

text \<open>
  A method of the handshake on this connection. Its replies leave in order before the keys it may
  install take effect, as in the source, where the reply precedes \<open>enable_encryption\<close>; they are
  flat dictionaries that always pack.
\<close>

definition auth_call :: "('srp, 'h, 'a) env \<Rightarrow> ('srp, 'h, 'b) am \<Rightarrow> ('srp, 'h, 'a, 'b) sv" where
  "auth_call E m s =
     (case m (peer_of s) of (r, p) \<Rightarrow>
        (case st_for (\<lambda>(t, d). send_to_client E t d) (pe_sent p) (s\<lparr>sv_auth := pe_auth p, sv_host := pe_host p\<rparr>) of (_, s1) \<Rightarrow>
           (r, case (sv_cipher s, pe_keys p) of
                 (None, Some (out_key, in_key)) \<Rightarrow> enable_encryption out_key in_key s1
               | _ \<Rightarrow> s1)))"

subsection \<open>A frame\<close>

definition is_int :: "opack option \<Rightarrow> bool" where
  "is_int x = (case x of Some (OInt n sz) \<Rightarrow> True | _ \<Rightarrow> False)"

text \<open>A response that carries a transaction number only.\<close>

definition bare_response :: "opack \<Rightarrow> bool" where
  "bare_response data =
     (case data of
        ODict kvs \<Rightarrow> opack_get kvs ''_i'' = None
          \<and> (case opack_get kvs ''_t'' of Some (OInt n sz) \<Rightarrow> n = 3 | _ \<Rightarrow> False) \<and> is_int (opack_get kvs ''_x'')
      | _ \<Rightarrow> False)"

definition is_auth_frame :: "frame_type \<Rightarrow> bool" where
  "is_auth_frame t \<longleftrightarrow> t \<in> set COMPANION_AUTH_FRAMES"

definition close_and_stop :: "('srp, 'h, 'a) env \<Rightarrow> ('srp, 'h, 'a, bool) sv" where
  "close_and_stop E = st_then (close_connection E) (st_return False)"

definition check_authorized :: "('srp, 'h, 'a) env \<Rightarrow> ('srp, 'h, 'a, bool) sv" where
  "check_authorized E = st_get (\<lambda>s. auth_call E (verified_client_is_authorized (en_host E (sv_source s)) (en_config E)))"

definition cipher_open :: "aead \<Rightarrow> bytes \<Rightarrow> bytes \<Rightarrow> ('srp, 'h, 'a, bytes) sv" where
  "cipher_open A data aad s =
     (case sv_cipher s of
        None \<Rightarrow> (Inl AttributeError, s)
      | Some c \<Rightarrow> (case cipher_decrypt A data None (Some aad) c of (r, c') \<Rightarrow> (r, s\<lparr>sv_cipher := Some c'\<rparr>)))"

text \<open>The checks before decoding: the payload in the clear, or the answer of the frame.\<close>

definition open_frame :: "('srp, 'h, 'a) env \<Rightarrow> frame_type \<Rightarrow> bytes \<Rightarrow> bytes \<Rightarrow> ('srp, 'h, 'a, bool + bytes) sv" where
  "open_frame E t header data = st_get (\<lambda>s.
     if is_auth_frame t \<and> (sv_cipher s \<noteq> None \<or> au_phase (sv_auth s) = Encrypted)
       \<or> MAX_APPLICATION_PAYLOAD < length data \<and> (sv_cipher s = None \<or> is_auth_frame t)
     then st_bind (close_and_stop E) (\<lambda>b. st_return (Inl b))
     else if sv_cipher s \<noteq> None \<and> \<not> is_auth_frame t then
       st_bind (check_authorized E) (\<lambda>ok.
         if \<not> ok then st_bind (close_and_stop E) (\<lambda>b. st_return (Inl b))
         else if t = FT_NoOp \<and> data = [] then st_get (\<lambda>s. st_return (Inl (still_open s)))
         else st_handle (cipher_open (aead.truncate (en_crypto E)) data header)
           (\<lambda>_. st_bind (close_and_stop E) (\<lambda>b. st_return (Inl b))) (\<lambda>body. st_return (Inr body)))
     else st_return (Inr data))"

definition dispatch_frame :: "('srp, 'h, 'a) env \<Rightarrow> frame_type \<Rightarrow> opack \<Rightarrow> ('srp, 'h, 'a, bool) sv" where
  "dispatch_frame E t data = st_get (\<lambda>s.
     if is_auth_frame t then
       st_bind (auth_call E (handle_auth_frame (en_crypto E) (en_host E (sv_source s)) (en_config E) t data)) (\<lambda>ok.
         if \<not> ok then close_and_stop E else st_get (\<lambda>s. st_return (still_open s)))
     else if sv_cipher s = None then malformed_frame E
     else if bare_response data then st_return (still_open s)
     else st_then (ap_message (en_app E) data) (st_get (\<lambda>s. st_return (still_open s))))"

definition handle_frame :: "('srp, 'h, 'a) env \<Rightarrow> bytes \<Rightarrow> bytes \<Rightarrow> ('srp, 'h, 'a, bool) sv" where
  "handle_frame E header data =
     (case frame_type_of (unat (hd header)) of
        None \<Rightarrow> malformed_frame E
      | Some t \<Rightarrow> st_bind (open_frame E t header data) (\<lambda>res.
          case res of
            Inl b \<Rightarrow> st_return b
          | Inr body \<Rightarrow>
              (if MAX_APPLICATION_PAYLOAD < length body then close_and_stop E
               else case opack_unpack (ac_depth (en_config E)) body of
                 Inl e \<Rightarrow> malformed_frame E
               | Inr (unpacked, rest) \<Rightarrow>
                   st_handle (dispatch_frame E t unpacked) (\<lambda>_. malformed_frame E) st_return)))"

text \<open>
  The loop over the frames of a chunk. The generator's own state is the parser of the service: between
  two frames it is idle, and clearing it, all a handler may do, changes nothing.
\<close>

function drain :: "('srp, 'h, 'a) env \<Rightarrow> frame_parser \<Rightarrow> bytes \<Rightarrow> ('srp, 'h, 'a) service \<Rightarrow> ('srp, 'h, 'a) service" where
  "drain E p incoming s =
     (case feed_next p incoming of
        (Exhausted, p', rest) \<Rightarrow> s\<lparr>sv_parser := p'\<rparr>
      | (TooLarge, p', rest) \<Rightarrow> snd (close_connection E (s\<lparr>sv_parser := p'\<rparr>))
      | (Yielded f, p', rest) \<Rightarrow>
          (case handle_frame E (frame_header f) (frame_payload f) (s\<lparr>sv_parser := p'\<rparr>) of
             (Inr True, s1) \<Rightarrow> drain E p' rest s1
           | (_, s1) \<Rightarrow> s1))"
  by pat_completeness auto
termination
  by (relation "measure (\<lambda>(E, p, inc, s). 2 * length inc + (if fp_idle p then 0 else 1))")
    (auto dest!: feed_next_decreases [OF sym] split: if_splits)

declare drain.simps [simp del]

definition data_received :: "('srp, 'h, 'a) env \<Rightarrow> bytes \<Rightarrow> ('srp, 'h, 'a) service \<Rightarrow> ('srp, 'h, 'a) service" where
  "data_received E data s = (if is_connection_active s then drain E (sv_parser s) data s else s)"

subsection \<open>Coming and going\<close>

definition connection_made :: "('srp, 'h, 'a) env \<Rightarrow> string option \<Rightarrow> ('srp, 'h, 'a) service \<Rightarrow> ('srp, 'h, 'a) service" where
  "connection_made E source s0 =
     (let s = s0\<lparr>sv_transport := Live, sv_cipher := None, sv_auth := reset_authentication False (sv_auth s0),
            sv_parser := fp_clear (sv_parser s0), sv_malformed := 0, sv_closed := False, sv_source := source\<rparr>
      in case sv_admission s of
           None \<Rightarrow> s\<lparr>sv_admitted := True, sv_app := ap_attach (en_app E) (sv_app s), sv_deadline := 0 < en_timeout E\<rparr>
         | Some adm \<Rightarrow>
             (case adm_acquire (sv_id s) adm of
                (Some reason, adm') \<Rightarrow> s\<lparr>sv_admission := Some adm', sv_transport := Closing\<rparr>
              | (None, adm') \<Rightarrow> s\<lparr>sv_admission := Some adm', sv_admitted := True, sv_app := ap_attach (en_app E) (sv_app s),
                  sv_deadline := 0 < en_timeout E\<rparr>))"

definition teardown_connection :: "('srp, 'h, 'a) env \<Rightarrow> ('srp, 'h, 'a) service \<Rightarrow> bool \<times> ('srp, 'h, 'a) service" where
  "teardown_connection E s =
     (if sv_closed s then (False, s)
      else (True, s\<lparr>sv_closed := True, sv_deadline := False, sv_admission := map_option (adm_release (sv_id s)) (sv_admission s),
        sv_parser := fp_clear (sv_parser s), sv_app := ap_detach (en_app E) (sv_app s), sv_transport := NoTransport,
        sv_cipher := None, sv_auth := reset_authentication True (sv_auth s), sv_admitted := False\<rparr>))"

definition connection_lost :: "('srp, 'h, 'a) env \<Rightarrow> ('srp, 'h, 'a) service \<Rightarrow> ('srp, 'h, 'a) service" where
  "connection_lost E s =
     (case teardown_connection E s of (done1, s1) \<Rightarrow>
        if done1 then s1\<lparr>sv_app := ap_lost (en_app E) (sv_app s1)\<rparr> else s1)"

definition authentication_timed_out :: "('srp, 'h, 'a) env \<Rightarrow> ('srp, 'h, 'a) service \<Rightarrow> ('srp, 'h, 'a) service" where
  "authentication_timed_out E s =
     (let s1 = s\<lparr>sv_deadline := False\<rparr> in if sv_cipher s1 = None then snd (close_connection E s1) else s1)"


subsection \<open>What the parts of a frame may do\<close>

text \<open>Everything but the handshake leaves the authentication, the admission and the keys alone.\<close>

definition cipher_kept :: "cipher option \<Rightarrow> cipher option \<Rightarrow> bool" where
  "cipher_kept c c' \<longleftrightarrow>
     (case (c, c') of
        (None, None) \<Rightarrow> True
      | (Some k, Some k') \<Rightarrow> ci_out_key k' = ci_out_key k \<and> ci_in_key k' = ci_in_key k \<and> ci_nonce_length k' = ci_nonce_length k
          \<and> ci_out_counter k \<le> ci_out_counter k' \<and> ci_in_counter k \<le> ci_in_counter k'
      | _ \<Rightarrow> False)"

definition transport_kept :: "('srp, 'h, 'a) service \<Rightarrow> ('srp, 'h, 'a) service \<Rightarrow> bool" where
  "transport_kept s s' \<longleftrightarrow> sv_id s' = sv_id s \<and> sv_admitted s' = sv_admitted s \<and> sv_closed s' = sv_closed s \<and> sv_source s' = sv_source s
     \<and> (sv_transport s' = sv_transport s \<or> sv_transport s = Live \<and> sv_transport s' = Closing)
     \<and> (sv_transport s' = Live \<longrightarrow> sv_malformed s' = sv_malformed s \<or> sv_malformed s' < MALFORMED_FRAME_LIMIT)"

definition tame :: "('srp, 'h, 'a) service \<Rightarrow> ('srp, 'h, 'a) service \<Rightarrow> bool" where
  "tame s s' \<longleftrightarrow> transport_kept s s' \<and> sv_auth s' = sv_auth s \<and> sv_admission s' = sv_admission s \<and> sv_deadline s' = sv_deadline s
     \<and> cipher_kept (sv_cipher s) (sv_cipher s')"

text \<open>The handshake may, once, install keys.\<close>

definition installed :: "('srp, 'h, 'a) service \<Rightarrow> ('srp, 'h, 'a) service \<Rightarrow> bool" where
  "installed s s' \<longleftrightarrow> sv_cipher s = None \<and> sv_cipher s' \<noteq> None \<and> au_phase (sv_auth s) \<noteq> Encrypted \<and> au_phase (sv_auth s') = Encrypted
     \<and> \<not> sv_deadline s' \<and> sv_admission s' = map_option (adm_authenticated (sv_id s)) (sv_admission s)"

definition framed :: "('srp, 'h, 'a) service \<Rightarrow> ('srp, 'h, 'a) service \<Rightarrow> bool" where
  "framed s s' \<longleftrightarrow> transport_kept s s'
     \<and> (installed s s' \<or> cipher_kept (sv_cipher s) (sv_cipher s') \<and> (au_phase (sv_auth s') = Encrypted \<longleftrightarrow> au_phase (sv_auth s) = Encrypted)
          \<and> sv_admission s' = sv_admission s \<and> sv_deadline s' = sv_deadline s)"

lemma cipher_kept_refl [simp]: "cipher_kept c c"
  by (simp add: cipher_kept_def split: option.split)

lemma cipher_kept_trans: "cipher_kept a b \<Longrightarrow> cipher_kept b c \<Longrightarrow> cipher_kept a c"
  by (auto simp: cipher_kept_def split: option.splits)

lemma cipher_kept_None [simp]: "cipher_kept c None \<longleftrightarrow> c = None" "cipher_kept None c \<longleftrightarrow> c = None"
  by (simp_all add: cipher_kept_def split: option.split)

lemma cipher_kept_iff: "cipher_kept c c' \<Longrightarrow> c' = None \<longleftrightarrow> c = None"
  by (cases c; cases c') simp_all

lemma transport_kept_refl [simp]: "transport_kept s s"
  by (simp add: transport_kept_def)

lemma transport_kept_trans: "transport_kept a b \<Longrightarrow> transport_kept b c \<Longrightarrow> transport_kept a c"
  by (auto simp: transport_kept_def)

lemma tame_framed: "tame s s' \<Longrightarrow> framed s s'"
  by (simp add: tame_def framed_def)

interpretation tm: step_preorder tame
  by unfold_locales (auto simp: tame_def intro: transport_kept_trans cipher_kept_trans)

interpretation fr: step_preorder framed
proof
  show "framed s s" for s :: "('a, 'b, 'c) service" by (simp add: framed_def)
  fix s t u :: "('a, 'b, 'c) service"
  assume st: "framed s t" and tu: "framed t u"
  have id1: "sv_id t = sv_id s" using st by (simp add: framed_def transport_kept_def)
  have "transport_kept s u" using st tu transport_kept_trans by (auto simp: framed_def)
  moreover have "installed s u \<or> cipher_kept (sv_cipher s) (sv_cipher u) \<and> (au_phase (sv_auth u) = Encrypted \<longleftrightarrow> au_phase (sv_auth s) = Encrypted)
      \<and> sv_admission u = sv_admission s \<and> sv_deadline u = sv_deadline s"
  proof (cases "installed s t")
    case True
    then have "\<not> installed t u" by (simp add: installed_def)
    then show ?thesis using True tu cipher_kept_iff [of "sv_cipher t" "sv_cipher u"] by (auto simp: framed_def installed_def)
  next
    case False
    then show ?thesis using st tu id1 by (auto simp: framed_def installed_def intro: cipher_kept_trans)
  qed
  ultimately show "framed s u" by (simp add: framed_def)
qed

lemma tame_close [intro]: "st_rel tame (close_connection E)"
  unfolding close_connection_def by (rule tm.rel_modify) (auto simp: tame_def transport_kept_def intro: transport.exhaust)

lemma malformed_run:
  "malformed_frame E s =
     (if MALFORMED_FRAME_LIMIT \<le> Suc (sv_malformed s)
      then (Inr False, snd (close_connection E (s\<lparr>sv_malformed := Suc (sv_malformed s)\<rparr>)))
      else (Inr True, s\<lparr>sv_malformed := Suc (sv_malformed s)\<rparr>))"
  by (simp add: malformed_frame_def st_eval close_connection_def)

lemma tame_malformed [intro]: "st_rel tame (malformed_frame E)"
  by (rule st_relI)
     (auto simp: malformed_run close_connection_def st_modify_def tame_def transport_kept_def not_le; metis transport.exhaust)

lemma tame_seal [intro]: "st_rel tame (cipher_seal A data aad)"
  by (rule st_relI)
     (auto simp: cipher_seal_def cipher_encrypt_def tame_def transport_kept_def cipher_kept_def split: option.split sum.split)

lemma tame_open [intro]: "st_rel tame (cipher_open A data aad)"
  by (rule st_relI)
     (auto simp: cipher_open_def cipher_decrypt_def tame_def transport_kept_def cipher_kept_def split: option.split sum.split)

lemma tame_write [intro]: "st_rel tame (write_transport b)"
  unfolding write_transport_def by (rule tm.rel_modify) (simp add: tame_def transport_kept_def)

lemma tame_send [intro]: "st_rel tame (send_to_client E t d)"
  unfolding send_to_client_def Let_def by (intro tm.rel_rules tame_seal tame_write)

lemma tame_stop [intro]: "st_rel tame (close_and_stop E)"
  unfolding close_and_stop_def by (intro tm.rel_rules tame_close)


lemma framed_of_tame: "st_rel tame m \<Longrightarrow> st_rel framed m"
  by (auto simp: st_rel_def intro: tame_framed)

lemma tame_sends: "st_rel tame (st_for (\<lambda>(t, d). send_to_client E t d) xs)"
  by (rule tm.rel_for) (simp add: split_beta tame_send)

text \<open>Asking for authorization leaves everything but the host.\<close>

lemma check_authorized_run:
  obtains b h where "check_authorized E s = (Inr b, s\<lparr>sv_host := h\<rparr>)"
proof -
  obtain r p where run: "verified_client_is_authorized (en_host E (sv_source s)) (en_config E) (peer_of s) = (r, p)" by fastforce
  obtain b h where "r = Inr b" "p = (peer_of s)\<lparr>pe_host := h\<rparr>" using authorized_run [OF run] by blast
  then have "check_authorized E s = (Inr b, s\<lparr>sv_host := h\<rparr>)"
    using run by (cases "sv_cipher s") (simp_all add: check_authorized_def st_get_def auth_call_def peer_of_def st_return_def)
  then show thesis by (rule that)
qed

lemma tame_check: "st_rel tame (check_authorized E)"
proof (rule st_relI)
  fix s :: "('a, 'b, 'c) service"
  obtain b h where "check_authorized E s = (Inr b, s\<lparr>sv_host := h\<rparr>)" by (rule check_authorized_run)
  then show "tame s (snd (check_authorized E s))" by (simp add: tame_def transport_kept_def)
qed

lemma tame_open_frame: "st_rel tame (open_frame E t header data)"
  unfolding open_frame_def by (intro tm.rel_rules tame_check tame_stop tame_open)

text \<open>The handshake on the connection.\<close>

lemma framed_auth: "st_rel framed (auth_call E (handle_auth_frame X H cfg t d))"
  unfolding st_rel_def
proof (intro allI impI)
  fix s :: "('a, 'b, 'c) service" and r s'
  assume run: "auth_call E (handle_auth_frame X H cfg t d) s = (r, s')"
  obtain p where p: "handle_auth_frame X H cfg t d (peer_of s) = (r, p)"
    using run by (auto simp: auth_call_def split: prod.splits)
  let ?s = "s\<lparr>sv_auth := pe_auth p, sv_host := pe_host p\<rparr>"
  obtain r1 s1 where sent: "st_for (\<lambda>(t, d). send_to_client E t d) (pe_sent p) ?s = (r1, s1)" by fastforce
  have s1: "tame ?s s1" using st_relD [OF tame_sends sent] .
  then have kept: "transport_kept s s1" "sv_auth s1 = pe_auth p" "sv_admission s1 = sv_admission s" "sv_deadline s1 = sv_deadline s"
    "cipher_kept (sv_cipher s) (sv_cipher s1)" "sv_id s1 = sv_id s"
    by (auto simp: tame_def transport_kept_def)
  have s': "s' = (case (sv_cipher s, pe_keys p) of (None, Some (out_key, in_key)) \<Rightarrow> enable_encryption out_key in_key s1 | _ \<Rightarrow> s1)"
    using run p sent by (simp add: auth_call_def)
  have keys: "pe_keys (peer_of s) = None \<longleftrightarrow> sv_cipher s = None" "pe_auth (peer_of s) = sv_auth s" by (simp_all add: peer_of_def)
  show "framed s s'"
  proof (cases "au_phase (sv_auth s) = Encrypted")
    case True
    then have "p = peer_of s" using p by (simp add: handle_auth_frame_def am_get_def peer_of_def)
    then have "s' = s1" "au_phase (pe_auth p) = Encrypted" using s' True by (cases "sv_cipher s"; simp add: peer_of_def)+
    then show ?thesis using kept True by (simp add: framed_def)
  next
    case False
    then have phase: "au_phase (pe_auth p) = Encrypted \<longleftrightarrow> sv_cipher s = None \<and> pe_keys p \<noteq> None"
      using phase_follows_keys [OF p] keys by auto
    show ?thesis
    proof (cases "sv_cipher s = None \<and> pe_keys p \<noteq> None")
      case True
      then obtain out_key in_key where "pe_keys p = Some (out_key, in_key)" by fastforce
      then have "s' = enable_encryption out_key in_key s1" using s' True by simp
      then show ?thesis
        using kept phase False True by (simp add: framed_def installed_def enable_encryption_def transport_kept_def)
    next
      case none: False
      then have "s' = s1" using s' by (auto split: option.splits)
      then show ?thesis using kept phase False none by (simp add: framed_def)
    qed
  qed
qed

subsection \<open>A chunk\<close>

text \<open>A relation that the parts of a frame respect is respected by a whole chunk.\<close>

locale frame_relation = step_preorder R
  for R :: "('srp, 'h, 'a) service \<Rightarrow> ('srp, 'h, 'a) service \<Rightarrow> bool" +
  fixes E :: "('srp, 'h, 'a) env"
  assumes on_parser: "R s (s\<lparr>sv_parser := p\<rparr>)" and on_close: "st_rel R (close_connection E)"
    and on_malformed: "st_rel R (malformed_frame E)" and on_open: "st_rel R (open_frame E t header data)"
    and on_auth: "st_rel R (auth_call E (handle_auth_frame X H cfg t d))" and on_message: "st_rel R (ap_message (en_app E) d)"
begin

lemma rel_dispatch: "st_rel R (dispatch_frame E t data)"
  unfolding dispatch_frame_def close_and_stop_def
  by (intro rel_rules on_auth on_close on_message on_malformed)

lemma rel_frame: "st_rel R (handle_frame E header data)"
proof -
  have "st_rel R (case res of Inl b \<Rightarrow> st_return b
     | Inr body \<Rightarrow> (if MAX_APPLICATION_PAYLOAD < length body then close_and_stop E
         else case opack_unpack (ac_depth (en_config E)) body of Inl e \<Rightarrow> malformed_frame E
           | Inr (unpacked, rest) \<Rightarrow> st_handle (dispatch_frame E t unpacked) (\<lambda>_. malformed_frame E) st_return))" for t res
    unfolding split_beta close_and_stop_def
    by (intro rel_rules rel_dispatch on_close on_malformed)
  then show ?thesis
    unfolding handle_frame_def by (intro rel_option rel_bind on_malformed on_open)
qed

lemma rel_drain: "R s (drain E p incoming s)"
proof (induction E\<equiv>E p incoming s rule: drain.induct)
  case (1 p incoming s)
  obtain out p' rest where next1: "feed_next p incoming = (out, p', rest)" by (metis prod_cases3)
  let ?s = "s\<lparr>sv_parser := p'\<rparr>"
  show ?case
  proof (cases out)
    case (Yielded f)
    obtain r s1 where run: "handle_frame E (frame_header f) (frame_payload f) ?s = (r, s1)" by fastforce
    have s1: "R s s1" using R_trans [OF on_parser st_relD [OF rel_frame run]] .
    show ?thesis
    proof (cases "r = Inr True")
      case True
      have "R s1 (drain E p' rest s1)"
        by (rule "1.hyps" [OF next1 [symmetric] Yielded refl run [symmetric] True refl])
      then show ?thesis
        using R_trans [OF s1] next1 Yielded run True by (simp add: drain.simps [of E p])
    next
      case False
      then show ?thesis using s1 next1 Yielded run by (auto simp: drain.simps [of E p] split: sum.splits bool.splits)
    qed
  next
    case Exhausted
    then show ?thesis using on_parser next1 by (simp add: drain.simps [of E p])
  next
    case TooLarge
    have "R ?s (snd (close_connection E ?s))"
      using st_relD [OF on_close] by (metis prod.collapse)
    then show ?thesis using R_trans [OF on_parser] TooLarge next1 by (simp add: drain.simps [of E p])
  qed
qed

lemma rel_received: "R s (data_received E data s)"
  by (simp add: data_received_def rel_drain R_refl)

end

text \<open>An application whose messages are tame gives such a relation.\<close>

locale application =
  fixes E :: "('srp, 'h, 'a) env"
  assumes message_tame: "st_rel tame (ap_message (en_app E) data)"

sublocale application \<subseteq> frames: frame_relation framed E
  by unfold_locales
    (simp_all add: framed_auth framed_of_tame message_tame tame_close tame_malformed tame_open_frame, simp add: framed_def transport_kept_def)


subsection \<open>The life of a connection\<close>

text \<open>
  What the event loop, and other connections, do to a service: it is connected once, receives, may meet
  its deadline while the handle is armed, and is lost. The limiters, the stores and the admission are
  shared, so other connections change them in between, but not this connection's own membership.
\<close>

datatype event = Made "string option" | Received bytes | TimedOut | Lost

definition membership :: "nat \<Rightarrow> nat admission option \<Rightarrow> (bool \<times> bool) option" where
  "membership i adm = map_option (\<lambda>a. (i \<in> connections a, i \<in> unauthenticated a)) adm"

inductive conn_step :: "('srp, 'h, 'a) env \<Rightarrow> event option \<Rightarrow> ('srp, 'h, 'a) service \<Rightarrow> ('srp, 'h, 'a) service \<Rightarrow> bool"
  for E where
  made: "sv_transport s = NoTransport \<Longrightarrow> \<not> sv_closed s \<Longrightarrow> conn_step E (Some (Made source)) s (connection_made E source s)"
| received: "conn_step E (Some (Received data)) s (data_received E data s)"
| timed_out: "sv_deadline s \<Longrightarrow> conn_step E (Some TimedOut) s (authentication_timed_out E s)"
| lost: "sv_transport s \<noteq> NoTransport \<Longrightarrow> conn_step E (Some Lost) s (connection_lost E s)"
| others: "membership (sv_id s) adm = membership (sv_id s) (sv_admission s) \<Longrightarrow>
    conn_step E None s (s\<lparr>sv_host := h, sv_admission := adm\<rparr>)"

inductive conn_reach :: "('srp, 'h, 'a) env \<Rightarrow> ('srp, 'h, 'a) service \<Rightarrow> bool" for E where
  fresh: "membership i adm \<in> {None, Some (False, False)} \<Longrightarrow> conn_reach E (new_service i adm h a)"
| stepped: "conn_reach E s \<Longrightarrow> conn_step E ev s s' \<Longrightarrow> conn_reach E s'"

text \<open>
  The invariant: a closed connection is gone; only an admitted connection has keys, exactly when its
  handshake reached Encrypted; a live one has met fewer malformed frames than the limit, and without
  keys its deadline is armed; and the admission counts it while it is admitted, as unauthenticated
  while it has no keys.
\<close>

definition conn_inv :: "('srp, 'h, 'a) env \<Rightarrow> ('srp, 'h, 'a) service \<Rightarrow> bool" where
  "conn_inv E s \<longleftrightarrow>
     (sv_closed s \<longrightarrow> sv_transport s = NoTransport \<and> \<not> sv_admitted s)
     \<and> (sv_transport s = NoTransport \<longrightarrow> \<not> sv_admitted s)
     \<and> (sv_transport s = Live \<longrightarrow> sv_admitted s \<and> sv_malformed s < MALFORMED_FRAME_LIMIT)
     \<and> (sv_cipher s \<noteq> None \<longleftrightarrow> au_phase (sv_auth s) = Encrypted)
     \<and> (sv_cipher s \<noteq> None \<longrightarrow> sv_admitted s)
     \<and> (sv_transport s = Live \<and> sv_cipher s = None \<and> 0 < en_timeout E \<longrightarrow> sv_deadline s)
     \<and> membership (sv_id s) (sv_admission s) \<in> {None, Some (sv_admitted s, sv_admitted s \<and> sv_cipher s = None)}"

lemma framed_inv: "conn_inv E s \<Longrightarrow> sv_admitted s \<Longrightarrow> framed s s' \<Longrightarrow> conn_inv E s'"
  unfolding framed_def
proof (elim conjE disjE)
  assume inv: "conn_inv E s" and adm: "sv_admitted s" and t: "transport_kept s s'" and i: "installed s s'"
  have "membership (sv_id s') (sv_admission s') = map_option (\<lambda>(a, b). (a, False)) (membership (sv_id s) (sv_admission s))"
    using t i by (cases "sv_admission s") (simp_all add: membership_def installed_def transport_kept_def adm_authenticated_def)
  moreover obtain c where "sv_cipher s' = Some c" using i by (auto simp: installed_def)
  moreover have "membership (sv_id s) (sv_admission s) \<in> {None, Some (True, True)}"
    using inv i adm by (simp add: conn_inv_def installed_def)
  ultimately show "conn_inv E s'"
    using inv adm t i by (simp add: conn_inv_def installed_def transport_kept_def split_beta) fastforce
next
  assume inv: "conn_inv E s" and t: "transport_kept s s'" and c: "cipher_kept (sv_cipher s) (sv_cipher s')"
    and same: "(au_phase (sv_auth s') = Encrypted) = (au_phase (sv_auth s) = Encrypted)" "sv_admission s' = sv_admission s"
      "sv_deadline s' = sv_deadline s"
  have eqs: "sv_id s' = sv_id s" "sv_admitted s' = sv_admitted s" "sv_closed s' = sv_closed s" "sv_cipher s' = None \<longleftrightarrow> sv_cipher s = None"
    using t cipher_kept_iff [OF c] by (simp_all add: transport_kept_def)
  have live: "sv_transport s' = sv_transport s \<or> sv_transport s = Live \<and> sv_transport s' = Closing"
    "sv_transport s' = Live \<Longrightarrow> sv_malformed s < MALFORMED_FRAME_LIMIT \<Longrightarrow> sv_malformed s' < MALFORMED_FRAME_LIMIT"
    using t by (auto simp: transport_kept_def)
  show "conn_inv E s'"
    using inv live(1) live(2) unfolding conn_inv_def eqs same by (elim disjE [of "_ = sv_transport s"]) (simp, auto)
qed

context application
begin

lemma step_inv:
  assumes "conn_step E ev s s'" "conn_inv E s" shows "conn_inv E s'"
  using assms
proof cases
  case (made source)
  then show ?thesis
    using assms(2)
    by (auto simp: conn_inv_def connection_made_def Let_def membership_def adm_acquire_def reset_authentication_def
        clear_pending_def clear_client_def clear_verify_def clear_setup_def MALFORMED_FRAME_LIMIT_def split: option.splits if_splits)
next
  case (received data)
  show ?thesis
  proof (cases "is_connection_active s")
    case True
    then have "sv_admitted s" by (simp add: is_connection_active_def)
    then show ?thesis using framed_inv [OF assms(2)] frames.rel_received received by simp
  next
    case False
    then show ?thesis using received assms(2) by (simp add: data_received_def)
  qed
next
  case timed_out
  have "framed (s\<lparr>sv_deadline := False\<rparr>) (snd (close_connection E (s\<lparr>sv_deadline := False\<rparr>)))"
    using tame_framed st_relD [OF tame_close] by (metis prod.collapse)
  then show ?thesis
    using timed_out assms(2)
    by (auto simp: conn_inv_def authentication_timed_out_def close_connection_def st_modify_def split: if_splits)
next
  case lost
  then show ?thesis
    using assms(2)
    by (auto simp: conn_inv_def connection_lost_def teardown_connection_def membership_def adm_release_def reset_authentication_def
        clear_pending_def clear_client_def clear_verify_def clear_setup_def split: option.splits)
next
  case (others adm h)
  then show ?thesis using assms(2) by (auto simp: conn_inv_def)
qed

lemma reach_inv: "conn_reach E s \<Longrightarrow> conn_inv E s"
proof (induction rule: conn_reach.induct)
  case (fresh i adm h a)
  then show ?case by (auto simp: conn_inv_def new_service_def new_auth_def)
next
  case (stepped s ev s')
  then show ?case using step_inv by blast
qed

end


subsection \<open>Who reaches the application\<close>

abbreviation with_message :: "('srp, 'h, 'a) env \<Rightarrow> (opack \<Rightarrow> ('srp, 'h, 'a, unit) sv) \<Rightarrow> ('srp, 'h, 'a) env" where
  "with_message E M \<equiv> E\<lparr>en_app := (en_app E)\<lparr>ap_message := M\<rparr>\<rparr>"

lemma message_free:
  "close_connection (with_message E M) = close_connection E" "malformed_frame (with_message E M) = malformed_frame E"
  "close_and_stop (with_message E M) = close_and_stop E" "send_to_client (with_message E M) = send_to_client E"
  "auth_call (with_message E M) = auth_call E"
  "check_authorized (with_message E M) = check_authorized E" "open_frame (with_message E M) = open_frame E"
proof -
  show c: "close_connection (with_message E M) = close_connection E" by (simp add: close_connection_def)
  show "malformed_frame (with_message E M) = malformed_frame E" by (simp add: malformed_frame_def c cong: if_cong)
  show k: "close_and_stop (with_message E M) = close_and_stop E" by (simp add: close_and_stop_def c)
  show t: "send_to_client (with_message E M) = send_to_client E" by (intro ext) (simp add: send_to_client_def Let_def cong: if_cong)
  show a: "auth_call (with_message E M) = auth_call E" by (intro ext) (simp add: auth_call_def t)
  show h: "check_authorized (with_message E M) = check_authorized E" by (simp add: check_authorized_def a)
  show "open_frame (with_message E M) = open_frame E" by (intro ext) (simp add: open_frame_def k h cong: if_cong)
qed

lemma open_frame_data:
  assumes "open_frame E t header data s = (Inr (Inr body), s1)" "\<not> is_auth_frame t" "sv_cipher s = Some c"
  obtains h c' where "check_authorized E s = (Inr True, s\<lparr>sv_host := h\<rparr>)"
    "cipher_decrypt (aead.truncate (en_crypto E)) data None (Some header) c = (Inr body, c')"
    "s1 = s\<lparr>sv_host := h, sv_cipher := Some c'\<rparr>"
proof -
  obtain ok h where a: "check_authorized E s = (Inr ok, s\<lparr>sv_host := h\<rparr>)" by (rule check_authorized_run)
  show thesis
    using assms a that
    by (auto simp: open_frame_def st_eval cipher_open_def close_and_stop_def close_connection_def split: if_splits prod.splits sum.splits)
qed

text \<open>C5: The answer to a frame depends on what the application does with a message only if the connection is
  encrypted, the frame is none of the handshake, the client was found authorized when the frame came, the
  payload is authentic under the incoming key, its next counter and the frame's header, it is not
  too long, and it is a well-formed message other than a bare response.\<close>

theorem message_gated:
  assumes "handle_frame E header data s \<noteq> handle_frame (with_message E M) header data s"
  shows "\<exists>t c h body c' message rest. frame_type_of (unat (hd header)) = Some t \<and> \<not> is_auth_frame t \<and> sv_cipher s = Some c
    \<and> check_authorized E s = (Inr True, s\<lparr>sv_host := h\<rparr>)
    \<and> cipher_decrypt (aead.truncate (en_crypto E)) data None (Some header) c = (Inr body, c')
    \<and> length body \<le> MAX_APPLICATION_PAYLOAD
    \<and> opack_unpack (ac_depth (en_config E)) body = Inr (message, rest) \<and> \<not> bare_response message"
proof -
  obtain t where t: "frame_type_of (unat (hd header)) = Some t"
    using assms by (cases "frame_type_of (unat (hd header))") (simp_all add: handle_frame_def message_free)
  obtain r s1 where op: "open_frame E t header data s = (r, s1)" by fastforce
  obtain body where r: "r = Inr (Inr body)"
    using assms t op by (cases r; cases "projr r") (auto simp: handle_frame_def message_free st_eval)
  have size: "length body \<le> MAX_APPLICATION_PAYLOAD"
    using assms t op r by (cases "MAX_APPLICATION_PAYLOAD < length body") (auto simp: handle_frame_def message_free st_eval)
  obtain message rest where u: "opack_unpack (ac_depth (en_config E)) body = Inr (message, rest)"
    using assms t op r size
    by (cases "opack_unpack (ac_depth (en_config E)) body") (auto simp: handle_frame_def message_free st_eval)
  have "dispatch_frame E t message s1 \<noteq> dispatch_frame (with_message E M) t message s1"
    using assms t op r size u by (auto simp: handle_frame_def message_free st_eval)
  then have "\<not> (is_auth_frame t \<or> sv_cipher s1 = None \<or> bare_response message)"
    by (rule contrapos_nn) (auto simp: dispatch_frame_def st_get_def message_free cong: if_cong)
  then have gate: "\<not> is_auth_frame t" "sv_cipher s1 \<noteq> None" "\<not> bare_response message" by simp_all
  have "tame s s1" using st_relD [OF tame_open_frame op] .
  then obtain c where c: "sv_cipher s = Some c" using gate(2) by (cases "sv_cipher s") (auto simp: tame_def)
  from open_frame_data [OF op [unfolded r] gate(1) c] show ?thesis
    using t c gate size u by metis
qed

subsection \<open>A connection that is encrypted\<close>

definition sample_env :: "(nat, unit, 'a) app \<Rightarrow> (nat, unit, 'a) env" where
  "sample_env app = \<lparr>en_crypto = sample_crypto, en_host = (\<lambda>_. sample_host), en_config = sample_config, en_timeout = 10, en_app = app\<rparr>"

definition idle_app :: "(nat, unit, unit) app" where
  "idle_app = \<lparr>ap_attach = id, ap_detach = id, ap_close = id, ap_lost = id, ap_message = (\<lambda>_. st_return ())\<rparr>"

definition sample_encrypted :: "(nat, unit, unit) service" where
  "sample_encrypted = (new_service 7 None () ())\<lparr>sv_transport := Live, sv_admitted := True, sv_cipher := Some (new_cipher [2] [3] 12),
     sv_auth := new_auth\<lparr>au_phase := Encrypted, au_client := Some ''p'', au_client_key := Some [1]\<rparr>\<rparr>"

lemma sample_body: "opack_unpack (Suc (Suc (Suc 0))) [224] = Inr (ODict [], [])"
  by code_simp

lemma sample_frame: "open_frame (sample_env app) E_OPACK [8, 0, 0, 2] [3, 224] sample_encrypted
   = (Inr (Inr [224]), sample_encrypted\<lparr>sv_cipher := Some ((new_cipher [2] [3] 12)\<lparr>ci_in_counter := 1\<rparr>)\<rparr>)"
  by (simp add: open_frame_def sample_env_def sample_encrypted_def new_service_def st_eval is_auth_frame_def COMPANION_AUTH_FRAMES_def
   new_auth_def check_authorized_def auth_call_def verified_client_is_authorized_def enforced_def sample_config_def sample_host_def peer_of_def
   am_eval cipher_open_def cipher_decrypt_def in_nonce_def counter_nonce_def to_bytes_le_def opened_def sample_crypto_def aead.defs new_cipher_def
   close_and_stop_def MAX_APPLICATION_PAYLOAD_def)

theorem message_gated_witness:
  "\<exists>body c' message rest. cipher_decrypt (aead.truncate sample_crypto) [3, 224] None (Some [8, 0, 0, 2]) (new_cipher [2] [3] 12) = (Inr body, c')
     \<and> opack_unpack (Suc (Suc (Suc 0))) body = Inr (message, rest) \<and> \<not> bare_response message"
proof -
  let ?E = "sample_env idle_app" and ?M = "\<lambda>_. st_raise ValueError"
  have type: "frame_type_of 8 = Some E_OPACK" by (simp add: frame_type_of_def frame_codes_def)
  have depth: "ac_depth (en_config (sample_env app)) = Suc (Suc (Suc 0))" for app :: "(nat, unit, unit) app"
    by (simp add: sample_env_def sample_config_def)
  have env: "with_message ?E ?M = sample_env (idle_app\<lparr>ap_message := ?M\<rparr>)" by (simp add: sample_env_def)
  have "handle_frame ?E [8, 0, 0, 2] [3, 224] sample_encrypted \<noteq> handle_frame (with_message ?E ?M) [8, 0, 0, 2] [3, 224] sample_encrypted"
    unfolding env handle_frame_def
    by (simp add: type sample_frame st_eval depth sample_body dispatch_frame_def is_auth_frame_def COMPANION_AUTH_FRAMES_def
        MAX_APPLICATION_PAYLOAD_def bare_response_def opack_get_def)
      (simp add: sample_encrypted_def sample_env_def idle_app_def new_service_def st_eval malformed_run MALFORMED_FRAME_LIMIT_def)
  from message_gated [OF this] show ?thesis
    by (auto simp: sample_encrypted_def depth) (auto simp: sample_env_def)
qed

end
