(* ===== verification/Dispatch.thy ===== *)
theory Dispatch
  imports Relay
begin

text \<open>
  \<^verbatim>\<open>companion/dispatch.py\<close> and \<^verbatim>\<open>authorization.py\<close>: the one lane that orders all
  commands to the television. Each method is a function on the lane's state; the worker coroutine is
  cut at its two \<open>await\<close>s, the wait for the wake event and the dispatch of an item. What lies
  outside is an argument: the answer of an owner's authorisation check (\<open>None\<close> when it raises) and
  the outcome of a dispatch. Futures are numbered; a queued item is numbered in order of creation,
  which stands for object identity. Shown: nothing is dispatched for an owner that is not registered
  and authorised at that moment, a cancelled owner's work is gone, the queue is bounded and loses no
  wake-up, items go out in the order they came in, and a willing environment drains the lane.
\<close>

subsection \<open>Failures and authorisation\<close>

datatype failure_category =
    FailTimeout | FailConnection | FailOs | FailValue | FailRuntime | FailOther

text \<open>In the order of the source's \<open>isinstance\<close> tests: \<open>ConnectionError\<close> and
  \<open>FileNotFoundError\<close> are \<open>OSError\<close>s, \<open>UnicodeError\<close> is a \<open>ValueError\<close>,
  \<open>NotImplementedError\<close> and \<open>RecursionError\<close> are \<open>RuntimeError\<close>s.\<close>

definition safe_dispatch_failure_category :: "exn \<Rightarrow> failure_category" where
  "safe_dispatch_failure_category e =
     (if e = TimeoutError then FailTimeout
      else if e = ConnectionError then FailConnection
      else if e = OsError \<or> e = FileNotFound then FailOs
      else if e = ValueError \<or> e = UnicodeError \<or> e = FrameTooLarge then FailValue
      else if e = RuntimeError \<or> e = NotImplementedError \<or> e = RecursionError
           \<or> e = AuthorizationRevoked \<or> e = TlsTrustError then FailRuntime
      else FailOther)"

text \<open>\<open>require_authorized\<close>: \<open>None\<close> is no check at all; a check answers or raises.\<close>

definition require_authorized :: "bool option option \<Rightarrow> unit result" where
  "require_authorized check =
     (case check of None \<Rightarrow> Inr ()
      | Some ans \<Rightarrow> if ans = Some True then Inr () else Inl AuthorizationRevoked)"

subsection \<open>State\<close>

datatype future = FuturePending | FutureDone | FutureFailed failure_category | FutureCancelled

record 'o queued =
  q_id :: nat
  q_owner :: 'o
  q_command :: command
  q_generation :: "nat option"
  q_completion :: "nat option"
  q_cancelled :: bool

record registration =
  rg_authorize :: bool
  rg_on_unauthorized :: bool

datatype worker = NoTask | WaitingWake | Dispatching | TaskDone

record 'o lane =
  ln_max :: nat
  ln_queue :: "'o queued list"
  ln_owners :: "('o \<times> registration) list"
  ln_wake :: bool
  ln_worker :: worker
  ln_cancel :: bool
  ln_current :: "'o queued option"
  ln_stopping :: bool
  ln_futures :: "future list"
  ln_next :: nat

definition DEFAULT_COMMAND_QUEUE_SIZE :: int where "DEFAULT_COMMAND_QUEUE_SIZE = 64"

definition new_lane :: "int \<Rightarrow> 'o lane result" where
  "new_lane max_queue_size =
     (if max_queue_size < 1 then Inl ValueError
      else Inr \<lparr>ln_max = nat max_queue_size, ln_queue = [], ln_owners = [], ln_wake = False,
             ln_worker = NoTask, ln_cancel = False, ln_current = None, ln_stopping = False,
             ln_futures = [], ln_next = 0\<rparr>)"

text \<open>What a step shows to the outside.\<close>

datatype 'o lane_event = Dispatched "'o queued" | ClosedUnauthorized 'o

subsection \<open>Completions\<close>

text \<open>Settle a completion unless it is settled already.\<close>

definition settle :: "future \<Rightarrow> 'o queued \<Rightarrow> 'o lane \<Rightarrow> 'o lane" where
  "settle st item l =
     (case q_completion item of
        None \<Rightarrow> l
      | Some i \<Rightarrow>
          if i < length (ln_futures l) \<and> ln_futures l ! i = FuturePending
          then l\<lparr>ln_futures := (ln_futures l)[i := st]\<rparr> else l)"

definition cancel_completion :: "'o queued \<Rightarrow> 'o lane \<Rightarrow> 'o lane" where
  "cancel_completion = settle FutureCancelled"

subsection \<open>Operations\<close>

definition lane_start :: "'o lane \<Rightarrow> 'o lane result" where
  "lane_start l =
     (if ln_stopping l then Inl RuntimeError
      else Inr (if ln_worker l = NoTask \<or> ln_worker l = TaskDone
                then l\<lparr>ln_worker := WaitingWake, ln_cancel := False\<rparr> else l))"

definition lane_activate :: "'o \<Rightarrow> registration \<Rightarrow> 'o lane \<Rightarrow> 'o lane result" where
  "lane_activate owner reg l =
     rbind (lane_start l) (\<lambda>l1. Inr (l1\<lparr>ln_owners := AList.update owner reg (ln_owners l1)\<rparr>))"

definition discard_queued :: "('o queued \<Rightarrow> bool) \<Rightarrow> 'o lane \<Rightarrow> bool \<times> 'o lane" where
  "discard_queued P l =
     (list_ex P (ln_queue l),
      fold cancel_completion (filter P (ln_queue l)) l\<lparr>ln_queue := filter (\<lambda>q. \<not> P q) (ln_queue l)\<rparr>)"

text \<open>Mark the executing item cancelled and cancel the worker, unless the worker itself is asking.\<close>

definition cancel_current :: "bool \<Rightarrow> 'o lane \<Rightarrow> 'o lane" where
  "cancel_current in_worker l =
     (case ln_current l of
        None \<Rightarrow> l
      | Some item \<Rightarrow>
          (let l1 = cancel_completion item (l\<lparr>ln_current := Some (item\<lparr>q_cancelled := True\<rparr>)\<rparr>)
           in if ln_worker l1 \<noteq> NoTask \<and> \<not> in_worker then l1\<lparr>ln_cancel := True\<rparr> else l1))"

definition current_is :: "('o queued \<Rightarrow> bool) \<Rightarrow> 'o lane \<Rightarrow> bool" where
  "current_is P l = (case ln_current l of None \<Rightarrow> False | Some item \<Rightarrow> P item)"

definition deactivate_owner :: "bool \<Rightarrow> bool \<Rightarrow> 'o \<Rightarrow> 'o lane \<Rightarrow> 'o lane_event list \<times> 'o lane" where
  "deactivate_owner in_worker notify owner l =
     (let l1 = l\<lparr>ln_owners := AList.delete owner (ln_owners l)\<rparr>;
          l2 = snd (discard_queued (\<lambda>q. q_owner q = owner) l1);
          l3 = (if current_is (\<lambda>q. q_owner q = owner) l2 then cancel_current in_worker l2 else l2)
      in (if notify then [ClosedUnauthorized owner] else [], l3\<lparr>ln_wake := True\<rparr>))"

definition cancel_owner :: "'o \<Rightarrow> 'o lane \<Rightarrow> 'o lane" where
  "cancel_owner owner l = snd (deactivate_owner False False owner l)"

definition cancel_generation :: "bool \<Rightarrow> 'o \<Rightarrow> nat \<Rightarrow> 'o lane \<Rightarrow> 'o lane" where
  "cancel_generation in_worker owner g l =
     (let mine = (\<lambda>q. q_owner q = owner \<and> q_generation q = Some g);
          (dropped, l1) = discard_queued mine l;
          cur = current_is mine l1;
          l2 = (if cur then cancel_current in_worker l1 else l1)
      in if dropped \<or> cur then l2\<lparr>ln_wake := True\<rparr> else l2)"

text \<open>The check of an owner: its answer, the events and the lane after a refusal.\<close>

definition owner_is_authorized :: "bool \<Rightarrow> bool option \<Rightarrow> 'o \<Rightarrow> 'o lane \<Rightarrow> bool \<times> 'o lane_event list \<times> 'o lane" where
  "owner_is_authorized in_worker ans owner l =
     (case map_of (ln_owners l) owner of
        None \<Rightarrow> (False, [], l)
      | Some reg \<Rightarrow>
          if \<not> rg_authorize reg \<or> ans = Some True then (True, [], l)
          else (let (ev, l1) = deactivate_owner in_worker (rg_on_unauthorized reg) owner l
                in (False, ev, l1)))"

definition lane_enqueue :: "'o \<Rightarrow> command \<Rightarrow> nat option \<Rightarrow> nat option \<Rightarrow> bool option \<Rightarrow> 'o lane
    \<Rightarrow> bool \<times> 'o lane_event list \<times> 'o lane" where
  "lane_enqueue owner c gen compl ans l =
     (if ln_stopping l \<or> map_of (ln_owners l) owner = None then (False, [], l)
      else let (ok, ev, l1) = owner_is_authorized False ans owner l
        in if \<not> ok then (False, ev, l1)
           else if cm_action c = SendText \<and> compl = None \<and> ln_queue l1 \<noteq> []
               \<and> q_owner (last (ln_queue l1)) = owner \<and> q_completion (last (ln_queue l1)) = None
               \<and> cm_action (q_command (last (ln_queue l1))) = SendText
           then (True, ev, l1\<lparr>ln_queue := butlast (ln_queue l1) @ [(last (ln_queue l1))\<lparr>q_command := c\<rparr>]\<rparr>)
           else if ln_max l1 \<le> length (ln_queue l1) then (False, ev, l1)
           else (True, ev, l1\<lparr>ln_queue := ln_queue l1 @
                    [\<lparr>q_id = ln_next l1, q_owner = owner, q_command = c, q_generation = gen,
                      q_completion = compl, q_cancelled = False\<rparr>],
                  ln_next := Suc (ln_next l1), ln_wake := True\<rparr>))"

definition lane_submit :: "'o \<Rightarrow> command \<Rightarrow> bool option \<Rightarrow> 'o lane \<Rightarrow> bool \<times> 'o lane_event list \<times> 'o lane" where
  "lane_submit owner c ans l = lane_enqueue owner c None None ans l"

definition lane_submit_and_wait :: "'o \<Rightarrow> command \<Rightarrow> nat \<Rightarrow> bool option \<Rightarrow> 'o lane
    \<Rightarrow> nat option \<times> 'o lane_event list \<times> 'o lane" where
  "lane_submit_and_wait owner c gen ans l0 =
     (let i = length (ln_futures l0);
          l = l0\<lparr>ln_futures := ln_futures l0 @ [FuturePending]\<rparr>;
          (ok, ev, l1) = lane_enqueue owner c (Some gen) (Some i) ans l
      in if ok then (Some i, ev, l1)
         else (None, ev, l1\<lparr>ln_futures := (ln_futures l1)[i := FutureCancelled]\<rparr>))"

text \<open>\<open>close\<close> up to its \<open>await\<close>, and after it.\<close>

definition lane_close :: "'o lane \<Rightarrow> 'o lane" where
  "lane_close l =
     (if ln_stopping l then l
      else let l1 = l\<lparr>ln_stopping := True, ln_owners := []\<rparr>;
               l2 = (snd (discard_queued (\<lambda>q. True) l1))\<lparr>ln_wake := True\<rparr>;
               l3 = cancel_current True l2
           in if ln_worker l3 \<noteq> NoTask then l3\<lparr>ln_cancel := True\<rparr> else l3)"

definition lane_closed :: "'o lane \<Rightarrow> 'o lane" where
  "lane_closed l = l\<lparr>ln_worker := NoTask, ln_current := None\<rparr>"

subsection \<open>The worker\<close>

text \<open>
  The inner \<open>while self._queue\<close> loop, from its head to the next \<open>await\<close>. The answer to the
  authorisation check of an item is indexed by the number of items behind it, so that it may differ
  from one iteration to the next.
\<close>

lemma fold_cancel_queue [simp]:
  "ln_queue (fold cancel_completion xs l) = ln_queue l" "ln_queue (cancel_completion x l) = ln_queue l"
  by (induction xs arbitrary: l) (simp_all add: cancel_completion_def settle_def split: option.splits)

lemma deactivate_queue:
  "ln_queue (snd (deactivate_owner w n owner l)) = filter (\<lambda>q. q_owner q \<noteq> owner) (ln_queue l)"
  by (simp add: deactivate_owner_def discard_queued_def Let_def cancel_current_def split: option.split)

lemma authorized_queue:
  "owner_is_authorized w ans owner l = (ok, ev, l1) \<Longrightarrow> length (ln_queue l1) \<le> length (ln_queue l)"
  using deactivate_queue [of w _ owner l]
  by (auto simp: owner_is_authorized_def split: option.splits if_splits prod.splits)
    (metis length_filter_le snd_conv)

function worker_loop :: "(nat \<Rightarrow> bool option) \<Rightarrow> 'o lane \<Rightarrow> 'o lane_event list \<times> 'o lane" where
  "worker_loop answers l =
     (case ln_queue l of
        [] \<Rightarrow> ([], l\<lparr>ln_wake := False, ln_worker := WaitingWake\<rparr>)
      | item # rest \<Rightarrow>
          (let (ok, ev, l1) =
             owner_is_authorized True (answers (length rest)) (q_owner item) (l\<lparr>ln_queue := rest\<rparr>)
           in if \<not> ok \<or> q_cancelled item then
                (let (ev', l2) = worker_loop answers (cancel_completion item l1) in (ev @ ev', l2))
              else (ev @ [Dispatched item], l1\<lparr>ln_current := Some item, ln_worker := Dispatching\<rparr>)))"
  by pat_completeness auto
termination
  by (relation "measure (\<lambda>(_, l). length (ln_queue l))")
    (auto dest!: authorized_queue [OF sym])

declare worker_loop.simps [simp del]

text \<open>The worker resumes from \<open>await self._wake.wait()\<close>; a cancellation that reaches it there
  ends the task.\<close>

definition worker_wake :: "(nat \<Rightarrow> bool option) \<Rightarrow> 'o lane \<Rightarrow> 'o lane_event list \<times> 'o lane" where
  "worker_wake answers l =
     (if ln_worker l \<noteq> WaitingWake then ([], l)
      else if ln_cancel l then ([], l\<lparr>ln_worker := TaskDone, ln_cancel := False, ln_current := None\<rparr>)
      else if ln_wake l then worker_loop answers l else ([], l))"

datatype outcome = DispatchReturned | DispatchRevoked | DispatchCancelled | DispatchRaised exn

text \<open>The worker resumes from \<open>await self._dispatch_item(item)\<close>.\<close>

definition worker_finish :: "outcome \<Rightarrow> (nat \<Rightarrow> bool option) \<Rightarrow> 'o lane \<Rightarrow> 'o lane_event list \<times> 'o lane" where
  "worker_finish res answers l0 =
     (case (ln_worker l0, ln_current l0) of
        (Dispatching, Some item) \<Rightarrow>
          (let l = l0\<lparr>ln_cancel := False\<rparr>; next = (\<lambda>l. worker_loop answers (l\<lparr>ln_current := None\<rparr>));
               dead = (\<lambda>l. l\<lparr>ln_current := None, ln_worker := TaskDone\<rparr>)
           in case res of
             DispatchReturned \<Rightarrow> next (settle FutureDone item l)
           | DispatchRevoked \<Rightarrow>
               (let (ev, l1) = deactivate_owner True
                   (case map_of (ln_owners l) (q_owner item) of None \<Rightarrow> False | Some reg \<Rightarrow> rg_on_unauthorized reg)
                   (q_owner item) l;
                  (ev', l2) = next l1
                in (ev @ ev', l2))
           | DispatchCancelled \<Rightarrow>
               (let l1 = cancel_completion item l
                in if ln_stopping l then ([], dead l1)
                   else if q_cancelled item \<or> map_of (ln_owners l) (q_owner item) = None then next l1
                   else ([], dead l1))
           | DispatchRaised e \<Rightarrow> next (settle (FutureFailed (safe_dispatch_failure_category e)) item l))
      | _ \<Rightarrow> ([], l0))"

subsection \<open>Runs of the lane\<close>

datatype 'o lane_call =
    Activate 'o registration
  | Submit 'o command "bool option"
  | SubmitAndWait 'o command nat "bool option"
  | CancelOwner 'o
  | CancelGeneration bool 'o nat
  | WorkerWake "nat \<Rightarrow> bool option"
  | WorkerFinish outcome "nat \<Rightarrow> bool option"
  | Close
  | Closed
  | Start

fun lane_step :: "'o lane_call \<Rightarrow> 'o lane \<Rightarrow> 'o lane_event list \<times> 'o lane" where
  "lane_step (Activate owner reg) l = (case lane_activate owner reg l of Inl _ \<Rightarrow> ([], l) | Inr l1 \<Rightarrow> ([], l1))"
| "lane_step (Submit owner c ans) l = snd (lane_submit owner c ans l)"
| "lane_step (SubmitAndWait owner c g ans) l = snd (lane_submit_and_wait owner c g ans l)"
| "lane_step (CancelOwner owner) l = ([], cancel_owner owner l)"
| "lane_step (CancelGeneration w owner g) l = ([], cancel_generation w owner g l)"
| "lane_step (WorkerWake answers) l = worker_wake answers l"
| "lane_step (WorkerFinish res answers) l = worker_finish res answers l"
| "lane_step Close l = ([], lane_close l)"
| "lane_step Closed l = (if ln_stopping l then ([], lane_closed l) else ([], l))"
| "lane_step Start l = (case lane_start l of Inl _ \<Rightarrow> ([], l) | Inr l1 \<Rightarrow> ([], l1))"

inductive lane_reach :: "'o lane \<Rightarrow> 'o lane_event list \<Rightarrow> bool" where
  lane_init: "new_lane m = Inr l \<Longrightarrow> lane_reach l []"
| lane_next: "lane_reach l evs \<Longrightarrow> lane_step call l = (ev, l') \<Longrightarrow> lane_reach l' (evs @ ev)"

definition dispatched :: "'o lane_event list \<Rightarrow> 'o queued list" where
  "dispatched evs = concat (map (\<lambda>e. case e of Dispatched q \<Rightarrow> [q] | _ \<Rightarrow> []) evs)"

lemma dispatched_simps [simp]:
  "dispatched [] = []" "dispatched (xs @ ys) = dispatched xs @ dispatched ys"
  "dispatched (Dispatched q # evs) = q # dispatched evs"
  "dispatched (ClosedUnauthorized owner # evs) = dispatched evs"
  by (simp_all add: dispatched_def)

subsection \<open>Invariant\<close>

definition registered :: "'o lane \<Rightarrow> 'o \<Rightarrow> bool" where
  "registered l owner \<longleftrightarrow> map_of (ln_owners l) owner \<noteq> None"

text \<open>Bounds, liveness of owners, no lost wake-up, numbering.\<close>

definition queue_ok :: "'o lane \<Rightarrow> bool" where
  "queue_ok l \<longleftrightarrow> 0 < ln_max l \<and> length (ln_queue l) \<le> ln_max l
     \<and> (\<forall>q \<in> set (ln_queue l). registered l (q_owner q) \<and> \<not> q_cancelled q)
     \<and> (ln_queue l \<noteq> [] \<longrightarrow> ln_wake l)
     \<and> sorted_wrt (<) (map q_id (ln_queue l)) \<and> (\<forall>q \<in> set (ln_queue l). q_id q < ln_next l)"

definition current_ok :: "'o lane \<Rightarrow> bool" where
  "current_ok l \<longleftrightarrow> (ln_current l \<noteq> None \<longleftrightarrow> ln_worker l = Dispatching)
     \<and> (\<forall>q. ln_current l = Some q \<longrightarrow> q_id q < ln_next l \<and> (\<forall>q' \<in> set (ln_queue l). q_id q < q_id q')
          \<and> (registered l (q_owner q) \<or> q_cancelled q))"

text \<open>A pending future belongs to an item still queued or executing.\<close>

definition awaited :: "'o lane \<Rightarrow> nat set" where
  "awaited l = {i. \<exists>q \<in> set (ln_queue l) \<union> set_option (ln_current l). q_completion q = Some i}"

definition pending :: "'o lane \<Rightarrow> nat set" where
  "pending l = {i. i < length (ln_futures l) \<and> ln_futures l ! i = FuturePending}"

definition base_inv :: "'o lane \<Rightarrow> bool" where
  "base_inv l \<longleftrightarrow> queue_ok l \<and> pending l \<subseteq> awaited l
     \<and> (ln_stopping l \<longrightarrow> ln_owners l = [] \<and> ln_queue l = [] \<and> pending l = {})"

definition lane_inv :: "'o lane \<Rightarrow> bool" where
  "lane_inv l \<longleftrightarrow> base_inv l \<and> current_ok l"

lemma settle_fields [simp]:
  "ln_max (settle st q l) = ln_max l" "ln_queue (settle st q l) = ln_queue l" "ln_owners (settle st q l) = ln_owners l"
  "ln_wake (settle st q l) = ln_wake l" "ln_worker (settle st q l) = ln_worker l" "ln_cancel (settle st q l) = ln_cancel l"
  "ln_current (settle st q l) = ln_current l" "ln_stopping (settle st q l) = ln_stopping l"
  "ln_next (settle st q l) = ln_next l" "length (ln_futures (settle st q l)) = length (ln_futures l)"
  by (simp_all add: settle_def split: option.splits)

lemma settle_pending:
  "st \<noteq> FuturePending \<Longrightarrow> pending (settle st q l) = pending l - set_option (q_completion q)"
  by (auto simp: pending_def settle_def nth_list_update split: option.splits if_splits)

lemma cancel_completion_fields [simp]:
  "ln_max (cancel_completion q l) = ln_max l" "ln_owners (cancel_completion q l) = ln_owners l"
  "ln_wake (cancel_completion q l) = ln_wake l" "ln_worker (cancel_completion q l) = ln_worker l"
  "ln_cancel (cancel_completion q l) = ln_cancel l" "ln_current (cancel_completion q l) = ln_current l"
  "ln_stopping (cancel_completion q l) = ln_stopping l" "ln_next (cancel_completion q l) = ln_next l"
  "pending (cancel_completion q l) = pending l - set_option (q_completion q)"
  "length (ln_futures (cancel_completion q l)) = length (ln_futures l)"
  by (simp_all add: cancel_completion_def settle_pending)

lemma fold_cancel_fields [simp]:
  "ln_max (fold cancel_completion xs l) = ln_max l" "ln_owners (fold cancel_completion xs l) = ln_owners l"
  "ln_wake (fold cancel_completion xs l) = ln_wake l" "ln_worker (fold cancel_completion xs l) = ln_worker l"
  "ln_cancel (fold cancel_completion xs l) = ln_cancel l" "ln_current (fold cancel_completion xs l) = ln_current l"
  "ln_stopping (fold cancel_completion xs l) = ln_stopping l" "ln_next (fold cancel_completion xs l) = ln_next l"
  "length (ln_futures (fold cancel_completion xs l)) = length (ln_futures l)"
  by (induction xs arbitrary: l) simp_all

lemma fold_cancel_pending:
  "pending (fold cancel_completion xs l) = pending l - {i. \<exists>q \<in> set xs. q_completion q = Some i}"
  by (induction xs arbitrary: l) (auto simp: elem_set)

lemma pending_update [simp]:
  "pending (l\<lparr>ln_queue := qs\<rparr>) = pending l" "pending (l\<lparr>ln_owners := os\<rparr>) = pending l"
  "pending (l\<lparr>ln_wake := b\<rparr>) = pending l" "pending (l\<lparr>ln_worker := w\<rparr>) = pending l"
  "pending (l\<lparr>ln_cancel := b\<rparr>) = pending l" "pending (l\<lparr>ln_current := c\<rparr>) = pending l"
  "pending (l\<lparr>ln_stopping := b\<rparr>) = pending l" "pending (l\<lparr>ln_next := n\<rparr>) = pending l"
  by (simp_all add: pending_def)

lemma discard_fields [simp]:
  "ln_queue (snd (discard_queued P l)) = filter (\<lambda>q. \<not> P q) (ln_queue l)"
  "ln_max (snd (discard_queued P l)) = ln_max l" "ln_owners (snd (discard_queued P l)) = ln_owners l"
  "ln_wake (snd (discard_queued P l)) = ln_wake l" "ln_worker (snd (discard_queued P l)) = ln_worker l"
  "ln_cancel (snd (discard_queued P l)) = ln_cancel l" "ln_current (snd (discard_queued P l)) = ln_current l"
  "length (ln_futures (snd (discard_queued P l))) = length (ln_futures l)"
  "ln_stopping (snd (discard_queued P l)) = ln_stopping l" "ln_next (snd (discard_queued P l)) = ln_next l"
  "pending (snd (discard_queued P l)) = pending l - {i. \<exists>q \<in> set (filter P (ln_queue l)). q_completion q = Some i}"
  by (simp_all add: discard_queued_def fold_cancel_pending)

lemma cancel_current_fields [simp]:
  "ln_queue (cancel_current w l) = ln_queue l" "ln_max (cancel_current w l) = ln_max l"
  "ln_owners (cancel_current w l) = ln_owners l" "ln_wake (cancel_current w l) = ln_wake l"
  "ln_worker (cancel_current w l) = ln_worker l" "ln_stopping (cancel_current w l) = ln_stopping l"
  "ln_next (cancel_current w l) = ln_next l" "length (ln_futures (cancel_current w l)) = length (ln_futures l)"
  "ln_current (cancel_current w l) = map_option (\<lambda>q. q\<lparr>q_cancelled := True\<rparr>) (ln_current l)"
  "pending (cancel_current w l) = pending l - {i. \<exists>q \<in> set_option (ln_current l). q_completion q = Some i}"
  by (auto simp: cancel_current_def Let_def split: option.split)

lemma deactivate_fields [simp]:
  "ln_queue (snd (deactivate_owner w n owner l)) = filter (\<lambda>q. q_owner q \<noteq> owner) (ln_queue l)"
  "ln_max (snd (deactivate_owner w n owner l)) = ln_max l"
  "ln_owners (snd (deactivate_owner w n owner l)) = AList.delete owner (ln_owners l)"
  "ln_wake (snd (deactivate_owner w n owner l))" "ln_worker (snd (deactivate_owner w n owner l)) = ln_worker l"
  "ln_stopping (snd (deactivate_owner w n owner l)) = ln_stopping l"
  "length (ln_futures (snd (deactivate_owner w n owner l))) = length (ln_futures l)"
  "ln_next (snd (deactivate_owner w n owner l)) = ln_next l"
  "ln_current (snd (deactivate_owner w n owner l)) =
     map_option (\<lambda>q. if q_owner q = owner then q\<lparr>q_cancelled := True\<rparr> else q) (ln_current l)"
  by (auto simp: deactivate_owner_def Let_def current_is_def split: option.split)

lemma deactivate_pending:
  "pending (snd (deactivate_owner w n owner l)) =
     pending l - {i. \<exists>q \<in> set (ln_queue l) \<union> set_option (ln_current l). q_owner q = owner \<and> q_completion q = Some i}"
  by (auto simp: deactivate_owner_def Let_def current_is_def split: option.splits)

lemmas inv_defs = lane_inv_def base_inv_def queue_ok_def current_ok_def registered_def

lemma map_of_delete [simp]: "map_of (AList.delete k al) k' = (if k' = k then None else map_of al k')"
  by (simp add: delete_conv')

lemma sorted_filter_map: "sorted_wrt R (map f xs) \<Longrightarrow> sorted_wrt R (map f (filter P xs))"
  by (induction xs) auto

lemma length_filter_bound: "length xs \<le> n \<Longrightarrow> length (filter P xs) \<le> n"
  using length_filter_le order_trans by blast

text \<open>While a completion has been made and its item is not yet queued, that future is pending too.\<close>

definition base_with :: "nat set \<Rightarrow> 'o lane \<Rightarrow> bool" where
  "base_with P l \<longleftrightarrow> queue_ok l \<and> pending l \<subseteq> awaited l \<union> P
     \<and> (ln_stopping l \<longrightarrow> ln_owners l = [] \<and> ln_queue l = [] \<and> pending l \<subseteq> P)"

lemma base_with_empty [simp]: "base_with {} l \<longleftrightarrow> base_inv l"
  by (simp add: base_with_def base_inv_def)

lemma deactivate_base_with:
  assumes "base_with P l" shows "base_with P (snd (deactivate_owner w n owner l))"
proof -
  have "i \<in> awaited (snd (deactivate_owner w n owner l)) \<union> P" if "i \<in> pending (snd (deactivate_owner w n owner l))" for i
  proof (cases "i \<in> P")
    case False
    from that have i: "i \<in> pending l" and
      other: "\<And>q. q \<in> set (ln_queue l) \<or> ln_current l = Some q \<Longrightarrow> q_completion q = Some i \<Longrightarrow> q_owner q \<noteq> owner"
      by (auto simp: deactivate_pending)
    from i False assms obtain q where q: "q \<in> set (ln_queue l) \<or> ln_current l = Some q" "q_completion q = Some i"
      by (auto simp: base_with_def awaited_def)
    with other have "q_owner q \<noteq> owner" by blast
    with q show ?thesis by (auto simp: awaited_def)
  qed simp
  then show ?thesis
    using assms by (auto simp: base_with_def queue_ok_def registered_def length_filter_bound deactivate_pending
        intro: sorted_filter_map)
qed

lemma deactivate_base: "base_inv l \<Longrightarrow> base_inv (snd (deactivate_owner w n owner l))"
  using deactivate_base_with [of "{}"] by simp

lemma deactivate_current:
  "current_ok l \<Longrightarrow> current_ok (snd (deactivate_owner w n owner l))"
  by (cases "ln_current l") (simp_all add: current_ok_def registered_def)

lemma deactivate_inv: "lane_inv l \<Longrightarrow> lane_inv (snd (deactivate_owner w n owner l))"
  by (simp add: lane_inv_def deactivate_base deactivate_current)

lemma authorized_cases:
  assumes "owner_is_authorized w ans owner l = (ok, ev, l1)"
  obtains (granted) "ok" "ev = []" "l1 = l" "registered l owner"
      "\<forall>reg. map_of (ln_owners l) owner = Some reg \<longrightarrow> rg_authorize reg \<longrightarrow> ans = Some True"
  | (unknown) "\<not> ok" "ev = []" "l1 = l" "\<not> registered l owner"
  | (refused) n where "\<not> ok" "l1 = snd (deactivate_owner w n owner l)" "dispatched ev = []"
  using assms
  by (auto simp: owner_is_authorized_def registered_def deactivate_owner_def Let_def
      split: option.splits if_splits prod.splits)

text \<open>What one step may do to the queue and to the events.\<close>

definition step_ok :: "'o lane \<Rightarrow> 'o lane_event list \<Rightarrow> 'o lane \<Rightarrow> bool" where
  "step_ok l ev l' \<longleftrightarrow> ln_next l \<le> ln_next l'
     \<and> (\<forall>q \<in> set (ln_queue l'). q_id q \<in> q_id ` set (ln_queue l) \<or> ln_next l \<le> q_id q)
     \<and> length (dispatched ev) \<le> 1
     \<and> (\<forall>q \<in> set (dispatched ev). q_id q \<in> q_id ` set (ln_queue l) \<and> ln_current l' = Some q
          \<and> registered l' (q_owner q) \<and> \<not> q_cancelled q \<and> (\<forall>q' \<in> set (ln_queue l'). q_id q < q_id q'))"

lemma step_ok_silent:
  "dispatched ev = [] \<Longrightarrow> ln_next l' = ln_next l \<Longrightarrow> q_id ` set (ln_queue l') \<subseteq> q_id ` set (ln_queue l) \<Longrightarrow>
     step_ok l ev l'"
  by (auto simp: step_ok_def)

lemma step_ok_after:
  assumes "step_ok l1 ev l'" "ln_next l1 = ln_next l" "q_id ` set (ln_queue l1) \<subseteq> q_id ` set (ln_queue l)"
    "dispatched ev0 = []"
  shows "step_ok l (ev0 @ ev) l'"
  using assms by (fastforce simp: step_ok_def)

lemma worker_loop_ok:
  assumes "base_inv l" "ln_current l = None" "ln_worker l = Dispatching \<or> ln_worker l = WaitingWake"
    and "worker_loop answers l = (ev, l')"
  shows "lane_inv l' \<and> step_ok l ev l' \<and> (ln_stopping l' \<longleftrightarrow> ln_stopping l)
    \<and> (\<forall>q \<in> set (dispatched ev). \<forall>reg. map_of (ln_owners l') (q_owner q) = Some reg \<longrightarrow> rg_authorize reg \<longrightarrow>
         (\<exists>n. answers n = Some True))"
  using assms
proof (induction answers l arbitrary: ev rule: worker_loop.induct)
  case (1 answers l)
  show ?case
  proof (cases "ln_queue l")
    case Nil
    then have "ev = []" "l' = l\<lparr>ln_wake := False, ln_worker := WaitingWake\<rparr>"
      using "1.prems"(4) by (simp_all add: worker_loop.simps)
    then show ?thesis
      using "1.prems"(1,2) Nil by (auto simp: inv_defs awaited_def step_ok_def)
  next
    case (Cons item rest)
    let ?l = "l\<lparr>ln_queue := rest\<rparr>"
    obtain ok ev1 l1 where auth: "owner_is_authorized True (answers (length rest)) (q_owner item) ?l = (ok, ev1, l1)"
      by (metis prod_cases3)
    have base: "queue_ok ?l" "pending ?l \<subseteq> awaited ?l \<union> set_option (q_completion item)"
      using "1.prems"(1) Cons by (auto simp: base_inv_def queue_ok_def registered_def awaited_def)
    have stop: "\<not> ln_stopping l" using "1.prems"(1) Cons by (auto simp: base_inv_def)
    have first: "\<forall>q \<in> set rest. q_id item < q_id q" "q_id item < ln_next l"
      using "1.prems"(1) Cons by (auto simp: base_inv_def queue_ok_def)
    have skip: ?thesis
      if after: "base_inv (cancel_completion item l1)" "ln_current l1 = None" "ln_worker l1 = ln_worker l"
        "ln_next l1 = ln_next l" "ln_stopping l1 = ln_stopping l" "set (ln_queue l1) \<subseteq> set rest" "dispatched ev1 = []"
        and no: "\<not> ok \<or> q_cancelled item"
    proof -
      obtain ev2 where rec: "worker_loop answers (cancel_completion item l1) = (ev2, l')" "ev = ev1 @ ev2"
        using "1.prems"(4) no Cons by (auto simp: worker_loop.simps [of answers l] auth split: prod.splits)
      note IH = "1.IH" [OF Cons auth [symmetric] refl refl no after(1) _ _ rec(1)]
      then have "lane_inv l' \<and> step_ok (cancel_completion item l1) ev2 l' \<and> (ln_stopping l' \<longleftrightarrow> ln_stopping l)
        \<and> (\<forall>q \<in> set (dispatched ev2). \<forall>reg. map_of (ln_owners l') (q_owner q) = Some reg \<longrightarrow> rg_authorize reg \<longrightarrow>
         (\<exists>n. answers n = Some True))"
        using after "1.prems"(3) by simp
      moreover have "step_ok l ev l'" if "step_ok (cancel_completion item l1) ev2 l'"
        unfolding rec(2) using after Cons by (intro step_ok_after [OF that]) auto
      ultimately show ?thesis using after(7) rec(2) by auto
    qed
    show ?thesis
    using auth
    proof (cases rule: authorized_cases)
      case granted
      show ?thesis
      proof (cases "q_cancelled item")
        case True
        show ?thesis
          using granted base stop "1.prems"(2) True by (intro skip) (auto simp: base_inv_def queue_ok_def registered_def awaited_def)
      next
        case False
        then have "ev = [Dispatched item]" "l' = ?l\<lparr>ln_current := Some item, ln_worker := Dispatching\<rparr>"
          using "1.prems"(4) granted Cons by (auto simp: worker_loop.simps [of answers l] auth)
        then show ?thesis
          using base granted stop first False Cons "1.prems"(2)
          by (auto simp: inv_defs awaited_def step_ok_def elem_set)
      qed
    next
      case unknown
      have "registered l (q_owner item)" using "1.prems"(1) Cons by (auto simp: base_inv_def queue_ok_def)
      with unknown show ?thesis by (simp add: registered_def)
    next
      case (refused n)
      have "base_inv (cancel_completion item l1)"
        using deactivate_base [of "cancel_completion item ?l" True n "q_owner item"] base stop refused(2)
        by (auto simp: base_inv_def queue_ok_def registered_def awaited_def deactivate_pending)
      then show ?thesis using refused "1.prems"(2) by (intro skip) auto
    qed
  qed
qed

text \<open>Every operation keeps the invariant and only does to the queue what \<open>step_ok\<close> allows.\<close>

definition good_step :: "'o lane \<Rightarrow> 'o lane_event list \<Rightarrow> 'o lane \<Rightarrow> bool" where
  "good_step l ev l' \<longleftrightarrow> lane_inv l' \<and> step_ok l ev l'"

lemma deactivate_good:
  "lane_inv l \<Longrightarrow> dispatched ev = [] \<Longrightarrow> good_step l ev (snd (deactivate_owner w n owner l))"
  by (auto simp: good_step_def deactivate_inv intro!: step_ok_silent)

lemma good_refl: "lane_inv l \<Longrightarrow> dispatched ev = [] \<Longrightarrow> good_step l ev l"
  by (simp add: good_step_def step_ok_silent)

lemma activate_good:
  assumes "lane_inv l" "lane_activate owner reg l = Inr l1"
  shows "good_step l [] l1"
proof -
  obtain l0 where l0: "lane_start l = Inr l0" and l1: "l1 = l0\<lparr>ln_owners := AList.update owner reg (ln_owners l0)\<rparr>"
    using assms(2) by (auto simp: lane_activate_def rbind_eq_Inr)
  have "\<not> ln_stopping l" "l0 = l \<or> l0 = l\<lparr>ln_worker := WaitingWake, ln_cancel := False\<rparr> \<and> ln_worker l \<noteq> Dispatching"
    using l0 by (auto simp: lane_start_def split: if_splits)
  then show ?thesis
    using assms(1) unfolding l1
    by (auto simp: good_step_def inv_defs awaited_def update_conv intro!: step_ok_silent)
qed

lemma start_good:
  assumes "lane_inv l" "lane_start l = Inr l1" shows "good_step l [] l1"
  using assms by (auto simp: lane_start_def good_step_def inv_defs awaited_def intro!: step_ok_silent split: if_splits)

lemma queue_append_good:
  assumes "base_with (set_option (q_completion q)) l" "current_ok l" "registered l (q_owner q)"
    and "q_id q = ln_next l" "length (ln_queue l) < ln_max l" "\<not> ln_stopping l" "\<not> q_cancelled q"
  shows "good_step l [] (l\<lparr>ln_queue := ln_queue l @ [q], ln_next := Suc (ln_next l), ln_wake := True\<rparr>)"
  using assms
  by (auto simp: good_step_def inv_defs base_with_def awaited_def step_ok_def sorted_wrt_append elem_set less_SucI)

lemma queue_replace_good:
  assumes "lane_inv l" "ln_queue l = qs @ [q]" "q_completion q = None"
  shows "good_step l [] (l\<lparr>ln_queue := qs @ [q\<lparr>q_command := c\<rparr>]\<rparr>)"
proof -
  have "pending l \<subseteq> awaited (l\<lparr>ln_queue := qs @ [q\<lparr>q_command := c\<rparr>]\<rparr>)"
    using assms by (auto simp: inv_defs awaited_def)
  then show ?thesis
    using assms by (auto simp: good_step_def inv_defs step_ok_def sorted_wrt_append)
qed

lemma good_step_after:
  assumes "good_step l1 ev l'" "ln_next l1 = ln_next l" "set (ln_queue l1) \<subseteq> set (ln_queue l)" "dispatched ev0 = []"
  shows "good_step l (ev0 @ ev) l'"
  using assms(1) step_ok_after [of l1 ev l' l ev0] assms(2-) by (auto simp: good_step_def)

text \<open>Submission: a lane that took the item is in order; one that did not is as before, up to the
  completion the caller still holds.\<close>

lemma enqueue_good:
  assumes "base_with (set_option compl) l" "current_ok l" "lane_enqueue owner c gen compl ans l = (ok, ev, l')"
  shows "base_with (set_option compl) l' \<and> current_ok l' \<and> step_ok l ev l' \<and> dispatched ev = []
    \<and> length (ln_futures l') = length (ln_futures l) \<and> (ok \<longrightarrow> lane_inv l')"
proof (cases "ln_stopping l \<or> map_of (ln_owners l) owner = None")
  case True
  then show ?thesis using assms by (auto simp: lane_enqueue_def intro: step_ok_silent)
next
  case False
  obtain ok1 ev1 l1 where auth: "owner_is_authorized False ans owner l = (ok1, ev1, l1)" by (metis prod_cases3)
  show ?thesis
    using auth
  proof (cases rule: authorized_cases)
    case unknown
    then show ?thesis using False by (simp add: registered_def)
  next
    case (refused n)
    show ?thesis
      using refused assms False deactivate_base_with [OF assms(1), of False n owner] deactivate_current [OF assms(2), of False n owner]
      by (auto simp: lane_enqueue_def auth intro!: step_ok_silent)
  next
    case granted
    let ?q = "\<lparr>q_id = ln_next l, q_owner = owner, q_command = c, q_generation = gen, q_completion = compl, q_cancelled = False\<rparr>"
    consider (coalesce) qs q where "compl = None" "ln_queue l = qs @ [q]" "q_completion q = None" "ok" "ev = []"
        "l' = l\<lparr>ln_queue := qs @ [q\<lparr>q_command := c\<rparr>]\<rparr>"
      | (full) "\<not> ok" "ev = []" "l' = l"
      | (append) "length (ln_queue l) < ln_max l" "ev = []"
        "l' = l\<lparr>ln_queue := ln_queue l @ [?q], ln_next := Suc (ln_next l), ln_wake := True\<rparr>"
      using assms(3) False granted
      by (cases "ln_queue l" rule: rev_cases) (auto simp: lane_enqueue_def auth not_le split: if_splits)
    then show ?thesis
    proof cases
      case coalesce
      have "lane_inv l" using assms(1,2) coalesce(1) by (simp add: lane_inv_def)
      from queue_replace_good [OF this coalesce(2,3), of c] coalesce show ?thesis
        by (simp add: good_step_def lane_inv_def)
    next
      case full
      then show ?thesis using assms(1,2) by (auto intro: step_ok_silent)
    next
      case append
      have "good_step l [] l'"
        unfolding append(3) using assms(1,2) granted append(1) False by (intro queue_append_good) auto
      then show ?thesis using append by (auto simp: good_step_def lane_inv_def base_with_def base_inv_def)
    qed
  qed
qed

lemma submit_good:
  assumes "lane_inv l" "lane_submit owner c ans l = (ok, ev, l')"
  shows "good_step l ev l'"
  using enqueue_good [of None l owner c None ans ok ev l'] assms
  by (simp add: lane_submit_def good_step_def lane_inv_def)

lemma pending_new:
  "pending (l\<lparr>ln_futures := ln_futures l @ [FuturePending]\<rparr>) = insert (length (ln_futures l)) (pending l)"
  by (auto simp: pending_def nth_append)

lemma pending_cancel:
  "pending (l\<lparr>ln_futures := (ln_futures l)[i := FutureCancelled]\<rparr>) = pending l - {i}"
proof (rule set_eqI)
  fix x show "x \<in> pending (l\<lparr>ln_futures := (ln_futures l)[i := FutureCancelled]\<rparr>) \<longleftrightarrow> x \<in> pending l - {i}"
    by (cases "x = i") (auto simp: pending_def)
qed

lemma awaited_futures [simp]: "awaited (l\<lparr>ln_futures := fs\<rparr>) = awaited l"
  by (simp add: awaited_def)

lemma submit_and_wait_good:
  assumes "lane_inv l" "lane_submit_and_wait owner c g ans l = (res, ev, l')"
  shows "good_step l ev l'"
proof -
  let ?i = "length (ln_futures l)"
  let ?l = "l\<lparr>ln_futures := ln_futures l @ [FuturePending]\<rparr>"
  obtain ok l1 where enq: "lane_enqueue owner c (Some g) (Some ?i) ans ?l = (ok, ev, l1)"
    and l': "l' = (if ok then l1 else l1\<lparr>ln_futures := (ln_futures l1)[?i := FutureCancelled]\<rparr>)"
    using assms(2) by (auto simp: lane_submit_and_wait_def Let_def split: prod.splits if_splits)
  have "base_with (set_option (Some ?i)) ?l" "current_ok ?l"
    using assms(1) by (auto simp: inv_defs base_with_def pending_new)
  note enq_ok = enqueue_good [OF this enq]
  have step: "step_ok l ev l'" using enq_ok by (simp add: l' step_ok_def)
  show ?thesis
  proof (cases ok)
    case True
    then show ?thesis using enq_ok step l' by (simp add: good_step_def)
  next
    case False
    then have "lane_inv l'" using enq_ok l'
      by (auto simp: lane_inv_def base_with_def base_inv_def queue_ok_def current_ok_def registered_def pending_cancel)
    then show ?thesis using step by (simp add: good_step_def)
  qed
qed

lemma cancel_current_base:
  assumes "lane_inv l" shows "lane_inv (cancel_current w l)"
proof -
  have "pending (cancel_current w l) \<subseteq> awaited (cancel_current w l)"
    using assms by (auto simp: lane_inv_def base_inv_def awaited_def)
  then show ?thesis using assms by (cases "ln_current l") (auto simp: inv_defs)
qed

lemma discard_inv:
  assumes "lane_inv l" shows "lane_inv (snd (discard_queued P l))"
proof -
  have "pending (snd (discard_queued P l)) \<subseteq> awaited (snd (discard_queued P l))"
  proof
    fix i assume i: "i \<in> pending (snd (discard_queued P l))"
    then have "i \<in> awaited l" using assms by (auto simp: lane_inv_def base_inv_def)
    then obtain q where "q \<in> set (ln_queue l) \<or> ln_current l = Some q" "q_completion q = Some i"
      by (auto simp: awaited_def)
    with i show "i \<in> awaited (snd (discard_queued P l))" by (auto simp: awaited_def)
  qed
  moreover have "queue_ok (snd (discard_queued P l))" "current_ok (snd (discard_queued P l))"
    using assms by (auto simp: inv_defs length_filter_bound intro: sorted_filter_map)
  ultimately show ?thesis
    using assms by (auto simp: lane_inv_def base_inv_def)
qed

lemma wake_inv: "lane_inv l \<Longrightarrow> lane_inv (l\<lparr>ln_wake := True\<rparr>)"
  by (simp add: inv_defs awaited_def)

lemma cancel_generation_good:
  assumes "lane_inv l" shows "good_step l [] (cancel_generation w owner g l)"
proof -
  have "lane_inv (cancel_generation w owner g l)"
    by (auto simp: cancel_generation_def Let_def split_beta
        intro!: wake_inv cancel_current_base discard_inv assms)
  then show ?thesis
    by (auto simp: good_step_def cancel_generation_def Let_def split_beta intro!: step_ok_silent)
qed

lemma close_good:
  assumes "lane_inv l" shows "good_step l [] (lane_close l)"
proof (cases "ln_stopping l")
  case True
  then show ?thesis using assms by (simp add: lane_close_def good_refl)
next
  case False
  have gone: "pending l - {i. \<exists>q \<in> set (ln_queue l). q_completion q = Some i}
      - {i. \<exists>q \<in> set_option (ln_current l). q_completion q = Some i} = {}"
    using assms by (auto simp: inv_defs awaited_def)
  have "lane_inv (lane_close l)"
    using assms False gone
    by (cases "ln_current l") (auto simp: inv_defs lane_close_def Let_def awaited_def)
  then show ?thesis
    using False by (auto simp: good_step_def lane_close_def Let_def intro!: step_ok_silent)
qed

lemma closed_good:
  "lane_inv l \<Longrightarrow> ln_stopping l \<Longrightarrow> good_step l [] (lane_closed l)"
  by (auto simp: good_step_def inv_defs lane_closed_def awaited_def intro!: step_ok_silent)

definition answered :: "(nat \<Rightarrow> bool option) \<Rightarrow> 'o lane_event list \<Rightarrow> 'o lane \<Rightarrow> bool" where
  "answered answers ev l' \<longleftrightarrow> (\<forall>q \<in> set (dispatched ev). \<forall>reg.
     map_of (ln_owners l') (q_owner q) = Some reg \<longrightarrow> rg_authorize reg \<longrightarrow> (\<exists>n. answers n = Some True))"

lemma answered_silent [simp]: "dispatched ev = [] \<Longrightarrow> answered answers ev l"
  by (simp add: answered_def)

lemma loop_good:
  assumes "base_inv l" "ln_current l = None" "ln_worker l = Dispatching \<or> ln_worker l = WaitingWake"
    and "worker_loop answers l = (ev, l')"
  shows "good_step l ev l' \<and> answered answers ev l'"
  using worker_loop_ok [OF assms] by (auto simp: good_step_def answered_def)

lemma worker_wake_good:
  assumes "lane_inv l" "worker_wake answers l = (ev, l')"
  shows "good_step l ev l' \<and> answered answers ev l'"
proof (cases "ln_worker l = WaitingWake \<and> \<not> ln_cancel l \<and> ln_wake l")
  case True
  then have "ln_current l = None" using assms(1) by (auto simp: inv_defs)
  with True assms show ?thesis
    by (intro loop_good) (auto simp: worker_wake_def lane_inv_def)
next
  case False
  then have "ev = []" "l' = l \<or> ln_worker l = WaitingWake \<and> l' = l\<lparr>ln_worker := TaskDone, ln_cancel := False, ln_current := None\<rparr>"
    using assms(2) by (auto simp: worker_wake_def split: if_splits)
  then show ?thesis using assms(1)
    by (auto simp: good_step_def inv_defs awaited_def intro!: step_ok_silent)
qed

text \<open>After a dispatch the item is done with: its completion is settled, the current slot cleared.\<close>

lemma finished_base:
  assumes "lane_inv l" "ln_current l = Some item" "st \<noteq> FuturePending"
  shows "base_inv ((settle st item (l\<lparr>ln_cancel := c\<rparr>))\<lparr>ln_current := None\<rparr>)"
  using assms by (auto simp: inv_defs awaited_def settle_pending)

lemma worker_finish_cases:
  assumes "worker_finish res answers l = (ev, l')" "ln_worker l = Dispatching" "ln_current l = Some item"
  obtains (loop) st where "st \<noteq> FuturePending"
      "worker_loop answers ((settle st item (l\<lparr>ln_cancel := False\<rparr>))\<lparr>ln_current := None\<rparr>) = (ev, l')"
  | (revoked) n ev0 ev1 where "ev = ev0 @ ev1" "dispatched ev0 = []"
      "worker_loop answers ((snd (deactivate_owner True n (q_owner item) (l\<lparr>ln_cancel := False\<rparr>)))
         \<lparr>ln_current := None\<rparr>) = (ev1, l')"
  | (dead) "ev = []"
      "l' = (settle FutureCancelled item (l\<lparr>ln_cancel := False\<rparr>))\<lparr>ln_current := None, ln_worker := TaskDone\<rparr>"
proof (cases res)
  case DispatchReturned
  with assms show ?thesis by (intro loop [of FutureDone]) (simp_all add: worker_finish_def)
next
  case (DispatchRaised e)
  with assms show ?thesis
    by (intro loop [of "FutureFailed (safe_dispatch_failure_category e)"]) (simp_all add: worker_finish_def)
next
  case DispatchCancelled
  let ?l = "(settle FutureCancelled item (l\<lparr>ln_cancel := False\<rparr>))\<lparr>ln_current := None\<rparr>"
  have eq: "(if \<not> ln_stopping l \<and> (q_cancelled item \<or> map_of (ln_owners l) (q_owner item) = None)
      then worker_loop answers ?l else ([], ?l\<lparr>ln_worker := TaskDone\<rparr>)) = (ev, l')"
    using assms DispatchCancelled by (auto simp: worker_finish_def Let_def cancel_completion_def split: if_splits)
  show ?thesis
  proof (cases "\<not> ln_stopping l \<and> (q_cancelled item \<or> map_of (ln_owners l) (q_owner item) = None)")
    case True
    with eq show ?thesis by (intro loop [of FutureCancelled]) simp_all
  next
    case False
    have "([], ?l\<lparr>ln_worker := TaskDone\<rparr>) = (ev, l')" using eq by (simp only: if_not_P [OF False])
    then show ?thesis by (intro dead) auto
  qed
next
  case DispatchRevoked
  define n where "n = (case map_of (ln_owners l) (q_owner item) of None \<Rightarrow> False | Some reg \<Rightarrow> rg_on_unauthorized reg)"
  obtain ev0 l1 where d: "deactivate_owner True n (q_owner item) (l\<lparr>ln_cancel := False\<rparr>) = (ev0, l1)" by fastforce
  obtain ev1 where "worker_loop answers (l1\<lparr>ln_current := None\<rparr>) = (ev1, l')" "ev = ev0 @ ev1"
    using assms DispatchRevoked d by (auto simp: worker_finish_def Let_def n_def split: prod.splits)
  moreover have "dispatched ev0 = []" using d by (auto simp: deactivate_owner_def Let_def)
  ultimately show ?thesis by (intro revoked [of ev0 ev1 n]) (simp_all add: d)
qed

lemma worker_finish_good:
  assumes "lane_inv l" "worker_finish res answers l = (ev, l')"
  shows "good_step l ev l' \<and> answered answers ev l'"
proof (cases "ln_worker l = Dispatching \<and> ln_current l \<noteq> None")
  case False
  then have "ev = []" "l' = l" using assms(2) by (auto simp: worker_finish_def split: worker.splits option.splits)
  then show ?thesis using assms(1) by (simp add: good_refl)
next
  case True
  then obtain item where item: "ln_current l = Some item" "ln_worker l = Dispatching" by auto
  show ?thesis
    using assms(2) item(2,1)
  proof (cases rule: worker_finish_cases)
    case (loop st)
    have base: "base_inv ((settle st item (l\<lparr>ln_cancel := False\<rparr>))\<lparr>ln_current := None\<rparr>)"
      by (rule finished_base [OF assms(1) item(1) loop(1)])
    show ?thesis
      using loop_good [OF base _ _ loop(2)] item
        good_step_after [of "(settle st item (l\<lparr>ln_cancel := False\<rparr>))\<lparr>ln_current := None\<rparr>" ev l' l "[]"]
      by simp
  next
    case (revoked n ev0 ev1)
    let ?l1 = "snd (deactivate_owner True n (q_owner item) (l\<lparr>ln_cancel := False\<rparr>))"
    have "lane_inv ?l1" using assms(1) by (intro deactivate_inv) (simp add: inv_defs awaited_def)
    moreover have "i \<notin> pending ?l1" if "q_completion item = Some i" for i
      using that item unfolding deactivate_pending by auto
    ultimately have "base_inv (?l1\<lparr>ln_current := None\<rparr>)"
      using item by (auto simp: inv_defs awaited_def)
    from loop_good [OF this _ _ revoked(3)] good_step_after [of "?l1\<lparr>ln_current := None\<rparr>" ev1 l' l ev0] revoked(1,2) item
    show ?thesis by (auto simp: answered_def)
  next
    case dead
    have "base_inv ((settle FutureCancelled item (l\<lparr>ln_cancel := False\<rparr>))\<lparr>ln_current := None\<rparr>)"
      by (rule finished_base [OF assms(1) item(1)]) simp
    then show ?thesis
      unfolding dead by (auto simp: good_step_def lane_inv_def base_inv_def queue_ok_def current_ok_def
          registered_def awaited_def intro!: step_ok_silent)
  qed
qed

lemma lane_step_good:
  assumes "lane_inv l" "lane_step call l = (ev, l')"
  shows "good_step l ev l'"
proof (cases call)
  case (Activate owner reg)
  with assms activate_good [OF assms(1), of owner reg] show ?thesis by (auto simp: good_refl split: sum.splits)
next
  case (Submit owner c ans)
  with assms submit_good [OF assms(1)] show ?thesis by (metis lane_step.simps(2) prod.collapse snd_conv)
next
  case (SubmitAndWait owner c g ans)
  with assms submit_and_wait_good [OF assms(1)] show ?thesis by (metis lane_step.simps(3) prod.collapse snd_conv)
next
  case (CancelOwner owner)
  with assms deactivate_good [OF assms(1), of "[]" False False owner] show ?thesis by (simp add: cancel_owner_def)
next
  case (CancelGeneration w owner g)
  with assms cancel_generation_good [OF assms(1)] show ?thesis by auto
next
  case (WorkerWake answers)
  with assms worker_wake_good [OF assms(1)] show ?thesis by auto
next
  case (WorkerFinish res answers)
  with assms worker_finish_good [OF assms(1)] show ?thesis by auto
next
  case Close
  with assms close_good [OF assms(1)] show ?thesis by auto
next
  case Closed
  with assms closed_good [OF assms(1)] show ?thesis by (auto simp: good_refl split: if_splits)
next
  case Start
  with assms start_good [OF assms(1)] show ?thesis by (auto simp: good_refl split: sum.splits)
qed

lemma new_lane_inv: "new_lane m = Inr l \<Longrightarrow> lane_inv l \<and> ln_queue l = []"
  by (auto simp: new_lane_def inv_defs awaited_def pending_def split: if_splits)

definition fifo_inv :: "'o lane_event list \<Rightarrow> 'o lane \<Rightarrow> bool" where
  "fifo_inv evs l \<longleftrightarrow> sorted_wrt (<) (map q_id (dispatched evs))
     \<and> (\<forall>q \<in> set (dispatched evs). q_id q < ln_next l \<and> (\<forall>q' \<in> set (ln_queue l). q_id q < q_id q'))"

lemma fifo_step:
  assumes "fifo_inv evs l" "lane_inv l" "step_ok l ev l'"
  shows "fifo_inv (evs @ ev) l'"
proof -
  have old: "q_id q < q_id q'" if "q \<in> set (dispatched evs)" "q' \<in> set (ln_queue l')" for q q'
    using that assms by (fastforce simp: fifo_inv_def step_ok_def)
  have new: "q_id q < q_id q'" if "q \<in> set (dispatched evs)" "q' \<in> set (dispatched ev)" for q q'
    using that assms by (fastforce simp: fifo_inv_def step_ok_def)
  have nxt: "q_id q < ln_next l'" if "q \<in> set (dispatched evs) \<union> set (dispatched ev)" for q
    using that assms by (fastforce simp: fifo_inv_def step_ok_def inv_defs)
  have "sorted_wrt (<) (map q_id (dispatched ev))"
    using assms(3) by (cases "dispatched ev") (auto simp: step_ok_def)
  then show ?thesis
    using assms(1,3) old new nxt by (auto simp: fifo_inv_def sorted_wrt_append step_ok_def)
qed

lemma lane_reach_inv: "lane_reach l evs \<Longrightarrow> lane_inv l \<and> fifo_inv evs l"
proof (induction rule: lane_reach.induct)
  case (lane_init m l)
  then show ?case using new_lane_inv [of m l] by (simp add: fifo_inv_def)
next
  case (lane_next l evs call ev l')
  then show ?case using lane_step_good [of l call ev l'] fifo_step by (auto simp: good_step_def)
qed

fun lane_run :: "'o lane_call list \<Rightarrow> 'o lane \<Rightarrow> 'o lane_event list \<times> 'o lane" where
  "lane_run [] l = ([], l)"
| "lane_run (call # calls) l =
     (let (ev, l1) = lane_step call l; (evs, l2) = lane_run calls l1 in (ev @ evs, l2))"

text \<open>Only \<open>activate\<close> registers an owner.\<close>

lemma enqueue_owners:
  "\<not> registered l owner \<Longrightarrow> \<not> registered (snd (snd (lane_enqueue o' c g compl ans l))) owner"
  by (auto simp: lane_enqueue_def owner_is_authorized_def registered_def Let_def split_beta split: option.split)

lemma worker_loop_owners:
  "worker_loop answers l = (ev, l') \<Longrightarrow> \<not> registered l owner \<Longrightarrow> \<not> registered l' owner"
proof (induction answers l arbitrary: ev rule: worker_loop.induct)
  case (1 answers l)
  show ?case
  proof (cases "ln_queue l")
    case Nil
    then show ?thesis using "1.prems" by (auto simp: worker_loop.simps registered_def)
  next
    case (Cons item rest)
    obtain ok ev1 l1 where auth: "owner_is_authorized True (answers (length rest)) (q_owner item) (l\<lparr>ln_queue := rest\<rparr>) = (ok, ev1, l1)"
      by (metis prod_cases3)
    have l1: "\<not> registered l1 owner"
      using auth by (cases rule: authorized_cases) (use "1.prems"(2) in \<open>auto simp: registered_def\<close>)
    show ?thesis
    proof (cases "\<not> ok \<or> q_cancelled item")
      case True
      then obtain ev2 where "worker_loop answers (cancel_completion item l1) = (ev2, l')"
        using "1.prems"(1) Cons by (auto simp: worker_loop.simps [of answers l] auth split: prod.splits)
      from "1.IH" [OF Cons auth [symmetric] refl refl True this] l1 show ?thesis by (simp add: registered_def)
    next
      case False
      then show ?thesis using "1.prems"(1) Cons l1
        by (auto simp: worker_loop.simps [of answers l] auth registered_def)
    qed
  qed
qed

lemma lane_step_owners:
  assumes "\<not> registered l owner" "\<And>reg. call \<noteq> Activate owner reg" "lane_step call l = (ev, l')"
  shows "\<not> registered l' owner"
proof (cases call)
  case (Activate o' reg)
  then have "o' \<noteq> owner" using assms(2) by blast
  with Activate assms show ?thesis
    by (auto simp: lane_activate_def lane_start_def registered_def update_conv rbind_def split: sum.splits if_splits)
next
  case (Submit o' c ans)
  with assms enqueue_owners [of l owner o' c None None ans] show ?thesis
    by (auto simp: lane_submit_def)
next
  case (SubmitAndWait o' c g ans)
  with assms enqueue_owners [of "l\<lparr>ln_futures := ln_futures l @ [FuturePending]\<rparr>" owner o' c "Some g" "Some (length (ln_futures l))" ans]
  show ?thesis by (auto simp: lane_submit_and_wait_def Let_def split_beta registered_def split: if_splits)
next
  case (WorkerWake answers)
  with assms worker_loop_owners [of answers l ev l' owner] show ?thesis
    by (auto simp: worker_wake_def registered_def split: if_splits)
next
  case (WorkerFinish res answers)
  then have run: "worker_finish res answers l = (ev, l')" using assms(3) by simp
  have same: "\<not> registered l1 owner" if "ln_owners l1 = ln_owners l" for l1
    using assms(1) that by (simp add: registered_def)
  show ?thesis
  proof (cases "ln_worker l = Dispatching \<and> ln_current l \<noteq> None")
    case False
    then show ?thesis using run assms(1) by (auto simp: worker_finish_def split: worker.splits option.splits)
  next
    case True
    then obtain item where item: "ln_worker l = Dispatching" "ln_current l = Some item" by auto
    show ?thesis
      using run item
    proof (cases rule: worker_finish_cases)
      case (loop st)
      show ?thesis by (rule worker_loop_owners [OF loop(2)]) (simp add: same)
    next
      case (revoked n ev0 ev1)
      show ?thesis by (rule worker_loop_owners [OF revoked(3)]) (use assms(1) in \<open>simp add: registered_def\<close>)
    next
      case dead
      show ?thesis unfolding dead by (simp add: same)
    qed
  qed
qed (use assms in \<open>auto simp: cancel_owner_def cancel_generation_def Let_def split_beta registered_def
    lane_close_def lane_closed_def lane_start_def split: if_splits\<close>)

text \<open>Only the worker hands anything out.\<close>

definition worker_call :: "'o lane_call \<Rightarrow> bool" where
  "worker_call call = (case call of WorkerWake answers \<Rightarrow> True | WorkerFinish res answers \<Rightarrow> True | _ \<Rightarrow> False)"

lemma idle_silent:
  assumes "lane_inv l" "lane_step call l = (ev, l')" "\<not> worker_call call" shows "dispatched ev = []"
proof (cases call)
  case (Submit owner c ans)
  have "base_with (set_option None) l" "current_ok l" using assms(1) by (simp_all add: lane_inv_def)
  from enqueue_good [OF this] Submit assms(2) show ?thesis
    by (metis lane_step.simps(2) lane_submit_def prod.collapse snd_conv)
next
  case (SubmitAndWait owner c g ans)
  let ?l = "l\<lparr>ln_futures := ln_futures l @ [FuturePending]\<rparr>"
  have "base_with (set_option (Some (length (ln_futures l)))) ?l" "current_ok ?l"
    using assms(1) by (auto simp: inv_defs base_with_def pending_new)
  from enqueue_good [OF this, of owner c "Some g" ans] SubmitAndWait assms(2) show ?thesis
    by (auto simp: lane_submit_and_wait_def Let_def split: prod.splits if_splits)
qed (use assms(2,3) in \<open>auto simp: worker_call_def split: sum.splits if_splits\<close>)

subsection \<open>Draining\<close>

text \<open>Every item's owner passes its check.\<close>

definition all_grant :: "nat \<Rightarrow> bool option" where
  "all_grant = (\<lambda>_. Some True)"

lemma loop_dispatches:
  assumes "ln_queue l = q # qs" "registered l (q_owner q)" "\<not> q_cancelled q"
  shows "worker_loop all_grant l =
    ([Dispatched q], l\<lparr>ln_queue := qs, ln_current := Some q, ln_worker := Dispatching\<rparr>)"
  using assms by (auto simp: worker_loop.simps owner_is_authorized_def all_grant_def registered_def)

lemma loop_stops:
  "ln_queue l = [] \<Longrightarrow> worker_loop answers l = ([], l\<lparr>ln_wake := False, ln_worker := WaitingWake\<rparr>)"
  by (simp add: worker_loop.simps)

lemma drain_current:
  assumes "lane_inv l" "ln_current l = Some item"
  shows "\<exists>l'. lane_run (replicate (Suc (length (ln_queue l))) (WorkerFinish DispatchReturned all_grant)) l
      = (map Dispatched (ln_queue l), l') \<and> ln_queue l' = [] \<and> ln_current l' = None \<and> ln_worker l' = WaitingWake"
  using assms
proof (induction "ln_queue l" arbitrary: l item)
  case Nil
  then have "ln_worker l = Dispatching" by (auto simp: inv_defs)
  with Nil show ?case by (simp add: worker_finish_def loop_stops)
next
  case (Cons q qs)
  let ?l1 = "(settle FutureDone item (l\<lparr>ln_cancel := False\<rparr>))\<lparr>ln_queue := qs, ln_current := Some q, ln_worker := Dispatching\<rparr>"
  have disp: "ln_worker l = Dispatching" using Cons.prems by (auto simp: inv_defs)
  have q: "registered l (q_owner q)" "\<not> q_cancelled q"
    using Cons.prems(1) Cons.hyps(2) by (simp_all add: inv_defs) (metis list.set_intros(1))+
  have "worker_loop all_grant ((settle FutureDone item (l\<lparr>ln_cancel := False\<rparr>))\<lparr>ln_current := None\<rparr>) = ([Dispatched q], ?l1)"
    using loop_dispatches [of "(settle FutureDone item (l\<lparr>ln_cancel := False\<rparr>))\<lparr>ln_current := None\<rparr>" q qs] q Cons.hyps(2)
    by (simp add: registered_def)
  then have step: "worker_finish DispatchReturned all_grant l = ([Dispatched q], ?l1)"
    using disp Cons.prems(2) by (simp add: worker_finish_def)
  have "lane_inv ?l1" using worker_finish_good [OF Cons.prems(1) step] by (simp add: good_step_def)
  with Cons.hyps(1) [of ?l1 q] Cons.hyps(2) show ?case
    by (auto simp: step Cons.hyps(2) [symmetric] split: prod.splits)
qed

subsection \<open>Properties\<close>

text \<open>C20: In every reachable state of the lane, commands have gone out in the order they were queued and
  each at most once, everything waiting is newer than everything sent, the queue is within its bound and
  belongs to registered owners, and a lane with waiting work has its wake event set.\<close>

theorem lane_fifo_bounded:
  assumes "lane_reach l evs"
  shows "sorted_wrt (<) (map q_id (dispatched evs))
    \<and> (\<forall>q \<in> set (dispatched evs). \<forall>q' \<in> set (ln_queue l). q_id q < q_id q')
    \<and> length (ln_queue l) \<le> ln_max l \<and> (\<forall>q \<in> set (ln_queue l). registered l (q_owner q))
    \<and> (ln_queue l \<noteq> [] \<longrightarrow> ln_wake l)"
  using lane_reach_inv [OF assms] by (simp add: fifo_inv_def inv_defs)

text \<open>C19: A worker step hands at most one command to the Samsung side, one that was waiting and is not
  cancelled, whose owner is still registered and, where it has a check, was granted by it in this very
  step; no other operation hands out anything.\<close>

theorem lane_dispatch_authorized:
  assumes "lane_reach l evs" and "lane_step call l = (ev, l')" and "q \<in> set (dispatched ev)"
  shows "dispatched ev = [q] \<and> q_id q \<in> q_id ` set (ln_queue l) \<and> \<not> q_cancelled q
    \<and> (\<exists>reg answers. map_of (ln_owners l') (q_owner q) = Some reg
         \<and> (call = WorkerWake answers \<or> (\<exists>res. call = WorkerFinish res answers))
         \<and> (rg_authorize reg \<longrightarrow> (\<exists>n. answers n = Some True)))"
proof -
  have inv: "lane_inv l" using lane_reach_inv [OF assms(1)] by simp
  have step: "step_ok l ev l'" using lane_step_good [OF inv assms(2)] by (simp add: good_step_def)
  then obtain reg where reg: "map_of (ln_owners l') (q_owner q) = Some reg"
    using assms(3) by (auto simp: step_ok_def registered_def)
  have "worker_call call" using idle_silent [OF inv assms(2)] assms(3) by (cases "worker_call call") simp_all
  then obtain answers where call: "call = WorkerWake answers \<or> (\<exists>res. call = WorkerFinish res answers)"
    by (auto simp: worker_call_def split: lane_call.splits)
  then have "answered answers ev l'"
    using worker_wake_good [OF inv] worker_finish_good [OF inv] assms(2) by auto
  with reg call assms(3) step show ?thesis
    by (cases "dispatched ev") (auto simp: step_ok_def answered_def)
qed

lemma unregistered_silent:
  assumes "lane_inv l1" "\<not> registered l1 owner" "\<forall>reg. Activate owner reg \<notin> set calls"
    and "lane_run calls l1 = (ev, l')"
  shows "\<forall>q \<in> set (dispatched ev). q_owner q \<noteq> owner"
  using assms
proof (induction calls arbitrary: l1 ev)
  case Nil
  then show ?case by simp
next
  case (Cons call calls)
  obtain ev1 l2 where first: "lane_step call l1 = (ev1, l2)" by fastforce
  obtain ev2 where rest: "lane_run calls l2 = (ev2, l')" "ev = ev1 @ ev2"
    using Cons.prems(4) by (auto simp: first split: prod.splits)
  have good: "lane_inv l2" "step_ok l1 ev1 l2"
    using lane_step_good [OF Cons.prems(1) first] by (simp_all add: good_step_def)
  have "call \<noteq> Activate owner reg" for reg using Cons.prems(3) by auto
  from lane_step_owners [OF Cons.prems(2) this first] have no: "\<not> registered l2 owner" .
  have "\<forall>q \<in> set (dispatched ev1). q_owner q \<noteq> owner"
    using good(2) no by (auto simp: step_ok_def)
  moreover have "\<forall>q \<in> set (dispatched ev2). q_owner q \<noteq> owner"
    using Cons.IH [OF good(1) no _ rest(1)] Cons.prems(3) by simp
  ultimately show ?case by (auto simp: rest(2))
qed

text \<open>Once an owner is cancelled, no command of it is ever dispatched again unless it is activated
  anew, whatever else the lane is asked to do in between.\<close>

theorem cancelled_owner_silent:
  assumes "lane_reach l evs" and "\<forall>reg. Activate owner reg \<notin> set calls"
    and "lane_run calls (cancel_owner owner l) = (ev, l')"
  shows "\<forall>q \<in> set (dispatched ev). q_owner q \<noteq> owner"
  by (rule unregistered_silent [OF _ _ assms(2,3)])
    (use lane_reach_inv [OF assms(1)] in \<open>simp_all add: cancel_owner_def registered_def deactivate_inv\<close>)

text \<open>C21: A lane whose worker waits with its wake event set and its authorisation checks granting sends
  out everything queued, in order, and comes to rest: one wake-up and as many completed dispatches as
  there are items do it.\<close>

theorem lane_drains:
  assumes "lane_reach l evs" and "ln_worker l = WaitingWake" and "\<not> ln_cancel l" and "ln_queue l \<noteq> []"
  shows "\<exists>l'. lane_run (WorkerWake all_grant
        # replicate (length (ln_queue l)) (WorkerFinish DispatchReturned all_grant)) l
      = (map Dispatched (ln_queue l), l')
    \<and> ln_queue l' = [] \<and> ln_current l' = None \<and> ln_worker l' = WaitingWake"
proof -
  have inv: "lane_inv l" using lane_reach_inv [OF assms(1)] by simp
  obtain q qs where q: "ln_queue l = q # qs" using assms(4) by (cases "ln_queue l") auto
  let ?l1 = "l\<lparr>ln_queue := qs, ln_current := Some q, ln_worker := Dispatching\<rparr>"
  have "ln_wake l" "registered l (q_owner q)" "\<not> q_cancelled q" using inv q by (auto simp: inv_defs)
  then have wake: "worker_wake all_grant l = ([Dispatched q], ?l1)"
    using assms(2,3) loop_dispatches [OF q] by (simp add: worker_wake_def)
  have "lane_inv ?l1" using worker_wake_good [OF inv wake] by (simp add: good_step_def)
  from drain_current [OF this, of q] show ?thesis
    by (auto simp: wake q simp del: replicate_Suc)
qed

text \<open>Every future handed out by \<open>submit_and_wait\<close> that is not settled yet belongs to an item that
  is still queued or executing, so nobody waits for work that was dropped; a closed lane has no
  registered owner, no queued item and no unsettled future.\<close>

theorem lane_completions_settled:
  assumes "lane_reach l evs"
  shows "pending l \<subseteq> awaited l
    \<and> (ln_stopping l \<longrightarrow> ln_owners l = [] \<and> ln_queue l = [] \<and> pending l = {})"
  using lane_reach_inv [OF assms] by (simp add: lane_inv_def base_inv_def)

subsection \<open>Witnesses\<close>

lemma lane_run_reach:
  "lane_reach l evs \<Longrightarrow> lane_run calls l = (ev, l') \<Longrightarrow> lane_reach l' (evs @ ev)"
proof (induction calls arbitrary: l evs ev)
  case (Cons call calls)
  obtain ev1 l1 where step: "lane_step call l = (ev1, l1)" by fastforce
  then obtain ev2 where "lane_run calls l1 = (ev2, l')" "ev = ev1 @ ev2"
    using Cons.prems(2) by (auto split: prod.splits)
  with Cons.IH [OF lane_next [OF Cons.prems(1) step]] show ?case by simp
qed simp

definition sample_command :: "action \<Rightarrow> command" where
  "sample_command a = key_command a (Some ''KEY_UP'') (FromButton 1)"

definition sample_lane :: "nat lane" where
  "sample_lane =
     (case new_lane 2 of Inl _ \<Rightarrow> undefined | Inr l \<Rightarrow> snd (lane_run
        [Activate 1 \<lparr>rg_authorize = True, rg_on_unauthorized = True\<rparr>,
         Activate 2 \<lparr>rg_authorize = False, rg_on_unauthorized = False\<rparr>,
         Submit 1 (sample_command SendKey) (Some True), SubmitAndWait 2 (sample_command SendKey) 0 None,
         Submit 2 (sample_command SendKey) None] l))"

lemma sample_lane_reach: "lane_reach sample_lane []"
proof -
  obtain l :: "nat lane" where l: "new_lane 2 = Inr l" by (auto simp: new_lane_def)
  let ?calls = "[Activate 1 \<lparr>rg_authorize = True, rg_on_unauthorized = True\<rparr>,
         Activate 2 \<lparr>rg_authorize = False, rg_on_unauthorized = False\<rparr>,
         Submit 1 (sample_command SendKey) (Some True), SubmitAndWait 2 (sample_command SendKey) 0 None,
         Submit 2 (sample_command SendKey) None] :: nat lane_call list"
  have "fst (lane_run ?calls (projr (new_lane 2))) = []" by code_simp
  then have "lane_run ?calls l = ([], sample_lane)"
    using l by (simp only: sample_lane_def sum.case sum.sel) (metis prod.collapse)
  from lane_run_reach [OF lane_init [OF l] this] show ?thesis by simp
qed

theorem lane_fifo_bounded_witness: "length (ln_queue sample_lane) \<le> ln_max sample_lane \<and> ln_wake sample_lane"
proof -
  have "ln_queue sample_lane \<noteq> []" by code_simp
  then show ?thesis using lane_fifo_bounded [OF sample_lane_reach] by simp
qed

theorem lane_dispatch_authorized_witness:
  "let (ev, l) = lane_step (WorkerWake all_grant) sample_lane
   in length (dispatched ev) = 1 \<and> map_of (ln_owners l) (q_owner (hd (dispatched ev))) \<noteq> None"
proof -
  obtain ev l where step: "lane_step (WorkerWake all_grant) sample_lane = (ev, l)" by fastforce
  have "length (dispatched (fst (lane_step (WorkerWake all_grant) sample_lane))) = 1" by code_simp
  then obtain q where q: "dispatched ev = [q]" using step by (auto simp: length_Suc_conv)
  then have "q \<in> set (dispatched ev)" by simp
  from lane_dispatch_authorized [OF sample_lane_reach step this]
  have "map_of (ln_owners l) (q_owner q) \<noteq> None" by auto
  then show ?thesis unfolding step Let_def prod.case q by simp
qed

theorem cancelled_owner_silent_witness:
  "list_all (\<lambda>q. q_owner q \<noteq> 1) (dispatched (fst (lane_run
     [Submit 1 (sample_command SendKey) (Some True), WorkerWake all_grant] (cancel_owner 1 sample_lane))))"
proof -
  obtain ev l where run: "lane_run [Submit 1 (sample_command SendKey) (Some True), WorkerWake all_grant]
     (cancel_owner 1 sample_lane) = (ev, l)" by fastforce
  have "\<forall>reg. Activate 1 reg \<notin> set [Submit 1 (sample_command SendKey) (Some True), WorkerWake all_grant]" by simp
  from cancelled_owner_silent [OF sample_lane_reach this run] show ?thesis unfolding run fst_conv list_all_iff .
qed

theorem lane_drains_witness:
  "fst (lane_run (WorkerWake all_grant # replicate 2 (WorkerFinish DispatchReturned all_grant)) sample_lane)
     = map Dispatched (ln_queue sample_lane)"
proof -
  have "ln_worker sample_lane = WaitingWake" "\<not> ln_cancel sample_lane" "ln_queue sample_lane \<noteq> []"
    "length (ln_queue sample_lane) = 2"
    by code_simp+
  then show ?thesis using lane_drains [OF sample_lane_reach] by (metis fst_conv)
qed

theorem lane_completions_settled_witness: "pending sample_lane \<subseteq> awaited sample_lane \<and> pending sample_lane \<noteq> {}"
proof -
  have "length (ln_futures sample_lane) = 1 \<and> ln_futures sample_lane ! 0 = FuturePending" by code_simp
  then have "0 \<in> pending sample_lane" by (simp add: pending_def)
  then show ?thesis using lane_completions_settled [OF sample_lane_reach] by blast
qed

end
