(* ===== verification/Session.thy ===== *)
theory Session
  imports Connection Messages Dispatch Repeater
begin

text \<open>
  \<^verbatim>\<open>companion/server.py\<close> over the message handlers of
  \<^verbatim>\<open>companion/protocol/appletv.py\<close>: what one connection of
  \<open>BridgeCompanionService\<close> does with a decoded message. The state is the session, the device
  that all connections share, the relay, the hold repeater and the dispatch lane of the theories on
  them, wired as in the source. A command's submission asks for authorization when its owner is
  registered; a refusal closes the connection. Parameters: the plist library, \<open>str\<close> of a
  plist value that is no string, and the rounding of a rational to a double.
\<close>

subsection \<open>State\<close>

datatype focus = Unfocused | Focused

record session =
  ss_closed :: bool
  ss_sid :: opack
  ss_service_type :: "opack option"
  ss_system_info :: "opack option"
  ss_protocol :: "opack option"
  ss_latest :: "string option"
  ss_interests :: "pykey list"
  ss_rti_registered :: bool
  ss_focus :: focus
  ss_text :: "string option"
  ss_uuid :: "bytes option"
  ss_touch :: "(int \<times> int \<times> int \<times> int) option"
  ss_width :: opack
  ss_height :: opack
  ss_connected_at :: "rat option"
  ss_first_logged :: bool
  ss_pressed :: "int list"

definition INITIAL_RTI_TEXT :: string where "INITIAL_RTI_TEXT = ''Fake Companion Keyboard Text''"

definition new_session :: session where
  "new_session = \<lparr>ss_closed = False, ss_sid = OInt 0 None, ss_service_type = None, ss_system_info = None, ss_protocol = None,
     ss_latest = None, ss_interests = [], ss_rti_registered = False, ss_focus = Focused, ss_text = Some INITIAL_RTI_TEXT,
     ss_uuid = None, ss_touch = None, ss_width = OInt 0 None, ss_height = OInt 0 None, ss_connected_at = None,
     ss_first_logged = False, ss_pressed = []\<rparr>"

definition detach_session :: "session \<Rightarrow> session" where
  "detach_session x = x\<lparr>ss_closed := True, ss_sid := OInt 0 None, ss_service_type := None, ss_system_info := None, ss_protocol := None,
     ss_latest := None, ss_rti_registered := False, ss_uuid := None, ss_text := None, ss_focus := Unfocused, ss_interests := [],
     ss_pressed := [], ss_touch := None, ss_width := OInt 0 None, ss_height := OInt 0 None, ss_connected_at := None\<rparr>"

definition attach_session :: "session \<Rightarrow> session" where
  "attach_session x = (if ss_closed x then new_session else x\<lparr>ss_closed := False\<rparr>)"

record device =
  dv_clients :: "nat list"
  dv_status :: int
  dv_status_supported :: bool
  dv_active_app :: "opack option"
  dv_open_url :: "opack option"
  dv_installed :: opack
  dv_account :: "opack option"
  dv_accounts :: opack
  dv_powered :: bool
  dv_media_flags :: int
  dv_volume :: rat
  dv_duration :: pynum

definition VOLUME_FLAG :: int where "VOLUME_FLAG = 256"

definition new_device :: device where
  "new_device = \<lparr>dv_clients = [], dv_status = 3, dv_status_supported = True, dv_active_app = None, dv_open_url = None,
     dv_installed = ODict [], dv_account = None, dv_accounts = ODict [], dv_powered = True, dv_media_flags = VOLUME_FLAG,
     dv_volume = 10, dv_duration = Fin 10\<rparr>"

definition register_client :: "nat \<Rightarrow> device \<Rightarrow> device" where
  "register_client i d = (if i \<in> set (dv_clients d) then d else d\<lparr>dv_clients := dv_clients d @ [i]\<rparr>)"

definition unregister_client :: "nat \<Rightarrow> device \<Rightarrow> device" where
  "unregister_client i d = d\<lparr>dv_clients := remove1 i (dv_clients d)\<rparr>"

record bridge =
  ba_id :: nat
  ba_session :: session
  ba_device :: device
  ba_relay :: relay
  ba_repeater :: repeater
  ba_lane :: "nat lane option"
  ba_owner :: "nat option"
  ba_fresh :: nat
  ba_repeat_owners :: "(nat \<times> nat) list"
  ba_draining :: "nat list"
  ba_closing :: bool
  ba_now :: rat

type_synonym ('srp, 'h, 'b) br = "('srp, 'h, bridge, 'b) sv"

definition app_get :: "(bridge \<Rightarrow> ('srp, 'h, 'b) br) \<Rightarrow> ('srp, 'h, 'b) br" where
  "app_get f = st_get (\<lambda>s. f (sv_app s))"

definition app_set :: "(bridge \<Rightarrow> bridge) \<Rightarrow> ('srp, 'h, unit) br" where
  "app_set f = st_modify (\<lambda>s. s\<lparr>sv_app := f (sv_app s)\<rparr>)"

definition session_set :: "(session \<Rightarrow> session) \<Rightarrow> ('srp, 'h, unit) br" where
  "session_set f = app_set (\<lambda>a. a\<lparr>ba_session := f (ba_session a)\<rparr>)"

definition device_set :: "(device \<Rightarrow> device) \<Rightarrow> ('srp, 'h, unit) br" where
  "device_set f = app_set (\<lambda>a. a\<lparr>ba_device := f (ba_device a)\<rparr>)"

subsection \<open>Owners and repeaters\<close>

text \<open>The callback of a stopped generation.\<close>

definition cancel_repeat_generation :: "nat \<Rightarrow> bridge \<Rightarrow> bridge" where
  "cancel_repeat_generation g a =
     (let a1 = a\<lparr>ba_repeat_owners := AList.delete g (ba_repeat_owners a)\<rparr>
      in case (ba_lane a, map_of (ba_repeat_owners a) g) of
           (Some l, Some owner) \<Rightarrow> a1\<lparr>ba_lane := Some (cancel_generation False owner g l)\<rparr>
         | _ \<Rightarrow> a1)"

fun notify_stops :: "repeat_event list \<Rightarrow> bridge \<Rightarrow> bridge" where
  "notify_stops [] a = a"
| "notify_stops (NotifyStop g # ev) a = notify_stops ev (cancel_repeat_generation g a)"
| "notify_stops (SendClick k g t # ev) a = notify_stops ev a"

definition invalidate_repeaters :: "bridge \<Rightarrow> bridge" where
  "invalidate_repeaters a =
     (case stop_all_now (ba_repeater a) of (tasks, ev, r) \<Rightarrow>
        (notify_stops ev (a\<lparr>ba_repeater := r\<rparr>))\<lparr>ba_draining := ba_draining a @ tasks\<rparr>)"

definition end_dispatch_session :: "bridge \<Rightarrow> bridge" where
  "end_dispatch_session a =
     (case (ba_lane a, ba_owner a) of
        (Some l, Some owner) \<Rightarrow> a\<lparr>ba_owner := None, ba_lane := Some (cancel_owner owner l)\<rparr>
      | _ \<Rightarrow> a\<lparr>ba_owner := None\<rparr>)"

definition release_owner :: "bridge \<Rightarrow> bridge" where
  "release_owner a = end_dispatch_session (invalidate_repeaters a)"

definition begin_dispatch_session :: "('srp, 'h, unit) br" where
  "begin_dispatch_session =
     st_then (app_set release_owner)
       (app_get (\<lambda>a. case ba_lane a of
          None \<Rightarrow> st_return ()
        | Some l \<Rightarrow>
            st_then (app_set (\<lambda>a. a\<lparr>ba_owner := Some (ba_fresh a), ba_fresh := Suc (ba_fresh a)\<rparr>))
              (st_bind (st_lift (lane_activate (ba_fresh a) \<lparr>rg_authorize = True, rg_on_unauthorized = True\<rparr> l)) (\<lambda>l1.
                 app_set (\<lambda>a. a\<lparr>ba_lane := Some l1\<rparr>)))))"

subsection \<open>Submitting\<close>

text \<open>A lane operation that may ask for authorization, and closes the connection on a refusal.\<close>

definition with_lane :: "('srp, 'h, bridge) env \<Rightarrow> nat \<Rightarrow> (bool option \<Rightarrow> nat lane \<Rightarrow> 'r \<times> nat lane_event list \<times> nat lane)
    \<Rightarrow> nat lane \<Rightarrow> ('srp, 'h, 'r) br" where
  "with_lane E owner f l =
     st_bind (if ln_stopping l \<or> map_of (ln_owners l) owner = None then st_return None
              else st_bind (check_authorized E) (\<lambda>ok. st_return (Some ok)))
       (\<lambda>ans. case f ans l of (r, ev, l1) \<Rightarrow>
          st_then (app_set (\<lambda>a. a\<lparr>ba_lane := Some l1\<rparr>))
            (st_then (if ev = [] then st_return () else close_connection E) (st_return r)))"

definition submit_dispatch :: "('srp, 'h, bridge) env \<Rightarrow> command \<Rightarrow> ('srp, 'h, bool) br" where
  "submit_dispatch E c = app_get (\<lambda>a.
     case (ba_lane a, ba_owner a) of
       (Some l, Some owner) \<Rightarrow> with_lane E owner (lane_submit owner c) l
     | _ \<Rightarrow> st_return False)"

definition submit_dispatch_and_wait :: "('srp, 'h, bridge) env \<Rightarrow> command \<Rightarrow> nat \<Rightarrow> nat \<Rightarrow> ('srp, 'h, nat option) br" where
  "submit_dispatch_and_wait E c g owner = app_get (\<lambda>a.
     case ba_lane a of
       None \<Rightarrow> st_return None
     | Some l \<Rightarrow> with_lane E owner (lane_submit_and_wait owner c g) l)"

text \<open>One click of the repeater: the future it waits for.\<close>

definition send_repeat_key :: "('srp, 'h, bridge) env \<Rightarrow> string \<Rightarrow> nat \<Rightarrow> ('srp, 'h, nat) br" where
  "send_repeat_key E key g =
     st_bind (check_authorized E) (\<lambda>ok.
       if \<not> ok then st_then (close_connection E) (st_raise RuntimeError)
       else app_get (\<lambda>a. case map_of (ba_repeat_owners a) g of
          None \<Rightarrow> st_raise RuntimeError
        | Some owner \<Rightarrow>
            st_bind (submit_dispatch_and_wait E ((key_command SendKey (Some key) (FromOther ''repeat''))\<lparr>cm_fast := True\<rparr>) g owner)
              (st_need RuntimeError)))"

text \<open>The sink of the relay.\<close>

definition dispatch_sink :: "('srp, 'h, bridge) env \<Rightarrow> command \<Rightarrow> ('srp, 'h, unit) br" where
  "dispatch_sink E c =
     (case cm_repeat c of
        Some RepeatStart \<Rightarrow>
          (case cm_key c of
             None \<Rightarrow> st_return ()
           | Some key \<Rightarrow> app_get (\<lambda>a.
               st_bind (submit_dispatch E ((key_command (cm_action c) (Some key) (cm_source c))\<lparr>cm_fast := True\<rparr>)) (\<lambda>ok.
                 if \<not> ok then st_return ()
                 else app_set (\<lambda>a1. case repeater_start key (ba_repeater a1) of (g, ev, r) \<Rightarrow>
                   let a2 = notify_stops ev (a1\<lparr>ba_repeater := r\<rparr>)
                   in case ba_owner a of
                        None \<Rightarrow> a2
                      | Some owner \<Rightarrow>
                          (if map_of (ba_repeat_owners a2) g = None
                           then a2\<lparr>ba_repeat_owners := AList.update g owner (ba_repeat_owners a2)\<rparr> else a2)))))
      | Some RepeatStop \<Rightarrow>
          (case cm_key c of
             None \<Rightarrow> st_return ()
           | Some key \<Rightarrow> app_set (\<lambda>a. case repeater_stop key (ba_repeater a) of (g, ev, r) \<Rightarrow>
               notify_stops ev (a\<lparr>ba_repeater := r\<rparr>)))
      | None \<Rightarrow>
          st_then (session_set (\<lambda>x. x\<lparr>ss_first_logged := True\<rparr>))
            (st_bind (submit_dispatch E c) (\<lambda>_. st_return ())))"

text \<open>A step of the relay, its commands handed to the sink in order.\<close>

definition relay_do :: "('srp, 'h, bridge) env \<Rightarrow> (rat \<Rightarrow> relay \<Rightarrow> command list \<times> relay) \<Rightarrow> ('srp, 'h, unit) br" where
  "relay_do E f = app_get (\<lambda>a. case f (ba_now a) (ba_relay a) of (out, r) \<Rightarrow>
     st_then (app_set (\<lambda>a. a\<lparr>ba_relay := r\<rparr>)) (st_for (dispatch_sink E) out))"


subsection \<open>Replies\<close>

definition text_value :: "string \<Rightarrow> opack" where "text_value s = OStr s"
definition int_value :: "int \<Rightarrow> opack" where "int_value n = OInt n None"

definition send_response :: "('srp, 'h, bridge) env \<Rightarrow> opack \<Rightarrow> opack \<Rightarrow> ('srp, 'h, unit) br" where
  "send_response E request content =
     st_bind (st_lift (item request ''_i'')) (\<lambda>i. st_bind (st_lift (item request ''_x'')) (\<lambda>x.
       send_to_client E E_OPACK (ODict [(text_value ''_i'', i), (text_value ''_x'', x), (text_value ''_t'', int_value 3),
         (text_value ''_c'', content)])))"

definition send_event :: "('srp, 'h, bridge) env \<Rightarrow> opack \<Rightarrow> opack \<Rightarrow> opack \<Rightarrow> ('srp, 'h, unit) br" where
  "send_event E ident xid content =
     send_to_client E E_OPACK (ODict [(text_value ''_i'', ident), (text_value ''_x'', xid), (text_value ''_t'', int_value 1),
       (text_value ''_c'', content)])"

definition send_error :: "('srp, 'h, bridge) env \<Rightarrow> opack \<Rightarrow> string \<Rightarrow> int \<Rightarrow> ('srp, 'h, unit) br" where
  "send_error E request text code =
     st_bind (st_lift (item request ''_i'')) (\<lambda>i. st_bind (st_lift (item request ''_x'')) (\<lambda>x.
       send_to_client E E_OPACK (ODict [(text_value ''_i'', i), (text_value ''_x'', x), (text_value ''_t'', int_value 3),
         (text_value ''_ec'', int_value code), (text_value ''_ed'', text_value ''RPErrorDomain''), (text_value ''_em'', text_value text)])))"

definition send_handler_not_supported :: "('srp, 'h, bridge) env \<Rightarrow> opack \<Rightarrow> ('srp, 'h, unit) br" where
  "send_handler_not_supported E request = send_error E request ''No request handler'' 58822"

definition empty_dict :: opack where "empty_dict = ODict []"

definition acknowledge :: "('srp, 'h, bridge) env \<Rightarrow> opack \<Rightarrow> ('srp, 'h, unit) br" where
  "acknowledge E message = send_response E message empty_dict"

definition modern_flags :: opack where "modern_flags = ODict [(text_value ''MediaControlFlags'', int_value VOLUME_FLAG)]"
definition legacy_flags :: "int \<Rightarrow> opack" where "legacy_flags n = ODict [(text_value ''_mcF'', int_value n)]"

subsection \<open>Buttons and volume\<close>

definition clamp_volume :: "rat \<Rightarrow> rat" where
  "clamp_volume v = min (max v 0) 100"

definition flags_or_volume :: "int \<Rightarrow> int" where
  "flags_or_volume n = or n VOLUME_FLAG"

definition volume_changed :: "('srp, 'h, bridge) env \<Rightarrow> rat \<Rightarrow> ('srp, 'h, unit) br" where
  "volume_changed E v =
     st_then (device_set (\<lambda>d. d\<lparr>dv_volume := clamp_volume v\<rparr>))
       (app_get (\<lambda>a. send_event E (text_value ''_iMC'') (int_value 1234) (legacy_flags (flags_or_volume (dv_media_flags (ba_device a))))))"

definition VOLUME_STEP :: rat where "VOLUME_STEP = 5"

definition SIRI :: int where "SIRI = 10"
definition SLEEP :: int where "SLEEP = 12"
definition WAKE :: int where "WAKE = 13"
definition VOLUME_UP :: int where "VOLUME_UP = 8"
definition VOLUME_DOWN :: int where "VOLUME_DOWN = 9"

definition press :: "int \<Rightarrow> session \<Rightarrow> session" where
  "press code x = (if code \<in> set (ss_pressed x) then x else x\<lparr>ss_pressed := ss_pressed x @ [code]\<rparr>)"

definition unpress :: "int \<Rightarrow> session \<Rightarrow> session" where
  "unpress code x = x\<lparr>ss_pressed := filter (\<lambda>c. c \<noteq> code) (ss_pressed x)\<rparr>"

text \<open>The release of a button that has a name; \<open>False\<close> stands for the early return.\<close>

definition button_up :: "('srp, 'h, bridge) env \<Rightarrow> opack \<Rightarrow> int \<Rightarrow> string \<Rightarrow> ('srp, 'h, bool) br" where
  "button_up E message code label = app_get (\<lambda>a.
     if code \<notin> set (ss_pressed (ba_session a)) then
       st_then (send_error E message (''Missing button DOWN for HidCommand.'' @ the (map_of HID_COMMANDS code)) 1337) (st_return False)
     else st_then (session_set (\<lambda>x. (unpress code x)\<lparr>ss_latest := Some label\<rparr>))
       (st_then (if code = VOLUME_UP then volume_changed E (dv_volume (ba_device a) + VOLUME_STEP)
                 else if code = VOLUME_DOWN then volume_changed E (dv_volume (ba_device a) - VOLUME_STEP)
                 else st_return ())
         (st_return True)))"

text \<open>\<open>handle__hidc\<close> of the base service.\<close>

definition base_button :: "('srp, 'h, bridge) env \<Rightarrow> opack \<Rightarrow> ('srp, 'h, unit) br" where
  "base_button E message =
     st_bind (st_lift (item message ''_c'')) (\<lambda>content.
     st_bind (st_lift (item content ''_hBtS'')) (\<lambda>state.
     st_bind (st_lift (rbind (item content ''_hidC'') hid_command)) (\<lambda>code.
     st_bind
       (if code = SIRI then st_then (session_set (unpress code)) (st_return True)
        else if equals_int state 1 then st_then (session_set (press code)) (st_return True)
        else if equals_int state 2 \<and> code = SLEEP then st_then (device_set (\<lambda>d. d\<lparr>dv_powered := False\<rparr>)) (st_return True)
        else if equals_int state 2 \<and> code = WAKE then st_then (device_set (\<lambda>d. d\<lparr>dv_powered := True\<rparr>)) (st_return True)
        else (case map_of HID_BUTTON_MAP code of None \<Rightarrow> st_return False | Some label \<Rightarrow> button_up E message code label))
       (\<lambda>ack. if ack then acknowledge E message else st_return ()))))"

definition reject_message :: "('srp, 'h, bridge) env \<Rightarrow> ('srp, 'h, unit) br" where
  "reject_message E = st_bind (malformed_frame E) (\<lambda>_. st_return ())"

definition handle_hidc :: "('srp, 'h, bridge) env \<Rightarrow> opack \<Rightarrow> ('srp, 'h, unit) br" where
  "handle_hidc E message =
     (case rbind (item message ''_c'') (\<lambda>content. rbind (rbind (item content ''_hidC'') py_int) (\<lambda>code.
        rbind (rbind (item content ''_hBtS'') py_int) (\<lambda>state. Inr (code, state)))) of
        Inl e \<Rightarrow> reject_message E
      | Inr (code, state) \<Rightarrow>
          (if state = 0 then
             (case hid_command (int_value code) of
                Inl e \<Rightarrow> reject_message E
              | Inr button \<Rightarrow> st_then (session_set (unpress button)) (st_then (acknowledge E message)
                  (relay_do E (\<lambda>now. on_button now code state))))
           else st_then (base_button E message) (relay_do E (\<lambda>now. on_button now code state))))"

subsection \<open>Media control\<close>

definition set_volume_level :: "('srp, 'h, bridge) env \<Rightarrow> opack \<Rightarrow> ('srp, 'h, unit) br" where
  "set_volume_level E level = app_get (\<lambda>a.
     if too_large_for_float level then st_raise OverflowError
     else case volume_step (dv_volume (ba_device a)) (the (num_of level)) of (key, volume) \<Rightarrow>
       st_then (device_set (\<lambda>d. d\<lparr>dv_volume := volume\<rparr>))
         (relay_do E (\<lambda>now. emit now (key_command SendKey (Some key) (FromOther ''mcc:SetVolume'')))))"

definition volume_reply :: "(rat \<Rightarrow> 64 word) \<Rightarrow> bridge \<Rightarrow> opack" where
  "volume_reply double a = ODict [(text_value ''_vol'', OFloat (double (dv_volume (ba_device a) / 100)))]"

definition handle_mediacontrolcommand :: "(rat \<Rightarrow> 64 word) \<Rightarrow> ('srp, 'h, bridge) env \<Rightarrow> opack \<Rightarrow> ('srp, 'h, unit) br" where
  "handle_mediacontrolcommand double E message =
     st_bind (st_lift (content_of message)) (\<lambda>content.
     st_bind (st_lift (get_or content ''MediaControlCommand'' ONone)) (\<lambda>code.
       case media_command code of
         Inr MGetVolume \<Rightarrow> app_get (\<lambda>a. send_response E message (volume_reply double a))
       | Inr MSetVolume \<Rightarrow>
           st_bind (st_lift (get_or content ''_vol'' ONone)) (\<lambda>level.
             st_then (if num_of level = None then st_return () else set_volume_level E level) (acknowledge E message))
       | Inr MGetCaption \<Rightarrow> send_response E message (ODict [(text_value ''_cse'', OBool False)])
       | _ \<Rightarrow> acknowledge E message))"

definition num_add :: "pynum \<Rightarrow> pynum \<Rightarrow> pynum" where
  "num_add x y = (case (x, y) of
     (Fin a, Fin b) \<Rightarrow> Fin (a + b)
   | (Infinite n, Infinite m) \<Rightarrow> if n = m then Infinite n else NotANumber
   | (NotANumber, _) \<Rightarrow> NotANumber | (_, NotANumber) \<Rightarrow> NotANumber
   | (Infinite n, _) \<Rightarrow> Infinite n | (_, Infinite n) \<Rightarrow> Infinite n)"

text \<open>\<open>max(0, x)\<close>\<close>

definition at_least_zero :: "pynum \<Rightarrow> pynum" where
  "at_least_zero x = (if num_greater x 0 then x else Fin 0)"

text \<open>\<open>handle__mcc\<close> of the base service, for the codes the bridge hands on.\<close>

definition base_mcc :: "(rat \<Rightarrow> 64 word) \<Rightarrow> ('srp, 'h, bridge) env \<Rightarrow> opack \<Rightarrow> ('srp, 'h, unit) br" where
  "base_mcc double E message =
     st_bind (st_lift (item message ''_c'')) (\<lambda>content.
     st_bind (st_lift (rbind (item content ''_mcc'') media_command)) (\<lambda>mcc.
       if mcc = MGetVolume then app_get (\<lambda>a. send_response E message (volume_reply double a))
       else if mcc = MSkipBy then
         st_bind (st_lift (item content ''_skpS'')) (\<lambda>by1.
           case num_of by1 of
             None \<Rightarrow> st_raise TypeError
           | Some x \<Rightarrow>
               (if too_large_for_float by1 then st_raise OverflowError
                else st_then (device_set (\<lambda>d. d\<lparr>dv_duration := at_least_zero (num_add (dv_duration d) x)\<rparr>)) (acknowledge E message)))
       else (case media_label mcc of
           None \<Rightarrow> st_return ()
         | Some label \<Rightarrow> st_then (session_set (\<lambda>x. x\<lparr>ss_latest := Some label\<rparr>)) (acknowledge E message))))"

definition caught_code :: "exn \<Rightarrow> bool" where
  "caught_code e \<longleftrightarrow> e \<in> {KeyError, TypeError, ValueError, UnicodeError}"

definition handle_mcc :: "(rat \<Rightarrow> 64 word) \<Rightarrow> ('srp, 'h, bridge) env \<Rightarrow> opack \<Rightarrow> ('srp, 'h, unit) br" where
  "handle_mcc double E message =
     st_bind (st_lift (content_of message)) (\<lambda>content.
       case rbind (rbind (item content ''_mcc'') py_int) (\<lambda>n. media_command (int_value n)) of
         Inl e \<Rightarrow> if caught_code e then reject_message E else st_raise e
       | Inr MSetVolume \<Rightarrow>
           st_bind (st_lift (get_or content ''_vol'' ONone)) (\<lambda>level.
             if num_of level = None then reject_message E
             else st_then (set_volume_level E level) (acknowledge E message))
       | Inr command \<Rightarrow>
           (if command \<in> {MPlay, MPause}
            then st_then (relay_do E (\<lambda>now. emit now (key_command SendKey (Some ''KEY_PLAY_BACK'')
                   (FromOther (if command = MPlay then ''mcc:Play'' else ''mcc:Pause'')))))
                   (acknowledge E message)
            else base_mcc double E message))"


subsection \<open>Touch\<close>

text \<open>\<open>not x or x < 0 or x > 1000\<close>; comparing a true value that is no number raises.\<close>

definition bad_size :: "opack option \<Rightarrow> bool result" where
  "bad_size x =
     (case x of
        None \<Rightarrow> Inr True
      | Some v \<Rightarrow> (if \<not> truthy v then Inr True
          else case num_of v of None \<Rightarrow> Inl TypeError | Some n \<Rightarrow> Inr (num_less n 0 \<or> num_greater n 1000)))"

definition handle_touchstart :: "('srp, 'h, bridge) env \<Rightarrow> opack \<Rightarrow> ('srp, 'h, unit) br" where
  "handle_touchstart E message =
     st_bind (st_lift (content_of message)) (\<lambda>content.
     st_bind (st_lift (dict_get content ''_width'')) (\<lambda>width.
     st_bind (st_lift (dict_get content ''_height'')) (\<lambda>height.
     st_bind (st_lift (rbind (bad_size width) (\<lambda>bad. if bad then Inr True else bad_size height))) (\<lambda>bad.
       if bad then send_error E message ''Invalid touchpad width or height'' 1337
       else st_then (session_set (\<lambda>x. x\<lparr>ss_width := the width, ss_height := the height\<rparr>))
              (send_response E message (ODict [(text_value ''_i'', int_value 1)]))))))"

definition handle_touchstop :: "('srp, 'h, bridge) env \<Rightarrow> opack \<Rightarrow> ('srp, 'h, unit) br" where
  "handle_touchstop E message = st_then (app_set invalidate_repeaters) (acknowledge E message)"

definition int_or_zero :: "opack \<Rightarrow> string \<Rightarrow> int result" where
  "int_or_zero content key = rbind (get_or content key (int_value 0)) py_int"

text \<open>\<open>handle__hidt\<close> of the base service: the touch of the session.\<close>

definition base_touch :: "opack \<Rightarrow> (int \<times> int \<times> int \<times> int) result" where
  "base_touch message =
     rbind (item message ''_c'') (\<lambda>content.
     rbind (rbind (rbind (item content ''_tPh'') py_int) touch_action) (\<lambda>action.
     rbind (int_or_zero content ''_ns'') (\<lambda>ns.
     rbind (int_or_zero content ''_cx'') (\<lambda>cx.
     rbind (int_or_zero content ''_cy'') (\<lambda>cy. Inr (action, cx, cy, ns))))))"

definition relay_touch :: "opack \<Rightarrow> (int \<times> int \<times> int) result" where
  "relay_touch message =
     rbind (content_of message) (\<lambda>content.
     rbind (rbind (item content ''_tPh'') py_int) (\<lambda>phase.
     rbind (int_or_zero content ''_cx'') (\<lambda>cx.
     rbind (int_or_zero content ''_cy'') (\<lambda>cy. Inr (phase, cx, cy)))))"

definition handle_hidt :: "('srp, 'h, bridge) env \<Rightarrow> opack \<Rightarrow> ('srp, 'h, unit) br" where
  "handle_hidt E message =
     st_then (case base_touch message of Inl e \<Rightarrow> reject_message E | Inr event \<Rightarrow> session_set (\<lambda>x. x\<lparr>ss_touch := Some event\<rparr>))
       (case relay_touch message of
          Inl e \<Rightarrow> reject_message E
        | Inr (phase, cx, cy) \<Rightarrow>
            (if touch_name phase = TouchOther then st_return ()
             else st_handle (relay_do E (\<lambda>now. on_touch now (touch_name phase) cx cy)) (\<lambda>_. reject_message E) st_return))"

subsection \<open>Sessions and interests\<close>

definition handle_tvrcsessionstart :: "('srp, 'h, bridge) env \<Rightarrow> opack \<Rightarrow> ('srp, 'h, unit) br" where
  "handle_tvrcsessionstart E message =
     st_then begin_dispatch_session
     (st_bind (st_lift (rbind (item message ''_c'') (\<lambda>content. dict_get content ''ProtocolVersionKey''))) (\<lambda>version.
      st_then (session_set (\<lambda>x. x\<lparr>ss_protocol := version\<rparr>))
      (st_bind (st_lift (content_of message)) (\<lambda>content.
       st_then (send_response E message content)
       (st_bind (st_lift (item message ''_x'')) (\<lambda>x.
        st_then (send_event E (text_value ''MediaControlStatus'') x modern_flags)
          (send_event E (text_value ''_iMC'') x (legacy_flags VOLUME_FLAG))))))))"

definition handle_tvrcsessionstop :: "('srp, 'h, bridge) env \<Rightarrow> opack \<Rightarrow> ('srp, 'h, unit) br" where
  "handle_tvrcsessionstop E message = st_then (app_set release_owner) (acknowledge E message)"

definition handle_sessionstart :: "('srp, 'h, bridge) env \<Rightarrow> opack \<Rightarrow> ('srp, 'h, unit) br" where
  "handle_sessionstart E message =
     st_bind (st_lift (rbind (item message ''_c'') (\<lambda>content. item content ''_sid''))) (\<lambda>sid.
     st_then (session_set (\<lambda>x. x\<lparr>ss_sid := sid\<rparr>))
     (st_bind (st_lift (rbind (item message ''_c'') (\<lambda>content. item content ''_srvT''))) (\<lambda>service_type.
      st_then (session_set (\<lambda>x. x\<lparr>ss_service_type := Some service_type\<rparr>))
        (send_response E message (ODict [(text_value ''_sid'', int_value 5555)])))))"

text \<open>\<open>5555 << 32 | self.session.sid\<close>\<close>

definition full_sid :: "opack \<Rightarrow> int result" where
  "full_sid sid = (case sid of OInt n sz \<Rightarrow> Inr (or (push_bit 32 5555) n) | OBool b \<Rightarrow> Inr (or (push_bit 32 5555) (of_bool b))
     | _ \<Rightarrow> Inl TypeError)"

definition handle_sessionstop :: "('srp, 'h, bridge) env \<Rightarrow> opack \<Rightarrow> ('srp, 'h, unit) br" where
  "handle_sessionstop E message =
     st_bind (st_lift (rbind (item message ''_c'') (\<lambda>content. item content ''_sid''))) (\<lambda>sid.
     app_get (\<lambda>a. st_bind (st_lift (full_sid (ss_sid (ba_session a)))) (\<lambda>n.
       if equals_int sid n
       then st_then (session_set (\<lambda>x. x\<lparr>ss_sid := int_value 0\<rparr>)) (acknowledge E message)
       else send_error E message ''Invalid SID'' 1337)))"

definition handle_systeminfo :: "('srp, 'h, bridge) env \<Rightarrow> opack \<Rightarrow> ('srp, 'h, unit) br" where
  "handle_systeminfo E message =
     st_bind (st_lift (item message ''_c'')) (\<lambda>content.
       st_then (session_set (\<lambda>x. x\<lparr>ss_system_info := Some content\<rparr>)) (acknowledge E message))"

text \<open>The elements that iterating over a value yields, as keys of a set; an unhashable one raises when it is reached.\<close>

definition elements :: "opack \<Rightarrow> opack list result" where
  "elements x = (case x of
     OList xs \<Rightarrow> Inr xs
   | ODict kvs \<Rightarrow> Inr (map fst kvs)
   | OStr s \<Rightarrow> Inr (map OStr (py_chars s))
   | OBytes b \<Rightarrow> Inr (map (\<lambda>w. int_value (int (unat w))) b)
   | _ \<Rightarrow> Inl TypeError)"

definition add_interest :: "opack \<Rightarrow> ('srp, 'h, unit) br" where
  "add_interest x = st_bind (st_need TypeError (py_key x)) (\<lambda>k. session_set (\<lambda>ses. ses\<lparr>ss_interests := List.insert k (ss_interests ses)\<rparr>))"

definition drop_interest :: "opack \<Rightarrow> ('srp, 'h, unit) br" where
  "drop_interest x = st_bind (st_need TypeError (py_key x)) (\<lambda>k. session_set (\<lambda>ses. ses\<lparr>ss_interests := filter (\<lambda>j. j \<noteq> k) (ss_interests ses)\<rparr>))"

definition INITIAL_EVENT_PAYLOADS :: "(string \<times> opack) list" where
  "INITIAL_EVENT_PAYLOADS = [(''MediaControlStatus'', modern_flags), (''NowPlayingInfo'', empty_dict)]"

definition push_initial :: "('srp, 'h, bridge) env \<Rightarrow> opack \<Rightarrow> opack \<Rightarrow> ('srp, 'h, unit) br" where
  "push_initial E message event =
     st_bind (st_need TypeError (py_key event)) (\<lambda>k.
       case k of
         KStr name \<Rightarrow> (case map_of INITIAL_EVENT_PAYLOADS name of
             None \<Rightarrow> st_return ()
           | Some payload \<Rightarrow> st_bind (st_lift (item message ''_x'')) (\<lambda>x. send_event E event x payload))
       | _ \<Rightarrow> st_return ())"

definition handle_interest :: "('srp, 'h, bridge) env \<Rightarrow> opack \<Rightarrow> ('srp, 'h, unit) br" where
  "handle_interest E message =
     st_bind (st_lift (rbind (item message ''_c'') (\<lambda>content. dict_get content ''_regEvents''))) (\<lambda>reg.
     st_bind (st_lift (rbind (item message ''_c'') (\<lambda>content. dict_get content ''_deregEvents''))) (\<lambda>dereg.
     st_then
       (case (reg, dereg) of
          (Some events, _) \<Rightarrow>
            st_bind (st_lift (elements events)) (\<lambda>xs. st_then (st_for add_interest xs)
              (app_get (\<lambda>a. if KStr ''_iMC'' \<in> set (ss_interests (ba_session a))
                 then st_bind (st_lift (item message ''_x'')) (\<lambda>x.
                   send_event E (text_value ''_iMC'') x (legacy_flags (dv_media_flags (ba_device a))))
                 else st_return ())))
        | (None, Some events) \<Rightarrow> st_bind (st_lift (elements events)) (st_for drop_interest)
        | (None, None) \<Rightarrow> st_return ())
       (st_bind (st_lift (case reg of None \<Rightarrow> Inr [] | Some events \<Rightarrow> elements events)) (st_for (push_initial E message)))))"

subsection \<open>Text input\<close>

datatype plist = PString string | PInt int | PBool bool | PReal pynum | PData bytes | PDate nat | PUid nat | PNull
  | PList "plist list" | PDict "(string \<times> plist) list"

record text_library =
  tx_loads :: "opack \<Rightarrow> plist result"
  tx_focus :: "bytes option \<Rightarrow> string option \<Rightarrow> bytes"
  tx_str :: "plist \<Rightarrow> string"
  tx_double :: "rat \<Rightarrow> 64 word"

text \<open>One step of a path: a subscript, then a reference into the object table. \<open>None\<close> is a missing
  key or index, that yields \<open>None\<close> for the path.\<close>

definition plist_item :: "plist \<Rightarrow> string \<Rightarrow> plist option result" where
  "plist_item d key = (case d of PDict kvs \<Rightarrow> Inr (map_of kvs key) | _ \<Rightarrow> Inl TypeError)"

definition deref :: "plist \<Rightarrow> plist \<Rightarrow> plist option result" where
  "deref objects x =
     (case x of
        PUid n \<Rightarrow> (case objects of
            PList xs \<Rightarrow> Inr (if n < length xs then Some (xs ! n) else None)
          | PDict kvs \<Rightarrow> Inr None
          | PString t \<Rightarrow> Inr (if n < py_len t then Some (PString (py_chars t ! n)) else None)
          | PData b \<Rightarrow> Inr (if n < length b then Some (PInt (int (unat (b ! n)))) else None)
          | _ \<Rightarrow> Inl TypeError)
      | _ \<Rightarrow> Inr (Some x))"

fun follow :: "plist \<Rightarrow> string list \<Rightarrow> plist \<Rightarrow> plist option result" where
  "follow objects [] x = Inr (Some x)"
| "follow objects (key # path) x =
     rbind (plist_item x key) (\<lambda>y. case y of None \<Rightarrow> Inr None
       | Some y \<Rightarrow> rbind (deref objects y) (\<lambda>z. case z of None \<Rightarrow> Inr None | Some z \<Rightarrow> follow objects path z))"

definition plist_need :: "plist \<Rightarrow> string \<Rightarrow> plist result" where
  "plist_need d key = rbind (plist_item d key) (\<lambda>y. case y of None \<Rightarrow> Inl KeyError | Some y \<Rightarrow> Inr y)"

fun read_paths :: "plist \<Rightarrow> plist \<Rightarrow> string list list \<Rightarrow> plist option list result" where
  "read_paths data objects [] = Inr []"
| "read_paths data objects (path # paths) =
     rbind (plist_need data ''$top'') (\<lambda>top. rbind (follow objects path top) (\<lambda>x.
       rbind (read_paths data objects paths) (\<lambda>xs. Inr (x # xs))))"

definition read_archive_properties :: "plist \<Rightarrow> string list list \<Rightarrow> plist option list result" where
  "read_archive_properties data paths = rbind (plist_need data ''$objects'') (\<lambda>objects. read_paths data objects paths)"

definition RTI_PATHS :: "string list list" where
  "RTI_PATHS = [[''textOperations'', ''textToAssert''], [''textOperations'', ''keyboardOutput'', ''insertionText''],
     [''textOperations'', ''keyboardOutput'', ''deletionCount'']]"

definition RTI_MAX_TEXT :: nat where "RTI_MAX_TEXT = 1024"

definition plist_str :: "text_library \<Rightarrow> plist \<Rightarrow> string" where
  "plist_str T x = (case x of PString s \<Rightarrow> s | _ \<Rightarrow> tx_str T x)"

definition plist_int :: "plist \<Rightarrow> int result" where
  "plist_int x = (case x of PInt n \<Rightarrow> Inr n | PBool b \<Rightarrow> Inr (of_bool b) | PString s \<Rightarrow> int_of_text s
     | PData b \<Rightarrow> int_of_text (string_of b) | PUid n \<Rightarrow> Inr (int n)
     | PReal r \<Rightarrow> (case r of Fin q \<Rightarrow> Inr (truncate_rat q) | Infinite neg \<Rightarrow> Inl OverflowError | NotANumber \<Rightarrow> Inl ValueError)
     | _ \<Rightarrow> Inl TypeError)"

definition plist_true :: "plist option \<Rightarrow> bool" where
  "plist_true x = (case x of None \<Rightarrow> False | Some PNull \<Rightarrow> False | Some (PInt n) \<Rightarrow> n \<noteq> 0 | Some (PBool b) \<Rightarrow> b | Some (PString s) \<Rightarrow> s \<noteq> []
     | Some (PData b) \<Rightarrow> b \<noteq> [] | Some (PReal r) \<Rightarrow> r \<noteq> Fin 0 | Some (PList xs) \<Rightarrow> xs \<noteq> [] | Some (PDict d) \<Rightarrow> d \<noteq> [] | _ \<Rightarrow> True)"

definition present :: "plist option \<Rightarrow> plist option" where
  "present x = (if x = Some PNull then None else x)"

text \<open>The new text of the field: replaced, shortened by whole characters, extended, and cut to the cap.\<close>

definition edit_text :: "text_library \<Rightarrow> string \<Rightarrow> plist option \<Rightarrow> plist option \<Rightarrow> plist option \<Rightarrow> string result" where
  "edit_text T old asserted inserted deleted =
     (let text1 = (case present asserted of None \<Rightarrow> old | Some x \<Rightarrow> plist_str T x)
      in rbind (if plist_true deleted
                then rbind (plist_int (the deleted)) (\<lambda>n. Inr (py_prefix (py_len text1 - nat (max 0 (min n (int (py_len text1))))) text1))
                else Inr text1) (\<lambda>text2.
         let text3 = (case present inserted of None \<Rightarrow> text2 | Some x \<Rightarrow> text2 @ plist_str T x)
         in Inr (if RTI_MAX_TEXT < py_len text3 then py_prefix RTI_MAX_TEXT text3 else text3)))"

definition text_command :: "string \<Rightarrow> command" where
  "text_command text = (key_command SendText None (FromOther ''rti''))\<lparr>cm_text := Some text\<rparr>"

definition handle_tic :: "text_library \<Rightarrow> ('srp, 'h, bridge) env \<Rightarrow> opack \<Rightarrow> ('srp, 'h, unit) br" where
  "handle_tic T E message =
     st_bind (st_lift (dict_get message ''_t'')) (\<lambda>t.
       if \<not> (case t of None \<Rightarrow> False | Some v \<Rightarrow> equals_int v 1) then st_return ()
       else case rbind (item message ''_c'') (\<lambda>content. rbind (rbind (item content ''_tiD'') (tx_loads T)) (\<lambda>data.
                read_archive_properties data RTI_PATHS)) of
          Inr [asserted, inserted, deleted] \<Rightarrow>
            app_get (\<lambda>a. let old = (case ss_text (ba_session a) of None \<Rightarrow> [] | Some s \<Rightarrow> s)
              in st_bind (st_lift (edit_text T old asserted inserted deleted)) (\<lambda>text.
                 st_then (session_set (\<lambda>x. x\<lparr>ss_text := Some text\<rparr>))
                   (if text = old then st_return () else dispatch_sink E (text_command text))))
        | _ \<Rightarrow> reject_message E)"

text \<open>What a focus push carries.\<close>

definition rti_encoded_data :: "text_library \<Rightarrow> session \<Rightarrow> opack" where
  "rti_encoded_data T x =
     (if ss_focus x = Focused then ODict [(text_value ''_tiD'', OBytes (tx_focus T (ss_uuid x) (ss_text x)))] else empty_dict)"

definition set_focus :: "text_library \<Rightarrow> ('srp, 'h, bridge) env \<Rightarrow> focus \<Rightarrow> ('srp, 'h, unit) br" where
  "set_focus T E f = st_get (\<lambda>s.
     if ss_focus (ba_session (sv_app s)) = f then st_return ()
     else st_then (session_set (\<lambda>x. x\<lparr>ss_focus := f\<rparr>))
       (if \<not> ss_rti_registered (ba_session (sv_app s)) \<or> \<not> is_connection_active s then st_return ()
        else app_get (\<lambda>a. st_handle
          (send_event E (text_value (if f = Focused then ''_tiStarted'' else ''_tiStopped'')) (int_value 1234) (rti_encoded_data T (ba_session a)))
          (\<lambda>_. session_set (\<lambda>x. x\<lparr>ss_rti_registered := False\<rparr>)) st_return)))"

definition RTI_SESSION_UUID :: bytes where "RTI_SESSION_UUID = bytes_of ''0123456789abcdef''"

definition handle_tistart :: "text_library \<Rightarrow> ('srp, 'h, bridge) env \<Rightarrow> opack \<Rightarrow> ('srp, 'h, unit) br" where
  "handle_tistart T E message =
     st_bind (st_lift (dict_get message ''_t'')) (\<lambda>t.
       if \<not> (case t of None \<Rightarrow> False | Some v \<Rightarrow> equals_int v 2) then st_return ()
       else st_then (session_set (\<lambda>x. x\<lparr>ss_uuid := Some RTI_SESSION_UUID, ss_text := Some []\<rparr>))
         (st_then (set_focus T E Unfocused)
         (st_then (session_set (\<lambda>x. x\<lparr>ss_rti_registered := True\<rparr>)) (acknowledge E message))))"

text \<open>\<open>handle__tistop\<close>, that the bridge inherits.\<close>

definition handle_tistop :: "('srp, 'h, bridge) env \<Rightarrow> opack \<Rightarrow> ('srp, 'h, unit) br" where
  "handle_tistop E message =
     st_bind (st_lift (item message ''_t'')) (\<lambda>t.
       if \<not> equals_int t 2 then st_return ()
       else app_get (\<lambda>a. if ss_uuid (ba_session a) = None then st_return ()
         else st_then (session_set (\<lambda>x. x\<lparr>ss_uuid := None\<rparr>)) (st_then (acknowledge E message)
           (session_set (\<lambda>x. x\<lparr>ss_rti_registered := False\<rparr>)))))"

text \<open>\<open>make_ime_focus_handler\<close>: an event of the television's input method, on every session that listens.\<close>

datatype ime_event = ImeStart | ImeEnd | ImeOther

definition rti_active :: "('srp, 'h, bridge) service \<Rightarrow> bool" where
  "rti_active s \<longleftrightarrow> ss_rti_registered (ba_session (sv_app s)) \<and> ss_uuid (ba_session (sv_app s)) \<noteq> None \<and> is_connection_active s"

definition ime_session :: "text_library \<Rightarrow> ('srp, 'h, bridge) env \<Rightarrow> ime_event \<Rightarrow> ('srp, 'h, unit) br" where
  "ime_session T E ev =
     (case ev of
        ImeStart \<Rightarrow> app_get (\<lambda>a. if ss_focus (ba_session a) = Focused then st_return ()
          else st_then (session_set (\<lambda>x. x\<lparr>ss_text := Some []\<rparr>)) (set_focus T E Focused))
      | ImeEnd \<Rightarrow> set_focus T E Unfocused
      | ImeOther \<Rightarrow> st_return ())"

definition ime_focus :: "text_library \<Rightarrow> ('srp, 'h, bridge) env \<Rightarrow> ime_event \<Rightarrow> ('srp, 'h, bridge) service list \<Rightarrow> ('srp, 'h, bridge) service list" where
  "ime_focus T E ev = map (\<lambda>s. if rti_active s then snd (ime_session T E ev s) else s)"

subsection \<open>The other requests\<close>

definition handle_launchapp :: "('srp, 'h, bridge) env \<Rightarrow> opack \<Rightarrow> ('srp, 'h, unit) br" where
  "handle_launchapp E message =
     st_bind (st_lift (rbind (item message ''_c'') (\<lambda>content. rbind (get_or content ''_bundleID'' ONone) (\<lambda>bundle.
       rbind (get_or content ''_urlS'' ONone) (\<lambda>url. Inr (bundle, url)))))) (\<lambda>(bundle, url).
     st_then (device_set (\<lambda>d. if bundle \<noteq> ONone then d\<lparr>dv_active_app := Some bundle\<rparr>
         else if url \<noteq> ONone then d\<lparr>dv_open_url := Some url\<rparr> else d))
       (acknowledge E message))"

definition handle_fetchlaunchableapplicationsevent :: "('srp, 'h, bridge) env \<Rightarrow> opack \<Rightarrow> ('srp, 'h, unit) br" where
  "handle_fetchlaunchableapplicationsevent E message = app_get (\<lambda>a. send_response E message (dv_installed (ba_device a)))"

definition handle_switchuseraccountevent :: "('srp, 'h, bridge) env \<Rightarrow> opack \<Rightarrow> ('srp, 'h, unit) br" where
  "handle_switchuseraccountevent E message =
     st_bind (st_lift (rbind (item message ''_c'') (\<lambda>content. dict_get content ''SwitchAccountID''))) (\<lambda>account.
     st_then (device_set (\<lambda>d. d\<lparr>dv_account := account\<rparr>)) (acknowledge E message))"

definition handle_fetchuseraccountsevent :: "('srp, 'h, bridge) env \<Rightarrow> opack \<Rightarrow> ('srp, 'h, unit) br" where
  "handle_fetchuseraccountsevent E message = app_get (\<lambda>a. send_response E message (dv_accounts (ba_device a)))"

definition handle_fetchattentionstate :: "('srp, 'h, bridge) env \<Rightarrow> opack \<Rightarrow> ('srp, 'h, unit) br" where
  "handle_fetchattentionstate E message = app_get (\<lambda>a.
     if dv_status_supported (ba_device a)
     then send_response E message (ODict [(text_value ''state'', int_value (dv_status (ba_device a)))])
     else send_handler_not_supported E message)"

text \<open>Dispatch by name. \<open>auth_frame\<close> names the method of the handshake, called with one argument too few.\<close>

definition handlers :: "text_library \<Rightarrow> ('srp, 'h, bridge) env \<Rightarrow> (string \<times> (opack \<Rightarrow> ('srp, 'h, unit) br)) list" where
  "handlers T E =
    [(''_hidc'', handle_hidc E), (''_hidt'', handle_hidt E), (''_touchstart'', handle_touchstart E), (''_touchstop'', handle_touchstop E),
     (''_mcc'', handle_mcc (tx_double T) E), (''mediacontrolcommand'', handle_mediacontrolcommand (tx_double T) E),
     (''tvrcsessionstart'', handle_tvrcsessionstart E), (''tvrcsessionstop'', handle_tvrcsessionstop E),
     (''_sessionstart'', handle_sessionstart E), (''_sessionstop'', handle_sessionstop E), (''_systeminfo'', handle_systeminfo E),
     (''_interest'', handle_interest E), (''_tistart'', handle_tistart T E), (''_tistop'', handle_tistop E), (''_tic'', handle_tic T E),
     (''_launchapp'', handle_launchapp E), (''fetchlaunchableapplicationsevent'', handle_fetchlaunchableapplicationsevent E),
     (''switchuseraccountevent'', handle_switchuseraccountevent E), (''fetchuseraccountsevent'', handle_fetchuseraccountsevent E),
     (''fetchattentionstate'', handle_fetchattentionstate E), (''fetchsupportedactionsevent'', acknowledge E),
     (''publishpresenceevent'', acknowledge E), (''switchactiveuseraccountevent'', acknowledge E), (''fetchupnextinfoevent'', acknowledge E),
     (''fetchcurrenttopshelfitemsevent'', acknowledge E), (''fetchsiriremoteinfo'', acknowledge E),
     (''fetchcurrentnowplayinginfoevent'', acknowledge E), (''fetchmediacontrolstatus'', \<lambda>message. send_response E message modern_flags),
     (''auth_frame'', \<lambda>message. st_raise TypeError)]"

definition handle_message :: "text_library \<Rightarrow> ('srp, 'h, bridge) env \<Rightarrow> opack \<Rightarrow> ('srp, 'h, unit) br" where
  "handle_message T E message =
     st_bind (st_lift (handler_name message)) (\<lambda>name.
       case (case name of None \<Rightarrow> None | Some n \<Rightarrow> map_of (handlers T E) n) of
         Some h \<Rightarrow> h message
       | None \<Rightarrow> send_handler_not_supported E message)"

subsection \<open>The service\<close>

definition attach_bridge :: "bridge \<Rightarrow> bridge" where
  "attach_bridge a = a\<lparr>ba_session := (attach_session (ba_session a))\<lparr>ss_connected_at := Some (ba_now a), ss_first_logged := False\<rparr>,
     ba_device := register_client (ba_id a) (ba_device a)\<rparr>"

definition detach_bridge :: "bridge \<Rightarrow> bridge" where
  "detach_bridge a = a\<lparr>ba_session := detach_session (ba_session a), ba_device := unregister_client (ba_id a) (ba_device a)\<rparr>"

definition bridge_hooks :: "('srp, 'h, bridge) app" where
  "bridge_hooks = \<lparr>ap_attach = attach_bridge, ap_detach = detach_bridge, ap_close = release_owner, ap_lost = release_owner,
     ap_message = \<lambda>_. st_return ()\<rparr>"

text \<open>The environment of the bridge: the hooks, and the handlers that use them.\<close>

definition bridge_env :: "text_library \<Rightarrow> ('srp, 'h, bridge) env \<Rightarrow> ('srp, 'h, bridge) env" where
  "bridge_env T E0 = with_message (E0\<lparr>en_app := bridge_hooks\<rparr>) (handle_message T (E0\<lparr>en_app := bridge_hooks\<rparr>))"

definition shutdown :: "('srp, 'h, bridge) env \<Rightarrow> ('srp, 'h, bridge) service \<Rightarrow> ('srp, 'h, bridge) service" where
  "shutdown E s = snd (teardown_connection E (s\<lparr>sv_app := release_owner ((sv_app s)\<lparr>ba_closing := True\<rparr>)\<rparr>))"

definition new_bridge :: "nat \<Rightarrow> gesture_config \<Rightarrow> hold_config \<Rightarrow> device \<Rightarrow> nat lane option \<Rightarrow> nat \<Rightarrow> rat \<Rightarrow> bridge" where
  "new_bridge i gestures hold dev lane fresh now = \<lparr>ba_id = i, ba_session = new_session, ba_device = dev,
     ba_relay = new_relay gestures hold SELECT_DEDUPE_MS,
     ba_repeater = new_repeater \<lparr>rc_initial_delay = hc_initial_delay hold, rc_interval = hc_interval hold, rc_max_hold = hc_max_hold hold\<rparr>,
     ba_lane = lane, ba_owner = None, ba_fresh = fresh, ba_repeat_owners = [], ba_draining = [], ba_closing = False, ba_now = now\<rparr>"


subsection \<open>What handlers may do\<close>

text \<open>The sizes that a session and the device keep: the text of the field and the volume.\<close>

definition text_fine :: "session \<Rightarrow> bool" where
  "text_fine x \<longleftrightarrow> (case ss_text x of None \<Rightarrow> True | Some t \<Rightarrow> py_len t \<le> RTI_MAX_TEXT)"

definition volume_fine :: "device \<Rightarrow> bool" where
  "volume_fine d \<longleftrightarrow> 0 \<le> dv_volume d \<and> dv_volume d \<le> 100"

lemma edit_bounded: "edit_text T old a i d = Inr text \<Longrightarrow> py_len text \<le> RTI_MAX_TEXT"
  by (auto simp: edit_text_def Let_def rbind_def split: sum.splits if_splits)

lemma volume_step_bounded: "volume_step v level = (key, w) \<Longrightarrow> 0 \<le> w \<and> w \<le> 100"
  by (auto simp: volume_step_def volume_key_for_def split: pynum.splits if_splits)

text \<open>
  A relation that the parts of a handler respect: sending, closing, asking and counting, changes of the
  session and the device that keep those sizes, and the operations on relay, repeater and lane. Every
  handler but the start of a session, which comes below, is put together from these.
\<close>

locale request_relation = step_preorder R
  for R :: "('srp, 'h, bridge) service \<Rightarrow> ('srp, 'h, bridge) service \<Rightarrow> bool" +
  fixes E :: "('srp, 'h, bridge) env"
  assumes on_send: "st_rel R (send_to_client E t d)" and on_malformed: "st_rel R (malformed_frame E)"
    and on_session: "(\<And>x. text_fine x \<Longrightarrow> text_fine (f x)) \<Longrightarrow> st_rel R (session_set f)"
    and on_device: "(\<And>d. volume_fine d \<Longrightarrow> volume_fine (g d)) \<Longrightarrow> st_rel R (device_set g)"
    and on_submit: "st_rel R (submit_dispatch E c)"
    and on_release: "st_rel R (app_set release_owner)" and on_invalidate: "st_rel R (app_set invalidate_repeaters)"
    and on_relay: "st_rel R (app_set (\<lambda>a. a\<lparr>ba_relay := r\<rparr>))"
    and on_repeat: "st_rel R (app_set (\<lambda>a. case repeater_start key (ba_repeater a) of (n, ev, rp) \<Rightarrow>
                   let a2 = notify_stops ev (a\<lparr>ba_repeater := rp\<rparr>)
                   in case owner of
                        None \<Rightarrow> a2
                      | Some o1 \<Rightarrow>
                          (if map_of (ba_repeat_owners a2) n = None
                           then a2\<lparr>ba_repeat_owners := AList.update n o1 (ba_repeat_owners a2)\<rparr> else a2)))"
    and on_stop: "st_rel R (app_set (\<lambda>a. case repeater_stop key (ba_repeater a) of (n, ev, rp) \<Rightarrow>
               notify_stops ev (a\<lparr>ba_repeater := rp\<rparr>)))"
begin

lemma rel_app_get: "(\<And>a. st_rel R (f a)) \<Longrightarrow> st_rel R (app_get f)"
  unfolding app_get_def by (rule rel_get)

lemmas base_rules = rel_rules rel_app_get on_send on_malformed on_submit on_release on_invalidate on_relay

lemma rel_sink: "st_rel R (dispatch_sink E c)"
proof -
  have phases: "st_rel R (case x of None \<Rightarrow> a | Some RepeatStart \<Rightarrow> b | Some RepeatStop \<Rightarrow> d)"
    if "st_rel R a" "st_rel R b" "st_rel R d" for x and a b d :: "('srp, 'h, unit) br"
    using that by (auto split: option.split repeat_phase.split)
  have first: "st_rel R (session_set (\<lambda>x. x\<lparr>ss_first_logged := True\<rparr>))"
    by (rule on_session) (simp add: text_fine_def)
  show ?thesis
    unfolding dispatch_sink_def by (intro phases base_rules on_repeat on_stop first)
qed

lemma rel_relay: "st_rel R (relay_do E f)"
  unfolding relay_do_def split_beta by (intro base_rules rel_sink)

lemma rel_replies:
  "st_rel R (send_response E m c)" "st_rel R (send_event E i x c)" "st_rel R (send_error E m t n)"
  "st_rel R (send_handler_not_supported E m)" "st_rel R (acknowledge E m)" "st_rel R (reject_message E)"
  unfolding send_response_def send_event_def send_error_def send_handler_not_supported_def acknowledge_def reject_message_def
  by (intro base_rules)+

lemmas steps = base_rules rel_replies rel_relay rel_sink

lemma rel_volume_changed: "st_rel R (volume_changed E v)"
proof -
  have "st_rel R (device_set (\<lambda>d. d\<lparr>dv_volume := clamp_volume v\<rparr>))"
    by (rule on_device) (simp add: volume_fine_def clamp_volume_def)
  then show ?thesis unfolding volume_changed_def by (intro steps)
qed

lemma rel_button: "st_rel R (handle_hidc E m)"
proof -
  have held: "st_rel R (session_set (press code))" "st_rel R (session_set (unpress code))"
    "st_rel R (session_set (\<lambda>x. (unpress code x)\<lparr>ss_latest := Some label\<rparr>))" for code label
    by (rule on_session; simp add: text_fine_def press_def unpress_def)+
  have power: "st_rel R (device_set (\<lambda>d. d\<lparr>dv_powered := b\<rparr>))" for b
    by (rule on_device) (simp add: volume_fine_def)
  have up: "st_rel R (button_up E m code label)" for code label
    unfolding button_up_def by (intro steps held rel_volume_changed)
  have "st_rel R (base_button E m)"
    unfolding base_button_def by (intro steps held power up)
  then show ?thesis
    unfolding handle_hidc_def split_beta by (intro steps held)
qed

lemma rel_media: "st_rel R (handle_mediacontrolcommand d E m)" "st_rel R (handle_mcc d E m)"
proof -
  have "st_rel R (device_set (\<lambda>d. d\<lparr>dv_volume := snd (volume_step v level)\<rparr>))" for v level
    using volume_step_bounded [of v level "fst (volume_step v level)"] by (intro on_device) (simp add: volume_fine_def)
  then have level: "st_rel R (set_volume_level E level)" for level
    unfolding set_volume_level_def split_beta by (intro steps)
  have other: "st_rel R (device_set (\<lambda>d. d\<lparr>dv_duration := at_least_zero (num_add (dv_duration d) x)\<rparr>))"
    "st_rel R (session_set (\<lambda>x. x\<lparr>ss_latest := Some label\<rparr>))" for x label
    by (rule on_device on_session; simp add: volume_fine_def text_fine_def)+
  show "st_rel R (handle_mediacontrolcommand d E m)"
    unfolding handle_mediacontrolcommand_def
    by (intro steps; simp split: sum.split media.split; intro conjI allI impI steps level)
  have "st_rel R (base_mcc d E m)"
    unfolding base_mcc_def by (intro steps other)
  then show "st_rel R (handle_mcc d E m)"
    unfolding handle_mcc_def
    by (intro steps; simp split: sum.split media.split; intro conjI allI impI steps level)
qed

lemma rel_touch: "st_rel R (handle_touchstart E m)" "st_rel R (handle_touchstop E m)" "st_rel R (handle_hidt E m)"
proof -
  have set1: "st_rel R (session_set (\<lambda>x. x\<lparr>ss_width := w, ss_height := h\<rparr>))" "st_rel R (session_set (\<lambda>x. x\<lparr>ss_touch := e\<rparr>))" for w h e
    by (rule on_session; simp add: text_fine_def)+
  show "st_rel R (handle_touchstart E m)" "st_rel R (handle_touchstop E m)"
    unfolding handle_touchstart_def handle_touchstop_def by (intro steps set1)+
  show "st_rel R (handle_hidt E m)"
    unfolding handle_hidt_def split_beta by (intro steps set1)
qed

lemma rel_sessions:
  "begin_dispatch_session s = (x, s1) \<Longrightarrow> handle_tvrcsessionstart E m s = (r, s') \<Longrightarrow> R s1 s'"
  "st_rel R (handle_tvrcsessionstop E m)" "st_rel R (handle_sessionstart E m)"
  "st_rel R (handle_sessionstop E m)" "st_rel R (handle_systeminfo E m)"
proof -
  have set1: "st_rel R (session_set (\<lambda>x. x\<lparr>ss_protocol := p\<rparr>))" "st_rel R (session_set (\<lambda>x. x\<lparr>ss_sid := v\<rparr>))"
    "st_rel R (session_set (\<lambda>x. x\<lparr>ss_service_type := p\<rparr>))" "st_rel R (session_set (\<lambda>x. x\<lparr>ss_system_info := p\<rparr>))" for p v
    by (rule on_session; simp add: text_fine_def)+
  show "st_rel R (handle_tvrcsessionstop E m)" "st_rel R (handle_sessionstart E m)"
    "st_rel R (handle_sessionstop E m)" "st_rel R (handle_systeminfo E m)"
    unfolding handle_tvrcsessionstop_def handle_sessionstart_def handle_sessionstop_def handle_systeminfo_def
    by (intro steps set1)+
  assume begin1: "begin_dispatch_session s = (x, s1)" and run: "handle_tvrcsessionstart E m s = (r, s')"
  have "\<exists>k. handle_tvrcsessionstart E m = st_then begin_dispatch_session k \<and> st_rel R k"
    unfolding handle_tvrcsessionstart_def by (intro exI conjI, rule refl) (intro steps set1)
  then obtain k where k: "handle_tvrcsessionstart E m = st_then begin_dispatch_session k" "st_rel R k" by blast
  show "R s1 s'"
    using run begin1 st_relD [OF k(2), of s1] unfolding k(1)
    by (cases x) (auto simp: st_then_def st_bind_def st_handle_def st_raise_def R_refl)
qed

lemma rel_interest: "st_rel R (handle_interest E m)"
proof -
  have push: "st_rel R (push_initial E m event)" for event
    unfolding push_initial_def by (intro steps; simp split: pykey.split; intro conjI allI impI steps)
  have sets: "st_rel R (session_set (\<lambda>x. x\<lparr>ss_interests := f x\<rparr>))" for f
    by (rule on_session) (simp add: text_fine_def)
  have items: "st_rel R (add_interest x)" "st_rel R (drop_interest x)" for x
    unfolding add_interest_def drop_interest_def by (intro steps sets)+
  have pairs: "st_rel R (case (x, y) of (Some a, _) \<Rightarrow> f a | (None, Some b) \<Rightarrow> g b | (None, None) \<Rightarrow> h)"
    if "\<And>a. st_rel R (f a)" "\<And>b. st_rel R (g b)" "st_rel R h" for x y and f g :: "opack \<Rightarrow> ('srp, 'h, unit) br" and h
    using that by (cases x; cases y) simp_all
  show ?thesis
    unfolding handle_interest_def by (intro rel_bind rel_then pairs steps push items)
qed

lemma rel_focus: "st_rel R (set_focus T E f)"
proof -
  have sets: "st_rel R (session_set (\<lambda>x. x\<lparr>ss_focus := f\<rparr>))" "st_rel R (session_set (\<lambda>x. x\<lparr>ss_rti_registered := b\<rparr>))" for b
    by (rule on_session; simp add: text_fine_def)+
  show ?thesis unfolding set_focus_def by (intro steps sets)
qed

lemma rel_tic: "st_rel R (handle_tic T E m)"
proof -
  have archive: "st_rel R (case r of Inr [a, i, d] \<Rightarrow> f a i d | _ \<Rightarrow> g)"
    if "\<And>a i d. st_rel R (f a i d)" "st_rel R g" for r :: "plist option list result"
      and f :: "plist option \<Rightarrow> plist option \<Rightarrow> plist option \<Rightarrow> ('srp, 'h, unit) br" and g
    using that by (auto split: sum.split list.split)
  have edit: "st_rel R (st_bind (st_lift (edit_text T old a i d)) (\<lambda>text. st_then (session_set (\<lambda>x. x\<lparr>ss_text := Some text\<rparr>)) (k text)))"
    if "\<And>text. st_rel R (k text)" for old a i d and k :: "string \<Rightarrow> ('srp, 'h, unit) br"
  proof (cases "edit_text T old a i d")
    case (Inl e)
    then have "st_bind (st_lift (edit_text T old a i d)) (\<lambda>text. st_then (session_set (\<lambda>x. x\<lparr>ss_text := Some text\<rparr>)) (k text)) = st_raise e"
      by (intro ext) (simp add: st_eval)
    then show ?thesis by (simp add: rel_raise)
  next
    case (Inr updated)
    then have eq: "st_bind (st_lift (edit_text T old a i d)) (\<lambda>text. st_then (session_set (\<lambda>x. x\<lparr>ss_text := Some text\<rparr>)) (k text))
        = st_then (session_set (\<lambda>x. x\<lparr>ss_text := Some updated\<rparr>)) (k updated)"
      by (intro ext) (simp add: st_bind_def [of "st_lift _"] st_handle_def [of "st_lift _"] st_lift_def)
    have "st_rel R (session_set (\<lambda>x. x\<lparr>ss_text := Some updated\<rparr>))"
      by (rule on_session) (simp add: text_fine_def edit_bounded [OF Inr])
    then show ?thesis unfolding eq by (intro rel_then that)
  qed
  show ?thesis
    unfolding handle_tic_def Let_def by (intro rel_bind [OF rel_lift] rel_if archive rel_app_get edit steps)
qed

lemma rel_text: "st_rel R (handle_tistart T E m)" "st_rel R (handle_tistop E m)"
proof -
  have sets: "st_rel R (session_set (\<lambda>x. x\<lparr>ss_uuid := u, ss_text := Some []\<rparr>))" "st_rel R (session_set (\<lambda>x. x\<lparr>ss_uuid := u\<rparr>))"
    "st_rel R (session_set (\<lambda>x. x\<lparr>ss_rti_registered := b\<rparr>))" for u b
    by (rule on_session; simp add: text_fine_def py_len_def)+
  show "st_rel R (handle_tistart T E m)" "st_rel R (handle_tistop E m)"
    unfolding handle_tistart_def handle_tistop_def by (intro steps sets rel_focus)+
qed

lemma rel_requests:
  "st_rel R (handle_launchapp E m)" "st_rel R (handle_fetchlaunchableapplicationsevent E m)"
  "st_rel R (handle_switchuseraccountevent E m)" "st_rel R (handle_fetchuseraccountsevent E m)"
  "st_rel R (handle_fetchattentionstate E m)"
proof -
  have sets: "st_rel R (device_set (\<lambda>d. if c then d\<lparr>dv_active_app := x\<rparr> else if c' then d\<lparr>dv_open_url := y\<rparr> else d))"
    "st_rel R (device_set (\<lambda>d. d\<lparr>dv_account := x\<rparr>))" for c c' x y
    by (rule on_device; simp add: volume_fine_def)+
  show "st_rel R (handle_launchapp E m)" "st_rel R (handle_fetchlaunchableapplicationsevent E m)"
    "st_rel R (handle_switchuseraccountevent E m)" "st_rel R (handle_fetchuseraccountsevent E m)" "st_rel R (handle_fetchattentionstate E m)"
    unfolding handle_launchapp_def handle_fetchlaunchableapplicationsevent_def handle_switchuseraccountevent_def
      handle_fetchuseraccountsevent_def handle_fetchattentionstate_def split_beta
    by (intro steps sets)+
qed

lemma rel_handlers: "(name, h) \<in> set (handlers T E) \<Longrightarrow> name \<noteq> ''tvrcsessionstart'' \<Longrightarrow> st_rel R (h m)"
  unfolding handlers_def set_simps insert_iff empty_iff prod.inject
  by (elim disjE conjE FalseE; hypsubst;
      ((erule notE, rule refl)
       | rule rel_button rel_touch rel_media rel_sessions(2-) rel_interest rel_text rel_tic rel_requests rel_replies rel_raise))

lemma starting: "map_of (handlers T E) ''tvrcsessionstart'' = Some (handle_tvrcsessionstart E)"
  by (simp add: handlers_def)

text \<open>A message is one of those, or starts a session.\<close>

lemma message_cases:
  obtains (request) "st_rel R (handle_message T E m)" | (start) "handle_message T E m = handle_tvrcsessionstart E m"
proof (cases "handler_name m = Inr (Some ''tvrcsessionstart'')")
  case True
  then have "handle_message T E m = handle_tvrcsessionstart E m"
    by (intro ext) (simp add: handle_message_def starting st_bind_def st_handle_def st_lift_def)
  then show thesis by (rule start)
next
  case False
  have known: "st_rel R (case map_of (handlers T E) n of Some h \<Rightarrow> h m | None \<Rightarrow> send_handler_not_supported E m)"
    if "n \<noteq> ''tvrcsessionstart''" for n
    using rel_handlers [of n _ T m] that rel_replies by (auto split: option.split dest: map_of_SomeD)
  have "st_rel R (handle_message T E m)"
  proof (cases "handler_name m")
    case (Inl e)
    then have "handle_message T E m = st_raise e"
      by (intro ext) (simp add: handle_message_def st_bind_def st_handle_def st_lift_def)
    then show ?thesis by (simp add: rel_raise)
  next
    case (Inr name)
    then have "handle_message T E m = (case (case name of None \<Rightarrow> None | Some n \<Rightarrow> map_of (handlers T E) n) of
        Some h \<Rightarrow> h m | None \<Rightarrow> send_handler_not_supported E m)"
      by (intro ext) (simp add: handle_message_def st_bind_def [of "st_lift _"] st_handle_def [of "st_lift _"] st_lift_def)
    then show ?thesis using known rel_replies Inr False by (cases name) simp_all
  qed
  then show thesis by (rule request)
qed

end

text \<open>A relation that the start of a session respects too.\<close>

locale handler_relation = request_relation R E
  for R :: "('srp, 'h, bridge) service \<Rightarrow> ('srp, 'h, bridge) service \<Rightarrow> bool" and E :: "('srp, 'h, bridge) env" +
  assumes on_begin: "st_rel R begin_dispatch_session"
begin

lemma rel_message: "st_rel R (handle_message T E m)"
proof (cases rule: message_cases [of T m, case_names request start])
  case start
  have "R s s'" if run: "handle_tvrcsessionstart E m s = (r, s')" for s r s'
  proof -
    obtain x s1 where b: "begin_dispatch_session s = (x, s1)" by fastforce
    show ?thesis using R_trans [OF st_relD [OF on_begin b] rel_sessions(1) [OF b run]] .
  qed
  then show ?thesis by (simp add: start st_rel_def)
qed

end

subsection \<open>Handlers are tame\<close>

text \<open>Nothing a handler does reaches the authentication, the admission or the keys.\<close>

lemma tame_app_set: "st_rel tame (app_set f)"
  unfolding app_set_def by (rule tm.rel_modify) (simp add: tame_def transport_kept_def)

lemma tame_lane: "st_rel tame (with_lane E owner f l)"
  unfolding with_lane_def split_beta by (intro tm.rel_rules tame_check tame_app_set tame_close)

lemma tame_submit: "st_rel tame (submit_dispatch E c)"
proof -
  have "st_rel tame (case (x, y) of (Some l, Some owner) \<Rightarrow> with_lane E owner (lane_submit owner c) l | _ \<Rightarrow> st_return False)" for x y
    by (cases x; cases y) (simp_all add: tame_lane tm.rel_return)
  then show ?thesis unfolding submit_dispatch_def app_get_def by (intro tm.rel_get)
qed

interpretation tame_handlers: handler_relation tame E for E
proof
  show "st_rel tame begin_dispatch_session"
    unfolding begin_dispatch_session_def app_get_def by (intro tm.rel_rules tame_app_set)
qed (simp_all add: session_set_def device_set_def tame_app_set tame_send tame_malformed tame_submit)

interpretation bridge_service: application "bridge_env T E0" for T E0
  by unfold_locales (simp add: bridge_env_def tame_handlers.rel_message)

text \<open>C9: Through any sequence of connecting, chunks of any bytes, deadline, loss and interference of other connections,
  a connection of the bridge keeps its invariant: keys are installed exactly in phase Encrypted and
  only while admitted; a live connection has sent fewer malformed frames than the limit and, without
  keys, has its deadline armed; it counts as a connection exactly while admitted, and as an
  unauthenticated one exactly while it has no keys; once closed it holds nothing.\<close>

theorem connection_invariant:
  assumes "conn_reach (bridge_env T E0) s"
  shows "conn_inv (bridge_env T E0) s"
  using assms by (rule bridge_service.reach_inv)

end
