(* ===== verification/Ownership.thy ===== *)
theory Ownership
  imports Session "HOL-Library.Sublist"
begin

text \<open>
  What a message may leave behind on the bridge's shared state. First a logic for such questions: a
  preorder between the bridge before and after that its elementary changes respect is respected by
  everything a chunk of frames can lead to. Its first instance concerns the work waiting on the lane,
  the text field and the volume. Shown: whatever a client sends, the work of any other dispatch owner
  gets no addition, change or new order, and the mirrored text and volume stay within their bounds.
\<close>

subsection \<open>Relations between bridges\<close>

definition on_app :: "(bridge \<Rightarrow> bridge \<Rightarrow> bool) \<Rightarrow> ('srp, 'h, bridge) service \<Rightarrow> ('srp, 'h, bridge) service \<Rightarrow> bool" where
  "on_app B s s' \<longleftrightarrow> B (sv_app s) (sv_app s')"

definition connection_owner :: registration where
  "connection_owner = \<lparr>rg_authorize = True, rg_on_unauthorized = True\<rparr>"

locale bridge_relation =
  fixes B :: "bridge \<Rightarrow> bridge \<Rightarrow> bool" and E :: "('srp, 'h, bridge) env"
  assumes hooks: "en_app E = bridge_hooks"
    and B_refl: "B a a" and B_trans: "B a a1 \<Longrightarrow> B a1 a2 \<Longrightarrow> B a a2"
    and B_session: "(\<And>x. text_fine x \<Longrightarrow> text_fine (f x)) \<Longrightarrow> B a (a\<lparr>ba_session := f (ba_session a)\<rparr>)"
    and B_device: "(\<And>d. volume_fine d \<Longrightarrow> volume_fine (g d)) \<Longrightarrow> B a (a\<lparr>ba_device := g (ba_device a)\<rparr>)"
    and B_fields: "B a (a\<lparr>ba_relay := rl\<rparr>)" "B a (a\<lparr>ba_repeater := rp\<rparr>)" "B a (a\<lparr>ba_repeat_owners := os\<rparr>)" "B a (a\<lparr>ba_draining := ds\<rparr>)"
    and B_generation: "ba_lane a = Some l \<Longrightarrow> B a (a\<lparr>ba_lane := Some (cancel_generation False owner n l)\<rparr>)"
    and B_end: "B a (end_dispatch_session a)"
    and B_submit: "ba_lane a = Some l \<Longrightarrow> ba_owner a = Some owner \<Longrightarrow> lane_submit owner c ans l = (ok, ev, l1) \<Longrightarrow> B a (a\<lparr>ba_lane := Some l1\<rparr>)"

sublocale bridge_relation \<subseteq> steps: step_preorder "on_app B :: ('srp, 'h, bridge) service \<Rightarrow> ('srp, 'h, bridge) service \<Rightarrow> bool"
  by unfold_locales (auto simp: on_app_def B_refl intro: B_trans)

context bridge_relation
begin

lemma same_app: "sv_app s' = sv_app s \<Longrightarrow> on_app B s s'"
  by (simp add: on_app_def B_refl)

lemma rel_app_set: "(\<And>a. B a (f a)) \<Longrightarrow> st_rel (on_app B) (app_set f :: ('srp, 'h, unit) br)"
  unfolding app_set_def by (rule steps.rel_modify) (simp add: on_app_def)

lemma B_stop: "B a (cancel_repeat_generation n a)"
proof -
  let ?a = "a\<lparr>ba_repeat_owners := AList.delete n (ba_repeat_owners a)\<rparr>"
  have "B ?a (cancel_repeat_generation n a)"
    using B_generation [of ?a] by (auto simp: cancel_repeat_generation_def Let_def B_refl split: option.split)
  then show ?thesis by (rule B_trans [OF B_fields(3)])
qed

lemma B_stops: "B a (notify_stops ev a)"
  by (induction ev a rule: notify_stops.induct) (auto intro: B_refl B_trans [OF B_stop])

lemma B_repeater: "B a (notify_stops ev (a\<lparr>ba_repeater := rp\<rparr>))"
  by (rule B_trans [OF B_fields(2) B_stops])

lemma B_invalidate: "B a (invalidate_repeaters a)"
  unfolding invalidate_repeaters_def split_beta by (rule B_trans [OF B_repeater B_fields(4)])

lemma B_release: "B a (release_owner a)"
  unfolding release_owner_def by (rule B_trans [OF B_invalidate B_end])

lemma rel_close: "st_rel (on_app B) (close_connection E)"
  unfolding close_connection_def by (rule steps.rel_modify) (simp add: on_app_def hooks bridge_hooks_def B_release)

lemma rel_malformed: "st_rel (on_app B) (malformed_frame E)"
proof -
  have "st_rel (on_app B) (st_modify (\<lambda>s :: ('srp, 'h, bridge) service. s\<lparr>sv_malformed := Suc (sv_malformed s)\<rparr>))"
    by (intro steps.rel_modify same_app) simp
  then show ?thesis unfolding malformed_frame_def by (intro steps.rel_rules rel_close)
qed

lemma rel_send: "st_rel (on_app B) (send_to_client E t d)"
proof -
  have "st_rel (on_app B) (cipher_seal A data aad :: ('srp, 'h, bytes) br)" for A data aad
    by (auto simp: st_rel_def cipher_seal_def intro!: same_app split: option.splits prod.splits)
  moreover have "st_rel (on_app B) (write_transport b :: ('srp, 'h, unit) br)" for b
    unfolding write_transport_def by (intro steps.rel_modify same_app) simp
  ultimately show ?thesis unfolding send_to_client_def Let_def by (intro steps.rel_rules)
qed

lemma rel_sends: "st_rel (on_app B) (st_for (\<lambda>(t, d). send_to_client E t d) xs)"
  by (rule steps.rel_for) (simp add: split_beta rel_send)

lemma rel_auth: "st_rel (on_app B) (auth_call E m)"
proof (rule st_relI)
  fix s :: "('srp, 'h, bridge) service"
  obtain r p where m: "m (peer_of s) = (r, p)" by fastforce
  let ?s = "s\<lparr>sv_auth := pe_auth p, sv_host := pe_host p\<rparr>"
  obtain r1 s1 where sent: "st_for (\<lambda>(t, d). send_to_client E t d) (pe_sent p) ?s = (r1, s1)" by fastforce
  have "on_app B s s1" using steps.R_trans [OF same_app st_relD [OF rel_sends sent]] by simp
  moreover have "sv_app (enable_encryption k1 k2 s1) = sv_app s1" for k1 k2 by (simp add: enable_encryption_def)
  ultimately show "on_app B s (snd (auth_call E m s))"
    using m sent by (auto simp: auth_call_def on_app_def split: option.split)
qed

lemma rel_check: "st_rel (on_app B) (check_authorized E)"
  unfolding check_authorized_def by (intro steps.rel_get rel_auth)

lemma rel_open: "st_rel (on_app B) (open_frame E t header data)"
proof -
  have "st_rel (on_app B) (cipher_open A b aad :: ('srp, 'h, bytes) br)" for A b aad
    by (auto simp: st_rel_def cipher_open_def intro!: same_app split: option.splits prod.splits)
  then show ?thesis
    unfolding open_frame_def close_and_stop_def by (intro steps.rel_rules rel_close rel_check)
qed

lemma rel_lane:
  assumes "\<And>ans r ev l1 a'. ba_lane a' = ba_lane a \<Longrightarrow> ba_owner a' = ba_owner a \<Longrightarrow> f ans l = (r, ev, l1) \<Longrightarrow> B a' (a'\<lparr>ba_lane := Some l1\<rparr>)"
    and "sv_app s = a" "with_lane E owner f l s = (res, s')"
  shows "on_app B s s'"
proof -
  define ask where "ask = (if ln_stopping l \<or> map_of (ln_owners l) owner = None then st_return None
              else st_bind (check_authorized E) (\<lambda>ok. st_return (Some ok)) :: ('srp, 'h, bool option) br)"
  have "\<exists>ans h. ask s = (Inr ans, s\<lparr>sv_host := h\<rparr>)"
  proof -
    obtain ok h where "check_authorized E s = (Inr ok, s\<lparr>sv_host := h\<rparr>)" by (rule check_authorized_run)
    then have "ask s = (if ln_stopping l \<or> map_of (ln_owners l) owner = None then (Inr None, s\<lparr>sv_host := sv_host s\<rparr>) else (Inr (Some ok), s\<lparr>sv_host := h\<rparr>))"
      by (simp add: ask_def st_eval)
    then show ?thesis by (metis (full_types))
  qed
  then obtain ans h where ask: "ask s = (Inr ans, s\<lparr>sv_host := h\<rparr>)" by blast
  obtain r ev l1 where f: "f ans l = (r, ev, l1)" by (metis prod_cases3)
  let ?s = "s\<lparr>sv_host := h, sv_app := a\<lparr>ba_lane := Some l1\<rparr>\<rparr>"
  have "on_app B s ?s" using assms(1) [OF refl refl f] assms(2) by (simp add: on_app_def)
  moreover have "on_app B ?s (snd (close_connection E ?s))"
    using st_relD [OF rel_close] by (metis prod.collapse)
  moreover have "s' = ?s \<or> s' = snd (close_connection E ?s)"
  proof -
    have "with_lane E owner f l = st_bind ask (\<lambda>ans. case f ans l of (r, ev, l1) \<Rightarrow>
          st_then (app_set (\<lambda>a. a\<lparr>ba_lane := Some l1\<rparr>)) (st_then (if ev = [] then st_return () else close_connection E) (st_return r)))"
      by (simp add: with_lane_def ask_def)
    then show ?thesis
      using assms(2,3) ask f by (auto simp: st_eval app_set_def split: if_splits prod.splits sum.splits)
  qed
  ultimately show ?thesis using steps.R_trans by metis
qed

lemma rel_submit: "st_rel (on_app B) (submit_dispatch E c)"
  unfolding st_rel_def
proof (intro allI impI)
  fix s r s' assume run: "submit_dispatch E c s = (r, s')"
  show "on_app B s s'"
  proof (cases "ba_lane (sv_app s) = None \<or> ba_owner (sv_app s) = None")
    case True
    then have "s' = s" using run by (auto simp: submit_dispatch_def app_get_def st_eval split: option.splits)
    then show ?thesis by (simp add: same_app)
  next
    case False
    then obtain l owner where lo: "ba_lane (sv_app s) = Some l" "ba_owner (sv_app s) = Some owner" by auto
    have "with_lane E owner (lane_submit owner c) l s = (r, s')"
      using run lo by (simp add: submit_dispatch_def app_get_def st_get_def)
    then show ?thesis using lo by (intro rel_lane [OF _ refl]) (auto intro: B_submit)
  qed
qed

end

text \<open>A relation that the start of a dispatch session respects too holds for every message.\<close>

locale message_relation = bridge_relation B E
  for B :: "bridge \<Rightarrow> bridge \<Rightarrow> bool" and E :: "('srp, 'h, bridge) env" +
  assumes B_begin: "ba_lane a = Some l \<Longrightarrow> ba_owner a = None \<Longrightarrow>
      B a (a\<lparr>ba_owner := Some (ba_fresh a), ba_fresh := Suc (ba_fresh a),
        ba_lane := Some (case lane_activate (ba_fresh a) connection_owner l of Inl e \<Rightarrow> l | Inr l1 \<Rightarrow> l1)\<rparr>)"
begin

lemma rel_begin: "st_rel (on_app B) (begin_dispatch_session :: ('srp, 'h, unit) br)"
  unfolding st_rel_def
proof (intro allI impI)
  fix s :: "('srp, 'h, bridge) service" and r s' assume run: "begin_dispatch_session s = (r, s')"
  let ?a = "release_owner (sv_app s)"
  have none: "ba_owner ?a = None" by (simp add: release_owner_def end_dispatch_session_def split: option.split)
  have "sv_app s' = (case ba_lane ?a of None \<Rightarrow> ?a
      | Some l \<Rightarrow> ?a\<lparr>ba_owner := Some (ba_fresh ?a), ba_fresh := Suc (ba_fresh ?a),
          ba_lane := Some (case lane_activate (ba_fresh ?a) connection_owner l of Inl e \<Rightarrow> l | Inr l1 \<Rightarrow> l1)\<rparr>)"
    using run by (auto simp: begin_dispatch_session_def app_set_def app_get_def st_eval connection_owner_def split: option.splits sum.splits)
  then have "B ?a (sv_app s')" using B_begin [OF _ none] B_refl by (auto split: option.split)
  then show "on_app B s s'" using B_trans [OF B_release] by (simp add: on_app_def)
qed

end

sublocale message_relation \<subseteq> handlers: handler_relation "on_app B" E
proof
  fix f :: "session \<Rightarrow> session" assume "\<And>x. text_fine x \<Longrightarrow> text_fine (f x)"
  then show "st_rel (on_app B) (session_set f :: ('srp, 'h, unit) br)"
    unfolding session_set_def by (intro rel_app_set B_session)
next
  fix g :: "device \<Rightarrow> device" assume "\<And>d. volume_fine d \<Longrightarrow> volume_fine (g d)"
  then show "st_rel (on_app B) (device_set g :: ('srp, 'h, unit) br)"
    unfolding device_set_def by (intro rel_app_set B_device)
next
  fix key owner
  show "st_rel (on_app B) (app_set (\<lambda>a. case repeater_start key (ba_repeater a) of (n, ev, rp) \<Rightarrow>
     let a2 = notify_stops ev (a\<lparr>ba_repeater := rp\<rparr>)
     in case owner of None \<Rightarrow> a2
        | Some o1 \<Rightarrow> (if map_of (ba_repeat_owners a2) n = None
             then a2\<lparr>ba_repeat_owners := AList.update n o1 (ba_repeat_owners a2)\<rparr> else a2)) :: ('srp, 'h, unit) br)"
    by (rule rel_app_set) (auto simp: Let_def split_beta intro: B_repeater B_trans [OF B_repeater B_fields(3)] split: option.split)
  show "st_rel (on_app B) (app_set (\<lambda>a. case repeater_stop key (ba_repeater a) of (n, ev, rp) \<Rightarrow> notify_stops ev (a\<lparr>ba_repeater := rp\<rparr>)) :: ('srp, 'h, unit) br)"
    by (rule rel_app_set) (simp add: split_beta B_repeater)
qed (simp_all add: rel_send rel_malformed rel_submit rel_begin rel_app_set B_release B_invalidate B_fields)

text \<open>And so by everything a chunk leads to.\<close>

sublocale message_relation \<subseteq> chunks: frame_relation "on_app B" "bridge_env T E"
proof
  have env: "bridge_env T E = with_message E (handle_message T E)"
  proof -
    have "E\<lparr>en_app := bridge_hooks\<rparr> = E" using hooks by (cases E) simp
    then show ?thesis by (simp add: bridge_env_def)
  qed
  fix s p t header data X H cfg d
  show "on_app B s (s\<lparr>sv_parser := p\<rparr>)" by (simp add: same_app)
  show "st_rel (on_app B) (close_connection (bridge_env T E))" "st_rel (on_app B) (malformed_frame (bridge_env T E))"
    "st_rel (on_app B) (open_frame (bridge_env T E) t header data)"
    "st_rel (on_app B) (auth_call (bridge_env T E) (handle_auth_frame X H cfg t d))"
    "st_rel (on_app B) (ap_message (en_app (bridge_env T E)) d)"
    by (simp_all add: env message_free rel_close rel_malformed rel_open rel_auth handlers.rel_message)
qed

subsection \<open>Work on the shared lane, and sizes\<close>

text \<open>The work that waits on the lane for an owner, in its order.\<close>

definition waiting_for :: "nat \<Rightarrow> nat lane option \<Rightarrow> nat queued list" where
  "waiting_for owner lane1 = (case lane1 of None \<Rightarrow> [] | Some l \<Rightarrow> filter (\<lambda>q. q_owner q = owner) (ln_queue l))"

text \<open>
  The dispatch owners of the connection: the one it has, and those it gets with the message. The work
  of every other one may at most lose items.
\<close>

definition own_owners :: "bridge \<Rightarrow> bridge \<Rightarrow> nat set" where
  "own_owners a a' = set_option (ba_owner a) \<union> {ba_fresh a..<ba_fresh a'}"

definition orderly :: "bridge \<Rightarrow> bridge \<Rightarrow> bool" where
  "orderly a a' \<longleftrightarrow>
     (text_fine (ba_session a) \<longrightarrow> text_fine (ba_session a')) \<and> (volume_fine (ba_device a) \<longrightarrow> volume_fine (ba_device a'))
     \<and> ba_fresh a \<le> ba_fresh a' \<and> set_option (ba_owner a') \<subseteq> own_owners a a'
     \<and> (\<forall>owner. owner \<notin> own_owners a a' \<longrightarrow> subseq (waiting_for owner (ba_lane a')) (waiting_for owner (ba_lane a)))"

lemma orderly_trans:
  assumes st: "orderly s t" and tu: "orderly t u" shows "orderly s u"
proof -
  have f: "ba_fresh s \<le> ba_fresh t" "ba_fresh t \<le> ba_fresh u" using st tu by (auto simp: orderly_def)
  then have new: "{ba_fresh s..<ba_fresh u} = {ba_fresh s..<ba_fresh t} \<union> {ba_fresh t..<ba_fresh u}" by auto
  have "set_option (ba_owner t) \<subseteq> own_owners s t" "set_option (ba_owner u) \<subseteq> own_owners t u" using st tu by (simp_all add: orderly_def)
  then have own: "own_owners s t \<subseteq> own_owners s u" "own_owners t u \<subseteq> own_owners s u" unfolding own_owners_def new by auto
  have "subseq (waiting_for owner (ba_lane u)) (waiting_for owner (ba_lane s))" if "owner \<notin> own_owners s u" for owner
    using that own st tu subseq_order.order_trans unfolding orderly_def by blast
  then show ?thesis using st tu own f by (auto simp: orderly_def)
qed

lemma fold_cancel_completion_queue: "ln_queue (fold cancel_completion xs l) = ln_queue l"
  by simp

lemma discard_queue: "ln_queue (snd (discard_queued P l)) = filter (\<lambda>q. \<not> P q) (ln_queue l)"
  by (simp add: discard_queued_def)

lemma cancel_current_queue: "ln_queue (cancel_current w l) = ln_queue l"
  by (simp add: cancel_current_def Let_def split: option.split)

lemma cancelled_queue:
  "ln_queue (cancel_owner owner l) = filter (\<lambda>q. q_owner q \<noteq> owner) (ln_queue l)"
  "ln_queue (cancel_generation w owner g l) = filter (\<lambda>q. \<not> (q_owner q = owner \<and> q_generation q = Some g)) (ln_queue l)"
  by (auto simp: cancel_owner_def deactivate_queue cancel_generation_def Let_def discard_queue cancel_current_queue split_beta)

text \<open>Removing items, from a lane or with its owner.\<close>

lemma fewer_waiting: "ln_queue l' = filter P (ln_queue l) \<Longrightarrow> subseq (waiting_for owner (Some l')) (waiting_for owner (Some l))"
  by (simp only: waiting_for_def option.case) (intro subseq_filter subseq_filter_left)

lemma authorized_waiting:
  assumes "owner_is_authorized w ans owner1 l = (ok, ev, l1)"
  shows "subseq (waiting_for owner (Some l1)) (waiting_for owner (Some l))"
proof (cases "l1 = l")
  case False
  then obtain n where "l1 = snd (deactivate_owner w n owner1 l)"
    using assms by (auto simp: owner_is_authorized_def split: option.splits if_splits prod.splits) (metis snd_conv)
  then show ?thesis using fewer_waiting [OF deactivate_queue] by simp
qed simp

text \<open>A submission touches the work of its own owner only: a new item, or the text of its last one.\<close>

lemma submit_waiting:
  assumes "lane_submit owner1 c ans l = (r, ev, l')" "owner \<noteq> owner1"
  shows "subseq (waiting_for owner (Some l')) (waiting_for owner (Some l))"
proof -
  obtain ok ev1 l1 where auth: "owner_is_authorized False ans owner1 l = (ok, ev1, l1)" by (metis prod_cases3)
  have "ln_queue l' = ln_queue l \<or> ln_queue l' = ln_queue l1
      \<or> ln_queue l1 \<noteq> [] \<and> q_owner (last (ln_queue l1)) = owner1 \<and> ln_queue l' = butlast (ln_queue l1) @ [(last (ln_queue l1))\<lparr>q_command := c\<rparr>]
      \<or> (\<exists>q. q_owner q = owner1 \<and> ln_queue l' = ln_queue l1 @ [q])"
    using assms(1) auth by (simp add: lane_submit_def lane_enqueue_def split: if_splits) auto
  then have "waiting_for owner (Some l') \<in> {waiting_for owner (Some l), waiting_for owner (Some l1)}"
  proof (elim disjE conjE exE)
    assume last: "ln_queue l1 \<noteq> []" "q_owner (last (ln_queue l1)) = owner1"
      and l': "ln_queue l' = butlast (ln_queue l1) @ [(last (ln_queue l1))\<lparr>q_command := c\<rparr>]"
    have "filter (\<lambda>q. q_owner q = owner) (ln_queue l1) = filter (\<lambda>q. q_owner q = owner) (butlast (ln_queue l1) @ [last (ln_queue l1)])"
      using last(1) by simp
    then show ?thesis using last(2) l' assms(2) by (simp add: waiting_for_def)
  qed (use assms(2) in \<open>auto simp: waiting_for_def\<close>)
  then show ?thesis using authorized_waiting [OF auth] by auto
qed

lemma activated_queue: "lane_activate owner reg l = Inr l1 \<Longrightarrow> ln_queue l1 = ln_queue l"
  by (auto simp: lane_activate_def lane_start_def rbind_def split: if_splits)

interpretation orderly_service: message_relation orderly "E0\<lparr>en_app := bridge_hooks\<rparr>" for E0
proof
  fix a :: bridge and l l1 :: "nat lane" and owner c ans ok ev
  assume lane: "ba_lane a = Some l"
  show "orderly a (a\<lparr>ba_lane := Some (cancel_generation False owner n l)\<rparr>)" for n
    using fewer_waiting [OF cancelled_queue(2)] lane by (simp add: orderly_def own_owners_def)
  show "orderly a (a\<lparr>ba_owner := Some (ba_fresh a), ba_fresh := Suc (ba_fresh a),
        ba_lane := Some (case lane_activate (ba_fresh a) connection_owner l of Inl e \<Rightarrow> l | Inr l1 \<Rightarrow> l1)\<rparr>)"
    using lane by (auto simp: orderly_def own_owners_def waiting_for_def activated_queue split: sum.splits)
  assume "ba_owner a = Some owner" "lane_submit owner c ans l = (ok, ev, l1)"
  then show "orderly a (a\<lparr>ba_lane := Some l1\<rparr>)"
    using lane submit_waiting [of owner c ans l ok ev l1] by (auto simp: orderly_def own_owners_def)
next
  show "orderly a (end_dispatch_session a)" for a
    using fewer_waiting [OF cancelled_queue(1)]
    by (auto simp: orderly_def own_owners_def end_dispatch_session_def split: option.split)
qed (simp, simp add: orderly_def own_owners_def, rule orderly_trans, assumption+, simp_all add: orderly_def own_owners_def)

text \<open>C10: Whatever bytes a client sends, and whatever frames, messages and refusals they lead to: when the chunk has been
  handled, the work that waits on the shared lane for any dispatch owner other than the connection's own and those it
  registered meanwhile is a subsequence of what waited before, so that none was added, changed or reordered; the
  connection's owner is one of its own or none, the text of its field is at most 1024 characters and the mirrored volume
  is between 0 and 100.\<close>

theorem chunk_orderly:
  assumes "text_fine (ba_session (sv_app s))" "volume_fine (ba_device (sv_app s))"
    and "a = sv_app s" "a' = sv_app (data_received (bridge_env T E0) data s)"
  shows "text_fine (ba_session a') \<and> volume_fine (ba_device a') \<and> ba_fresh a \<le> ba_fresh a'
    \<and> set_option (ba_owner a') \<subseteq> own_owners a a'
    \<and> (\<forall>owner. owner \<notin> own_owners a a' \<longrightarrow> subseq (waiting_for owner (ba_lane a')) (waiting_for owner (ba_lane a)))"
  using orderly_service.chunks.rel_received [of s T E0 data] assms by (simp add: on_app_def orderly_def bridge_env_def)

subsection \<open>Witnesses\<close>

definition sample_library :: text_library where
  "sample_library = \<lparr>tx_loads = (\<lambda>_. Inl ValueError), tx_focus = (\<lambda>_ _. []), tx_str = (\<lambda>_. []), tx_double = (\<lambda>_. 0)\<rparr>"

definition sample_bridge :: bridge where
  "sample_bridge = new_bridge 7 default_gestures default_hold new_device None 0 0"

definition sample_service :: "(nat, unit, bridge) service" where
  "sample_service = new_service 7 None () sample_bridge"

theorem connection_invariant_witness:
  "conn_inv (bridge_env sample_library (sample_env bridge_hooks))
     (connection_made (bridge_env sample_library (sample_env bridge_hooks)) (Some ''10.0.0.2'') sample_service)
   \<and> sv_transport (connection_made (bridge_env sample_library (sample_env bridge_hooks)) (Some ''10.0.0.2'') sample_service) = Live"
proof -
  let ?E = "bridge_env sample_library (sample_env bridge_hooks)"
  have "conn_reach ?E sample_service" unfolding sample_service_def by (rule fresh) (simp add: membership_def)
  moreover have "conn_step ?E (Some (Made (Some ''10.0.0.2''))) sample_service (connection_made ?E (Some ''10.0.0.2'') sample_service)"
    by (rule made) (simp_all add: sample_service_def new_service_def)
  ultimately have "conn_reach ?E (connection_made ?E (Some ''10.0.0.2'') sample_service)" by (rule stepped)
  from connection_invariant [OF this] show ?thesis
    by (simp add: connection_made_def Let_def sample_service_def new_service_def)
qed

end
