(* ===== verification/Release.thy ===== *)
theory Release
  imports Ownership
begin

text \<open>
  What closing leaves behind. A connection of the bridge is closed in the middle of a chunk: by a frame,
  by the count of malformed frames, or by a submission whose client is no longer authorized. Shown: once
  it is closing it has no dispatch owner, and it gets none back, as long as the authorization check does
  not take a refusal back while the chunk lasts. The condition is needed: a handler that raises after it
  closed the connection is answered as a malformed frame, and the next frame of the chunk is handled.
\<close>

subsection \<open>Owners and refusals\<close>

definition owned :: "bridge \<Rightarrow> nat set" where "owned a = set_option (ba_owner a)"

lemma released_idle: "owned (release_owner a) = {}"
  by (simp add: owned_def release_owner_def end_dispatch_session_def split: option.split)

text \<open>Asking the check again, with nothing in between, does not take a refusal back.\<close>

definition refusals_last :: "('srp, 'h, 'a) env \<Rightarrow> bool" where
  "refusals_last E \<longleftrightarrow> (\<forall>source client key h. fst (ho_authorizes (en_host E source) client key h) \<noteq> Inr True
     \<longrightarrow> fst (ho_authorizes (en_host E source) client key (snd (ho_authorizes (en_host E source) client key h))) \<noteq> Inr True)"

definition refused :: "('srp, 'h, 'a) env \<Rightarrow> ('srp, 'h, 'a) service \<Rightarrow> bool" where
  "refused E s \<longleftrightarrow> fst (check_authorized E s) = Inr False"

lemma check_run:
  "check_authorized E s =
     (if \<not> enforced (en_config E) then (Inr True, s)
      else case (au_client (sv_auth s), au_client_key (sv_auth s)) of
        (Some client, Some key) \<Rightarrow>
          (if client = [] then (Inr False, s)
           else (Inr (fst (ho_authorizes (en_host E (sv_source s)) client key (sv_host s)) = Inr True),
                 s\<lparr>sv_host := snd (ho_authorizes (en_host E (sv_source s)) client key (sv_host s))\<rparr>))
      | _ \<Rightarrow> (Inr False, s))"
  by (cases "sv_cipher s")
    (auto simp: check_authorized_def auth_call_def verified_client_is_authorized_def peer_of_def am_eval st_eval
      split: option.split prod.split sum.split)

lemma refused_same: "sv_auth s' = sv_auth s \<Longrightarrow> sv_source s' = sv_source s \<Longrightarrow> sv_host s' = sv_host s \<Longrightarrow> refused E s' \<longleftrightarrow> refused E s"
  by (simp add: refused_def check_run split: option.split)

lemma refused_again:
  assumes "refusals_last E" "check_authorized E s = (Inr False, s')"
  shows "refused E s'"
  using assms by (auto simp: refused_def check_run refusals_last_def split: option.splits if_splits)

subsection \<open>A closed connection owns nothing\<close>

definition settled :: "('srp, 'h, bridge) service \<Rightarrow> bool" where
  "settled s \<longleftrightarrow> sv_transport s = Live \<or> owned (sv_app s) = {}"

text \<open>Inside the handling of a frame; between two frames of a chunk.\<close>

definition closing :: "('srp, 'h, bridge) env \<Rightarrow> ('srp, 'h, bridge) service \<Rightarrow> bool" where
  "closing E s \<longleftrightarrow> sv_transport s = Live \<or> owned (sv_app s) = {} \<and> (refused E s \<or> MALFORMED_FRAME_LIMIT \<le> sv_malformed s)"

definition between_frames :: "('srp, 'h, bridge) env \<Rightarrow> ('srp, 'h, bridge) service \<Rightarrow> bool" where
  "between_frames E s \<longleftrightarrow> sv_transport s = Live \<or> owned (sv_app s) = {} \<and> sv_cipher s \<noteq> None \<and> refused E s"

definition releasing :: "('srp, 'h, bridge) env \<Rightarrow> ('srp, 'h, bridge) service \<Rightarrow> ('srp, 'h, bridge) service \<Rightarrow> bool" where
  "releasing E s s' \<longleftrightarrow> (en_app E = bridge_hooks \<and> refusals_last E \<longrightarrow>
     owned (sv_app s') \<subseteq> owned (sv_app s) \<and> (closing E s \<longrightarrow> closing E s'))"

interpretation rl: step_preorder "releasing E" for E
  by unfold_locales (auto simp: releasing_def)

lemma closing_settled: "closing E s \<Longrightarrow> settled s"
  by (auto simp: closing_def settled_def)

lemma releasing_settled:
  "releasing E s s' \<Longrightarrow> en_app E = bridge_hooks \<Longrightarrow> refusals_last E \<Longrightarrow> settled s \<Longrightarrow> settled s'"
  by (auto simp: releasing_def settled_def closing_def)

text \<open>Steps that do not close, ask or count.\<close>

lemma releasing_same:
  assumes "sv_auth s' = sv_auth s" "sv_source s' = sv_source s" "sv_host s' = sv_host s" "sv_transport s' = sv_transport s"
    "sv_malformed s \<le> sv_malformed s'" "owned (sv_app s') \<subseteq> owned (sv_app s)"
  shows "releasing E s s'"
  using assms refused_same [OF assms(1-3), of E] by (auto simp: releasing_def closing_def)

lemma releasing_app: "(\<And>a. owned (f a) \<subseteq> owned a) \<Longrightarrow> st_rel (releasing E) (app_set f)"
  unfolding app_set_def by (rule rl.rel_modify) (simp add: releasing_same)

lemma releasing_send: "st_rel (releasing E) (send_to_client E t d)"
proof -
  have "st_rel (releasing E) (cipher_seal A data aad)" for A data aad
    by (rule st_relI) (auto simp: cipher_seal_def intro!: releasing_same split: option.split prod.split)
  moreover have "st_rel (releasing E) (write_transport b)" for b
    unfolding write_transport_def by (rule rl.rel_modify) (simp add: releasing_same)
  ultimately show ?thesis unfolding send_to_client_def Let_def by (intro rl.rel_rules)
qed

lemma releasing_check: "st_rel (releasing E) (check_authorized E)" for E :: "('srp, 'h, bridge) env"
proof (rule st_relI)
  fix s :: "('srp, 'h, bridge) service"
  obtain b h where run: "check_authorized E s = (Inr b, s\<lparr>sv_host := h\<rparr>)" by (rule check_authorized_run)
  have "refused E (s\<lparr>sv_host := h\<rparr>)" if "refusals_last E" "refused E s"
    using refused_again [OF that(1), of s] that(2) run by (simp add: refused_def)
  then show "releasing E s (snd (check_authorized E s))" using run by (auto simp: releasing_def closing_def)
qed

text \<open>Closing, after the cause.\<close>

lemma closed_run:
  assumes "en_app E = bridge_hooks" "refused E s \<or> MALFORMED_FRAME_LIMIT \<le> sv_malformed s"
  shows "closing E (snd (close_connection E s)) \<and> owned (sv_app (snd (close_connection E s))) = {}"
proof -
  let ?s = "snd (close_connection E s)"
  have "refused E ?s \<longleftrightarrow> refused E s" by (rule refused_same) (simp_all add: close_connection_def st_modify_def)
  then show ?thesis
    using assms by (simp add: close_connection_def st_modify_def bridge_hooks_def released_idle closing_def)
qed

lemma releasing_malformed: "st_rel (releasing E) (malformed_frame E)" for E :: "('srp, 'h, bridge) env"
proof (rule st_relI)
  fix s :: "('srp, 'h, bridge) service"
  let ?s = "s\<lparr>sv_malformed := Suc (sv_malformed s)\<rparr>"
  show "releasing E s (snd (malformed_frame E s))"
  proof (cases "MALFORMED_FRAME_LIMIT \<le> Suc (sv_malformed s)")
    case True
    then show ?thesis using closed_run [of E ?s] by (auto simp: malformed_run releasing_def)
  qed (simp add: malformed_run releasing_same)
qed

text \<open>A lane operation asks, and closes on a refusal only.\<close>

lemma refusal_only:
  "owner_is_authorized w ans owner l = (ok, ev, l1) \<Longrightarrow> ev \<noteq> [] \<Longrightarrow> ans \<noteq> Some True"
  "lane_enqueue owner c gen compl ans l = (ok, ev, l1) \<Longrightarrow> ev \<noteq> [] \<Longrightarrow> ans \<noteq> Some True \<and> \<not> (ln_stopping l \<or> map_of (ln_owners l) owner = None)"
proof -
  show auth: "owner_is_authorized w ans owner l = (ok, ev, l1) \<Longrightarrow> ev \<noteq> [] \<Longrightarrow> ans \<noteq> Some True" for w ans owner l ok ev l1
    by (auto simp: owner_is_authorized_def split: option.splits if_splits)
  show "lane_enqueue owner c gen compl ans l = (ok, ev, l1) \<Longrightarrow> ev \<noteq> [] \<Longrightarrow> ans \<noteq> Some True \<and> \<not> (ln_stopping l \<or> map_of (ln_owners l) owner = None)"
    using auth [of False ans owner l] by (auto simp: lane_enqueue_def split: if_splits prod.splits)
qed

lemma releasing_lane:
  fixes E :: "('srp, 'h, bridge) env"
  assumes "\<And>ans r ev l1. f ans l = (r, ev, l1) \<Longrightarrow> ev \<noteq> [] \<Longrightarrow> ans \<noteq> Some True \<and> \<not> (ln_stopping l \<or> map_of (ln_owners l) owner = None)"
  shows "st_rel (releasing E) (with_lane E owner f l)"
proof (cases "ln_stopping l \<or> map_of (ln_owners l) owner = None")
  case True
  obtain r ev l1 where f: "f None l = (r, ev, l1)" by (metis prod_cases3)
  then have "ev = []" using assms [OF f] True by blast
  then have "with_lane E owner f l = st_then (app_set (\<lambda>a. a\<lparr>ba_lane := Some l1\<rparr>)) (st_return r)"
    using f True by (intro ext) (simp add: with_lane_def st_eval app_set_def)
  then show ?thesis by (auto intro!: rl.rel_then rl.rel_return releasing_app simp: owned_def)
next
  case False
  have eq: "with_lane E owner f l = st_bind (st_bind (check_authorized E) (\<lambda>ok. st_return (Some ok))) (\<lambda>ans. case f ans l of (r, ev, l1) \<Rightarrow>
          st_then (app_set (\<lambda>a. a\<lparr>ba_lane := Some l1\<rparr>)) (st_then (if ev = [] then st_return () else close_connection E) (st_return r)))"
    unfolding with_lane_def if_not_P [OF False] ..
  show ?thesis
  proof (rule st_relI)
    fix s :: "('srp, 'h, bridge) service"
    obtain ok h where ask: "check_authorized E s = (Inr ok, s\<lparr>sv_host := h\<rparr>)" by (rule check_authorized_run)
    obtain r ev l1 where f: "f (Some ok) l = (r, ev, l1)" by (metis prod_cases3)
    let ?s = "s\<lparr>sv_host := h, sv_app := (sv_app s)\<lparr>ba_lane := Some l1\<rparr>\<rparr>"
    have end1: "snd (with_lane E owner f l s) = (if ev = [] then ?s else snd (close_connection E ?s))"
      unfolding eq using ask f by (simp add: st_eval app_set_def close_connection_def)
    have asked: "releasing E s ?s"
      using rl.R_trans [OF st_relD [OF releasing_check ask] releasing_same [of ?s "s\<lparr>sv_host := h\<rparr>"]] by (simp add: owned_def)
    have "releasing E s (snd (close_connection E ?s))" if "ev \<noteq> []"
    proof -
      have "ok = False" using assms [OF f that] by simp
      then have "refused E ?s" if "refusals_last E"
        using refused_again [OF that, of s] ask refused_same [of ?s "s\<lparr>sv_host := h\<rparr>" E] by simp
      then show ?thesis using closed_run [of E ?s] by (auto simp: releasing_def)
    qed
    then show "releasing E s (snd (with_lane E owner f l s))" using end1 asked by simp
  qed
qed

lemma releasing_submit: "st_rel (releasing E) (submit_dispatch E c)"
proof -
  have "st_rel (releasing E) (case (x, y) of (Some l, Some owner) \<Rightarrow> with_lane E owner (lane_submit owner c) l | _ \<Rightarrow> st_return False)" for x y
    by (cases x; cases y) (auto intro!: releasing_lane rl.rel_return simp: lane_submit_def dest: refusal_only(2))
  then show ?thesis unfolding submit_dispatch_def app_get_def by (intro rl.rel_get)
qed

text \<open>What the bridge does to itself.\<close>

lemma owner_stops [simp]: "ba_owner (notify_stops ev a) = ba_owner a"
  by (induction ev a rule: notify_stops.induct) (simp_all add: cancel_repeat_generation_def Let_def split: option.split)

lemma owned_parts:
  "owned (release_owner a) \<subseteq> owned a" "owned (invalidate_repeaters a) \<subseteq> owned a" "owned (notify_stops ev (a\<lparr>ba_repeater := rp\<rparr>)) \<subseteq> owned a"
  "owned (a\<lparr>ba_session := x\<rparr>) = owned a" "owned (a\<lparr>ba_device := d\<rparr>) = owned a" "owned (a\<lparr>ba_relay := r\<rparr>) = owned a"
  by (simp_all add: released_idle) (simp_all add: owned_def invalidate_repeaters_def split_beta)

interpretation releasing_requests: request_relation "releasing E" E for E
proof
  fix f :: "session \<Rightarrow> session" and g :: "device \<Rightarrow> device"
  show "st_rel (releasing E) (session_set f)" "st_rel (releasing E) (device_set g)"
    unfolding session_set_def device_set_def by (intro releasing_app; simp add: owned_parts)+
next
  fix key owner
  show "st_rel (releasing E) (app_set (\<lambda>a. case repeater_start key (ba_repeater a) of (n, ev, rp) \<Rightarrow>
     let a2 = notify_stops ev (a\<lparr>ba_repeater := rp\<rparr>)
     in case owner of None \<Rightarrow> a2
        | Some o1 \<Rightarrow> (if map_of (ba_repeat_owners a2) n = None
             then a2\<lparr>ba_repeat_owners := AList.update n o1 (ba_repeat_owners a2)\<rparr> else a2)))"
    by (rule releasing_app) (simp add: Let_def split_beta owned_def split: option.split)
  show "st_rel (releasing E) (app_set (\<lambda>a. case repeater_stop key (ba_repeater a) of (n, ev, rp) \<Rightarrow> notify_stops ev (a\<lparr>ba_repeater := rp\<rparr>)))"
    by (rule releasing_app) (simp add: split_beta owned_def)
qed (simp_all add: releasing_send releasing_malformed releasing_submit releasing_app owned_parts)

subsection \<open>A chunk\<close>

text \<open>A message is handled on a live connection, and what starts a session comes first.\<close>

lemma begin_live: "begin_dispatch_session s = (x, s1) \<Longrightarrow> sv_transport s1 = sv_transport s"
  by (auto simp: begin_dispatch_session_def app_set_def app_get_def st_eval split: option.splits sum.splits)

lemma message_closing:
  assumes "en_app E = bridge_hooks" "refusals_last E" "sv_transport s = Live" "handle_message T E m s = (r, s')"
  shows "closing E s'"
proof -
  have live: "closing E s1" if "sv_transport s1 = Live" for s1 using that by (simp add: closing_def)
  show ?thesis
  proof (cases rule: releasing_requests.message_cases [of E T m, case_names request start])
    case request
    then show ?thesis using st_relD [OF request assms(4)] live [OF assms(3)] assms(1,2) by (simp add: releasing_def)
  next
    case start
    obtain x s1 where b: "begin_dispatch_session s = (x, s1)" by fastforce
    have "releasing E s1 s'" using releasing_requests.rel_sessions(1) [OF b] assms(4) start by simp
    then show ?thesis using live [of s1] begin_live [OF b] assms(1-3) by (simp add: releasing_def)
  qed
qed

text \<open>How the handling of a frame ends.\<close>

definition frame_ok :: "('srp, 'h, bridge) env \<Rightarrow> bool result \<Rightarrow> ('srp, 'h, bridge) service \<Rightarrow> bool" where
  "frame_ok E r s \<longleftrightarrow> (if r = Inr True then between_frames E s else settled s)"

lemma live_ok [simp]: "sv_transport s = Live \<Longrightarrow> between_frames E s" "sv_transport s = Live \<Longrightarrow> frame_ok E r s"
  by (simp_all add: between_frames_def frame_ok_def settled_def)

lemma stop_ok: "en_app E = bridge_hooks \<Longrightarrow> close_and_stop E s = (r, s') \<Longrightarrow> r = Inr False \<and> frame_ok E r s'"
  by (auto simp: close_and_stop_def close_connection_def st_eval bridge_hooks_def frame_ok_def settled_def released_idle)

lemma malformed_ok:
  assumes "en_app E = bridge_hooks" "closing E s" "sv_transport s = Live \<or> sv_cipher s \<noteq> None" "malformed_frame E s = (r, s')"
  shows "frame_ok E r s'"
proof (cases "MALFORMED_FRAME_LIMIT \<le> Suc (sv_malformed s)")
  case True
  then show ?thesis
    using assms by (auto simp: malformed_run close_connection_def st_modify_def bridge_hooks_def frame_ok_def settled_def released_idle)
next
  case False
  let ?s = "s\<lparr>sv_malformed := Suc (sv_malformed s)\<rparr>"
  have "refused E ?s \<longleftrightarrow> refused E s" by (rule refused_same) simp_all
  then show ?thesis using False assms by (auto simp: malformed_run closing_def frame_ok_def between_frames_def)
qed

lemma open_ok:
  assumes E: "en_app E = bridge_hooks" and s: "between_frames E s" and run: "open_frame E t header data s = (r, s1)"
  shows "(\<exists>body. r = Inr (Inr body) \<and> sv_transport s1 = Live) \<or> (\<exists>b. r = Inr (Inl b) \<and> frame_ok E (Inr b) s1)"
proof -
  have stop: "?thesis" if "st_bind (close_and_stop E) (\<lambda>b. st_return (Inl b)) s2 = (r, s1)" for s2
  proof -
    obtain r2 s3 where c: "close_and_stop E s2 = (r2, s3)" by fastforce
    show ?thesis using stop_ok [OF E c] c that by (auto simp: st_eval)
  qed
  obtain ok h where ask: "check_authorized E s = (Inr ok, s\<lparr>sv_host := h\<rparr>)" by (rule check_authorized_run)
  have live: "sv_transport s = Live" if "ok" using s that ask by (auto simp: between_frames_def refused_def)
  have none: "sv_transport s = Live" if "sv_cipher s = None" using s that by (auto simp: between_frames_def)
  consider (clear) "is_auth_frame t \<and> (sv_cipher s \<noteq> None \<or> au_phase (sv_auth s) = Encrypted)
       \<or> MAX_APPLICATION_PAYLOAD < length data \<and> (sv_cipher s = None \<or> is_auth_frame t)"
    | (sealed) "\<not> (is_auth_frame t \<and> (sv_cipher s \<noteq> None \<or> au_phase (sv_auth s) = Encrypted)
       \<or> MAX_APPLICATION_PAYLOAD < length data \<and> (sv_cipher s = None \<or> is_auth_frame t))" "sv_cipher s \<noteq> None \<and> \<not> is_auth_frame t"
    | (rest) "\<not> (is_auth_frame t \<and> (sv_cipher s \<noteq> None \<or> au_phase (sv_auth s) = Encrypted)
       \<or> MAX_APPLICATION_PAYLOAD < length data \<and> (sv_cipher s = None \<or> is_auth_frame t))" "\<not> (sv_cipher s \<noteq> None \<and> \<not> is_auth_frame t)"
    by blast
  then show ?thesis
  proof cases
    case clear
    then have "st_bind (close_and_stop E) (\<lambda>b. st_return (Inl b)) s = (r, s1)" using run by (simp only: open_frame_def st_get_def if_P)
    then show ?thesis by (rule stop)
  next
    case rest
    then have "r = Inr (Inr data)" "s1 = s" using run by (auto simp: open_frame_def st_eval)
    then show ?thesis using rest none by blast
  next
    case sealed
    let ?s = "s\<lparr>sv_host := h\<rparr>"
    have body: "(if \<not> ok then st_bind (close_and_stop E) (\<lambda>b. st_return (Inl b))
         else if t = FT_NoOp \<and> data = [] then st_get (\<lambda>s. st_return (Inl (still_open s)))
         else st_handle (cipher_open (aead.truncate (en_crypto E)) data header)
           (\<lambda>_. st_bind (close_and_stop E) (\<lambda>b. st_return (Inl b))) (\<lambda>body. st_return (Inr body))) ?s = (r, s1)"
      using run
      by (simp only: open_frame_def st_get_def if_not_P [OF sealed(1)] if_P [OF sealed(2)]
          st_bind_def [of "check_authorized E"] st_handle_def [of "check_authorized E"] ask prod.case sum.case)
    show ?thesis
    proof (cases "ok \<and> \<not> (t = FT_NoOp \<and> data = [])")
      case True
      obtain plain s2 where opened: "cipher_open (aead.truncate (en_crypto E)) data header ?s = (plain, s2)" by fastforce
      then have "sv_transport s2 = Live" using True live by (auto simp: cipher_open_def split: option.splits prod.splits)
      moreover have "(case plain of Inl e \<Rightarrow> st_bind (close_and_stop E) (\<lambda>b. st_return (Inl b)) s2 | Inr y \<Rightarrow> (Inr (Inr y), s2)) = (r, s1)"
        using body True opened by (cases plain) (simp_all add: st_handle_def st_return_def)
      ultimately show ?thesis using stop [of s2] by (cases plain) auto
    next
      case no_payload: False
      show ?thesis
      proof (cases ok)
        case True
        then have "r = Inr (Inl (still_open ?s))" "s1 = ?s" using no_payload body by (auto simp: st_get_def st_return_def)
        then show ?thesis using live [OF True] by simp
      next
        case False
        then show ?thesis using body stop [of ?s] by simp
      qed
    qed
  qed
qed

text \<open>The handshake keeps the connection open.\<close>

interpretation still: step_preorder "\<lambda>s s'. sv_transport s' = sv_transport s"
  by unfold_locales auto

lemma auth_live: "st_rel (\<lambda>s s'. sv_transport s' = sv_transport s) (auth_call E m)"
proof (rule st_relI)
  fix s :: "('a, 'b, 'c) service"
  have send: "st_rel (\<lambda>s s'. sv_transport s' = sv_transport s) (send_to_client E t d)" for t d
  proof -
    have "st_rel (\<lambda>s s'. sv_transport s' = sv_transport s) (cipher_seal A data aad :: ('a, 'b, 'c, bytes) sv)" for A data aad
      by (rule st_relI) (auto simp: cipher_seal_def split: option.split prod.split)
    moreover have "st_rel (\<lambda>s s'. sv_transport s' = sv_transport s) (write_transport b :: ('a, 'b, 'c, unit) sv)" for b
      unfolding write_transport_def by (rule still.rel_modify) simp
    ultimately show ?thesis unfolding send_to_client_def Let_def by (intro still.rel_rules)
  qed
  obtain r p where m: "m (peer_of s) = (r, p)" by fastforce
  let ?s = "s\<lparr>sv_auth := pe_auth p, sv_host := pe_host p\<rparr>"
  obtain r1 s1 where sent: "st_for (\<lambda>(t, d). send_to_client E t d) (pe_sent p) ?s = (r1, s1)" by fastforce
  have "st_rel (\<lambda>s s'. sv_transport s' = sv_transport s) (st_for (\<lambda>(t, d). send_to_client E t d) (pe_sent p))"
    by (rule still.rel_for) (simp add: split_beta send)
  from st_relD [OF this sent] show "sv_transport (snd (auth_call E m s)) = sv_transport s"
    using m sent by (auto simp: auth_call_def enable_encryption_def split: option.split)
qed

lemma dispatch_ok:
  assumes E: "en_app E = bridge_hooks" "refusals_last E" and live: "sv_transport s = Live"
    and run: "st_handle (dispatch_frame (with_message E (handle_message T E)) t data) (\<lambda>_. malformed_frame E) st_return s = (r, s')"
  shows "frame_ok E r s'"
proof -
  obtain d s1 where d: "dispatch_frame (with_message E (handle_message T E)) t data s = (d, s1)" by fastforce
  have malformed: "frame_ok E r2 s2" if "malformed_frame E s3 = (r2, s2)" "sv_transport s3 = Live" for s3 s2 r2
    using malformed_ok [OF E(1) _ _ that(1)] that(2) by (simp add: closing_def)
  show ?thesis
  proof (cases "is_auth_frame t \<or> sv_cipher s = None \<or> bare_response data")
    case True
    obtain ok s2 where a: "auth_call E (handle_auth_frame (en_crypto E) (en_host E (sv_source s)) (en_config E) t data) s = (ok, s2)" by fastforce
    have l2: "sv_transport s2 = Live" using st_relD [OF auth_live a] live by simp
    obtain c s3 where c: "close_and_stop E s2 = (c, s3)" by fastforce
    have m: "\<exists>r s2. malformed_frame E s = (r, s2)" by fastforce
    consider "d = Inr True" "sv_transport s1 = Live" | "d = Inr False" "settled s1" | e where "d = Inl e" "sv_transport s1 = Live"
      using True d live a l2 stop_ok [OF E(1) c] c malformed_run [of E s] malformed [of s]
      by (cases ok) (auto simp: dispatch_frame_def message_free st_eval still_open_def frame_ok_def split: if_splits)
    then show ?thesis
      using run d malformed [of s1] by cases (auto simp: st_handle_def st_return_def frame_ok_def)
  next
    case False
    obtain m s2 where m: "handle_message T E data s = (m, s2)" by fastforce
    have c2: "closing E s2" by (rule message_closing [OF E live m])
    have "tame s s2" using st_relD [OF tame_handlers.rel_message m] .
    then have kept: "sv_cipher s2 \<noteq> None" "sv_transport s2 = Live \<or> sv_transport s2 = Closing"
      using False cipher_kept_iff [of "sv_cipher s" "sv_cipher s2"] live by (auto simp: tame_def transport_kept_def)
    have out: "d = (case m of Inl e \<Rightarrow> Inl e | Inr u \<Rightarrow> Inr (still_open s2))" "s1 = s2"
      using d m False by (cases m; auto simp: dispatch_frame_def st_eval)+
    show ?thesis
    proof (cases m)
      case (Inl e)
      then show ?thesis using run d out malformed_ok [OF E(1) c2 _ ] kept(1) by (auto simp: st_handle_def)
    next
      case (Inr u)
      then show ?thesis
        using run d out kept(2) closing_settled [OF c2] by (auto simp: st_handle_def st_return_def still_open_def frame_ok_def)
    qed
  qed
qed

lemma frame_handled:
  assumes E: "en_app E = bridge_hooks" "refusals_last E" and s: "between_frames E s"
    and run: "handle_frame (with_message E (handle_message T E)) header data s = (r, s')"
  shows "frame_ok E r s'"
proof -
  have cfg: "en_config (with_message E M) = en_config E" for M by simp
  have pre: "closing E s" "sv_transport s = Live \<or> sv_cipher s \<noteq> None" using s by (auto simp: between_frames_def closing_def)
  show ?thesis
  proof (cases "frame_type_of (unat (hd header))")
    case None
    then show ?thesis using run malformed_ok [OF E(1) pre] by (simp add: handle_frame_def message_free)
  next
    case (Some t)
    obtain o1 s1 where op: "open_frame E t header data s = (o1, s1)" by fastforce
    from open_ok [OF E(1) s op] show ?thesis
    proof (elim disjE exE conjE)
      fix b assume "o1 = Inr (Inl b)" "frame_ok E (Inr b) s1"
      then show ?thesis using run Some op by (auto simp: handle_frame_def message_free st_eval)
    next
      fix body assume body: "o1 = Inr (Inr body)" and live: "sv_transport s1 = Live"
      have run1: "(if MAX_APPLICATION_PAYLOAD < length body then close_and_stop E
               else case opack_unpack (ac_depth (en_config E)) body of
                 Inl e \<Rightarrow> malformed_frame E
               | Inr (unpacked, rest) \<Rightarrow>
                   st_handle (dispatch_frame (with_message E (handle_message T E)) t unpacked) (\<lambda>_. malformed_frame E) st_return) s1 = (r, s')"
        using run [unfolded handle_frame_def message_free cfg] Some op body
        by (simp add: st_bind_def st_handle_def [of "open_frame E t header data"])
      then show ?thesis
        using stop_ok [OF E(1), of s1] malformed_ok [OF E(1), of s1] dispatch_ok [OF E live] live
        by (auto simp: closing_def split: if_splits sum.splits prod.splits)
    qed
  qed
qed

lemma parser_between [simp]: "between_frames E (s\<lparr>sv_parser := p\<rparr>) \<longleftrightarrow> between_frames E s"
  using refused_same [of "s\<lparr>sv_parser := p\<rparr>" s E] by (simp add: between_frames_def)

lemma drain_settled:
  assumes E: "en_app E = bridge_hooks" "refusals_last E" and s: "between_frames E s"
  shows "settled (drain (with_message E (handle_message T E)) p incoming s)"
  using s
proof (induction "with_message E (handle_message T E)" p incoming s rule: drain.induct)
  case (1 p incoming s)
  let ?E = "with_message E (handle_message T E)"
  obtain out p' rest where next1: "feed_next p incoming = (out, p', rest)" by (metis prod_cases3)
  let ?s = "s\<lparr>sv_parser := p'\<rparr>"
  have s: "between_frames E ?s" using "1.prems" by simp
  show ?case
  proof (cases out)
    case (Yielded f)
    obtain r s1 where run: "handle_frame ?E (frame_header f) (frame_payload f) ?s = (r, s1)" by fastforce
    have ok: "frame_ok E r s1" by (rule frame_handled [OF E s run])
    show ?thesis
    proof (cases "r = Inr True")
      case True
      have "settled (drain ?E p' rest s1)"
        by (rule "1.hyps" [OF next1 [symmetric] Yielded refl run [symmetric] True refl]) (use ok True in \<open>simp add: frame_ok_def\<close>)
      then show ?thesis using next1 Yielded run True by (simp add: drain.simps [of ?E p])
    next
      case False
      then show ?thesis
        using ok next1 Yielded run by (auto simp: drain.simps [of ?E p] frame_ok_def split: sum.splits bool.splits)
    qed
  next
    case Exhausted
    then show ?thesis using s next1 by (auto simp: drain.simps [of ?E p] between_frames_def settled_def)
  next
    case TooLarge
    then have "drain ?E p incoming s = snd (close_connection E ?s)" using next1 by (simp add: drain.simps [of ?E p] message_free)
    then show ?thesis using E(1) by (simp add: close_connection_def st_modify_def bridge_hooks_def settled_def released_idle)
  qed
qed

lemma received_settled:
  assumes "refusals_last E0" "settled s"
  shows "settled (data_received (bridge_env T E0) data s)"
proof (cases "is_connection_active s")
  case True
  have "refusals_last (E0\<lparr>en_app := bridge_hooks\<rparr>)" using assms(1) by (simp add: refusals_last_def)
  moreover have "between_frames (E0\<lparr>en_app := bridge_hooks\<rparr>) s" using True by (simp add: is_connection_active_def)
  ultimately show ?thesis unfolding data_received_def bridge_env_def if_P [OF True] by (intro drain_settled) simp_all
qed (use assms in \<open>simp add: data_received_def\<close>)

end
