(* ===== verification/System.thy ===== *)
theory System
  imports Release
begin

text \<open>
  The whole server: \<open>serve\<close>, its factory and \<open>close_server\<close> of \<^verbatim>\<open>companion/server.py\<close>,
  with the services it creates. They share the admission, the device, the dispatch lane and the stores;
  the bridge of each service keeps a copy of what is shared, refreshed when the service is given the
  control. The event loop is a step relation: connections come, receive, time out and go, repeat tasks
  resume, the lane's worker resumes, other processes change the stores, the server is shut down. Shown:
  through any interleaving the connection budgets hold, each command that waits belongs to one
  encrypted connection, and a shutdown leaves nothing behind.
\<close>

subsection \<open>A repeat task resumes\<close>

definition repeat_effect :: "('srp, 'h, bridge) env \<Rightarrow> nat \<Rightarrow> repeat_event \<Rightarrow> ('srp, 'h, unit) br" where
  "repeat_effect E k ev =
     (case ev of
        NotifyStop g \<Rightarrow> app_set (cancel_repeat_generation g)
      | SendClick key g t \<Rightarrow>
          st_handle (send_repeat_key E key g)
            (\<lambda>_. app_set (\<lambda>a. case run_resume k t None False (ba_repeater a) of (ev1, r) \<Rightarrow> notify_stops ev1 (a\<lparr>ba_repeater := r\<rparr>)))
            (\<lambda>_. st_return ()))"

text \<open>Task \<open>k\<close> of a service; \<open>sent\<close> is the outcome of the click it waited for. The bridge gives no liveness predicate.\<close>

definition resume_repeat :: "('srp, 'h, bridge) env \<Rightarrow> nat \<Rightarrow> bool \<Rightarrow> ('srp, 'h, unit) br" where
  "resume_repeat E k sent = app_get (\<lambda>a. case run_resume k (ba_now a) (Some True) sent (ba_repeater a) of (evs, r) \<Rightarrow>
     st_then (app_set (\<lambda>a. a\<lparr>ba_repeater := r\<rparr>)) (st_for (repeat_effect E k) evs))"

subsection \<open>The server\<close>

record ('srp, 'h) system =
  sy_services :: "('srp, 'h, bridge) service list"
  sy_registry :: "nat list"
  sy_listening :: bool
  sy_admission :: "nat admission"
  sy_host :: 'h
  sy_device :: device
  sy_lane :: "nat lane option"
  sy_fresh :: nat
  sy_now :: rat
  sy_dispatched :: "nat lane_event list"

definition serve :: "bool \<Rightarrow> nat admission option \<Rightarrow> 'h \<Rightarrow> rat \<Rightarrow> ('srp, 'h) system result" where
  "serve has_dispatch admission h now =
     rbind (if has_dispatch then rbind (new_lane DEFAULT_COMMAND_QUEUE_SIZE) (\<lambda>l. rbind (lane_start l) (\<lambda>l. Inr (Some l))) else Inr None) (\<lambda>lane.
       Inr \<lparr>sy_services = [], sy_registry = [], sy_listening = True,
         sy_admission = (case admission of Some a \<Rightarrow> a | None \<Rightarrow> new_admission MAX_CONNECTIONS MAX_UNAUTHENTICATED_CONNECTIONS),
         sy_host = h, sy_device = new_device, sy_lane = lane, sy_fresh = 0, sy_now = now, sy_dispatched = []\<rparr>)"

text \<open>A service with the shared state, and the shared state after it had the control.\<close>

definition service_view :: "nat \<Rightarrow> ('srp, 'h) system \<Rightarrow> ('srp, 'h, bridge) service" where
  "service_view i y = (let s = sy_services y ! i in s\<lparr>sv_admission := Some (sy_admission y), sv_host := sy_host y,
     sv_app := (sv_app s)\<lparr>ba_device := sy_device y, ba_lane := sy_lane y, ba_fresh := sy_fresh y, ba_now := sy_now y\<rparr>\<rparr>)"

definition put_service :: "nat \<Rightarrow> ('srp, 'h, bridge) service \<Rightarrow> ('srp, 'h) system \<Rightarrow> ('srp, 'h) system" where
  "put_service i s y = y\<lparr>sy_services := (sy_services y)[i := s], sy_admission := the (sv_admission s), sy_host := sv_host s,
     sy_device := ba_device (sv_app s), sy_lane := ba_lane (sv_app s), sy_fresh := ba_fresh (sv_app s)\<rparr>"

definition on_service :: "nat \<Rightarrow> (('srp, 'h, bridge) service \<Rightarrow> ('srp, 'h, bridge) service) \<Rightarrow> ('srp, 'h) system \<Rightarrow> ('srp, 'h) system" where
  "on_service i f y = put_service i (f (service_view i y)) y"

text \<open>The factory.\<close>

definition accept_connection :: "gesture_config \<Rightarrow> hold_config \<Rightarrow> ('srp, 'h) system \<Rightarrow> ('srp, 'h) system" where
  "accept_connection gestures hold y = (let i = length (sy_services y) in
     y\<lparr>sy_services := sy_services y @ [new_service i (Some (sy_admission y)) (sy_host y)
         (new_bridge i gestures hold (sy_device y) (sy_lane y) (sy_fresh y) (sy_now y))],
       sy_registry := sy_registry y @ [i]\<rparr>)"

text \<open>The callback of a dispatch owner that is no longer authorized.\<close>

definition close_revoked :: "('srp, 'h, bridge) env \<Rightarrow> nat lane_event \<Rightarrow> ('srp, 'h) system \<Rightarrow> ('srp, 'h) system" where
  "close_revoked E ev y =
     (case ev of
        Dispatched q \<Rightarrow> y
      | ClosedUnauthorized owner \<Rightarrow>
          (case find (\<lambda>i. ba_owner (sv_app (sy_services y ! i)) = Some owner) [0..<length (sy_services y)] of
             None \<Rightarrow> y
           | Some i \<Rightarrow> on_service i (\<lambda>s. snd (close_connection E s)) y))"

definition worker_turn :: "('srp, 'h, bridge) env \<Rightarrow> nat lane_call \<Rightarrow> ('srp, 'h) system \<Rightarrow> ('srp, 'h) system" where
  "worker_turn E call y =
     (case sy_lane y of
        None \<Rightarrow> y
      | Some l \<Rightarrow> (case lane_step call l of (ev, l1) \<Rightarrow>
          fold (close_revoked E) ev (y\<lparr>sy_lane := Some l1, sy_dispatched := sy_dispatched y @ ev\<rparr>)))"

inductive sys_step :: "('srp, 'h, bridge) env \<Rightarrow> gesture_config \<Rightarrow> hold_config \<Rightarrow> ('srp, 'h) system \<Rightarrow> ('srp, 'h) system \<Rightarrow> bool"
  for E gestures hold where
  accepted: "sy_listening y \<Longrightarrow> sys_step E gestures hold y (accept_connection gestures hold y)"
| connected: "i < length (sy_services y) \<Longrightarrow> sv_transport (sy_services y ! i) = NoTransport \<Longrightarrow> \<not> sv_closed (sy_services y ! i) \<Longrightarrow>
    sys_step E gestures hold y (on_service i (connection_made E source) y)"
| received: "i < length (sy_services y) \<Longrightarrow> sys_step E gestures hold y (on_service i (data_received E data) y)"
| timed_out: "i < length (sy_services y) \<Longrightarrow> sv_deadline (sy_services y ! i) \<Longrightarrow>
    sys_step E gestures hold y (on_service i (authentication_timed_out E) y)"
| lost: "i < length (sy_services y) \<Longrightarrow> sv_transport (sy_services y ! i) \<noteq> NoTransport \<Longrightarrow>
    sys_step E gestures hold y (on_service i (connection_lost E) y)"
| resumed: "i < length (sy_services y) \<Longrightarrow> sys_step E gestures hold y (on_service i (\<lambda>s. snd (resume_repeat E k sent s)) y)"
| drained: "i < length (sy_services y) \<Longrightarrow> sv_closed (sy_services y ! i) \<Longrightarrow> sys_step E gestures hold y (y\<lparr>sy_registry := removeAll i (sy_registry y)\<rparr>)"
| worked: "worker_call call \<Longrightarrow> sys_step E gestures hold y (worker_turn E call y)"
| outside: "sy_now y \<le> t \<Longrightarrow> sys_step E gestures hold y (y\<lparr>sy_host := h, sy_now := t\<rparr>)"
| unlistened: "sys_step E gestures hold y (y\<lparr>sy_listening := False\<rparr>)"
| shut_down: "i < length (sy_services y) \<Longrightarrow> sys_step E gestures hold y (on_service i (shutdown E) y)"
| lane_left: "sy_lane y = Some l \<Longrightarrow> call \<in> {Close, Closed} \<Longrightarrow> sys_step E gestures hold y (y\<lparr>sy_lane := Some (snd (lane_step call l))\<rparr>)"

text \<open>
  \<open>close_server\<close> when nothing else gets the control between its \<open>await\<close>s: the listener, the registered
  services, the lane. Cut at the \<open>await\<close>s it is a sequence of steps.
\<close>

definition close_server :: "('srp, 'h, bridge) env \<Rightarrow> ('srp, 'h) system \<Rightarrow> ('srp, 'h) system" where
  "close_server E y =
     (let y1 = fold (\<lambda>i. on_service i (shutdown E)) (sy_registry y) (y\<lparr>sy_listening := False\<rparr>)
      in y1\<lparr>sy_lane := map_option (\<lambda>l. lane_closed (lane_close l)) (sy_lane y1)\<rparr>)"

inductive sys_reach :: "('srp, 'h, bridge) env \<Rightarrow> gesture_config \<Rightarrow> hold_config \<Rightarrow> nat \<Rightarrow> nat \<Rightarrow> ('srp, 'h) system \<Rightarrow> bool"
  for E gestures hold m u where
  served: "serve has_dispatch (Some (new_admission m u)) h now = Inr y \<Longrightarrow> sys_reach E gestures hold m u y"
| stepped: "sys_reach E gestures hold m u y \<Longrightarrow> sys_step E gestures hold y y' \<Longrightarrow> sys_reach E gestures hold m u y'"

subsection \<open>What a step of a service does to the shared lane\<close>

text \<open>The lane is changed by its own operations, none of them the worker's.\<close>

definition lane_moves :: "nat lane option \<Rightarrow> nat lane option \<Rightarrow> bool" where
  "lane_moves x y \<longleftrightarrow>
     (case x of
        None \<Rightarrow> y = None
      | Some l \<Rightarrow> \<exists>calls ev l'. y = Some l' \<and> lane_run calls l = (ev, l') \<and> (\<forall>call \<in> set calls. \<not> worker_call call))"

definition registered_on :: "nat lane option \<Rightarrow> nat set" where
  "registered_on x = {owner. \<exists>l. x = Some l \<and> registered l owner}"

text \<open>Only the bridge's own owner is registered or removed, and it is a fresh one.\<close>

definition holding :: "bridge \<Rightarrow> bridge \<Rightarrow> bool" where
  "holding a a' \<longleftrightarrow> lane_moves (ba_lane a) (ba_lane a') \<and> ba_fresh a \<le> ba_fresh a'
     \<and> owned a' \<subseteq> owned a \<union> {ba_fresh a..<ba_fresh a'}
     \<and> registered_on (ba_lane a') \<subseteq> registered_on (ba_lane a) - owned a \<union> owned a'"

text \<open>The same, without a new owner.\<close>

definition resuming :: "bridge \<Rightarrow> bridge \<Rightarrow> bool" where
  "resuming a a' \<longleftrightarrow> holding a a' \<and> ba_fresh a' = ba_fresh a"

lemma lane_run_append:
  "lane_run xs l = (ev, l1) \<Longrightarrow> lane_run ys l1 = (ev', l2) \<Longrightarrow> lane_run (xs @ ys) l = (ev @ ev', l2)"
  by (induction xs arbitrary: l ev) (auto split: prod.splits)

lemma moves_refl [simp]: "lane_moves x x"
  by (cases x) (auto simp: lane_moves_def intro: exI [of _ "[]"])

lemma moves_trans: "lane_moves x y \<Longrightarrow> lane_moves y z \<Longrightarrow> lane_moves x z"
proof (cases x)
  case (Some l)
  assume "lane_moves x y" "lane_moves y z"
  with Some obtain xs ev l1 ys ev' l2 where "y = Some l1" "lane_run xs l = (ev, l1)" "\<forall>call \<in> set xs. \<not> worker_call call"
    "z = Some l2" "lane_run ys l1 = (ev', l2)" "\<forall>call \<in> set ys. \<not> worker_call call" by (auto simp: lane_moves_def)
  with Some show ?thesis using lane_run_append [of xs l ev l1 ys ev' l2] by (auto simp: lane_moves_def intro!: exI [of _ "xs @ ys"])
qed (simp add: lane_moves_def)

lemma moves_step: "lane_step call l = (ev, l') \<Longrightarrow> \<not> worker_call call \<Longrightarrow> lane_moves (Some l) (Some l')"
  by (auto simp: lane_moves_def intro!: exI [of _ "[call]"])

lemma moves_reach:
  assumes "lane_reach l evs" "lane_run calls l = (ev, l')" "\<forall>call \<in> set calls. \<not> worker_call call"
  shows "\<exists>evs'. lane_reach l' evs' \<and> dispatched evs' = dispatched evs"
  using assms
proof (induction calls arbitrary: l evs ev)
  case (Cons call calls)
  obtain ev1 l1 where step: "lane_step call l = (ev1, l1)" by fastforce
  then obtain ev2 where "lane_run calls l1 = (ev2, l')" using Cons.prems(2) by (auto split: prod.splits)
  moreover have "dispatched ev1 = []"
    using idle_silent [OF _ step] lane_reach_inv [OF Cons.prems(1)] Cons.prems(3) by simp
  ultimately show ?case using Cons.IH [OF lane_next [OF Cons.prems(1) step]] Cons.prems(3) by simp
qed auto

lemma registered_step:
  assumes "lane_step call l = (ev, l')" "\<And>owner reg. call \<noteq> Activate owner reg"
  shows "registered_on (Some l') \<subseteq> registered_on (Some l)"
  using lane_step_owners [OF _ assms(2) assms(1)] by (auto simp: registered_on_def)

lemma holding_trans: "holding a b \<Longrightarrow> holding b c \<Longrightarrow> holding a c"
proof -
  assume ab: "holding a b" and bc: "holding b c"
  then have f: "ba_fresh a \<le> ba_fresh b" "ba_fresh b \<le> ba_fresh c" by (auto simp: holding_def)
  then have new: "{ba_fresh a..<ba_fresh b} \<union> {ba_fresh b..<ba_fresh c} = {ba_fresh a..<ba_fresh c}" by auto
  have "ba_fresh a \<le> ba_fresh c" using f by simp
  with ab bc show ?thesis unfolding holding_def new [symmetric] by (intro conjI) (blast intro: moves_trans)+
qed

lemma holding_refl: "holding a a"
  by (auto simp: holding_def)

text \<open>An operation on the lane that keeps the bridge's owner.\<close>

lemma holding_lane:
  assumes "lane_step call l = (ev, l')" "\<not> worker_call call" "\<And>owner reg. call \<noteq> Activate owner reg" "ba_lane a = Some l"
  shows "holding a (a\<lparr>ba_lane := Some l'\<rparr>)"
  using moves_step [OF assms(1,2)] registered_step [OF assms(1,3)] assms(4) by (auto simp: holding_def owned_def)

lemma holding_end: "holding a (end_dispatch_session a)"
proof (cases "ba_lane a = None \<or> ba_owner a = None")
  case True
  then show ?thesis by (auto simp: holding_def end_dispatch_session_def owned_def registered_on_def split: option.split)
next
  case False
  then obtain l owner where lo: "ba_lane a = Some l" "ba_owner a = Some owner" by auto
  have "lane_step (CancelOwner owner) l = ([], cancel_owner owner l)" by simp
  from moves_step [OF this] registered_step [OF this]
  have "lane_moves (Some l) (Some (cancel_owner owner l))" "registered_on (Some (cancel_owner owner l)) \<subseteq> registered_on (Some l)"
    by (simp_all add: worker_call_def)
  moreover have "owner \<notin> registered_on (Some (cancel_owner owner l))"
    by (simp add: registered_on_def registered_def cancel_owner_def deactivate_fields map_of_delete)
  ultimately show ?thesis using lo by (auto simp: holding_def end_dispatch_session_def owned_def)
qed

lemma holding_begin:
  assumes "ba_lane a = Some l" "ba_owner a = None"
  shows "holding a (a\<lparr>ba_owner := Some (ba_fresh a), ba_fresh := Suc (ba_fresh a),
        ba_lane := Some (case lane_activate (ba_fresh a) connection_owner l of Inl e \<Rightarrow> l | Inr l1 \<Rightarrow> l1)\<rparr>)"
proof -
  let ?call = "Activate (ba_fresh a) connection_owner"
  obtain ev l1 where step: "lane_step ?call l = (ev, l1)" by fastforce
  then have l1: "l1 = (case lane_activate (ba_fresh a) connection_owner l of Inl e \<Rightarrow> l | Inr l1 \<Rightarrow> l1)" by (auto split: sum.splits)
  have "registered_on (Some l1) \<subseteq> registered_on (Some l) \<union> {ba_fresh a}"
    using lane_step_owners [OF _ _ step] by (auto simp: registered_on_def)
  moreover have "lane_moves (Some l) (Some l1)" by (rule moves_step [OF step]) (simp add: worker_call_def)
  ultimately show ?thesis using assms unfolding l1 [symmetric] by (auto simp: holding_def owned_def)
qed

interpretation holding_service: message_relation holding "E0\<lparr>en_app := bridge_hooks\<rparr>" for E0
proof
  fix a :: bridge and l l1 :: "nat lane" and owner c ans ok ev
  assume lane: "ba_lane a = Some l"
  show "holding a (a\<lparr>ba_lane := Some (cancel_generation False owner n l)\<rparr>)" for n
    by (rule holding_lane [of "CancelGeneration False owner n" l "[]"]) (simp_all add: lane worker_call_def)
  show "holding a (a\<lparr>ba_owner := Some (ba_fresh a), ba_fresh := Suc (ba_fresh a),
        ba_lane := Some (case lane_activate (ba_fresh a) connection_owner l of Inl e \<Rightarrow> l | Inr l1 \<Rightarrow> l1)\<rparr>)" if "ba_owner a = None"
    by (rule holding_begin [OF lane that])
  assume "lane_submit owner c ans l = (ok, ev, l1)"
  then show "holding a (a\<lparr>ba_lane := Some l1\<rparr>)"
    by (intro holding_lane [of "Submit owner c ans" l ev]) (simp_all add: lane worker_call_def)
qed (simp, rule holding_refl, rule holding_trans, assumption+, simp_all add: holding_end, simp_all add: holding_def owned_def)

text \<open>A relation that a waiting submission respects too holds for the resumption of a repeat task.\<close>

locale repeat_relation = bridge_relation B E
  for B :: "bridge \<Rightarrow> bridge \<Rightarrow> bool" and E :: "('srp, 'h, bridge) env" +
  assumes B_wait: "ba_lane a = Some l \<Longrightarrow> lane_submit_and_wait owner c g ans l = (i, ev, l1) \<Longrightarrow> B a (a\<lparr>ba_lane := Some l1\<rparr>)"
begin

lemma rel_wait: "st_rel (on_app B) (submit_dispatch_and_wait E c g owner)"
  unfolding st_rel_def
proof (intro allI impI)
  fix s r s' assume run: "submit_dispatch_and_wait E c g owner s = (r, s')"
  show "on_app B s s'"
  proof (cases "ba_lane (sv_app s)")
    case None
    then show ?thesis using run by (auto simp: submit_dispatch_and_wait_def app_get_def st_eval same_app)
  next
    case (Some l)
    have "with_lane E owner (lane_submit_and_wait owner c g) l s = (r, s')"
      using run Some by (simp add: submit_dispatch_and_wait_def app_get_def st_get_def)
    then show ?thesis using Some by (intro rel_lane [OF _ refl]) (auto intro: B_wait)
  qed
qed

lemma rel_click: "st_rel (on_app B) (send_repeat_key E key g)"
  unfolding send_repeat_key_def app_get_def by (intro steps.rel_rules rel_check rel_close rel_wait)

lemma rel_resume: "st_rel (on_app B) (resume_repeat E k sent)"
proof -
  have "st_rel (on_app B) (repeat_effect E k ev)" for ev
    unfolding repeat_effect_def
    by (cases ev) (auto simp: split_beta intro!: steps.rel_rules rel_click rel_app_set B_repeater B_stop)
  then show ?thesis
    unfolding resume_repeat_def app_get_def split_beta by (intro steps.rel_rules rel_app_set B_fields)
qed

end

interpretation resuming_service: repeat_relation resuming "E0\<lparr>en_app := bridge_hooks\<rparr>" for E0
proof
  fix a :: bridge and l l1 :: "nat lane" and owner c ans ok ev
  assume lane: "ba_lane a = Some l"
  show "resuming a (a\<lparr>ba_lane := Some (cancel_generation False owner n l)\<rparr>)" for n
    using holding_service.B_generation [OF lane] by (simp add: resuming_def)
  show "resuming a (a\<lparr>ba_lane := Some l1\<rparr>)" if "lane_submit_and_wait owner c g ans l = (i, ev, l1)" for g i
    using holding_lane [of "SubmitAndWait owner c g ans" l ev] that lane by (simp add: resuming_def worker_call_def)
  assume "lane_submit owner c ans l = (ok, ev, l1)"
  then show "resuming a (a\<lparr>ba_lane := Some l1\<rparr>)"
    using holding_lane [of "Submit owner c ans" l ev] lane by (simp add: resuming_def worker_call_def)
next
  show "resuming a (end_dispatch_session a)" for a
    using holding_end [of a] by (simp add: resuming_def) (simp add: end_dispatch_session_def split: option.split)
qed (simp_all add: resuming_def holding_refl holding_service.B_session holding_service.B_device holding_service.B_fields,
    blast intro: holding_trans)

lemma resumingD: "resuming a a' \<Longrightarrow> holding a a'"
  by (simp add: resuming_def)

lemma resuming_owned: "resuming a a' \<Longrightarrow> owned a' \<subseteq> owned a"
  by (auto simp: resuming_def holding_def)

subsection \<open>No owner without keys\<close>

definition bound :: "('srp, 'h, bridge) service \<Rightarrow> ('srp, 'h, bridge) service \<Rightarrow> bool" where
  "bound s s' \<longleftrightarrow> framed s s' \<and> holding (sv_app s) (sv_app s') \<and> (sv_cipher s' = None \<longrightarrow> owned (sv_app s') \<subseteq> owned (sv_app s))"

lemma framed_cipher: "framed s s' \<Longrightarrow> sv_cipher s' = None \<Longrightarrow> sv_cipher s = None"
  by (auto simp: framed_def installed_def)

interpretation bd: step_preorder bound
proof
  show "bound s s" for s :: "('a, 'b, bridge) service" by (simp add: bound_def fr.R_refl holding_refl)
  fix s t u :: "('a, 'b, bridge) service" assume st: "bound s t" and tu: "bound t u"
  have "framed s u" using st tu by (auto simp: bound_def intro: fr.R_trans)
  moreover have "holding (sv_app s) (sv_app u)" using st tu by (auto simp: bound_def intro: holding_trans)
  moreover have "owned (sv_app u) \<subseteq> owned (sv_app s)" if "sv_cipher u = None"
    using st tu that framed_cipher [of t u] by (auto simp: bound_def)
  ultimately show "bound s u" by (simp add: bound_def)
qed

lemma bound_of: "st_rel framed m \<Longrightarrow> st_rel (on_app resuming) m \<Longrightarrow> st_rel bound m"
  unfolding st_rel_def bound_def on_app_def by (simp add: resumingD resuming_owned)

text \<open>A message reaches the application only when there are keys.\<close>

definition with_keys :: "(opack \<Rightarrow> ('srp, 'h, unit) br) \<Rightarrow> opack \<Rightarrow> ('srp, 'h, unit) br" where
  "with_keys M d = st_get (\<lambda>s. if sv_cipher s = None then st_return () else M d)"

lemma dispatch_with_keys: "dispatch_frame (with_message E (with_keys M)) t data s = dispatch_frame (with_message E M) t data s"
  unfolding dispatch_frame_def message_free by (simp add: with_keys_def st_get_def st_then_def st_bind_def st_handle_def)

lemma handle_with_keys: "handle_frame (with_message E (with_keys M)) header data = handle_frame (with_message E M) header data"
proof -
  have d: "dispatch_frame (with_message E (with_keys M)) = dispatch_frame (with_message E M)"
    by (intro ext) (rule dispatch_with_keys)
  have cfg: "en_config (with_message E M') = en_config E" for M' by simp
  show ?thesis unfolding handle_frame_def message_free d cfg ..
qed

lemma drain_with_keys: "drain (with_message E (with_keys M)) p incoming s = drain (with_message E M) p incoming s"
proof (induction "with_message E M" p incoming s rule: drain.induct)
  case (1 p incoming s)
  show ?case
    by (subst (1 2) drain.simps)
      (auto simp: handle_with_keys message_free split: prod.split feed_outcome.split sum.split bool.split dest: 1 [OF sym refl refl sym])
qed

lemma with_message_relation:
  assumes "step_preorder R" "\<And>s p. R s (s\<lparr>sv_parser := p\<rparr>)" "st_rel R (close_connection E)" "st_rel R (malformed_frame E)"
    "\<And>t header data. st_rel R (open_frame E t header data)"
    "\<And>X H cfg t d. st_rel R (auth_call E (handle_auth_frame X H cfg t d))" "\<And>d. st_rel R (M d)"
  shows "frame_relation R (with_message E M)"
  unfolding frame_relation_def frame_relation_axioms_def message_free using assms by simp

lemma bound_received: "bound s (data_received (bridge_env T E0) data s)"
proof -
  let ?E = "E0\<lparr>en_app := bridge_hooks\<rparr>"
  let ?K = "with_message ?E (with_keys (handle_message T ?E))"
  have message: "st_rel bound (with_keys (handle_message T ?E) d)" for d
    unfolding st_rel_def
  proof (intro allI impI)
    fix s r s' assume run: "with_keys (handle_message T ?E) d s = (r, s')"
    show "bound s s'"
    proof (cases "sv_cipher s = None")
      case True
      then show ?thesis using run by (simp add: with_keys_def st_eval bd.R_refl)
    next
      case False
      then have run1: "handle_message T ?E d s = (r, s')" using run by (auto simp: with_keys_def st_get_def)
      have "framed s s'" using st_relD [OF framed_of_tame [OF tame_handlers.rel_message] run1] .
      moreover have "holding (sv_app s) (sv_app s')" using st_relD [OF holding_service.handlers.rel_message run1] by (simp add: on_app_def)
      ultimately show ?thesis using False framed_cipher [of s s'] by (auto simp: bound_def)
    qed
  qed
  have parts: "st_rel bound (close_connection ?E)" "st_rel bound (malformed_frame ?E)" "st_rel bound (open_frame ?E t h b)"
    "st_rel bound (auth_call ?E (handle_auth_frame X H cfg t' d))" for t h b X H cfg t' d
    by (rule bound_of; intro framed_of_tame framed_auth tame_close tame_malformed tame_open_frame resuming_service.rel_close
        resuming_service.rel_malformed resuming_service.rel_open resuming_service.rel_auth)+
  have frames: "frame_relation bound ?K"
    by (rule with_message_relation)
      (simp_all add: bd.step_preorder_axioms parts message, simp add: bound_def framed_def transport_kept_def holding_refl)
  have "data_received ?K data s = data_received (bridge_env T E0) data s"
    unfolding data_received_def drain_with_keys bridge_env_def ..
  then show ?thesis using frame_relation.rel_received [OF frames, of s data] by simp
qed

subsection \<open>The turn of a service\<close>

definition good :: "('srp, 'h, bridge) env \<Rightarrow> ('srp, 'h, bridge) service \<Rightarrow> bool" where
  "good E s \<longleftrightarrow> conn_inv E s \<and> (owned (sv_app s) \<noteq> {} \<longrightarrow> sv_admitted s \<and> sv_cipher s \<noteq> None)
     \<and> (refusals_last E \<longrightarrow> settled s)"

definition own_calls :: "nat \<Rightarrow> nat adm_call set" where
  "own_calls i = {Acquire i, Authenticated i, Release i}"

definition turn :: "('srp, 'h, bridge) env \<Rightarrow> ('srp, 'h, bridge) service \<Rightarrow> ('srp, 'h, bridge) service \<Rightarrow> bool" where
  "turn E s s' \<longleftrightarrow> sv_id s' = sv_id s \<and> good E s' \<and> holding (sv_app s) (sv_app s') \<and> (sv_closed s \<longrightarrow> sv_closed s')
     \<and> (\<exists>calls. set calls \<subseteq> own_calls (sv_id s) \<and> sv_admission s' = map_option (fold adm_step calls) (sv_admission s))"

lemma turn_refl: "good E s \<Longrightarrow> turn E s s"
  by (auto simp: turn_def holding_refl option.map_id0 intro: exI [of _ "[]"])

text \<open>How to give the calls.\<close>

lemma turnI:
  assumes "sv_id s' = sv_id s" "good E s'" "holding (sv_app s) (sv_app s')" "sv_closed s \<longrightarrow> sv_closed s'"
    and "sv_admission s' = sv_admission s \<or> (\<exists>call \<in> own_calls (sv_id s). sv_admission s' = map_option (adm_step call) (sv_admission s))"
  shows "turn E s s'"
  using assms(5)
proof
  assume "sv_admission s' = sv_admission s"
  then show ?thesis using assms(1-4) by (auto simp: turn_def option.map_id0 intro: exI [of _ "[]"])
next
  assume "\<exists>call \<in> own_calls (sv_id s). sv_admission s' = map_option (adm_step call) (sv_admission s)"
  then obtain call where "call \<in> own_calls (sv_id s)" "sv_admission s' = map_option (adm_step call) (sv_admission s)" by blast
  then show ?thesis using assms(1-4) by (auto simp: turn_def intro: exI [of _ "[call]"])
qed

lemma idle_owner: "good E s \<Longrightarrow> sv_cipher s = None \<or> \<not> sv_admitted s \<Longrightarrow> owned (sv_app s) = {}"
  by (auto simp: good_def)

lemma good_keys: "good E s \<Longrightarrow> owned (sv_app s) \<noteq> {} \<Longrightarrow>
    \<not> sv_closed s \<and> sv_admitted s \<and> sv_cipher s \<noteq> None \<and> au_phase (sv_auth s) = Encrypted \<and> (refusals_last E \<longrightarrow> sv_transport s = Live)"
  by (auto simp: good_def conn_inv_def settled_def)

lemma turn_bound:
  assumes "good E s" "sv_admitted s" "bound s s'" "refusals_last E \<longrightarrow> settled s'" shows "turn E s s'"
proof -
  have f: "framed s s'" and h: "holding (sv_app s) (sv_app s')" using assms(3) by (simp_all add: bound_def)
  have t: "transport_kept s s'" using f by (simp add: framed_def)
  have "owned (sv_app s') = {}" if "sv_cipher s' = None"
    using assms(3) that idle_owner [OF assms(1)] framed_cipher [OF f that] by (auto simp: bound_def)
  moreover have "conn_inv E s'" using framed_inv [OF _ assms(2) f] assms(1) by (simp add: good_def)
  ultimately have "good E s'" using t assms(2,4) by (auto simp: good_def transport_kept_def)
  moreover have "adm_authenticated (sv_id s) = adm_step (Authenticated (sv_id s))" by (simp add: fun_eq_iff)
  ultimately show ?thesis
    using f h t by (intro turnI) (auto simp: transport_kept_def framed_def installed_def own_calls_def)
qed

lemma tame_inv:
  assumes "conn_inv E s" "tame s s'" shows "conn_inv E s'"
proof (cases "sv_admitted s")
  case True
  then show ?thesis using framed_inv [OF assms(1) True tame_framed [OF assms(2)]] by simp
next
  case False
  then have "sv_cipher s = None" "sv_transport s \<noteq> Live" using assms(1) by (auto simp: conn_inv_def)
  then show ?thesis using assms False by (auto simp: conn_inv_def tame_def transport_kept_def)
qed

lemma turn_tame:
  assumes "good E s" "tame s s'" "resuming (sv_app s) (sv_app s')" "refusals_last E \<longrightarrow> settled s'" shows "turn E s s'"
proof (rule turnI)
  have "sv_cipher s' = None \<longleftrightarrow> sv_cipher s = None" using assms(2) cipher_kept_iff by (auto simp: tame_def)
  then show "good E s'"
    using assms tame_inv [of E s s'] resuming_owned [OF assms(3)] by (auto simp: good_def tame_def transport_kept_def)
qed (use assms in \<open>auto simp: tame_def transport_kept_def resumingD\<close>)

text \<open>What is done with the environment of the bridge.\<close>

lemma with_bridge:
  "close_connection (bridge_env T E0) = close_connection (E0\<lparr>en_app := bridge_hooks\<rparr>)"
  "check_authorized (bridge_env T E0) = check_authorized (E0\<lparr>en_app := bridge_hooks\<rparr>)"
  "send_repeat_key (bridge_env T E0) = send_repeat_key (E0\<lparr>en_app := bridge_hooks\<rparr>)"
  "resume_repeat (bridge_env T E0) = resume_repeat (E0\<lparr>en_app := bridge_hooks\<rparr>)"
proof -
  show c: "close_connection (bridge_env T E0) = close_connection (E0\<lparr>en_app := bridge_hooks\<rparr>)"
    and a: "check_authorized (bridge_env T E0) = check_authorized (E0\<lparr>en_app := bridge_hooks\<rparr>)"
    unfolding bridge_env_def message_free by (rule refl)+
  have l: "with_lane (bridge_env T E0) = (with_lane (E0\<lparr>en_app := bridge_hooks\<rparr>) :: nat \<Rightarrow> (bool option \<Rightarrow> nat lane \<Rightarrow> 'r \<times> nat lane_event list \<times> nat lane)
    \<Rightarrow> nat lane \<Rightarrow> ('a, 'b, 'r) br)"
    by (intro ext) (unfold with_lane_def c a, rule refl)
  show k: "send_repeat_key (bridge_env T E0) = send_repeat_key (E0\<lparr>en_app := bridge_hooks\<rparr>)"
    by (intro ext) (unfold send_repeat_key_def submit_dispatch_and_wait_def c a l, rule refl)
  show "resume_repeat (bridge_env T E0) = resume_repeat (E0\<lparr>en_app := bridge_hooks\<rparr>)"
    by (intro ext) (unfold resume_repeat_def repeat_effect_def k, rule refl)
qed

lemma tame_click: "st_rel tame (send_repeat_key E key g)"
  unfolding send_repeat_key_def submit_dispatch_and_wait_def app_get_def
  by (intro tm.rel_rules tame_check tame_close tame_lane)

lemma tame_resume: "st_rel tame (resume_repeat E k sent)"
proof -
  have "st_rel tame (repeat_effect E k ev)" for ev
    unfolding repeat_effect_def by (cases ev) (auto intro!: tm.rel_rules tame_click tame_app_set)
  then show ?thesis
    unfolding resume_repeat_def app_get_def split_beta by (intro tm.rel_rules tame_app_set)
qed

lemma turn_effect:
  assumes "good E s" "st_rel tame m" "st_rel (on_app resuming) m" "refusals_last E \<longrightarrow> settled (snd (m s))" shows "turn E s (snd (m s))"
proof (rule turn_tame [OF assms(1) _ _ assms(4)])
  obtain r s' where m: "m s = (r, s')" by fastforce
  show "tame s (snd (m s))" "resuming (sv_app s) (sv_app (snd (m s)))"
    using st_relD [OF assms(2) m] st_relD [OF assms(3) m] by (simp_all add: m on_app_def)
qed

lemma turn_close: "good E s \<Longrightarrow> turn E s (snd (close_connection (bridge_env T E0) s))"
  unfolding with_bridge
  by (rule turn_effect [OF _ tame_close resuming_service.rel_close])
    (simp_all add: settled_def close_connection_def st_modify_def bridge_hooks_def released_idle)

text \<open>A repeat task that finds its client unauthorized closes the connection.\<close>

lemma releasing_click: "st_rel (releasing E) (send_repeat_key E key g)" for E :: "('srp, 'h, bridge) env"
proof (rule st_relI)
  fix s :: "('srp, 'h, bridge) service"
  obtain ok h where ask: "check_authorized E s = (Inr ok, s\<lparr>sv_host := h\<rparr>)" by (rule check_authorized_run)
  let ?s = "s\<lparr>sv_host := h\<rparr>"
  let ?go = "app_get (\<lambda>a. case map_of (ba_repeat_owners a) g of
          None \<Rightarrow> st_raise RuntimeError
        | Some owner \<Rightarrow>
            st_bind (submit_dispatch_and_wait E ((key_command SendKey (Some key) (FromOther ''repeat''))\<lparr>cm_fast := True\<rparr>) g owner)
              (st_need RuntimeError)) :: ('srp, 'h, nat) br"
  have "st_rel (releasing E) (with_lane E owner (lane_submit_and_wait owner c g) l)" for owner c l
  proof (rule releasing_lane)
    fix ans r ev l1 assume run: "lane_submit_and_wait owner c g ans l = (r, ev, l1)" "ev \<noteq> []"
    obtain x where "lane_enqueue owner c (Some g) (Some (length (ln_futures l))) ans (l\<lparr>ln_futures := ln_futures l @ [FuturePending]\<rparr>) = x" by simp
    then show "ans \<noteq> Some True \<and> \<not> (ln_stopping l \<or> map_of (ln_owners l) owner = None)"
      using run refusal_only(2) [of owner c "Some g" "Some (length (ln_futures l))" ans "l\<lparr>ln_futures := ln_futures l @ [FuturePending]\<rparr>"]
      by (cases x) (auto simp: lane_submit_and_wait_def Let_def split: if_splits)
  qed
  then have "st_rel (releasing E) (submit_dispatch_and_wait E c g owner)" for c owner
    unfolding submit_dispatch_and_wait_def app_get_def by (intro rl.rel_rules)
  then have go: "st_rel (releasing E) ?go" unfolding app_get_def by (intro rl.rel_rules)
  have run: "snd (send_repeat_key E key g s) = (if ok then snd (?go ?s) else snd (close_connection E ?s))"
    using ask by (simp add: send_repeat_key_def st_bind_def [of "check_authorized E"] st_handle_def [of "check_authorized E"])
      (simp add: st_then_def st_bind_def st_handle_def st_raise_def close_connection_def st_modify_def)
  have asked: "releasing E s ?s" using st_relD [OF releasing_check ask] .
  show "releasing E s (snd (send_repeat_key E key g s))"
  proof (cases ok)
    case True
    have "releasing E ?s (snd (?go ?s))" using st_relD [OF go] by (metis prod.collapse)
    then show ?thesis using run True rl.R_trans [OF asked] by simp
  next
    case False
    have "releasing E s (snd (close_connection E ?s))"
      using closed_run [of E ?s] refused_again [of E s ?s] ask False by (auto simp: releasing_def)
    then show ?thesis using run False by simp
  qed
qed

lemma releasing_resume: "st_rel (releasing E) (resume_repeat E k sent)"
proof -
  have "st_rel (releasing E) (repeat_effect E k ev)" for ev
  proof (cases ev)
    case (NotifyStop g)
    have "owned (cancel_repeat_generation g a) \<subseteq> owned a" for a
      by (simp add: owned_def cancel_repeat_generation_def Let_def split: option.split)
    then show ?thesis by (simp add: NotifyStop repeat_effect_def releasing_app)
  next
    case (SendClick key g t)
    then show ?thesis
      by (auto simp: repeat_effect_def owned_def split_beta intro!: rl.rel_rules releasing_click releasing_app)
  qed
  then show ?thesis
    unfolding resume_repeat_def app_get_def split_beta by (intro rl.rel_rules releasing_app) (simp add: owned_def)
qed

lemma refusals_bridge: "refusals_last (bridge_env T E0) \<longleftrightarrow> refusals_last (E0\<lparr>en_app := bridge_hooks\<rparr>)"
  "refusals_last (E0\<lparr>en_app := bridge_hooks\<rparr>) \<longleftrightarrow> refusals_last E0"
  by (simp_all add: refusals_last_def bridge_env_def)

lemma turn_resume:
  assumes "good (bridge_env T E0) s" shows "turn (bridge_env T E0) s (snd (resume_repeat (bridge_env T E0) k sent s))"
proof -
  let ?E = "E0\<lparr>en_app := bridge_hooks\<rparr>"
  have "settled (snd (resume_repeat ?E k sent s))" if last: "refusals_last ?E"
  proof (rule releasing_settled [OF _ _ last])
    show "releasing ?E s (snd (resume_repeat ?E k sent s))" using st_relD [OF releasing_resume] by (metis prod.collapse)
    show "settled s" using assms last by (simp add: good_def refusals_bridge)
  qed simp
  then show ?thesis
    unfolding with_bridge by (intro turn_effect [OF assms tame_resume resuming_service.rel_resume]) (simp add: refusals_bridge)
qed

lemma turn_received:
  assumes "good (bridge_env T E0) s" shows "turn (bridge_env T E0) s (data_received (bridge_env T E0) data s)"
proof (cases "is_connection_active s")
  case True
  have "refusals_last (bridge_env T E0) \<longrightarrow> settled (data_received (bridge_env T E0) data s)"
    using received_settled [of E0 s T data] assms by (simp add: good_def refusals_bridge)
  then show ?thesis using turn_bound [OF assms _ bound_received] True by (simp add: is_connection_active_def)
next
  case False
  then show ?thesis using turn_refl [OF assms] by (simp add: data_received_def)
qed

lemma turn_timed_out:
  assumes "good (bridge_env T E0) s" "sv_deadline s"
  shows "turn (bridge_env T E0) s (authentication_timed_out (bridge_env T E0) s)"
proof (cases "sv_cipher s = None")
  case True
  let ?E = "bridge_env T E0" and ?s = "s\<lparr>sv_deadline := False\<rparr>"
  define c where "c = snd (close_connection ?E ?s)"
  have run: "authentication_timed_out ?E s = c" using True by (simp add: authentication_timed_out_def c_def)
  have "tame ?s c" using st_relD [OF tame_close] unfolding c_def by (metis prod.collapse)
  then have fields: "sv_id c = sv_id s" "sv_admission c = sv_admission s" "sv_cipher c = None" "sv_closed c = sv_closed s"
    using True by (auto simp: tame_def transport_kept_def)
  have "resuming (sv_app ?s) (sv_app c)"
    using st_relD [OF resuming_service.rel_close] unfolding c_def with_bridge by (metis on_app_def prod.collapse)
  then have app: "holding (sv_app s) (sv_app c)" "owned (sv_app c) = {}"
    using resuming_owned [of "sv_app ?s" "sv_app c"] idle_owner [OF assms(1)] True by (auto dest: resumingD)
  have "conn_inv ?E c" using bridge_service.step_inv [OF conn_step.timed_out [OF assms(2)], of T E0] assms(1) run by (simp add: good_def)
  then show ?thesis unfolding run using fields app by (intro turnI) (simp_all add: good_def settled_def)
next
  case False
  then have run: "authentication_timed_out (bridge_env T E0) s = s\<lparr>sv_deadline := False\<rparr>" by (auto simp: authentication_timed_out_def Let_def)
  have "conn_inv (bridge_env T E0) (s\<lparr>sv_deadline := False\<rparr>)"
    using bridge_service.step_inv [OF conn_step.timed_out [OF assms(2)], of T E0] assms(1) run by (simp add: good_def)
  then show ?thesis unfolding run using assms by (intro turnI) (auto simp: good_def settled_def holding_refl)
qed

lemma holding_same: "ba_lane a' = ba_lane a \<Longrightarrow> ba_fresh a' = ba_fresh a \<Longrightarrow> ba_owner a' = ba_owner a \<Longrightarrow> holding a a'"
  by (auto simp: holding_def owned_def)

lemma bridge_apps: "ap_attach (en_app (bridge_env T E0)) = attach_bridge" "ap_detach (en_app (bridge_env T E0)) = detach_bridge"
  "ap_lost (en_app (bridge_env T E0)) = release_owner"
  by (simp_all add: bridge_env_def bridge_hooks_def)

lemma turn_made:
  assumes "good (bridge_env T E0) s" "sv_transport s = NoTransport" "\<not> sv_closed s"
  shows "turn (bridge_env T E0) s (connection_made (bridge_env T E0) source s)"
proof (rule turnI)
  let ?s = "connection_made (bridge_env T E0) source s"
  have "owned (sv_app s) = {}" by (rule idle_owner [OF assms(1)]) (use assms in \<open>auto simp: good_def conn_inv_def\<close>)
  moreover have "ba_lane (sv_app ?s) = ba_lane (sv_app s)" "ba_fresh (sv_app ?s) = ba_fresh (sv_app s)" "ba_owner (sv_app ?s) = ba_owner (sv_app s)"
    by (auto simp: connection_made_def Let_def bridge_apps attach_bridge_def split: option.split prod.split)
  ultimately show "good (bridge_env T E0) ?s" "holding (sv_app s) (sv_app ?s)"
    using bridge_service.step_inv [OF conn_step.made [OF assms(2,3)]] assms(1) holding_same by (auto simp: good_def settled_def owned_def)
  show "sv_admission ?s = sv_admission s \<or> (\<exists>call \<in> own_calls (sv_id s). sv_admission ?s = map_option (adm_step call) (sv_admission s))"
    by (auto simp: connection_made_def Let_def own_calls_def split: option.split prod.split)
qed (use assms(3) in \<open>auto simp: connection_made_def Let_def split: option.split prod.split\<close>)

text \<open>A connection torn down holds nothing.\<close>

lemma torn_down:
  assumes "conn_inv E s" "teardown_connection E s = (b, s')"
  shows "conn_inv E s' \<and> sv_id s' = sv_id s \<and> sv_closed s' \<and> \<not> sv_admitted s' \<and> sv_cipher s' = None
    \<and> sv_app s' = (if b then ap_detach (en_app E) (sv_app s) else sv_app s)
    \<and> (sv_admission s' = sv_admission s \<or> sv_admission s' = map_option (adm_step (Release (sv_id s))) (sv_admission s))"
proof (cases "sv_closed s")
  case True
  then have "s' = s" "\<not> b" using assms(2) by (simp_all add: teardown_connection_def)
  then show ?thesis using assms(1) True by (auto simp: conn_inv_def)
next
  case False
  then have s': "s' = snd (teardown_connection E s)" "b" using assms(2) by (simp_all add: teardown_connection_def split: if_splits)
  have "au_phase (reset_authentication True (sv_auth s)) \<noteq> Encrypted"
    by (simp add: reset_authentication_def clear_pending_def clear_client_def clear_verify_def clear_setup_def)
  then have "conn_inv E s'"
    using False by (cases "sv_admission s") (simp_all add: s'(1) conn_inv_def teardown_connection_def membership_def adm_release_def)
  moreover have "adm_release (sv_id s) = adm_step (Release (sv_id s))" by (simp add: fun_eq_iff)
  ultimately show ?thesis using s' False by (simp add: teardown_connection_def)
qed

lemma detached: "holding a (detach_bridge a)" "owned (detach_bridge a) = owned a"
  by (rule holding_same; simp add: detach_bridge_def) (simp add: owned_def detach_bridge_def)

lemma turn_lost:
  assumes "good (bridge_env T E0) s" shows "turn (bridge_env T E0) s (connection_lost (bridge_env T E0) s)"
proof -
  obtain b s1 where down: "teardown_connection (bridge_env T E0) s = (b, s1)" by fastforce
  have inv: "conn_inv (bridge_env T E0) s" using assms by (simp add: good_def)
  note facts = torn_down [OF inv down]
  let ?s = "connection_lost (bridge_env T E0) s"
  have run: "?s = (if b then s1\<lparr>sv_app := release_owner (sv_app s1)\<rparr> else s1)" by (simp add: connection_lost_def down bridge_apps)
  have shared: "conn_inv (bridge_env T E0) (s1\<lparr>sv_app := a\<rparr>) = conn_inv (bridge_env T E0) s1" for a by (simp add: conn_inv_def)
  have app: "sv_app ?s = (if b then release_owner (detach_bridge (sv_app s)) else sv_app s)"
    using facts by (simp add: run bridge_apps)
  have "owned (sv_app ?s) = {}"
  proof (cases b)
    case False
    then have "sv_closed s" using down by (simp add: teardown_connection_def split: if_splits)
    then have "\<not> sv_admitted s" using assms by (simp add: good_def conn_inv_def)
    then show ?thesis using idle_owner [OF assms] app False by simp
  qed (simp add: app released_idle)
  moreover have "holding (sv_app s) (sv_app ?s)"
    using holding_trans [OF detached(1) holding_service.B_release] app by (simp add: holding_refl)
  ultimately show ?thesis
    using facts assms shared by (intro turnI) (auto simp: run good_def settled_def own_calls_def)
qed

lemma turn_shutdown:
  assumes "good (bridge_env T E0) s"
  shows "turn (bridge_env T E0) s (shutdown (bridge_env T E0) s)"
    and "sv_closed (shutdown (bridge_env T E0) s)"
proof -
  let ?a = "release_owner ((sv_app s)\<lparr>ba_closing := True\<rparr>)" and ?s = "shutdown (bridge_env T E0) s"
  have inv: "conn_inv (bridge_env T E0) (s\<lparr>sv_app := ?a\<rparr>)" using assms by (simp add: good_def conn_inv_def)
  obtain b s1 where down: "teardown_connection (bridge_env T E0) (s\<lparr>sv_app := ?a\<rparr>) = (b, s1)" by fastforce
  note facts = torn_down [OF inv down]
  have run: "?s = s1" by (simp add: shutdown_def down)
  have app: "sv_app ?s = (if b then detach_bridge ?a else ?a)" using facts by (simp add: run bridge_apps)
  have "holding (sv_app s) ?a"
    by (rule holding_trans [OF holding_same holding_service.B_release]) simp_all
  then have "holding (sv_app s) (sv_app ?s)" "owned (sv_app ?s) = {}"
    using holding_trans [OF _ detached(1), of "sv_app s" ?a] by (simp_all add: app detached released_idle)
  then show "turn (bridge_env T E0) s ?s"
    using facts by (intro turnI) (auto simp: run good_def settled_def own_calls_def)
  show "sv_closed ?s" using facts by (simp add: run)
qed

subsection \<open>The invariant of the server\<close>

abbreviation owner_of :: "('srp, 'h) system \<Rightarrow> nat \<Rightarrow> nat set" where
  "owner_of y i \<equiv> owned (sv_app (sy_services y ! i))"

definition services_ok :: "('srp, 'h, bridge) env \<Rightarrow> ('srp, 'h) system \<Rightarrow> bool" where
  "services_ok E y \<longleftrightarrow> (\<forall>i < length (sy_services y). sv_id (sy_services y ! i) = i \<and> good E (service_view i y))"

definition owners_ok :: "('srp, 'h) system \<Rightarrow> bool" where
  "owners_ok y \<longleftrightarrow> (\<forall>i < length (sy_services y). owner_of y i \<subseteq> {..<sy_fresh y})
     \<and> (\<forall>i < length (sy_services y). \<forall>j < length (sy_services y). i \<noteq> j \<longrightarrow> owner_of y i \<inter> owner_of y j = {})
     \<and> registered_on (sy_lane y) \<subseteq> (\<Union>i < length (sy_services y). owner_of y i)"

definition budgets_ok :: "nat \<Rightarrow> nat \<Rightarrow> ('srp, 'h) system \<Rightarrow> bool" where
  "budgets_ok m u y \<longleftrightarrow> adm_inv (sy_admission y) \<and> max_connections (sy_admission y) = m \<and> max_unauthenticated (sy_admission y) = u
     \<and> connections (sy_admission y) \<subseteq> {..<length (sy_services y)}"

definition registry_ok :: "('srp, 'h) system \<Rightarrow> bool" where
  "registry_ok y \<longleftrightarrow> set (sy_registry y) \<subseteq> {..<length (sy_services y)}
     \<and> (\<forall>i < length (sy_services y). i \<in> set (sy_registry y) \<or> sv_closed (sy_services y ! i))"

definition lane_ok :: "('srp, 'h) system \<Rightarrow> bool" where
  "lane_ok y \<longleftrightarrow> (\<forall>l. sy_lane y = Some l \<longrightarrow> (\<exists>evs. lane_reach l evs \<and> dispatched evs = dispatched (sy_dispatched y)))"

definition sys_inv :: "('srp, 'h, bridge) env \<Rightarrow> nat \<Rightarrow> nat \<Rightarrow> ('srp, 'h) system \<Rightarrow> bool" where
  "sys_inv E m u y \<longleftrightarrow> services_ok E y \<and> owners_ok y \<and> budgets_ok m u y \<and> registry_ok y \<and> lane_ok y"

lemmas sys_defs = sys_inv_def services_ok_def owners_ok_def budgets_ok_def registry_ok_def lane_ok_def

lemma view_fields [simp]:
  "sv_id (service_view i y) = sv_id (sy_services y ! i)" "sv_admission (service_view i y) = Some (sy_admission y)"
  "sv_closed (service_view i y) = sv_closed (sy_services y ! i)" "sv_transport (service_view i y) = sv_transport (sy_services y ! i)"
  "sv_deadline (service_view i y) = sv_deadline (sy_services y ! i)" "sv_cipher (service_view i y) = sv_cipher (sy_services y ! i)"
  "sv_admitted (service_view i y) = sv_admitted (sy_services y ! i)" "sv_auth (service_view i y) = sv_auth (sy_services y ! i)" "owned (sv_app (service_view i y)) = owner_of y i"
  "ba_lane (sv_app (service_view i y)) = sy_lane y" "ba_fresh (sv_app (service_view i y)) = sy_fresh y"
  by (simp_all add: service_view_def Let_def owned_def)

lemma put_fields [simp]:
  "sy_services (put_service i s y) = (sy_services y)[i := s]" "sy_admission (put_service i s y) = the (sv_admission s)"
  "sy_lane (put_service i s y) = ba_lane (sv_app s)" "sy_fresh (put_service i s y) = ba_fresh (sv_app s)"
  "sy_registry (put_service i s y) = sy_registry y" "sy_dispatched (put_service i s y) = sy_dispatched y"
  by (simp_all add: put_service_def)

text \<open>What is shared enters the invariant of a connection by its membership only.\<close>

lemma good_shared:
  assumes "membership (sv_id s) adm = membership (sv_id s) (sv_admission s)" "owned a = owned (sv_app s)"
  shows "good E (s\<lparr>sv_admission := adm, sv_host := h, sv_app := a\<rparr>) \<longleftrightarrow> good E s"
  using assms by (simp add: good_def settled_def conn_inv_def)

lemma view_shared:
  assumes "sy_services z ! j = sy_services y ! j" "membership (sv_id (sy_services y ! j)) (Some (sy_admission z)) = membership (sv_id (sy_services y ! j)) (Some (sy_admission y))"
  shows "good E (service_view j z) \<longleftrightarrow> good E (service_view j y)"
proof -
  let ?s = "service_view j y"
  have "service_view j z = ?s\<lparr>sv_admission := Some (sy_admission z), sv_host := sy_host z, sv_app := sv_app (service_view j z)\<rparr>"
    using assms(1) by (simp add: service_view_def Let_def)
  moreover have "owned (sv_app (service_view j z)) = owned (sv_app ?s)" using assms(1) by simp
  ultimately show ?thesis using good_shared [of ?s "Some (sy_admission z)"] assms(2) by (metis view_fields(1,2))
qed

lemma own_calls_others:
  assumes "set calls \<subseteq> own_calls i"
  shows "j \<noteq> i \<Longrightarrow> j \<in> connections (fold adm_step calls a) \<longleftrightarrow> j \<in> connections a"
    and "j \<noteq> i \<Longrightarrow> j \<in> unauthenticated (fold adm_step calls a) \<longleftrightarrow> j \<in> unauthenticated a"
  using assms
  by (induction calls arbitrary: a) (auto simp: own_calls_def adm_acquire_def adm_authenticated_def adm_release_def split: if_splits)

lemma put_inv:
  assumes inv: "sys_inv E m u y" and i: "i < length (sy_services y)" and turn: "turn E (service_view i y) s"
  shows "sys_inv E m u (put_service i s y)"
proof -
  let ?z = "put_service i s y" and ?n = "length (sy_services y)"
  have id: "sv_id s = i" and gs: "good E s" and hold: "holding (sv_app (service_view i y)) (sv_app s)"
    and closed: "sv_closed (sy_services y ! i) \<longrightarrow> sv_closed s"
    using turn inv i by (auto simp: turn_def sys_defs)
  obtain calls where calls: "set calls \<subseteq> own_calls i" "sv_admission s = Some (fold adm_step calls (sy_admission y))"
    using turn inv i by (auto simp: turn_def sys_defs)
  have same: "good E (service_view j ?z) \<longleftrightarrow> good E (service_view j y)" if "j < ?n" "j \<noteq> i" for j
    using view_shared [of ?z j y E] that inv own_calls_others [OF calls(1) that(2)] by (simp add: calls(2) membership_def sys_defs)
  have mine: "service_view i ?z = s\<lparr>sv_app := sv_app (service_view i ?z)\<rparr>" "owned (sv_app (service_view i ?z)) = owned (sv_app s)"
    using i calls(2) by (simp_all add: service_view_def Let_def put_service_def owned_def)
  have "good E (s\<lparr>sv_app := sv_app (service_view i ?z)\<rparr>)" using good_shared [of s "sv_admission s" _ E "sv_host s"] gs mine(2) by simp
  then have "good E (service_view i ?z)" using mine(1) by simp
  then have "services_ok E ?z" using same inv id i by (auto simp: services_ok_def nth_list_update sys_inv_def)
  moreover have "owners_ok ?z"
  proof -
    have own: "owned (sv_app s) \<subseteq> owner_of y i \<union> {sy_fresh y..<ba_fresh (sv_app s)}" "sy_fresh y \<le> ba_fresh (sv_app s)"
      "registered_on (ba_lane (sv_app s)) \<subseteq> registered_on (sy_lane y) - owner_of y i \<union> owned (sv_app s)"
      using hold by (auto simp: holding_def)
    have old: "\<And>j. j < ?n \<Longrightarrow> owner_of y j \<subseteq> {..<sy_fresh y}" "registered_on (sy_lane y) \<subseteq> (\<Union>j < ?n. owner_of y j)"
      "\<And>j k. j < ?n \<Longrightarrow> k < ?n \<Longrightarrow> j \<noteq> k \<Longrightarrow> owner_of y j \<inter> owner_of y k = {}"
      using inv by (auto simp: sys_defs)
    have at: "owner_of ?z j = (if j = i then owned (sv_app s) else owner_of y j)" if "j < ?n" for j using i by simp
    have apart: "owned (sv_app s) \<inter> owner_of y j = {}" if "j < ?n" "j \<noteq> i" for j
      using own(1) old(1) [OF that(1)] old(3) [OF that(1) i that(2)] by fastforce
    have "owner_of ?z j \<subseteq> {..<ba_fresh (sv_app s)}" if "j < ?n" for j
    proof -
      have "owned (sv_app s) \<subseteq> {..<ba_fresh (sv_app s)}" using old(1) [OF i] own(1,2) by fastforce
      then show ?thesis using at [OF that] old(1) [OF that] own(2) by (auto split: if_splits)
    qed
    moreover have "owner_of ?z j \<inter> owner_of ?z k = {}" if "j < ?n" "k < ?n" "j \<noteq> k" for j k
      using at [OF that(1)] at [OF that(2)] apart old(3) [OF that] that by (auto split: if_splits)
    moreover have "registered_on (ba_lane (sv_app s)) \<subseteq> (\<Union>j < ?n. owner_of ?z j)"
    proof
      fix x assume "x \<in> registered_on (ba_lane (sv_app s))"
      then consider "x \<in> owned (sv_app s)" | j where "j < ?n" "j \<noteq> i" "x \<in> owner_of y j" using own(3) old(2) by fastforce
      then show "x \<in> (\<Union>j < ?n. owner_of ?z j)" using at i by cases auto
    qed
    ultimately show ?thesis by (simp add: owners_ok_def)
  qed
  moreover have "budgets_ok m u ?z"
  proof -
    have "connections (fold adm_step calls (sy_admission y)) \<subseteq> {..<?n}"
      using own_calls_others(1) [OF calls(1)] inv i by (fastforce simp: sys_defs)
    moreover have "adm_inv (fold adm_step calls (sy_admission y))" by (rule adm_inv_run) (use inv in \<open>simp add: sys_defs\<close>)
    ultimately show ?thesis using inv by (simp add: sys_defs calls(2))
  qed
  moreover have "registry_ok ?z" using inv closed i by (auto simp: sys_defs nth_list_update)
  moreover have "lane_ok ?z"
  proof (cases "sy_lane y")
    case None
    then show ?thesis using hold by (simp add: lane_ok_def holding_def lane_moves_def)
  next
    case (Some l)
    then obtain evs where evs: "lane_reach l evs" "dispatched evs = dispatched (sy_dispatched y)"
      using inv by (auto simp: sys_inv_def lane_ok_def)
    obtain calls ev l' where run: "ba_lane (sv_app s) = Some l'" "lane_run calls l = (ev, l')" "\<forall>call \<in> set calls. \<not> worker_call call"
      using hold Some by (auto simp: holding_def lane_moves_def)
    then show ?thesis using moves_reach [OF evs(1) run(2,3)] evs(2) by (simp add: lane_ok_def)
  qed
  ultimately show ?thesis by (simp add: sys_inv_def)
qed

lemma on_service_inv:
  assumes "sys_inv E m u y" "i < length (sy_services y)" "good E (service_view i y) \<Longrightarrow> turn E (service_view i y) (f (service_view i y))"
  shows "sys_inv E m u (on_service i f y)"
  unfolding on_service_def using assms by (intro put_inv) (auto simp: sys_inv_def services_ok_def)

subsection \<open>Every step keeps it\<close>

lemma serve_inv:
  assumes "serve has_dispatch (Some (new_admission m u)) h now = Inr y" shows "sys_inv E m u y"
proof -
  have "\<exists>evs. lane_reach l evs \<and> dispatched evs = [] \<and> ln_owners l = []" if lane: "sy_lane y = Some l" for l
  proof -
    obtain l0 where l0: "new_lane DEFAULT_COMMAND_QUEUE_SIZE = Inr l0" "lane_start l0 = Inr l"
      using assms lane by (auto simp: serve_def rbind_def split: if_splits sum.splits)
    have "lane_step Start l0 = ([], l)" using l0(2) by simp
    from lane_next [OF lane_init [OF l0(1)] this] have "lane_reach l []" by simp
    moreover have "ln_owners l = []" using l0 by (auto simp: new_lane_def lane_start_def split: if_splits)
    ultimately show ?thesis by auto
  qed
  moreover have "sy_services y = []" "sy_registry y = []" "sy_admission y = new_admission m u" "sy_dispatched y = []"
    using assms by (auto simp: serve_def rbind_def split: if_splits sum.splits)
  ultimately show ?thesis by (auto simp: sys_defs registered_on_def registered_def new_admission_def adm_inv_def)
qed

lemma accept_inv:
  assumes "sys_inv E m u y" shows "sys_inv E m u (accept_connection gestures hold y)"
proof -
  let ?n = "length (sy_services y)" and ?z = "accept_connection gestures hold y"
  have fields: "sy_admission ?z = sy_admission y" "sy_lane ?z = sy_lane y" "sy_fresh ?z = sy_fresh y" "sy_registry ?z = sy_registry y @ [?n]"
    "sy_dispatched ?z = sy_dispatched y" "length (sy_services ?z) = Suc ?n"
    by (simp_all add: accept_connection_def Let_def)
  have old: "sy_services ?z ! i = sy_services y ! i" if "i < ?n" for i using that by (simp add: accept_connection_def Let_def nth_append)
  have new: "sy_services ?z ! ?n = new_service ?n (Some (sy_admission y)) (sy_host y)
         (new_bridge ?n gestures hold (sy_device y) (sy_lane y) (sy_fresh y) (sy_now y))"
    by (simp add: accept_connection_def Let_def)
  have none: "owner_of ?z ?n = {}" by (simp add: new new_service_def new_bridge_def owned_def)
  have "?n \<notin> connections (sy_admission y)" "?n \<notin> unauthenticated (sy_admission y)"
    using assms by (auto simp: sys_defs adm_inv_def)
  then have "good E (service_view ?n ?z)"
    using none by (simp add: good_def settled_def conn_inv_def membership_def service_view_def Let_def new new_service_def new_auth_def fields owned_def)
  moreover have "good E (service_view i ?z)" if "i < ?n" for i
    using view_shared [of ?z i y E] that assms old [OF that] fields by (simp add: sys_defs)
  ultimately have "services_ok E ?z"
    using assms old fields by (auto simp: services_ok_def less_Suc_eq new new_service_def sys_inv_def)
  moreover have "owners_ok ?z"
  proof -
    have "(\<Union>i < Suc ?n. owner_of ?z i) = (\<Union>i < ?n. owner_of y i)" using none old by (simp add: lessThan_Suc)
    then show ?thesis using assms old none by (auto simp: sys_defs fields less_Suc_eq)
  qed
  ultimately show ?thesis using assms old fields by (auto simp: sys_defs less_Suc_eq)
qed

text \<open>A change that the invariant does not look at.\<close>

lemma inv_same:
  assumes "sys_inv E m u y" "sy_services z = sy_services y" "sy_admission z = sy_admission y" "sy_fresh z = sy_fresh y"
    "registry_ok z" "registered_on (sy_lane z) \<subseteq> registered_on (sy_lane y)" "lane_ok z"
  shows "sys_inv E m u z"
proof -
  have "good E (service_view i z) \<longleftrightarrow> good E (service_view i y)" for i by (rule view_shared) (simp_all add: assms)
  then show ?thesis using assms by (fastforce simp: sys_inv_def services_ok_def owners_ok_def budgets_ok_def)
qed

lemma lane_step_inv:
  assumes "sys_inv E m u y" "sy_lane y = Some l" "lane_step call l = (ev, l1)" "\<And>owner reg. call \<noteq> Activate owner reg"
    and "dispatched ev = [] \<and> z = y\<lparr>sy_lane := Some l1\<rparr> \<or> z = y\<lparr>sy_lane := Some l1, sy_dispatched := sy_dispatched y @ ev\<rparr>"
  shows "sys_inv E m u z"
proof -
  obtain evs where evs: "lane_reach l evs" "dispatched evs = dispatched (sy_dispatched y)" using assms(1,2) by (auto simp: sys_defs)
  have "lane_ok z" using lane_next [OF evs(1) assms(3)] evs(2) assms(5) by (auto simp: lane_ok_def intro!: exI [of _ "evs @ ev"])
  moreover have "registered_on (sy_lane z) \<subseteq> registered_on (sy_lane y)"
    using registered_step [OF assms(3,4)] assms(2,5) by auto
  moreover have "registry_ok z" using assms(1,5) by (auto simp: sys_defs)
  ultimately show ?thesis using assms(1,5) by (intro inv_same [OF assms(1)]) auto
qed

lemma revoked_inv:
  assumes "sys_inv (bridge_env T E0) m u y" shows "sys_inv (bridge_env T E0) m u (close_revoked (bridge_env T E0) ev y)"
proof (cases ev)
  case (ClosedUnauthorized owner)
  show ?thesis
  proof (cases "find (\<lambda>i. ba_owner (sv_app (sy_services y ! i)) = Some owner) [0..<length (sy_services y)]")
    case (Some i)
    then have "i < length (sy_services y)" by (auto simp: find_Some_iff)
    then have "sys_inv (bridge_env T E0) m u (on_service i (\<lambda>s. snd (close_connection (bridge_env T E0) s)) y)"
      by (intro on_service_inv [OF assms] turn_close)
    then show ?thesis using Some ClosedUnauthorized by (simp add: close_revoked_def)
  qed (simp add: close_revoked_def ClosedUnauthorized assms)
qed (simp add: close_revoked_def assms)

lemma worker_inv:
  assumes "sys_inv (bridge_env T E0) m u y" "worker_call call" shows "sys_inv (bridge_env T E0) m u (worker_turn (bridge_env T E0) call y)"
proof (cases "sy_lane y")
  case (Some l)
  obtain ev l1 where step: "lane_step call l = (ev, l1)" by fastforce
  have inv: "sys_inv (bridge_env T E0) m u (y\<lparr>sy_lane := Some l1, sy_dispatched := sy_dispatched y @ ev\<rparr>)"
    by (rule lane_step_inv [OF assms(1) Some step]) (use assms(2) in \<open>auto simp: worker_call_def\<close>)
  have "sys_inv (bridge_env T E0) m u (fold (close_revoked (bridge_env T E0)) evs z)" if "sys_inv (bridge_env T E0) m u z" for evs z
    using that by (induction evs arbitrary: z) (simp_all add: revoked_inv)
  then show ?thesis using inv step Some by (simp add: worker_turn_def)
qed (simp add: worker_turn_def assms)

lemma sys_step_inv:
  assumes "sys_step (bridge_env T E0) gestures hold y y'" "sys_inv (bridge_env T E0) m u y"
  shows "sys_inv (bridge_env T E0) m u y'"
  using assms(1)
proof cases
  case (lane_left l call)
  obtain ev l1 where step: "lane_step call l = (ev, l1)" by fastforce
  have "y' = y\<lparr>sy_lane := Some l1\<rparr>" "dispatched ev = []" using lane_left step by (auto split: if_splits)
  then show ?thesis using lane_step_inv [OF assms(2) lane_left(2) step] lane_left(3) by blast
next
  case (drained i)
  have "registry_ok y'" using assms(2) drained by (auto simp: sys_defs)
  then show ?thesis using assms(2) drained by (intro inv_same [OF assms(2)]) (auto simp: sys_defs)
next
  case (outside t h)
  then show ?thesis using assms(2) by (intro inv_same [OF assms(2)]) (auto simp: sys_defs)
next
  case (connected i source)
  then show ?thesis using on_service_inv [OF assms(2) connected(2)] turn_made [of T E0 "service_view i y"] by simp
next
  case (timed_out i)
  then show ?thesis using on_service_inv [OF assms(2) timed_out(2)] turn_timed_out [of T E0 "service_view i y"] by simp
next
  case unlistened
  then show ?thesis using assms(2) by (intro inv_same [OF assms(2)]) (auto simp: sys_defs)
next
  case accepted
  then show ?thesis using assms(2) by (simp add: accept_inv)
next
  case (received i data)
  then show ?thesis using on_service_inv [OF assms(2) received(2)] turn_received [of T E0 "service_view i y" data] by simp
next
  case (lost i)
  then show ?thesis using on_service_inv [OF assms(2) lost(2)] turn_lost [of T E0 "service_view i y"] by simp
next
  case (resumed i k sent)
  then show ?thesis using on_service_inv [OF assms(2) resumed(2)] turn_resume [of T E0 "service_view i y" k sent] by simp
next
  case (shut_down i)
  then show ?thesis using on_service_inv [OF assms(2) shut_down(2)] turn_shutdown(1) [of T E0 "service_view i y"] by simp
next
  case (worked call)
  then show ?thesis using assms(2) by (simp add: worker_inv)
qed

lemma sys_reach_inv: "sys_reach (bridge_env T E0) gestures hold m u y \<Longrightarrow> sys_inv (bridge_env T E0) m u y"
proof (induction rule: sys_reach.induct)
  case (served has_dispatch h now y)
  then show ?case by (rule serve_inv)
next
  case (stepped y y')
  then show ?case by (blast intro: sys_step_inv)
qed

subsection \<open>What holds for the server\<close>

text \<open>Whose connection the admission counts.\<close>

lemma counted_connections:
  assumes "sys_inv E m u y"
  shows "connections (sy_admission y) = {i. i < length (sy_services y) \<and> sv_admitted (sy_services y ! i)}"
    and "unauthenticated (sy_admission y) = {i. i < length (sy_services y) \<and> sv_admitted (sy_services y ! i) \<and> sv_cipher (sy_services y ! i) = None}"
proof -
  have each: "i \<in> connections (sy_admission y) \<longleftrightarrow> sv_admitted (sy_services y ! i)"
    "i \<in> unauthenticated (sy_admission y) \<longleftrightarrow> sv_admitted (sy_services y ! i) \<and> sv_cipher (sy_services y ! i) = None"
    if "i < length (sy_services y)" for i
  proof -
    have "conn_inv E (service_view i y)" "sv_id (sy_services y ! i) = i" using assms that by (simp_all add: sys_inv_def services_ok_def good_def)
    then show "i \<in> connections (sy_admission y) \<longleftrightarrow> sv_admitted (sy_services y ! i)"
      "i \<in> unauthenticated (sy_admission y) \<longleftrightarrow> sv_admitted (sy_services y ! i) \<and> sv_cipher (sy_services y ! i) = None"
      by (auto simp: conn_inv_def membership_def)
  qed
  have inside: "unauthenticated (sy_admission y) \<subseteq> connections (sy_admission y)" "connections (sy_admission y) \<subseteq> {..<length (sy_services y)}"
    using assms by (auto simp: sys_defs adm_inv_def)
  show "connections (sy_admission y) = {i. i < length (sy_services y) \<and> sv_admitted (sy_services y ! i)}"
    using each inside by blast
  show "unauthenticated (sy_admission y) = {i. i < length (sy_services y) \<and> sv_admitted (sy_services y ! i) \<and> sv_cipher (sy_services y ! i) = None}"
    using each inside by blast
qed

text \<open>C1: However connections come, send any bytes, time out and go, repeat tasks and the worker resume, stores
  change and shutdown proceeds: the server never has more admitted connections than its total budget, nor more
  without transport keys than the unauthenticated one, and every live connection is among those counted.\<close>

theorem server_budgets:
  assumes "sys_reach (bridge_env T E0) gestures hold m u y"
  shows "card {i. i < length (sy_services y) \<and> sv_admitted (sy_services y ! i)} \<le> m
    \<and> card {i. i < length (sy_services y) \<and> sv_admitted (sy_services y ! i) \<and> sv_cipher (sy_services y ! i) = None} \<le> u
    \<and> (\<forall>i < length (sy_services y). sv_transport (sy_services y ! i) = Live \<longrightarrow> sv_admitted (sy_services y ! i))"
proof -
  have inv: "sys_inv (bridge_env T E0) m u y" using sys_reach_inv [OF assms] .
  then have "card (connections (sy_admission y)) \<le> m" "card (unauthenticated (sy_admission y)) \<le> u"
    "\<forall>i < length (sy_services y). sv_transport (sy_services y ! i) = Live \<longrightarrow> sv_admitted (sy_services y ! i)"
    by (auto simp: sys_defs adm_inv_def good_def conn_inv_def)
  then show ?thesis using counted_connections [OF inv] by simp
qed

text \<open>C2: Through the same events: whatever command waits on the shared lane belongs to the dispatch session of exactly one
  connection, and that connection is admitted, not torn down, and encrypted by a finished handshake, so that nothing
  waits for one that was lost or shut down. Where asking the authorization check again does not take a refusal back, the
  connection is also open: its transport is neither closed nor closing, so nothing waits for a connection that was
  closed for its frames, refused, timed out or revoked.\<close>

theorem waiting_work_owned:
  assumes "sys_reach (bridge_env T E0) gestures hold m u y" and "sy_lane y = Some l" and "q \<in> set (ln_queue l)"
  shows "\<exists>i < length (sy_services y). ba_owner (sv_app (sy_services y ! i)) = Some (q_owner q)
    \<and> (\<forall>j < length (sy_services y). ba_owner (sv_app (sy_services y ! j)) = Some (q_owner q) \<longrightarrow> j = i)
    \<and> \<not> sv_closed (sy_services y ! i) \<and> sv_admitted (sy_services y ! i) \<and> au_phase (sv_auth (sy_services y ! i)) = Encrypted
    \<and> (refusals_last (bridge_env T E0) \<longrightarrow> sv_transport (sy_services y ! i) = Live)"
proof -
  have inv: "sys_inv (bridge_env T E0) m u y" using sys_reach_inv [OF assms(1)] .
  obtain evs where "lane_reach l evs" using inv assms(2) by (auto simp: sys_defs)
  then have "registered l (q_owner q)" using lane_reach_inv assms(3) by (fastforce simp: inv_defs)
  then have "q_owner q \<in> registered_on (sy_lane y)" using assms(2) by (simp add: registered_on_def)
  moreover have "registered_on (sy_lane y) \<subseteq> (\<Union>i < length (sy_services y). owner_of y i)" using inv by (simp add: sys_inv_def owners_ok_def)
  ultimately obtain i where i: "i < length (sy_services y)" "q_owner q \<in> owner_of y i" by blast
  have one: "j = i" if "j < length (sy_services y)" "q_owner q \<in> owner_of y j" for j
  proof (rule ccontr)
    assume "j \<noteq> i"
    then have "owner_of y j \<inter> owner_of y i = {}" using inv that(1) i(1) by (simp add: sys_inv_def owners_ok_def)
    then show False using that(2) i(2) by blast
  qed
  have good: "good (bridge_env T E0) (service_view i y)" using inv i by (simp add: sys_inv_def services_ok_def)
  have busy: "owned (sv_app (service_view i y)) \<noteq> {}" using i(2) unfolding view_fields by blast
  from good_keys [OF good busy]
  have "\<not> sv_closed (sy_services y ! i) \<and> sv_admitted (sy_services y ! i) \<and> au_phase (sv_auth (sy_services y ! i)) = Encrypted
      \<and> (refusals_last (bridge_env T E0) \<longrightarrow> sv_transport (sy_services y ! i) = Live)"
    unfolding view_fields by blast
  moreover have "ba_owner (sv_app (sy_services y ! k)) = Some (q_owner q) \<longleftrightarrow> q_owner q \<in> owner_of y k" for k by (auto simp: owned_def)
  ultimately show ?thesis using i one by blast
qed

text \<open>Shutting down the registered services closes every service.\<close>

lemma shut_all:
  assumes "sys_inv (bridge_env T E0) m u y" "set is \<subseteq> {..<length (sy_services y)}"
  shows "sys_inv (bridge_env T E0) m u (fold (\<lambda>i. on_service i (shutdown (bridge_env T E0))) is y)
    \<and> length (sy_services (fold (\<lambda>i. on_service i (shutdown (bridge_env T E0))) is y)) = length (sy_services y)
    \<and> (\<forall>i < length (sy_services y). i \<in> set is \<or> sv_closed (sy_services y ! i) \<longrightarrow>
         sv_closed (sy_services (fold (\<lambda>i. on_service i (shutdown (bridge_env T E0))) is y) ! i))"
  using assms
proof (induction "is" arbitrary: y)
  case (Cons i "is")
  let ?z = "on_service i (shutdown (bridge_env T E0)) y"
  have i: "i < length (sy_services y)" using Cons.prems(2) by simp
  have g: "good (bridge_env T E0) (service_view i y)" using Cons.prems(1) i by (simp add: sys_inv_def services_ok_def)
  have inv: "sys_inv (bridge_env T E0) m u ?z" by (intro on_service_inv [OF Cons.prems(1) i] turn_shutdown)
  have len: "length (sy_services ?z) = length (sy_services y)" by (simp add: on_service_def)
  have closed: "sv_closed (sy_services ?z ! j)" if "j = i \<or> sv_closed (sy_services y ! j)" "j < length (sy_services y)" for j
    using that turn_shutdown(2) [OF g] by (cases "j = i") (auto simp: on_service_def)
  show ?case using Cons.IH [OF inv] Cons.prems(2) closed len by auto
qed simp

text \<open>C3: After \<open>close_server\<close> nothing is left: every connection the server ever made is closed, holds no keys, no admission
  and no dispatch owner, both budgets are free again, and the lane is stopped with nothing queued or registered.\<close>

theorem close_server_releases:
  assumes "sys_reach (bridge_env T E0) gestures hold m u y"
  shows "(\<forall>s \<in> set (sy_services (close_server (bridge_env T E0) y)).
        sv_closed s \<and> \<not> sv_admitted s \<and> sv_cipher s = None \<and> ba_owner (sv_app s) = None)
    \<and> connections (sy_admission (close_server (bridge_env T E0) y)) = {} \<and> unauthenticated (sy_admission (close_server (bridge_env T E0) y)) = {}
    \<and> (\<forall>l. sy_lane (close_server (bridge_env T E0) y) = Some l \<longrightarrow>
         ln_stopping l \<and> ln_queue l = [] \<and> ln_owners l = [] \<and> ln_current l = None \<and> ln_worker l = NoTask)"
proof -
  let ?E = "bridge_env T E0" and ?z = "close_server (bridge_env T E0) y"
  define y0 where "y0 = y\<lparr>sy_listening := False\<rparr>"
  define y1 where "y1 = fold (\<lambda>i. on_service i (shutdown ?E)) (sy_registry y) y0"
  have z: "?z = y1\<lparr>sy_lane := map_option (\<lambda>l. lane_closed (lane_close l)) (sy_lane y1)\<rparr>"
    by (simp add: close_server_def y0_def y1_def Let_def)
  have inv: "sys_inv ?E m u y" using sys_reach_inv [OF assms] .
  have inv0: "sys_inv ?E m u y0" using sys_step_inv [OF sys_step.unlistened inv] by (simp add: y0_def)
  have registry: "set (sy_registry y) \<subseteq> {..<length (sy_services y0)}" using inv by (simp add: sys_defs y0_def)
  note shut = shut_all [OF inv0 registry, folded y1_def]
  have closed: "sv_closed (sy_services y1 ! i)" if "i < length (sy_services y1)" for i
    using shut inv that by (auto simp: sys_defs y0_def)
  have gone: "\<not> sv_admitted s \<and> sv_cipher s = None \<and> ba_owner (sv_app s) = None \<and> sv_closed s" if "s \<in> set (sy_services y1)" for s
  proof -
    obtain i where i: "i < length (sy_services y1)" "s = sy_services y1 ! i" using \<open>s \<in> set (sy_services y1)\<close> by (auto simp: in_set_conv_nth)
    have g: "good ?E (service_view i y1)" using shut i by (simp add: sys_inv_def services_ok_def)
    then have "\<not> sv_admitted s" "sv_cipher s = None" using closed [OF i(1)] i(2) by (auto simp: good_def conn_inv_def)
    moreover have "owner_of y1 i = {}" using idle_owner [OF g] calculation i(2) by simp
    ultimately show ?thesis using closed [OF i(1)] i(2) by (simp add: owned_def)
  qed
  have empty: "connections (sy_admission y1) = {}" "unauthenticated (sy_admission y1) = {}"
    using counted_connections [of ?E m u y1] shut gone by auto
  have "ln_stopping l \<and> ln_queue l = [] \<and> ln_owners l = [] \<and> ln_current l = None \<and> ln_worker l = NoTask" if lane: "sy_lane ?z = Some l" for l
  proof -
    obtain l1 where l1: "sy_lane y1 = Some l1" "l = lane_closed (lane_close l1)" using lane by (auto simp: z)
    then obtain evs where "lane_reach l1 evs" using shut by (auto simp: sys_defs)
    then have "lane_inv (lane_close l1)" using close_good lane_reach_inv by (auto simp: good_step_def)
    moreover have "ln_stopping (lane_close l1)" by (simp add: lane_close_def Let_def cancel_current_def discard_fields split: option.split)
    ultimately show ?thesis by (simp add: l1(2) lane_closed_def inv_defs)
  qed
  then show ?thesis using gone empty by (simp add: z)
qed

end
