(* ===== verification/Scenario.thy ===== *)
theory Scenario
  imports System
begin

text \<open>
  One run of the whole model: the server starts, a client connects, proves itself in a pair-verify
  handshake, opens a remote session and presses play; its command then waits on the lane. The
  cryptography is a toy that the kernel can evaluate. The witnesses of the theory on the server.
\<close>

subsection \<open>The service of the client\<close>

abbreviation toy_env :: "(nat, unit, bridge) env" where
  "toy_env \<equiv> bridge_env sample_library (sample_env bridge_hooks)"

definition visitor :: "nat auth \<Rightarrow> cipher option \<Rightarrow> bytes list \<Rightarrow> bridge \<Rightarrow> (nat, unit, bridge) service" where
  "visitor au c w a = \<lparr>sv_auth = au, sv_host = (), sv_parser = \<lparr>fp_max = MAX_WIRE_PAYLOAD, fp_buffer = [], fp_size = None\<rparr>, sv_cipher = c,
     sv_transport = Live, sv_written = w, sv_id = 0,
     sv_admission = Some \<lparr>max_connections = 2, max_unauthenticated = 1, connections = {0}, unauthenticated = (if c = None then {0} else {})\<rparr>,
     sv_admitted = True, sv_closed = False, sv_malformed = 0, sv_source = Some ''10.0.0.2'', sv_deadline = (c = None), sv_app = a\<rparr>"

lemma visitor_fields [simp]:
  "sv_auth (visitor au c w a) = au" "sv_cipher (visitor au c w a) = c" "sv_transport (visitor au c w a) = Live"
  "sv_app (visitor au c w a) = a" "sv_written (visitor au c w a) = w" "sv_source (visitor au c w a) = Some ''10.0.0.2''"
  "sv_parser (visitor au c w a) = \<lparr>fp_max = MAX_WIRE_PAYLOAD, fp_buffer = [], fp_size = None\<rparr>" "is_connection_active (visitor au c w a)"
  "(visitor au c w a)\<lparr>sv_parser := \<lparr>fp_max = MAX_WIRE_PAYLOAD, fp_buffer = [], fp_size = None\<rparr>\<rparr> = visitor au c w a"
  "(visitor au c w a)\<lparr>sv_host := h\<rparr> = visitor au c w a" "(visitor au c w a)\<lparr>sv_app := a'\<rparr> = visitor au c w a'"
  "(visitor au c w a)\<lparr>sv_auth := au', sv_host := h\<rparr> = visitor au' c w a"
  "(visitor au c w a)\<lparr>sv_written := w'\<rparr> = visitor au c w' a"
  "(visitor au (Some k) w a)\<lparr>sv_cipher := Some k'\<rparr> = visitor au (Some k') w a"
  by (simp_all add: visitor_def is_connection_active_def)

lemma toy_fields [simp]:
  "en_crypto toy_env = sample_crypto" "en_host toy_env x = sample_host" "en_config toy_env = sample_config"
  "ap_message (en_app toy_env) = handle_message sample_library (sample_env bridge_hooks\<lparr>en_app := bridge_hooks\<rparr>)"
  "ac_depth sample_config = Suc (Suc (Suc 0))"
  by (simp_all add: bridge_env_def sample_env_def sample_config_def)

lemma visitor_frame:
  assumes "handle_frame toy_env [t, n1, n2, n3] payload (visitor au c w a) = (Inr True, visitor au' c' w' a')"
    and "be_nat [n1, n2, n3] = length payload" "length payload \<le> MAX_WIRE_PAYLOAD"
  shows "data_received toy_env ([t, n1, n2, n3] @ payload) (visitor au c w a) = visitor au' c' w' a'"
proof -
  let ?p = "\<lparr>fp_max = MAX_WIRE_PAYLOAD, fp_buffer = [], fp_size = None\<rparr>"
  have next1: "feed_next ?p ([t, n1, n2, n3] @ payload) = (Yielded (CompanionFrame [t, n1, n2, n3] payload), ?p, [])"
  proof -
    have head: "fp_take ?p ([t, n1, n2, n3] @ payload) 4 = (?p\<lparr>fp_buffer := [t, n1, n2, n3]\<rparr>, payload)" by (simp add: fp_take_def Let_def)
    show ?thesis
      unfolding feed_next_def FRAME_HEADER_SIZE_def head using assms(2,3)
      by (simp add: feed_body_def fp_take_def fp_clear_def FRAME_HEADER_SIZE_def Let_def)
  qed
  have "feed_next ?p [] = (Exhausted, ?p, [])" by (simp add: feed_next_def)
  then show ?thesis
    using assms(1) next1 by (simp add: data_received_def drain.simps [of toy_env])
qed


subsection \<open>Replies and requests\<close>

definition toy_cipher :: "nat \<Rightarrow> nat \<Rightarrow> cipher" where
  "toy_cipher received sent = \<lparr>ci_out_key = [4], ci_in_key = [4], ci_out_counter = sent, ci_in_counter = received, ci_nonce_length = 12\<rparr>"

definition toy_frame :: "frame_type \<Rightarrow> bytes \<Rightarrow> bytes" where
  "toy_frame t payload = (word_of_nat (frame_code t) # be_bytes 3 (length payload)) @ payload"

lemma visitor_reply:
  assumes "opack_pack (Suc (Suc (Suc 0))) d = Inr enc" "length enc \<le> MAX_APPLICATION_PAYLOAD"
  shows "send_to_client toy_env t d (visitor au None w a) = (Inr (), visitor au None (w @ [toy_frame t enc]) a)"
  using assms by (simp add: send_to_client_def st_eval cipher_seal_def write_transport_def Let_def toy_frame_def)

lemma visitor_sealed_reply:
  assumes "en_config E = sample_config" "en_crypto E = sample_crypto"
    and "opack_pack (Suc (Suc (Suc 0))) d = Inr enc" "length enc \<le> MAX_APPLICATION_PAYLOAD" "m < 100"
  shows "send_to_client E t d (visitor au (Some (toy_cipher n m)) w a)
    = (Inr (), visitor au (Some (toy_cipher n (Suc m)))
        (w @ [(word_of_nat (frame_code t) # be_bytes 3 (length enc + 16)) @ 4 # enc]) a)"
proof -
  obtain x where "out_nonce (toy_cipher n m) = Inr x"
    using assms(5) counter_nonce_ok [of m 12] by (auto simp: out_nonce_def toy_cipher_def)
  then have "cipher_encrypt (aead.truncate sample_crypto) enc None aad (toy_cipher n m) = (Inr (4 # enc), toy_cipher n (Suc m))" for aad
    by (simp add: cipher_encrypt_def) (simp add: toy_cipher_def sample_crypto_def aead.defs)
  then show ?thesis
    using assms by (simp add: send_to_client_def st_eval cipher_seal_def write_transport_def Let_def)
qed

text \<open>An encrypted request reaches its handler.\<close>

lemma visitor_request:
  assumes "opack_unpack (Suc (Suc (Suc 0))) body = Inr (message, rest)" "\<not> bare_response message" "length body \<le> MAX_APPLICATION_PAYLOAD" "n < 100"
    and "au_client au = Some ''p''" "au_client_key au = Some [1]"
    and "handle_message sample_library (sample_env bridge_hooks\<lparr>en_app := bridge_hooks\<rparr>) message (visitor au (Some (toy_cipher (Suc n) m)) w a)
      = (Inr (), visitor au (Some (toy_cipher n' m')) w' a')"
  shows "handle_frame toy_env [8, n1, n2, n3] (4 # body) (visitor au (Some (toy_cipher n m)) w a) = (Inr True, visitor au (Some (toy_cipher n' m')) w' a')"
proof -
  obtain x where "in_nonce (toy_cipher n m) = Inr x"
    using assms(4) counter_nonce_ok [of n 12] by (auto simp: in_nonce_def toy_cipher_def)
  then have plain: "cipher_decrypt (aead.truncate sample_crypto) (4 # body) None aad (toy_cipher n m) = (Inr body, toy_cipher (Suc n) m)" for aad
    by (simp add: cipher_decrypt_def opened_def) (simp add: toy_cipher_def sample_crypto_def aead.defs)
  have ok: "check_authorized toy_env (visitor au c w a) = (Inr True, visitor au c w a)" for c
    using assms(5,6) by (simp add: check_authorized_def auth_call_def verified_client_is_authorized_def enforced_def st_eval peer_of_def am_eval
        sample_config_def sample_host_def split: option.split)
  have "frame_type_of (unat (8 :: byte)) = Some E_OPACK" by (simp add: frame_type_of_def frame_codes_def)
  then show ?thesis
    using assms(1,2,3,7) by (simp add: handle_frame_def open_frame_def st_eval is_auth_frame_def COMPANION_AUTH_FRAMES_def ok cipher_open_def plain
        dispatch_frame_def still_open_def)
qed

subsection \<open>The handshake\<close>

lemma visitor_auth:
  assumes "frame_type_of (unat t) = Some ft" "is_auth_frame ft" "opack_unpack (Suc (Suc (Suc 0))) payload = Inr (message, rest)"
    and "length payload \<le> MAX_APPLICATION_PAYLOAD" "au_phase au \<noteq> Encrypted"
    and "handle_auth_frame sample_crypto sample_host sample_config ft message \<lparr>pe_auth = au, pe_host = (), pe_sent = [], pe_keys = None\<rparr>
      = (Inr True, \<lparr>pe_auth = au', pe_host = (), pe_sent = [(PV_Next, d)], pe_keys = keys\<rparr>)"
    and "opack_pack (Suc (Suc (Suc 0))) d = Inr enc" "length enc \<le> MAX_APPLICATION_PAYLOAD"
    and "c = map_option (\<lambda>(out_key, in_key). new_cipher out_key in_key 12) keys"
  shows "handle_frame toy_env [t, n1, n2, n3] payload (visitor au None w a) = (Inr True, visitor au' c (w @ [toy_frame PV_Next enc]) a)"
proof -
  have peer: "peer_of (visitor au None w a) = \<lparr>pe_auth = au, pe_host = (), pe_sent = [], pe_keys = None\<rparr>"
    by (simp add: peer_of_def visitor_def)
  have "auth_call toy_env (handle_auth_frame sample_crypto sample_host sample_config ft message) (visitor au None w a)
      = (Inr True, visitor au' c (w @ [toy_frame PV_Next enc]) a)"
    unfolding auth_call_def peer assms(6) using visitor_reply [OF assms(7,8), of PV_Next au' w a] assms(9)
    by (cases keys) (auto simp: st_eval enable_encryption_def visitor_def adm_authenticated_def split: prod.split)
  then show ?thesis
    using assms(1-5) by (simp add: handle_frame_def open_frame_def st_eval dispatch_frame_def still_open_def)
qed

definition asked :: "nat auth" where
  "asked = new_auth\<lparr>au_phase := VerifyM3, au_output_key := Some [4], au_input_key := Some [4], au_pv_key := Some [4],
     au_pv_server := Some [8], au_pv_client := Some [7]\<rparr>"

definition verified :: "nat auth" where
  "verified = new_auth\<lparr>au_phase := Encrypted, au_client := Some ''p'', au_client_key := Some [1]\<rparr>"

lemma first_decoded: "decode_auth_frame (Suc (Suc (Suc 0))) (pd [6, 1, 1, 3, 1, 7]) = Inr ([(6, [1]), (3, [7])], 1)"
  by (simp add: decode_auth_frame_def pd_def opack_get_def read_tlv_def tlv_merge_def)

lemma first_handled:
  "handle_auth_frame sample_crypto sample_host sample_config PV_Start (pd [6, 1, 1, 3, 1, 7]) \<lparr>pe_auth = new_auth, pe_host = (), pe_sent = [], pe_keys = None\<rparr>
   = (Inr True, \<lparr>pe_auth = asked, pe_host = (), pe_sent = [(PV_Next, pd [6, 1, 2, 3, 1, 8, 5, 9, 4, 1, 1, 49, 10, 3, 8, 49, 7])], pe_keys = None\<rparr>)"
  by code_simp

lemma second_handled:
  "handle_auth_frame sample_crypto sample_host sample_config PV_Next (pd [6, 1, 3, 5, 7, 4, 1, 1, 112, 10, 1, 9]) \<lparr>pe_auth = asked, pe_host = (), pe_sent = [], pe_keys = None\<rparr>
   = (Inr True, \<lparr>pe_auth = verified, pe_host = (), pe_sent = [(PV_Next, pd [6, 1, 4])], pe_keys = Some ([4], [4])\<rparr>)"
  by code_simp

lemma handshake_packed:
  "opack_unpack (Suc (Suc (Suc 0))) [225, 67, 95, 112, 100, 118, 6, 1, 1, 3, 1, 7] = Inr (pd [6, 1, 1, 3, 1, 7], [])"
  "opack_unpack (Suc (Suc (Suc 0))) [225, 67, 95, 112, 100, 124, 6, 1, 3, 5, 7, 4, 1, 1, 112, 10, 1, 9] = Inr (pd [6, 1, 3, 5, 7, 4, 1, 1, 112, 10, 1, 9], [])"
  "opack_pack (Suc (Suc (Suc 0))) (pd [6, 1, 2, 3, 1, 8, 5, 9, 4, 1, 1, 49, 10, 3, 8, 49, 7])
    = Inr ([225, 67, 95, 112, 100, 129] @ [6, 1, 2, 3, 1, 8, 5, 9, 4, 1, 1, 49, 10, 3, 8, 49, 7])"
  "opack_pack (Suc (Suc (Suc 0))) (pd [6, 1, 4]) = Inr [225, 67, 95, 112, 100, 115, 6, 1, 4]"
  by code_simp+

subsection \<open>The run\<close>

definition idle_lane :: "nat lane" where
  "idle_lane = \<lparr>ln_max = 64, ln_queue = [], ln_owners = [], ln_wake = False, ln_worker = WaitingWake, ln_cancel = False, ln_current = None,
     ln_stopping = False, ln_futures = [], ln_next = 0\<rparr>"

definition started :: "(nat, unit) system" where
  "started = \<lparr>sy_services = [], sy_registry = [], sy_listening = True, sy_admission = new_admission 2 1, sy_host = (), sy_device = new_device,
     sy_lane = Some idle_lane, sy_fresh = 0, sy_now = 0, sy_dispatched = []\<rparr>"

definition joined :: bridge where
  "joined = attach_bridge (new_bridge 0 default_gestures default_hold new_device (Some idle_lane) 0 0)"

text \<open>A run with one connection, seen from its service.\<close>

definition visited :: "nat auth \<Rightarrow> cipher option \<Rightarrow> bytes list \<Rightarrow> bridge \<Rightarrow> bool" where
  "visited au c w a \<longleftrightarrow> (\<exists>y. sys_reach toy_env default_gestures default_hold 2 1 y \<and> length (sy_services y) = 1
     \<and> sy_registry y = [0] \<and> service_view 0 y = visitor au c w a)"

lemma served_started: "sys_reach toy_env default_gestures default_hold 2 1 started"
proof -
  have "serve True (Some (new_admission 2 1)) () 0 = Inr started"
    by (simp add: serve_def new_lane_def DEFAULT_COMMAND_QUEUE_SIZE_def lane_start_def started_def idle_lane_def)
  then show ?thesis by (rule served)
qed

lemma service_back:
  assumes "i < length (sy_services y)" "sv_admission s \<noteq> None" "ba_now (sv_app s) = sy_now y"
  shows "service_view i (put_service i s y) = s"
  using assms by (auto simp: service_view_def put_service_def Let_def)

lemma visited_joined: "visited new_auth None [] joined"
proof -
  let ?y = "accept_connection default_gestures default_hold started"
  have one: "sy_services ?y = [new_service 0 (Some (new_admission 2 1)) () (new_bridge 0 default_gestures default_hold new_device (Some idle_lane) 0 0)]"
    "sy_registry ?y = [0]" "sy_now ?y = 0" "sy_host ?y = ()"
    by (simp_all add: accept_connection_def started_def Let_def)
  have "sys_reach toy_env default_gestures default_hold 2 1 ?y"
    by (rule sys_reach.stepped [OF served_started sys_step.accepted]) (simp add: started_def)
  moreover have "sys_step toy_env default_gestures default_hold ?y (on_service 0 (connection_made toy_env (Some ''10.0.0.2'')) ?y)"
    by (rule sys_step.connected) (simp_all add: one new_service_def)
  ultimately have "sys_reach toy_env default_gestures default_hold 2 1 (on_service 0 (connection_made toy_env (Some ''10.0.0.2'')) ?y)" by (rule sys_reach.stepped)
  moreover have "service_view 0 ?y = new_service 0 (Some (new_admission 2 1)) () (new_bridge 0 default_gestures default_hold new_device (Some idle_lane) 0 0)"
    by (simp add: service_view_def one new_service_def new_bridge_def) (simp add: accept_connection_def started_def Let_def)
  moreover have "connection_made toy_env (Some ''10.0.0.2'') (new_service 0 (Some (new_admission 2 1)) () (new_bridge 0 default_gestures default_hold new_device (Some idle_lane) 0 0))
     = visitor new_auth None [] joined"
    by (simp add: connection_made_def new_service_def new_admission_def adm_acquire_def visitor_def joined_def Let_def reset_authentication_def
        new_auth_def clear_pending_def clear_setup_def clear_verify_def clear_client_def fp_clear_def bridge_env_def sample_env_def bridge_hooks_def)
  moreover have "service_view 0 (put_service 0 (visitor new_auth None [] joined) ?y) = visitor new_auth None [] joined"
    by (rule service_back) (simp_all add: one joined_def attach_bridge_def new_bridge_def visitor_def)
  ultimately show ?thesis
    unfolding visited_def by (intro exI [of _ "on_service 0 (connection_made toy_env (Some ''10.0.0.2'')) ?y"]) (simp add: on_service_def put_service_def one)
qed

lemma visited_frame:
  assumes "visited au c w a" "handle_frame toy_env [t, n1, n2, n3] payload (visitor au c w a) = (Inr True, visitor au' c' w' a')"
    and "be_nat [n1, n2, n3] = length payload" "length payload \<le> MAX_WIRE_PAYLOAD" "ba_now a' = ba_now a"
  shows "visited au' c' w' a'"
proof -
  obtain y where y: "sys_reach toy_env default_gestures default_hold 2 1 y" "length (sy_services y) = 1" "sy_registry y = [0]"
    "service_view 0 y = visitor au c w a" using assms(1) by (auto simp: visited_def)
  let ?s = "visitor au' c' w' a'"
  have "on_service 0 (data_received toy_env ([t, n1, n2, n3] @ payload)) y = put_service 0 ?s y"
    unfolding on_service_def y(4) visitor_frame [OF assms(2-4)] ..
  moreover have "sys_reach toy_env default_gestures default_hold 2 1 (on_service 0 (data_received toy_env ([t, n1, n2, n3] @ payload)) y)"
    using y(2) by (intro sys_reach.stepped [OF y(1)] sys_step.received) simp
  moreover have "ba_now a = sy_now y" using arg_cong [OF y(4), of "\<lambda>s. ba_now (sv_app s)"] by (simp add: service_view_def Let_def)
  then have "service_view 0 (put_service 0 ?s y) = ?s"
    using y(2) assms(5) by (intro service_back) (simp_all add: visitor_def)
  ultimately show ?thesis using y(2,3) by (auto simp: visited_def put_service_def intro!: exI [of _ "put_service 0 ?s y"])
qed

lemma new_is_toy: "new_cipher [4] [4] 12 = toy_cipher 0 0"
  by (simp add: new_cipher_def toy_cipher_def)

lemma sizes [simp]: "n \<le> 60 \<Longrightarrow> n \<le> MAX_APPLICATION_PAYLOAD" "n \<le> 60 \<Longrightarrow> n \<le> MAX_WIRE_PAYLOAD"
  by (simp_all add: MAX_APPLICATION_PAYLOAD_def MAX_WIRE_PAYLOAD_def)

lemma visited_asked: "\<exists>w. visited asked None w joined"
proof -
  have "handle_frame toy_env [5, 0, 0, 12] [225, 67, 95, 112, 100, 118, 6, 1, 1, 3, 1, 7] (visitor new_auth None [] joined)
      = (Inr True, visitor asked None ([] @ [toy_frame PV_Next ([225, 67, 95, 112, 100, 129] @ [6, 1, 2, 3, 1, 8, 5, 9, 4, 1, 1, 49, 10, 3, 8, 49, 7])]) joined)"
    by (rule visitor_auth [where ft = PV_Start, OF _ _ handshake_packed(1) _ _ first_handled handshake_packed(3)])
      (simp_all add: frame_type_of_def frame_codes_def is_auth_frame_def COMPANION_AUTH_FRAMES_def new_auth_def)
  from visited_frame [OF visited_joined this] show ?thesis by (simp add: be_nat_def) blast
qed

lemma visited_verified: "\<exists>w. visited verified (Some (toy_cipher 0 0)) w joined"
proof -
  obtain w where w: "visited asked None w joined" using visited_asked by blast
  have "handle_frame toy_env [6, 0, 0, 18] [225, 67, 95, 112, 100, 124, 6, 1, 3, 5, 7, 4, 1, 1, 112, 10, 1, 9] (visitor asked None w joined)
      = (Inr True, visitor verified (Some (toy_cipher 0 0)) (w @ [toy_frame PV_Next [225, 67, 95, 112, 100, 115, 6, 1, 4]]) joined)"
    by (rule visitor_auth [where ft = PV_Next, OF _ _ handshake_packed(2) _ _ second_handled handshake_packed(4)])
      (simp_all add: frame_type_of_def frame_codes_def is_auth_frame_def COMPANION_AUTH_FRAMES_def asked_def new_is_toy)
  from visited_frame [OF w this] show ?thesis by (simp add: be_nat_def) blast
qed

subsection \<open>A command that waits\<close>

definition attended :: bridge where
  "attended = joined\<lparr>ba_owner := Some 0, ba_fresh := 1, ba_lane := Some (idle_lane\<lparr>ln_owners := [(0, connection_owner)]\<rparr>)\<rparr>"

definition play_command :: command where
  "play_command = key_command SendKey (Some ''KEY_PLAY_BACK'') (FromOther ''mcc:Play'')"

definition play_item :: "nat queued" where
  "play_item = \<lparr>q_id = 0, q_owner = 0, q_command = play_command, q_generation = None, q_completion = None, q_cancelled = False\<rparr>"

definition playing :: bridge where
  "playing = attended\<lparr>ba_session := (ba_session attended)\<lparr>ss_first_logged := True\<rparr>,
     ba_lane := Some (idle_lane\<lparr>ln_owners := [(0, connection_owner)], ln_queue := [play_item], ln_wake := True, ln_next := 1\<rparr>)\<rparr>"

abbreviation inner_env :: "(nat, unit, bridge) env" where
  "inner_env \<equiv> sample_env bridge_hooks\<lparr>en_app := bridge_hooks\<rparr>"

lemma inner_fields: "en_config inner_env = sample_config" "en_crypto inner_env = sample_crypto"
  by (simp_all add: sample_env_def)

definition start_body :: bytes where
  "start_body = [228, 66, 95, 105, 80, 84, 86, 82, 67, 83, 101, 115, 115, 105, 111, 110, 83, 116, 97, 114, 116, 66, 95, 120, 9, 66, 95, 116, 10, 66, 95, 99, 224]"

definition start_message :: opack where
  "start_message = ODict [(OStr ''_i'', OStr ''TVRCSessionStart''), (OStr ''_x'', OInt 1 None), (OStr ''_t'', OInt 2 None), (OStr ''_c'', ODict [])]"

definition play_body :: bytes where
  "play_body = [228, 66, 95, 105, 68, 95, 109, 99, 99, 66, 95, 120, 10, 66, 95, 116, 10, 66, 95, 99, 225, 161, 9]"

definition play_message :: opack where
  "play_message = ODict [(OStr ''_i'', OStr ''_mcc''), (OStr ''_x'', OInt 2 None), (OStr ''_t'', OInt 2 None), (OStr ''_c'', ODict [(OStr ''_mcc'', OInt 1 None)])]"

lemma requests_unpacked:
  "opack_unpack (Suc (Suc (Suc 0))) start_body = Inr (start_message, [])" "opack_unpack (Suc (Suc (Suc 0))) play_body = Inr (play_message, [])"
  "\<not> bare_response start_message" "\<not> bare_response play_message"
  by code_simp+

lemma start_parts:
  "handler_name start_message = Inr (Some ''tvrcsessionstart'')" "item start_message ''_i'' = Inr (OStr ''TVRCSessionStart'')"
  "item start_message ''_x'' = Inr (OInt 1 None)" "item start_message ''_c'' = Inr (ODict [])" "content_of start_message = Inr (ODict [])"
  "dict_get (ODict []) ''ProtocolVersionKey'' = Inr None"
  by code_simp+

lemma play_parts:
  "handler_name play_message = Inr (Some ''_mcc'')" "item play_message ''_i'' = Inr (OStr ''_mcc'')"
  "item play_message ''_x'' = Inr (OInt 2 None)" "content_of play_message = Inr (ODict [(OStr ''_mcc'', OInt 1 None)])"
  "item (ODict [(OStr ''_mcc'', OInt 1 None)]) ''_mcc'' = Inr (OInt 1 None)" "py_int (OInt 1 None) = Inr 1" "media_command (int_value 1) = Inr MPlay"
  by code_simp+

lemma replies_packed:
  "opack_pack (Suc (Suc (Suc 0))) (ODict [(text_value ''_i'', OStr ''TVRCSessionStart''), (text_value ''_x'', OInt 1 None), (text_value ''_t'', int_value 3),
     (text_value ''_c'', ODict [])])
   = Inr [228, 66, 95, 105, 80, 84, 86, 82, 67, 83, 101, 115, 115, 105, 111, 110, 83, 116, 97, 114, 116, 66, 95, 120, 9, 66, 95, 116, 11, 66, 95, 99, 224]"
  "opack_pack (Suc (Suc (Suc 0))) (ODict [(text_value ''_i'', text_value ''MediaControlStatus''), (text_value ''_x'', OInt 1 None),
     (text_value ''_t'', int_value 1), (text_value ''_c'', modern_flags)])
   = Inr [228, 66, 95, 105, 82, 77, 101, 100, 105, 97, 67, 111, 110, 116, 114, 111, 108, 83, 116, 97, 116, 117, 115, 66, 95, 120, 9, 66, 95, 116, 9,
       66, 95, 99, 225, 81, 77, 101, 100, 105, 97, 67, 111, 110, 116, 114, 111, 108, 70, 108, 97, 103, 115, 49, 0, 1]"
  "opack_pack (Suc (Suc (Suc 0))) (ODict [(text_value ''_i'', text_value ''_iMC''), (text_value ''_x'', OInt 1 None), (text_value ''_t'', int_value 1),
     (text_value ''_c'', legacy_flags VOLUME_FLAG)])
   = Inr [228, 66, 95, 105, 68, 95, 105, 77, 67, 66, 95, 120, 9, 66, 95, 116, 9, 66, 95, 99, 225, 68, 95, 109, 99, 70, 49, 0, 1]"
  "opack_pack (Suc (Suc (Suc 0))) (ODict [(text_value ''_i'', OStr ''_mcc''), (text_value ''_x'', OInt 2 None), (text_value ''_t'', int_value 3),
     (text_value ''_c'', empty_dict)])
   = Inr [228, 66, 95, 105, 68, 95, 109, 99, 99, 66, 95, 120, 10, 66, 95, 116, 11, 66, 95, 99, 224]"
  by code_simp+

lemmas inner_reply = visitor_sealed_reply [OF inner_fields]

lemma joined_session:
  "begin_dispatch_session (visitor au c w joined) = (Inr (), visitor au c w attended)"
proof -
  have "release_owner joined = joined"
    by (simp add: release_owner_def invalidate_repeaters_def stop_all_now_def joined_def attach_bridge_def new_bridge_def new_repeater_def
        end_dispatch_session_def)
  moreover have "ba_lane joined = Some idle_lane" "ba_fresh joined = 0"
    by (simp_all add: joined_def attach_bridge_def new_bridge_def)
  moreover have "lane_activate 0 \<lparr>rg_authorize = True, rg_on_unauthorized = True\<rparr> idle_lane = Inr (idle_lane\<lparr>ln_owners := [(0, connection_owner)]\<rparr>)"
    by (simp add: lane_activate_def lane_start_def idle_lane_def connection_owner_def)
  ultimately show ?thesis
    by (simp add: begin_dispatch_session_def app_set_def app_get_def st_eval attended_def)
qed

lemma start_handled:
  "\<exists>w'. handle_message sample_library inner_env start_message (visitor au (Some (toy_cipher 1 0)) w joined)
     = (Inr (), visitor au (Some (toy_cipher 1 3)) w' attended)"
proof -
  have same: "attended\<lparr>ba_session := (ba_session attended)\<lparr>ss_protocol := None\<rparr>\<rparr> = attended"
    by (simp add: attended_def joined_def attach_bridge_def new_bridge_def attach_session_def new_session_def)
  show ?thesis
    by (simp add: handle_message_def handlers_def start_parts handle_tvrcsessionstart_def st_eval joined_session session_set_def app_set_def same
        send_response_def send_event_def inner_reply [OF replies_packed(1)] inner_reply [OF replies_packed(2)] inner_reply [OF replies_packed(3)] numeral_3_eq_3) blast
qed

lemma attended_fields [simp]:
  "ba_lane attended = Some (idle_lane\<lparr>ln_owners := [(0, connection_owner)]\<rparr>)" "ba_owner attended = Some 0"
  by (simp_all add: attended_def)

text \<open>The play button, on any lane that takes the command.\<close>

lemma play_on:
  assumes "lane_submit 0 play_command (Some True) l = (True, [], l')" "\<not> ln_stopping l" "map_of (ln_owners l) 0 = Some connection_owner"
    and "ba_lane a = Some l" "ba_owner a = Some 0"
  shows "\<exists>w'. handle_message sample_library inner_env play_message (visitor verified (Some (toy_cipher 2 3)) w a)
     = (Inr (), visitor verified (Some (toy_cipher 2 4)) w' (a\<lparr>ba_session := (ba_session a)\<lparr>ss_first_logged := True\<rparr>, ba_lane := Some l'\<rparr>))"
proof -
  let ?a = "a\<lparr>ba_session := (ba_session a)\<lparr>ss_first_logged := True\<rparr>, ba_lane := Some l'\<rparr>"
  have ok: "check_authorized inner_env (visitor verified c w a) = (Inr True, visitor verified c w a)" for c w a
    by (simp add: check_authorized_def auth_call_def verified_client_is_authorized_def enforced_def st_eval peer_of_def am_eval
        sample_env_def sample_config_def sample_host_def verified_def split: option.split)
  have sink: "dispatch_sink inner_env play_command (visitor verified c w a) = (Inr (), visitor verified c w ?a)" for c w
  proof -
    have "cm_repeat play_command = None" by (simp add: play_command_def key_command_def)
    then show ?thesis
      using assms by (simp add: dispatch_sink_def st_eval session_set_def app_set_def app_get_def submit_dispatch_def with_lane_def ok)
  qed
  have emitted: "emit t play_command r = ([play_command], r)" for t r by (simp add: emit_def play_command_def key_command_def)
  show ?thesis
    by (simp add: handle_message_def handlers_def play_parts handle_mcc_def st_eval rbind_def relay_do_def app_get_def app_set_def
        emitted sink send_response_def acknowledge_def inner_reply [OF replies_packed(4)] flip: play_command_def) blast
qed

lemma play_handled:
  "\<exists>w'. handle_message sample_library inner_env play_message (visitor verified (Some (toy_cipher 2 3)) w attended)
     = (Inr (), visitor verified (Some (toy_cipher 2 4)) w' playing)"
proof -
  have "lane_submit 0 play_command (Some True) (idle_lane\<lparr>ln_owners := [(0, connection_owner)]\<rparr>)
      = (True, [], idle_lane\<lparr>ln_owners := [(0, connection_owner)], ln_queue := [play_item], ln_wake := True, ln_next := 1\<rparr>)"
    by (simp add: lane_submit_def lane_enqueue_def owner_is_authorized_def idle_lane_def connection_owner_def play_item_def play_command_def
        key_command_def)
  from play_on [OF this, of attended] show ?thesis by (simp add: playing_def idle_lane_def)
qed

lemma verified_fields: "au_client verified = Some ''p''" "au_client_key verified = Some [1]"
  by (simp_all add: verified_def)

lemma visited_playing: "\<exists>w c. visited verified (Some c) w playing"
proof -
  obtain w where w: "visited verified (Some (toy_cipher 0 0)) w joined" using visited_verified by blast
  obtain w1 where "handle_message sample_library inner_env start_message (visitor verified (Some (toy_cipher (Suc 0) 0)) w joined)
      = (Inr (), visitor verified (Some (toy_cipher 1 3)) w1 attended)" using start_handled by (auto simp del: One_nat_def simp flip: One_nat_def)
  then have "handle_frame toy_env [8, 0, 0, 34] (4 # start_body) (visitor verified (Some (toy_cipher 0 0)) w joined)
      = (Inr True, visitor verified (Some (toy_cipher 1 3)) w1 attended)"
    by (intro visitor_request [OF requests_unpacked(1,3)]) (simp_all add: verified_fields, simp_all add: start_body_def)
  then have w1: "visited verified (Some (toy_cipher 1 3)) w1 attended"
    by (rule visited_frame [OF w]) (simp_all add: be_nat_def start_body_def attended_def)
  obtain w2 where "handle_message sample_library inner_env play_message (visitor verified (Some (toy_cipher (Suc 1) 3)) w1 attended)
      = (Inr (), visitor verified (Some (toy_cipher 2 4)) w2 playing)" using play_handled by (auto simp: numeral_2_eq_2)
  then have "handle_frame toy_env [8, 0, 0, 24] (4 # play_body) (visitor verified (Some (toy_cipher 1 3)) w1 attended)
      = (Inr True, visitor verified (Some (toy_cipher 2 4)) w2 playing)"
    by (intro visitor_request [OF requests_unpacked(2,4)]) (simp_all add: verified_fields, simp_all add: play_body_def)
  then have "visited verified (Some (toy_cipher 2 4)) w2 playing"
    by (rule visited_frame [OF w1]) (simp_all add: be_nat_def play_body_def playing_def)
  then show ?thesis by blast
qed

text \<open>A reachable server where a command waits.\<close>

lemma scene:
  obtains y l where "sys_reach toy_env default_gestures default_hold 2 1 y" "sy_lane y = Some l" "ln_queue l = [play_item]"
    "length (sy_services y) = 1" "sv_admitted (sy_services y ! 0)" "sv_cipher (sy_services y ! 0) \<noteq> None" "ba_owner (sv_app (sy_services y ! 0)) = Some 0"
proof -
  obtain w c where "visited verified (Some c) w playing" using visited_playing by blast
  then obtain y where y: "sys_reach toy_env default_gestures default_hold 2 1 y" "length (sy_services y) = 1"
    "service_view 0 y = visitor verified (Some c) w playing" by (auto simp: visited_def)
  have "sy_lane y = ba_lane playing" using arg_cong [OF y(3), of "\<lambda>s. ba_lane (sv_app s)"] by (simp add: service_view_def Let_def)
  moreover have "sv_admitted (sy_services y ! 0)" using arg_cong [OF y(3), of sv_admitted] by (simp add: service_view_def Let_def visitor_def)
  moreover have "sv_cipher (sy_services y ! 0) = Some c" using arg_cong [OF y(3), of sv_cipher] by (simp add: service_view_def Let_def)
  moreover have "ba_owner (sv_app (sy_services y ! 0)) = ba_owner playing"
    using arg_cong [OF y(3), of "\<lambda>s. ba_owner (sv_app s)"] by (simp add: service_view_def Let_def)
  ultimately show thesis using y(1,2) by (intro that [of y "the (ba_lane playing)"]) (simp_all add: playing_def idle_lane_def)
qed

subsection \<open>Witnesses\<close>

theorem server_budgets_witness:
  "\<exists>y. sys_reach toy_env default_gestures default_hold 2 1 y \<and> sv_admitted (sy_services y ! 0)
     \<and> card {i. i < length (sy_services y) \<and> sv_admitted (sy_services y ! i)} \<le> 2"
proof -
  obtain y where y: "sys_reach toy_env default_gestures default_hold 2 1 y" "sv_admitted (sy_services y ! 0)" by (rule scene)
  then show ?thesis using server_budgets [OF y(1)] by blast
qed

theorem waiting_work_owned_witness:
  "\<exists>y l. sys_reach toy_env default_gestures default_hold 2 1 y \<and> sy_lane y = Some l \<and> ln_queue l = [play_item]
     \<and> (\<exists>i < length (sy_services y). ba_owner (sv_app (sy_services y ! i)) = Some 0 \<and> au_phase (sv_auth (sy_services y ! i)) = Encrypted
          \<and> sv_transport (sy_services y ! i) = Live)"
proof -
  have last: "refusals_last toy_env" by (simp add: refusals_last_def bridge_env_def sample_env_def sample_host_def)
  obtain y l where y: "sys_reach toy_env default_gestures default_hold 2 1 y" "sy_lane y = Some l" "ln_queue l = [play_item]" by (rule scene)
  have "play_item \<in> set (ln_queue l)" by (simp add: y(3))
  from waiting_work_owned [OF y(1,2) this] last have "\<exists>i < length (sy_services y). ba_owner (sv_app (sy_services y ! i)) = Some 0
    \<and> au_phase (sv_auth (sy_services y ! i)) = Encrypted \<and> sv_transport (sy_services y ! i) = Live" by (auto simp: play_item_def)
  then show ?thesis using y by blast
qed

text \<open>The same button when a command of another connection's owner waits already.\<close>

definition other_item :: "nat queued" where "other_item = play_item\<lparr>q_owner := 9\<rparr>"

definition shared_lane :: "nat lane" where
  "shared_lane = idle_lane\<lparr>ln_owners := [(0, connection_owner), (9, connection_owner)], ln_queue := [other_item], ln_wake := True, ln_next := 1\<rparr>"

definition sharing :: bridge where "sharing = attended\<lparr>ba_lane := Some shared_lane\<rparr>"

definition sharer :: "(nat, unit, bridge) service" where "sharer = visitor verified (Some (toy_cipher 1 3)) [] sharing"

lemma sharing_played:
  "\<exists>w. data_received toy_env ([8, 0, 0, 24] @ 4 # play_body) sharer = visitor verified (Some (toy_cipher 2 4)) w
     (sharing\<lparr>ba_session := (ba_session sharing)\<lparr>ss_first_logged := True\<rparr>,
        ba_lane := Some (shared_lane\<lparr>ln_queue := [other_item, play_item\<lparr>q_id := 1\<rparr>], ln_next := 2\<rparr>)\<rparr>)"
proof -
  have "lane_submit 0 play_command (Some True) shared_lane
      = (True, [], shared_lane\<lparr>ln_queue := [other_item, play_item\<lparr>q_id := 1\<rparr>], ln_next := 2\<rparr>)"
    by (simp add: lane_submit_def lane_enqueue_def owner_is_authorized_def shared_lane_def idle_lane_def connection_owner_def other_item_def
        play_item_def play_command_def key_command_def)
  from play_on [OF this, of sharing "[]"] obtain w where
    "handle_message sample_library inner_env play_message (visitor verified (Some (toy_cipher (Suc 1) 3)) [] sharing)
      = (Inr (), visitor verified (Some (toy_cipher 2 4)) w (sharing\<lparr>ba_session := (ba_session sharing)\<lparr>ss_first_logged := True\<rparr>,
        ba_lane := Some (shared_lane\<lparr>ln_queue := [other_item, play_item\<lparr>q_id := 1\<rparr>], ln_next := 2\<rparr>)\<rparr>))"
    by (auto simp: numeral_2_eq_2 shared_lane_def idle_lane_def sharing_def)
  then have "handle_frame toy_env [8, 0, 0, 24] (4 # play_body) (visitor verified (Some (toy_cipher 1 3)) [] sharing)
      = (Inr True, visitor verified (Some (toy_cipher 2 4)) w (sharing\<lparr>ba_session := (ba_session sharing)\<lparr>ss_first_logged := True\<rparr>,
        ba_lane := Some (shared_lane\<lparr>ln_queue := [other_item, play_item\<lparr>q_id := 1\<rparr>], ln_next := 2\<rparr>)\<rparr>))"
    by (intro visitor_request [OF requests_unpacked(2,4)]) (simp_all add: verified_fields, simp_all add: play_body_def)
  from visitor_frame [OF this] show ?thesis unfolding sharer_def by (intro exI [of _ w]) (simp add: be_nat_def play_body_def)
qed

theorem chunk_orderly_witness:
  "is_connection_active sharer \<and> sv_cipher sharer \<noteq> None
   \<and> waiting_for 0 (ba_lane (sv_app (data_received toy_env ([8, 0, 0, 24] @ 4 # play_body) sharer))) = [play_item\<lparr>q_id := 1\<rparr>]
   \<and> subseq (waiting_for 9 (ba_lane (sv_app (data_received toy_env ([8, 0, 0, 24] @ 4 # play_body) sharer)))) [other_item]"
proof -
  let ?a = "sv_app (data_received toy_env ([8, 0, 0, 24] @ 4 # play_body) sharer)"
  have "py_len INITIAL_RTI_TEXT = 28" by code_simp
  then have "text_fine (ba_session (sv_app sharer))" "volume_fine (ba_device (sv_app sharer))"
    by (simp_all add: RTI_MAX_TEXT_def sharer_def sharing_def attended_def joined_def attach_bridge_def new_bridge_def attach_session_def new_session_def
        text_fine_def volume_fine_def register_client_def new_device_def)
  note mine = chunk_orderly [OF this refl refl, of sample_library "sample_env bridge_hooks" "[8, 0, 0, 24] @ 4 # play_body"]
  obtain w where run: "data_received toy_env ([8, 0, 0, 24] @ 4 # play_body) sharer = visitor verified (Some (toy_cipher 2 4)) w
     (sharing\<lparr>ba_session := (ba_session sharing)\<lparr>ss_first_logged := True\<rparr>,
        ba_lane := Some (shared_lane\<lparr>ln_queue := [other_item, play_item\<lparr>q_id := 1\<rparr>], ln_next := 2\<rparr>)\<rparr>)"
    using sharing_played by blast
  have "9 \<notin> own_owners (sv_app sharer) ?a" unfolding run by (simp add: own_owners_def sharer_def sharing_def)
  with mine have "subseq (waiting_for 9 (ba_lane ?a)) (waiting_for 9 (ba_lane (sv_app sharer)))" by blast
  moreover have "waiting_for 9 (ba_lane (sv_app sharer)) = [other_item]"
    by (simp add: waiting_for_def sharer_def sharing_def shared_lane_def other_item_def)
  moreover have "waiting_for 0 (ba_lane ?a) = [play_item\<lparr>q_id := 1\<rparr>]"
    unfolding run by (simp add: waiting_for_def other_item_def play_item_def)
  ultimately show ?thesis by (simp add: sharer_def)
qed

theorem close_server_releases_witness:
  "\<exists>y. sys_reach toy_env default_gestures default_hold 2 1 y \<and> ba_owner (sv_app (sy_services y ! 0)) = Some 0
     \<and> connections (sy_admission (close_server toy_env y)) = {}"
proof -
  obtain y where y: "sys_reach toy_env default_gestures default_hold 2 1 y" "ba_owner (sv_app (sy_services y ! 0)) = Some 0" by (rule scene)
  then show ?thesis using close_server_releases [OF y(1)] by blast
qed

end
