(* ===== verification/SamsungClient.thy ===== *)
theory SamsungClient
  imports Trust Effects Dispatch
begin

text \<open>
  \<^verbatim>\<open>samsung/client.py\<close> and \<open>make_samsung_dispatch\<close> of \<^verbatim>\<open>companion/server.py\<close>: the
  one websocket to the television. The lifecycle lock serialises the operations; what they meet at an
  \<open>await\<close> (the answer of the television, an error, a cancellation, and the events of the television
  delivered meanwhile) comes from the functions of \<open>television\<close>. A log keeps what happened at
  the boundary: connection attempts, sockets opened and closed, authorization checks, commands sent.
  The opening of a pinned websocket, which the library calls while it starts to listen, is the last
  part. Shown here: no request that carries the token goes to a peer without the pinned certificate.
\<close>

subsection \<open>The boundary\<close>

datatype tv_message = KeyMessage string string | HoldMessages string rat | TextReceived | InputString string

text \<open>A remote is numbered. An await returns a result and the television's events handled meanwhile.\<close>

record 'h television =
  tv_clock :: "'h \<Rightarrow> rat \<times> 'h"
  tv_token :: "'h \<Rightarrow> string result \<times> 'h"
  tv_pin :: "'h \<Rightarrow> string result \<times> 'h"
  tv_listen :: "nat \<Rightarrow> string option \<Rightarrow> 'h \<Rightarrow> (unit result \<times> string list) \<times> 'h"
  tv_close :: "nat \<Rightarrow> 'h \<Rightarrow> (unit result \<times> string list) \<times> 'h"
  tv_send :: "nat \<Rightarrow> tv_message \<Rightarrow> rat option \<Rightarrow> 'h \<Rightarrow> (unit result \<times> string list) \<times> 'h"
  tv_check :: "'h \<Rightarrow> bool option \<times> 'h"
  tv_wake :: "string \<Rightarrow> 'h \<Rightarrow> unit result \<times> 'h"
  tv_ime :: "string \<Rightarrow> 'h \<Rightarrow> 'h"

record client_config =
  cc_mac :: string
  cc_has_token :: bool
  cc_has_pin :: bool
  cc_tls :: tls_library
  cc_wol :: bool
  cc_min_interval :: rat

datatype tv_event =
    Attempt rat | AttemptFailed | Clock rat | Opened nat | Closed nat | Checked "bool option"
  | Sent nat tv_message bool | ImeEvent string | Woke

record 'h client =
  cl_remote :: "nat option"
  cl_first_text :: bool
  cl_last_attempt :: "rat option"
  cl_last_failed :: bool
  cl_next :: nat
  cl_host :: 'h
  cl_log :: "tv_event list"

type_synonym ('h, 'a) cm = "('h client, 'a) st"

definition new_client :: "'h \<Rightarrow> 'h client" where
  "new_client h = \<lparr>cl_remote = None, cl_first_text = False, cl_last_attempt = None, cl_last_failed = False, cl_next = 0, cl_host = h, cl_log = []\<rparr>"

text \<open>The constructor refuses any port but the one of TLS.\<close>

definition open_client :: "int \<Rightarrow> 'h \<Rightarrow> 'h client result" where
  "open_client port h = (if port \<noteq> 8002 then Inl ValueError else Inr (new_client h))"

definition client_log :: "tv_event list \<Rightarrow> ('h, unit) cm" where
  "client_log ev = st_modify (\<lambda>c. c\<lparr>cl_log := cl_log c @ ev\<rparr>)"

definition client_ask :: "('h \<Rightarrow> 'a \<times> 'h) \<Rightarrow> ('h, 'a) cm" where
  "client_ask f = (\<lambda>c. case f (cl_host c) of (x, h) \<Rightarrow> (Inr x, c\<lparr>cl_host := h\<rparr>))"

definition set_first_text :: "bool \<Rightarrow> ('h, unit) cm" where
  "set_first_text b = st_modify (\<lambda>c. c\<lparr>cl_first_text := b\<rparr>)"

definition set_failed :: "bool \<Rightarrow> ('h, unit) cm" where
  "set_failed b = st_modify (\<lambda>c. c\<lparr>cl_last_failed := b\<rparr>)"

definition set_remote :: "nat option \<Rightarrow> ('h, unit) cm" where
  "set_remote r = st_modify (\<lambda>c. c\<lparr>cl_remote := r\<rparr>)"

definition set_attempt :: "rat \<Rightarrow> ('h, unit) cm" where
  "set_attempt t = st_modify (\<lambda>c. c\<lparr>cl_last_attempt := Some t\<rparr>)"

definition IME_EVENTS :: "string list" where "IME_EVENTS = [''ms.remote.imeStart'', ''ms.remote.imeEnd'']"

definition handle_tv_event :: "'h television \<Rightarrow> string \<Rightarrow> ('h, unit) cm" where
  "handle_tv_event V event =
     st_then (if event \<in> set IME_EVENTS then set_first_text False else st_return ())
       (st_then (client_log [ImeEvent event]) (client_ask (\<lambda>h. ((), tv_ime V event h))))"

text \<open>An await of the websocket: its result, then the events.\<close>

definition client_await :: "'h television \<Rightarrow> (unit result \<Rightarrow> tv_event list) \<Rightarrow> ('h \<Rightarrow> (unit result \<times> string list) \<times> 'h) \<Rightarrow> ('h, unit) cm" where
  "client_await V shown_as f =
     st_bind (client_ask f) (\<lambda>(r, events). st_then (client_log (shown_as r)) (st_then (st_for (handle_tv_event V) events) (st_lift r)))"

definition client_clock :: "'h television \<Rightarrow> ('h, rat) cm" where
  "client_clock V = st_bind (client_ask (tv_clock V)) (\<lambda>t. st_then (client_log [Clock t]) (st_return t))"

subsection \<open>Connecting\<close>

text \<open>\<open>token.splitlines()[0] if token else None\<close>\<close>

definition line_break :: "string \<Rightarrow> bool" where
  "line_break ch \<longleftrightarrow> (map of_char ch :: nat list) \<in> {[10], [11], [12], [13], [28], [29], [30], [0xC2, 0x85], [0xE2, 0x80, 0xA8], [0xE2, 0x80, 0xA9]}"

definition first_line :: "string \<Rightarrow> string option" where
  "first_line s = (if s = [] then None else Some (concat (takeWhile (\<lambda>ch. \<not> line_break ch) (py_chars s))))"

definition load_private_token :: "'h television \<Rightarrow> client_config \<Rightarrow> ('h, string option) cm" where
  "load_private_token V cfg =
     (if \<not> cc_has_token cfg then st_return None
      else st_bind (client_ask (tv_token V)) (\<lambda>r. case r of
          Inr token \<Rightarrow> st_return (first_line token)
        | Inl e \<Rightarrow> if e = FileNotFound then st_return None
            else if e \<in> {OsError, ConnectionError, TimeoutError, UnicodeError} then st_raise RuntimeError else st_raise e))"

text \<open>\<open>_build_remote\<close>: a remote that only the pinned certificate can open, and its token, looked for once
  more when there was none.\<close>

definition build_remote :: "'h television \<Rightarrow> client_config \<Rightarrow> string option \<Rightarrow> ('h, nat \<times> string option) cm" where
  "build_remote V cfg token =
     st_bind (if token = None then load_private_token V cfg else st_return token) (\<lambda>token1.
       if \<not> cc_has_pin cfg then st_raise TlsTrustError
       else st_bind (client_ask (tv_pin V)) (\<lambda>content.
         st_bind (st_lift (load_trusted_certificate (cc_tls cfg) content)) (\<lambda>certificate.
         st_bind (st_lift (create_pinned_ssl_context (cc_tls cfg) certificate)) (\<lambda>_.
           st_get (\<lambda>c. st_then (st_modify (\<lambda>c. c\<lparr>cl_next := Suc (cl_next c)\<rparr>)) (st_return (cl_next c, token1)))))))"

definition close_remote_instance :: "'h television \<Rightarrow> nat option \<Rightarrow> ('h, unit) cm" where
  "close_remote_instance V remote =
     (case remote of
        None \<Rightarrow> st_return ()
      | Some r \<Rightarrow> st_handle (client_await V (\<lambda>_. [Closed r]) (tv_close V r))
          (\<lambda>e. if e = CancelledError then st_raise e else st_return ()) st_return)"

definition close_locked :: "'h television \<Rightarrow> ('h, unit) cm" where
  "close_locked V = st_get (\<lambda>c. st_then (set_remote None) (close_remote_instance V (cl_remote c)))"

text \<open>The handler of a failed attempt: \<open>except BaseException\<close>.\<close>

definition attempt_failed :: "'h television \<Rightarrow> nat option \<Rightarrow> exn \<Rightarrow> ('h, unit) cm" where
  "attempt_failed V remote e =
     st_then (close_remote_instance V remote)
       (st_then (if e = CancelledError then st_return () else st_then (set_failed True) (client_log [AttemptFailed])) (st_raise e))"

definition connected :: "'h television \<Rightarrow> nat \<Rightarrow> ('h, unit) cm" where
  "connected V r = st_then (set_remote (Some r)) (st_then (set_failed False) (st_bind (client_clock V) (\<lambda>_. st_return ())))"

definition connect_locked :: "'h television \<Rightarrow> client_config \<Rightarrow> ('h, unit) cm" where
  "connect_locked V cfg =
     st_bind (load_private_token V cfg) (\<lambda>token.
     st_bind (client_clock V) (\<lambda>t.
       st_then (st_then (set_attempt t) (client_log [Attempt t]))
         (st_handle (build_remote V cfg token) (attempt_failed V None) (\<lambda>(r, token1).
            st_handle (client_await V (\<lambda>_. [Opened r]) (tv_listen V r token1)) (attempt_failed V (Some r)) (\<lambda>_. connected V r)))))"

definition raise_if_cooling_down :: "'h television \<Rightarrow> client_config \<Rightarrow> ('h, unit) cm" where
  "raise_if_cooling_down V cfg = st_get (\<lambda>c.
     case cl_last_attempt c of
       None \<Rightarrow> st_return ()
     | Some before \<Rightarrow>
         (if \<not> cl_last_failed c then st_return ()
          else st_bind (client_clock V) (\<lambda>t.
            if cc_min_interval cfg - (t - before) \<le> 0 then st_return () else st_raise ConnectionError)))"

definition ensure_connected :: "'h television \<Rightarrow> client_config \<Rightarrow> ('h, unit) cm" where
  "ensure_connected V cfg = st_get (\<lambda>c.
     if cl_remote c = None then st_then (raise_if_cooling_down V cfg) (connect_locked V cfg) else st_return ())"

definition client_connect :: "'h television \<Rightarrow> client_config \<Rightarrow> ('h, unit) cm" where
  "client_connect V cfg = ensure_connected V cfg"

definition client_close :: "'h television \<Rightarrow> ('h, unit) cm" where
  "client_close V = st_then (set_first_text False) (close_locked V)"

subsection \<open>Sending\<close>

text \<open>Ask the check, if there is one.\<close>

definition client_authorized :: "'h television \<Rightarrow> bool \<Rightarrow> ('h, unit) cm" where
  "client_authorized V checked =
     (if \<not> checked then st_lift (require_authorized None)
      else st_bind (client_ask (tv_check V)) (\<lambda>ans. st_then (client_log [Checked ans]) (st_lift (require_authorized (Some ans)))))"

definition send_command :: "'h television \<Rightarrow> nat \<Rightarrow> tv_message \<Rightarrow> rat option \<Rightarrow> ('h, unit) cm" where
  "send_command V r message delay = client_await V (\<lambda>res. [Sent r message (res = Inr ())]) (tv_send V r message delay)"

text \<open>\<open>require_authorized\<close> and the send, with no await in between.\<close>

definition guarded_send :: "'h television \<Rightarrow> bool \<Rightarrow> nat \<Rightarrow> tv_message \<Rightarrow> rat option \<Rightarrow> ('h, unit) cm" where
  "guarded_send V checked r message delay = st_then (client_authorized V checked) (send_command V r message delay)"

definition the_remote :: "(nat \<Rightarrow> ('h, unit) cm) \<Rightarrow> ('h, unit) cm" where
  "the_remote send_once = st_get (\<lambda>c. st_bind (st_need AttributeError (cl_remote c)) send_once)"

definition send_with_retry :: "'h television \<Rightarrow> client_config \<Rightarrow> (nat \<Rightarrow> ('h, unit) cm) \<Rightarrow> ('h, unit) cm" where
  "send_with_retry V cfg send_once =
     st_then (ensure_connected V cfg)
       (st_handle (the_remote send_once)
          (\<lambda>e. if e \<in> {AuthorizationRevoked, CancelledError} then st_raise e
             else st_then (set_first_text False) (st_then (close_locked V) (st_then (raise_if_cooling_down V cfg)
               (st_then (connect_locked V cfg) (the_remote send_once)))))
          st_return)"

definition client_send_key :: "'h television \<Rightarrow> client_config \<Rightarrow> bool \<Rightarrow> string \<Rightarrow> string \<Rightarrow> rat option \<Rightarrow> ('h, unit) cm" where
  "client_send_key V cfg checked key cmd delay =
     (if cmd \<notin> {''Click'', ''Press'', ''Release''} then st_raise ValueError
      else send_with_retry V cfg (\<lambda>r. guarded_send V checked r (KeyMessage key cmd) delay))"

definition hold_key :: "'h television \<Rightarrow> client_config \<Rightarrow> bool \<Rightarrow> string \<Rightarrow> rat \<Rightarrow> ('h, unit) cm" where
  "hold_key V cfg checked key seconds = send_with_retry V cfg (\<lambda>r. guarded_send V checked r (HoldMessages key seconds) None)"

definition send_text_once :: "'h television \<Rightarrow> bool \<Rightarrow> string \<Rightarrow> nat \<Rightarrow> ('h, unit) cm" where
  "send_text_once V checked txt r =
     st_handle
       (st_then
          (st_get (\<lambda>c. if cl_first_text c then st_return ()
             else st_then (guarded_send V checked r TextReceived (Some 0)) (set_first_text True)))
          (guarded_send V checked r (InputString txt) (Some 0)))
       (\<lambda>e. st_then (if e = AuthorizationRevoked then set_first_text False else st_return ()) (st_raise e))
       st_return"

definition send_text :: "'h television \<Rightarrow> client_config \<Rightarrow> bool \<Rightarrow> string \<Rightarrow> ('h, unit) cm" where
  "send_text V cfg checked txt = send_with_retry V cfg (send_text_once V checked txt)"

definition power_off :: "'h television \<Rightarrow> client_config \<Rightarrow> bool \<Rightarrow> ('h, unit) cm" where
  "power_off V cfg checked = client_send_key V cfg checked ''KEY_POWER'' ''Click'' None"

definition wake_tv :: "'h television \<Rightarrow> client_config \<Rightarrow> bool \<Rightarrow> ('h, unit) cm" where
  "wake_tv V cfg checked =
     (if \<not> cc_wol cfg then st_return ()
      else st_then (client_authorized V checked)
        (st_bind (client_ask (tv_wake V (cc_mac cfg))) (\<lambda>r. st_then (client_log [Woke]) (st_lift r))))"

subsection \<open>Dispatching a command\<close>

definition dispatch_command :: "'h television \<Rightarrow> client_config \<Rightarrow> bool \<Rightarrow> command \<Rightarrow> ('h, unit) cm" where
  "dispatch_command V cfg checked c =
     (case (cm_action c, cm_key c, cm_text c) of
        (SendKey, Some key, _) \<Rightarrow>
          (if key = [] then st_return () else client_send_key V cfg checked key (cm_cmd c) (if cm_fast c then Some 0 else None))
      | (SendText, _, Some txt) \<Rightarrow> send_text V cfg checked txt
      | (PowerOff, _, _) \<Rightarrow> power_off V cfg checked
      | (WakeOnLan, _, _) \<Rightarrow> wake_tv V cfg checked
      | _ \<Rightarrow> st_return ())"

text \<open>How the outcome of a dispatch reaches the lane's worker.\<close>

definition lane_outcome :: "unit result \<Rightarrow> outcome" where
  "lane_outcome r =
     (case r of
        Inr _ \<Rightarrow> DispatchReturned
      | Inl e \<Rightarrow> if e = AuthorizationRevoked then DispatchRevoked else if e = CancelledError then DispatchCancelled else DispatchRaised e)"

text \<open>\<open>_dispatch_item\<close>: the check is that of the owner's registration.\<close>

definition dispatch_item :: "'h television \<Rightarrow> client_config \<Rightarrow> 'o lane \<Rightarrow> 'o queued \<Rightarrow> 'h client \<Rightarrow> outcome \<times> 'h client" where
  "dispatch_item V cfg l q c =
     (case dispatch_command V cfg (case map_of (ln_owners l) (q_owner q) of None \<Rightarrow> False | Some reg \<Rightarrow> rg_authorize reg) (q_command q) c of
        (r, c1) \<Rightarrow> (lane_outcome r, c1))"

subsection \<open>Opening a pinned websocket\<close>

text \<open>What the peer shows at the handshake and on the live connection, the answer to the upgrade request, and
  the messages that follow: an error, or an event and a token, each possibly missing.\<close>

record websocket =
  ws_handshake :: tls_peer
  ws_upgrade :: "unit result"
  ws_live :: tls_peer
  ws_messages :: "(string option \<times> string option) result list"

datatype ws_event = UpgradeRequest | WsClosed | TokenSaved string

text \<open>The loop over startup events; the messages of a closed connection end with its error.\<close>

fun receive_event :: "string list \<Rightarrow> (string option \<times> string option) result list \<Rightarrow> (string \<times> string option) result" where
  "receive_event ignored [] = Inl ConnectionError"
| "receive_event ignored (m # ms) =
     rbind m (\<lambda>(event, token). let e = (case event of None \<Rightarrow> ''*'' | Some e \<Rightarrow> e)
       in if e = [] then Inl OtherException else if e \<in> set ignored then receive_event ignored ms else Inr (e, token))"

definition MS_CHANNEL_CONNECT :: string where "MS_CHANNEL_CONNECT = ''ms.channel.connect''"

text \<open>The result and what happened at the boundary. \<open>saved\<close> is the result of storing the token; the names of
  the library's startup events and the name of its refusal are arguments, both refusals are its errors.\<close>

definition open_pinned_websocket :: "string list \<Rightarrow> certificate \<Rightarrow> (string \<Rightarrow> unit result) \<Rightarrow> bool \<Rightarrow> websocket \<Rightarrow> unit result \<times> ws_event list" where
  "open_pinned_websocket ignored certificate saved already w =
     (if already then (Inr (), [])
      else case verify_connected_certificate (ws_handshake w) certificate of
        Inl e \<Rightarrow> (Inl e, [])
      | Inr _ \<Rightarrow>
          (case ws_upgrade w of
             Inl e \<Rightarrow> (Inl e, [UpgradeRequest])
           | Inr _ \<Rightarrow>
               (case rbind (verify_connected_certificate (ws_live w) certificate) (\<lambda>_. rbind (receive_event ignored (ws_messages w)) (\<lambda>(event, token).
                       if event \<noteq> MS_CHANNEL_CONNECT then Inl OtherException else Inr token)) of
                  Inl e \<Rightarrow> (Inl e, [UpgradeRequest, WsClosed])
                | Inr None \<Rightarrow> (Inr (), [UpgradeRequest])
                | Inr (Some token) \<Rightarrow>
                    (if token = [] then (Inr (), [UpgradeRequest])
                     else case saved token of
                       Inl e \<Rightarrow> (Inl e, [UpgradeRequest, TokenSaved token, WsClosed])
                     | Inr _ \<Rightarrow> (Inr (), [UpgradeRequest, TokenSaved token])))))"

lemma verified_peer: "verify_connected_certificate peer c = Inr u \<Longrightarrow> peer = PeerCertificate (Some (ct_der c))"
  by (auto simp: verify_connected_certificate_def split: tls_peer.splits option.splits if_splits)

text \<open>The upgrade request, whose URL carries the token, goes to the pinned certificate only; a connection is handed out
  only when the live peer shows it too; and a new token is stored only from such a connection.\<close>

lemma pinned_before_token:
  assumes "open_pinned_websocket ignored c saved False w = (res, evs)"
  shows "(evs \<noteq> [] \<longrightarrow> ws_handshake w = PeerCertificate (Some (ct_der c)))
    \<and> (res = Inr () \<or> TokenSaved token \<in> set evs \<longrightarrow> ws_live w = PeerCertificate (Some (ct_der c)))"
  using assms verified_peer [of "ws_handshake w" c] verified_peer [of "ws_live w" c]
  by (auto simp: open_pinned_websocket_def rbind_def split: if_splits sum.splits option.splits prod.splits)

end
