(* ===== verification/SamsungSocket.thy ===== *)
theory SamsungSocket
  imports SamsungClient
begin

text \<open>
  Properties of the television's client. Under an authorization check nothing leaves without a positive
  answer right before it; at most one socket is open, everything is sent on it, and a text only after the
  text broadcast reached it; a key is delivered at most once and retried at most once, on a new socket,
  whatever fails in between.
\<close>

subsection \<open>Authorization\<close>

text \<open>In a stretch of the log, everything that leaves comes right after a positive check.\<close>

definition leaves :: "tv_event \<Rightarrow> bool" where
  "leaves ev \<longleftrightarrow> (case ev of Sent r message ok \<Rightarrow> True | Woke \<Rightarrow> True | _ \<Rightarrow> False)"

fun guarded_log :: "bool \<Rightarrow> tv_event list \<Rightarrow> bool" where
  "guarded_log b [] = True"
| "guarded_log b (ev # evs) = ((leaves ev \<longrightarrow> b) \<and> guarded_log (ev = Checked (Some True)) evs)"

lemma guarded_mono: "guarded_log False evs \<Longrightarrow> guarded_log b evs"
  by (cases evs) auto

lemma guarded_append: "guarded_log b xs \<Longrightarrow> guarded_log False ys \<Longrightarrow> guarded_log b (xs @ ys)"
  by (induction xs arbitrary: b) (auto intro: guarded_mono)

lemma guarded_nth:
  "guarded_log b evs \<Longrightarrow> i < length evs \<Longrightarrow> leaves (evs ! i) \<Longrightarrow> if i = 0 then b else evs ! (i - 1) = Checked (Some True)"
proof (induction evs arbitrary: b i)
  case (Cons ev evs)
  show ?case
  proof (cases i)
    case (Suc j)
    then show ?thesis using Cons.IH [of "ev = Checked (Some True)" j] Cons.prems by (cases j) simp_all
  qed (use Cons.prems in simp)
qed simp

definition guards :: "'h client \<Rightarrow> 'h client \<Rightarrow> bool" where
  "guards c c' \<longleftrightarrow> (\<exists>evs. cl_log c' = cl_log c @ evs \<and> guarded_log False evs)"

interpretation gd: step_preorder guards
proof
  show "guards c c" for c :: "'h client" by (auto simp: guards_def intro: exI [of _ "[]"])
  show "guards c e" if "guards c d" "guards d e" for c d e :: "'h client"
    using that by (auto simp: guards_def intro: guarded_append)
qed

text \<open>A relation of the client that everything but sending respects.\<close>

locale client_parts = step_preorder R
  for R :: "'h client \<Rightarrow> 'h client \<Rightarrow> bool" +
  fixes V :: "'h television" and cfg :: client_config
  assumes on_flag: "st_rel R (set_first_text b)" and on_failed: "st_rel R (set_failed b)" and on_remote: "st_rel R (set_remote x)"
    and on_attempt: "st_rel R (set_attempt t)" and on_ask: "st_rel R (client_ask (f :: 'h \<Rightarrow> unit \<times> 'h))"
    and on_log: "\<not> leaves ev \<Longrightarrow> st_rel R (client_log [ev])"
    and on_number: "st_rel R (st_modify (\<lambda>c. c\<lparr>cl_next := Suc (cl_next c)\<rparr>))"
begin

lemma rel_ask: "st_rel R (client_ask (f :: 'h \<Rightarrow> 'x \<times> 'h))"
  using on_ask [of "\<lambda>h. ((), snd (f h))"] by (auto simp: st_rel_def client_ask_def split_beta)

lemma rel_prod: "(\<And>a b. st_rel R (f a b)) \<Longrightarrow> st_rel R (case x of (a, b) \<Rightarrow> f a b)"
  by (cases x) simp

lemma rel_event: "st_rel R (handle_tv_event V ev)"
  unfolding handle_tv_event_def by (intro rel_rules on_flag rel_ask on_log) (simp add: leaves_def)

lemma rel_await: "(\<And>r. \<exists>ev. shown_as r = [ev] \<and> \<not> leaves ev) \<Longrightarrow> st_rel R (client_await V shown_as f)"
  unfolding client_await_def by (intro rel_rules rel_prod rel_ask rel_event) (metis on_log)

lemma rel_clock: "st_rel R (client_clock V)"
  unfolding client_clock_def by (intro rel_rules rel_ask on_log) (simp add: leaves_def)

lemma rel_close: "st_rel R (close_remote_instance V r)" "st_rel R (close_locked V)"
proof -
  show i: "st_rel R (close_remote_instance V r)" for r
    unfolding close_remote_instance_def by (intro rel_rules rel_await) (simp add: leaves_def)
  show "st_rel R (close_locked V)" unfolding close_locked_def by (intro rel_rules i on_remote)
qed

lemma rel_token: "st_rel R (load_private_token V cfg)"
  unfolding load_private_token_def by (intro rel_rules rel_ask)

lemma rel_build: "st_rel R (build_remote V cfg token)"
  unfolding build_remote_def by (intro rel_rules rel_ask rel_token on_number)

lemma rel_failed: "st_rel R (attempt_failed V r e)"
  unfolding attempt_failed_def by (intro rel_rules rel_close on_failed on_log) (simp add: leaves_def)

lemma rel_connect: "st_rel R (connect_locked V cfg)"
  unfolding connect_locked_def connected_def
  by (intro rel_rules rel_prod rel_token rel_clock rel_build rel_failed rel_await on_remote on_failed on_attempt on_log)
    (simp_all add: leaves_def)

lemma rel_ensure: "st_rel R (ensure_connected V cfg)" and rel_cooling: "st_rel R (raise_if_cooling_down V cfg)"
  unfolding ensure_connected_def raise_if_cooling_down_def by (intro rel_rules rel_clock rel_connect)+

lemma rel_retry: "(\<And>r. st_rel R (f r)) \<Longrightarrow> st_rel R (send_with_retry V cfg f)"
  unfolding send_with_retry_def the_remote_def
  by (intro rel_rules rel_ensure rel_cooling rel_connect rel_close on_flag) auto

lemma rel_sessions: "st_rel R (client_connect V cfg)" "st_rel R (client_close V)"
proof -
  show "st_rel R (client_connect V cfg)" unfolding client_connect_def by (rule rel_ensure)
  show "st_rel R (client_close V)" unfolding client_close_def by (intro rel_rules on_flag rel_close)
qed

end

text \<open>Sending as well, with or without a check.\<close>

locale client_relation = client_parts R V cfg
  for R :: "'h client \<Rightarrow> 'h client \<Rightarrow> bool" and V cfg +
  fixes checked :: bool
  assumes on_send: "st_rel R (guarded_send V checked r message delay)" and on_wake: "st_rel R (wake_tv V cfg checked)"
begin

lemma rel_operations:
  "st_rel R (client_send_key V cfg checked key cmd delay)"
  "st_rel R (hold_key V cfg checked key seconds)" "st_rel R (send_text V cfg checked txt)" "st_rel R (power_off V cfg checked)"
proof -
  show k: "st_rel R (client_send_key V cfg checked key cmd delay)" for key cmd delay
    unfolding client_send_key_def by (intro rel_rules rel_retry on_send)
  show "st_rel R (hold_key V cfg checked key seconds)" unfolding hold_key_def by (intro rel_retry on_send)
  show "st_rel R (power_off V cfg checked)" unfolding power_off_def by (rule k)
  show "st_rel R (send_text V cfg checked txt)"
    unfolding send_text_def send_text_once_def by (intro rel_retry rel_rules on_send on_flag)
qed

lemma rel_dispatch: "st_rel R (dispatch_command V cfg checked c)"
  unfolding dispatch_command_def by (auto split: action.split option.split intro: rel_operations rel_return on_wake)

end

lemma log_guards: "\<not> leaves ev \<Longrightarrow> st_rel guards (client_log [ev])"
  unfolding client_log_def by (rule gd.rel_modify) (simp add: guards_def)

lemma same_log_guards: "cl_log c' = cl_log c \<Longrightarrow> guards c c'"
  by (auto simp: guards_def)

text \<open>A check and what it lets out.\<close>

lemma checked_guards:
  assumes "\<And>c r c'. k c = (r, c') \<Longrightarrow> \<exists>evs. cl_log c' = cl_log c @ evs \<and> guarded_log True evs"
  shows "st_rel guards (st_then (client_authorized V True) k)"
  unfolding st_rel_def
proof (intro allI impI)
  fix c r c' assume run: "st_then (client_authorized V True) k c = (r, c')"
  obtain ans h where ask: "tv_check V (cl_host c) = (ans, h)" by fastforce
  let ?c = "c\<lparr>cl_host := h, cl_log := cl_log c @ [Checked ans]\<rparr>"
  show "guards c c'"
  proof (cases "ans = Some True")
    case True
    then have "k ?c = (r, c')"
      using run ask by (simp add: st_eval client_authorized_def client_ask_def client_log_def require_authorized_def)
    from assms [OF this] True show ?thesis by (auto simp: guards_def leaves_def)
  next
    case False
    then have "c' = ?c"
      using run ask by (simp add: st_eval client_authorized_def client_ask_def client_log_def require_authorized_def)
    then show ?thesis by (simp add: guards_def leaves_def)
  qed
qed

lemma events_guard: "st_rel guards (handle_tv_event V ev)"
  unfolding handle_tv_event_def set_first_text_def client_ask_def
  by (intro gd.rel_rules gd.rel_modify log_guards) (auto simp: leaves_def st_rel_def intro: same_log_guards split: prod.splits)

lemma guarded_send_guards: "st_rel guards (guarded_send V True r message delay)"
  unfolding guarded_send_def
proof (rule checked_guards)
  fix c res c' assume run: "send_command V r message delay c = (res, c')"
  obtain x events h where send: "tv_send V r message delay (cl_host c) = ((x, events), h)" by (metis prod.exhaust)
  let ?c = "c\<lparr>cl_host := h, cl_log := cl_log c @ [Sent r message (x = Inr ())]\<rparr>"
  obtain e c2 where tail: "st_for (handle_tv_event V) events ?c = (e, c2)" by fastforce
  have "guards ?c c2" using st_relD [OF gd.rel_for [OF events_guard] tail] .
  moreover have "c' = c2"
    using run send tail by (cases e)
      (auto simp: send_command_def client_await_def client_ask_def client_log_def st_eval split: sum.splits)
  ultimately show "\<exists>evs. cl_log c' = cl_log c @ evs \<and> guarded_log True evs" by (auto simp: guards_def)
qed

lemma wake_guards: "st_rel guards (wake_tv V cfg True)"
proof -
  have "st_rel guards (st_then (client_authorized V True)
      (st_bind (client_ask (tv_wake V (cc_mac cfg))) (\<lambda>r. st_then (client_log [Woke]) (st_lift r))))"
    by (rule checked_guards) (auto simp: client_ask_def client_log_def st_eval split: prod.splits)
  then show ?thesis unfolding wake_tv_def by (intro gd.rel_if gd.rel_return)
qed

interpretation guarded_client: client_relation guards V cfg True for V cfg
proof
  show "st_rel guards (client_ask (f :: 'a \<Rightarrow> unit \<times> 'a))" for f
    by (auto simp: st_rel_def client_ask_def intro: same_log_guards split: prod.splits)
qed (auto simp: set_first_text_def set_failed_def set_remote_def set_attempt_def guarded_send_guards wake_guards log_guards
    intro!: gd.rel_modify same_log_guards)

text \<open>C6: Dispatching an item of an owner whose registration has an authorization check: every command sent to the
  television and every wake-up packet, retries included, directly follows a positive answer of that check, with nothing
  in between.\<close>

theorem dispatch_checks_authorization:
  assumes "dispatch_item V cfg l q c = (out, c')" "map_of (ln_owners l) (q_owner q) = Some reg" "rg_authorize reg"
  shows "\<exists>evs. cl_log c' = cl_log c @ evs
    \<and> (\<forall>i. i < length evs \<and> leaves (evs ! i) \<longrightarrow> 0 < i \<and> evs ! (i - 1) = Checked (Some True))"
proof -
  obtain r where "dispatch_command V cfg True (q_command q) c = (r, c')"
    using assms by (auto simp: dispatch_item_def split: prod.splits)
  from st_relD [OF guarded_client.rel_dispatch this]
  obtain evs where "cl_log c' = cl_log c @ evs" "guarded_log False evs" by (auto simp: guards_def)
  then show ?thesis using guarded_nth [of False evs] by (metis gr0I)
qed

subsection \<open>One socket\<close>

text \<open>What an await does to the client: the log, and events that at most clear the flag.\<close>

lemma events_run:
  "\<exists>h evs b. st_for (handle_tv_event V) events c = (Inr (), c\<lparr>cl_host := h, cl_log := cl_log c @ map ImeEvent evs, cl_first_text := b\<rparr>)
    \<and> (b \<longrightarrow> cl_first_text c)"
proof (induction events arbitrary: c)
  case Nil
  show ?case by (intro exI [of _ "cl_host c"] exI [of _ "[]"] exI [of _ "cl_first_text c"]) (simp add: st_return_def)
next
  case (Cons ev events)
  let ?c = "c\<lparr>cl_host := tv_ime V ev (cl_host c), cl_log := cl_log c @ [ImeEvent ev],
    cl_first_text := cl_first_text c \<and> ev \<notin> set IME_EVENTS\<rparr>"
  have "handle_tv_event V ev c = (Inr (), ?c)"
    by (simp add: handle_tv_event_def set_first_text_def client_log_def client_ask_def st_eval)
  moreover obtain h evs b where "st_for (handle_tv_event V) events ?c =
      (Inr (), ?c\<lparr>cl_host := h, cl_log := cl_log ?c @ map ImeEvent evs, cl_first_text := b\<rparr>)" "b \<longrightarrow> cl_first_text ?c"
    using Cons.IH [of ?c] by blast
  ultimately show ?case
    by (intro exI [of _ h] exI [of _ "ev # evs"] exI [of _ b]) (simp add: st_eval)
qed

lemma await_run:
  "\<exists>h evs b. client_await V shown_as f c = (fst (fst (f (cl_host c))),
     c\<lparr>cl_host := h, cl_log := cl_log c @ shown_as (fst (fst (f (cl_host c)))) @ map ImeEvent evs, cl_first_text := b\<rparr>) \<and> (b \<longrightarrow> cl_first_text c)"
proof -
  obtain r events h where f: "f (cl_host c) = ((r, events), h)" by (metis prod.exhaust)
  let ?c = "c\<lparr>cl_host := h, cl_log := cl_log c @ shown_as r\<rparr>"
  obtain h' evs b where "st_for (handle_tv_event V) events ?c =
      (Inr (), ?c\<lparr>cl_host := h', cl_log := cl_log ?c @ map ImeEvent evs, cl_first_text := b\<rparr>)" "b \<longrightarrow> cl_first_text c"
    using events_run [of V events ?c] by auto
  then show ?thesis
    using f by (intro exI [of _ h'] exI [of _ evs] exI [of _ b]) (simp add: client_await_def client_ask_def client_log_def st_eval)
qed

lemma triple_await:
  assumes "\<And>c r h evs b. P c \<Longrightarrow> b \<longrightarrow> cl_first_text c \<Longrightarrow>
      M r (c\<lparr>cl_host := h, cl_log := cl_log c @ shown_as r @ map ImeEvent evs, cl_first_text := b\<rparr>)"
  shows "st_triple P (client_await V shown_as f) (\<lambda>_. M (Inr ())) (\<lambda>e. M (Inl e))"
  unfolding st_triple_def
proof (intro allI impI)
  fix c assume "P c"
  obtain h evs b where run: "client_await V shown_as f c = (fst (fst (f (cl_host c))),
     c\<lparr>cl_host := h, cl_log := cl_log c @ shown_as (fst (fst (f (cl_host c)))) @ map ImeEvent evs, cl_first_text := b\<rparr>)" "b \<longrightarrow> cl_first_text c"
    using await_run by metis
  show "case client_await V shown_as f c of (Inr x, c') \<Rightarrow> M (Inr ()) c' | (Inl e, c') \<Rightarrow> M (Inl e) c'"
    using assms [OF \<open>P c\<close> run(2)] run(1) by (cases "fst (fst (f (cl_host c)))") simp_all
qed

lemma triple_ask:
  "(\<And>c x h. P c \<Longrightarrow> f (cl_host c) = (x, h) \<Longrightarrow> Q x (c\<lparr>cl_host := h\<rparr>)) \<Longrightarrow> st_triple P (client_ask f) Q X"
  by (auto simp: st_triple_def client_ask_def split: prod.split)

lemma triple_log: "(\<And>c. P c \<Longrightarrow> Q (c\<lparr>cl_log := cl_log c @ evs\<rparr>)) \<Longrightarrow> st_triple P (client_log evs) (\<lambda>_. Q) X"
  unfolding client_log_def by (rule triple_modify)

text \<open>An event that concerns no socket.\<close>

definition neutral :: "tv_event \<Rightarrow> bool" where
  "neutral ev \<longleftrightarrow> (case ev of Opened r \<Rightarrow> False | Closed r \<Rightarrow> False | Sent r message ok \<Rightarrow> False | _ \<Rightarrow> True)"

lemma neutral_simps [simp]:
  "neutral (ImeEvent ev)" "neutral (Clock t)" "neutral (Attempt t)" "neutral AttemptFailed" "neutral (Checked ans)" "neutral Woke"
  "\<not> neutral (Opened r)" "\<not> neutral (Closed r)" "\<not> neutral (Sent r message ok)"
  by (simp_all add: neutral_def)

text \<open>
  What a message finds in the log before it: its socket opened and not closed, and for a text the
  broadcast on the same socket.
\<close>

definition sendable :: "tv_event set \<Rightarrow> tv_event \<Rightarrow> bool" where
  "sendable before ev \<longleftrightarrow>
     (case ev of
        Sent r message ok \<Rightarrow> Opened r \<in> before \<and> Closed r \<notin> before
          \<and> (case message of InputString txt \<Rightarrow> Sent r TextReceived True \<in> before | _ \<Rightarrow> True)
      | _ \<Rightarrow> True)"

lemma sendable_simps [simp]: "sendable before (Opened r)" "sendable before (Closed r)" "neutral ev \<Longrightarrow> sendable before ev"
  by (simp_all add: sendable_def neutral_def split: tv_event.splits)

fun well_sent :: "tv_event set \<Rightarrow> tv_event list \<Rightarrow> bool" where
  "well_sent before [] = True"
| "well_sent before (ev # evs) = (sendable before ev \<and> well_sent (insert ev before) evs)"

lemma well_sent_append [simp]: "well_sent before (xs @ ys) \<longleftrightarrow> well_sent before xs \<and> well_sent (before \<union> set xs) ys"
  by (induction xs arbitrary: before) simp_all

lemma well_sent_nth: "well_sent before evs \<Longrightarrow> i < length evs \<Longrightarrow> sendable (before \<union> set (take i evs)) (evs ! i)"
proof (induction evs arbitrary: before i)
  case (Cons ev evs)
  then show ?case using Cons.IH [of "insert ev before" "i - 1"] by (cases i) simp_all
qed simp

lemma well_sent_unsent: "\<forall>ev \<in> set evs. \<forall>r message ok. ev \<noteq> Sent r message ok \<Longrightarrow> well_sent before evs"
  by (induction evs arbitrary: before) (auto simp: sendable_def split: tv_event.split)

lemma well_sent_neutral [simp]: "list_all neutral evs \<Longrightarrow> well_sent before evs" "well_sent before (map ImeEvent ime)"
  by (rule well_sent_unsent; auto simp: list_all_iff)+

text \<open>
  With the sockets \<open>x\<close> besides the current remote \<open>r\<close>: no other socket is open, the current one is, numbers
  are fresh, the flag of the text broadcast is set only when the current socket got it, and only if \<open>f\<close>,
  and every message was sent on the socket open then, a text after the broadcast.
\<close>

definition open_sockets :: "'h client \<Rightarrow> nat set" where
  "open_sockets c = {r. Opened r \<in> set (cl_log c) \<and> Closed r \<notin> set (cl_log c)}"

definition sockets :: "nat set \<Rightarrow> nat option \<Rightarrow> bool \<Rightarrow> 'h client \<Rightarrow> bool" where
  "sockets x r f c \<longleftrightarrow> open_sockets c \<subseteq> set_option r \<union> x \<and> cl_remote c = r \<and> (\<forall>i \<in> set_option r \<union> x. i < cl_next c)
     \<and> (\<forall>i. Opened i \<in> set (cl_log c) \<or> Closed i \<in> set (cl_log c) \<longrightarrow> i < cl_next c)
     \<and> (cl_first_text c \<longrightarrow> f \<and> (\<exists>i. r = Some i \<and> Sent i TextReceived True \<in> set (cl_log c)))
     \<and> (\<forall>i \<in> set_option r. Opened i \<in> set (cl_log c) \<and> Closed i \<notin> set (cl_log c)) \<and> well_sent {} (cl_log c)"

lemma sockets_log: "sockets x r f c \<Longrightarrow> \<forall>ev \<in> set evs. \<forall>i. ev \<noteq> Opened i \<and> ev \<noteq> Closed i \<Longrightarrow> well_sent (set (cl_log c)) evs
    \<Longrightarrow> b \<longrightarrow> cl_first_text c \<Longrightarrow> sockets x r f (c\<lparr>cl_host := h, cl_log := cl_log c @ evs, cl_first_text := b\<rparr>)"
  unfolding sockets_def open_sockets_def by (elim conjE, intro conjI) auto

lemma sockets_same: "sockets x r f c \<Longrightarrow> cl_log c' = cl_log c \<Longrightarrow> cl_remote c' = cl_remote c \<Longrightarrow> cl_first_text c' = cl_first_text c
    \<Longrightarrow> cl_next c \<le> cl_next c' \<Longrightarrow> sockets x r f c'"
  unfolding sockets_def open_sockets_def by (elim conjE, intro conjI) (simp_all, (meson less_le_trans)+)

lemma sockets_flag: "sockets x r f c \<Longrightarrow> f \<longrightarrow> f' \<Longrightarrow> sockets x r f' c"
  by (auto simp: sockets_def)

lemma sockets_none: "sockets x None f c \<Longrightarrow> sockets x None False c"
  by (auto simp: sockets_def)

abbreviation kept :: "('h client \<Rightarrow> bool) \<Rightarrow> ('h, 'a) cm \<Rightarrow> bool" where
  "kept I \<equiv> st_rel (\<lambda>c c'. I c \<longrightarrow> I c')"

lemma sockets_kept:
  "kept (sockets x r f) (client_ask g)" "kept (sockets x r f) (set_failed b)" "kept (sockets x r f) (set_attempt t)"
  by (auto simp: st_rel_def client_ask_def set_failed_def set_attempt_def st_modify_def intro: sockets_same split: prod.splits)

lemma sockets_kept_log:
  assumes "list_all neutral evs" shows "kept (sockets x r f) (client_log evs)"
proof -
  have "\<forall>ev \<in> set evs. \<forall>i. ev \<noteq> Opened i \<and> ev \<noteq> Closed i" using assms by (auto simp: list_all_iff)
  then have "sockets x r f c \<Longrightarrow> sockets x r f (c\<lparr>cl_log := cl_log c @ evs\<rparr>)" for c :: "'a client"
    using sockets_log [of x r f c evs "cl_first_text c" "cl_host c"] assms by simp
  then show ?thesis by (simp add: st_rel_def client_log_def st_modify_def)
qed

lemma sockets_clock: "kept (sockets x r f) (client_clock V)"
  unfolding client_clock_def by (intro keep.rel_rules sockets_kept sockets_kept_log) simp

lemma sockets_cooling: "kept (sockets x r f) (raise_if_cooling_down V cfg)"
  unfolding raise_if_cooling_down_def by (intro keep.rel_rules sockets_clock)

lemma sockets_token: "kept (sockets x r f) (load_private_token V cfg)"
  unfolding load_private_token_def by (intro keep.rel_rules sockets_kept)

lemma sockets_close_instance:
  "st_triple (sockets (set_option x) None f) (close_remote_instance V x) (\<lambda>_. sockets {} None f) (\<lambda>_. sockets {} None f)"
proof (cases x)
  case None
  then show ?thesis by (auto simp: close_remote_instance_def intro: triple_return)
next
  case (Some r)
  have "st_triple (sockets {r} None f) (client_await V (\<lambda>_. [Closed r]) (tv_close V r)) (\<lambda>_. sockets {} None f) (\<lambda>_. sockets {} None f)"
    by (rule triple_await) (auto simp: sockets_def open_sockets_def)
  then show ?thesis
    unfolding close_remote_instance_def Some option.simps
    by (auto intro!: triple_handle [where M = "\<lambda>_. sockets {} None f" and E = "\<lambda>_. sockets {} None f"] triple_return triple_raise)
qed

lemma sockets_close:
  "st_triple (sockets {} r False) (close_locked V) (\<lambda>_. sockets {} None False) (\<lambda>_. sockets {} None False)"
proof -
  have "st_triple (\<lambda>s. s = c \<and> sockets {} r False s)
      (st_then (set_remote None) (close_remote_instance V (cl_remote c))) (\<lambda>_. sockets {} None False) (\<lambda>_. sockets {} None False)" for c :: "'a client"
  proof (rule triple_then [where M = "sockets (set_option (cl_remote c)) None False"])
    show "st_triple (\<lambda>s. s = c \<and> sockets {} r False s) (set_remote None)
        (\<lambda>_. sockets (set_option (cl_remote c)) None False) (\<lambda>_. sockets {} None False)"
      unfolding set_remote_def by (rule triple_modify) (auto simp: sockets_def open_sockets_def)
  qed (rule sockets_close_instance)
  then show ?thesis unfolding close_locked_def by (rule triple_get)
qed

lemma sockets_failed:
  "st_triple (sockets (set_option x) None False) (attempt_failed V x e) (\<lambda>_. Q) (\<lambda>_. sockets {} None False)"
proof -
  have "st_triple (sockets {} None False) (if e = CancelledError then st_return () else st_then (set_failed True) (client_log [AttemptFailed]))
      (\<lambda>_. sockets {} None False) (\<lambda>_. sockets {} None False)"
    by (intro triple_keep keep.rel_rules sockets_kept sockets_kept_log) simp
  then show ?thesis
    unfolding attempt_failed_def
    by (intro triple_then [OF sockets_close_instance] triple_then [where M = "sockets {} None False"] triple_raise) simp_all
qed

lemma sockets_build:
  "st_triple (sockets {} None False) (build_remote V cfg token)
     (\<lambda>(r, token1) c. sockets {} None False c \<and> r < cl_next c \<and> Closed r \<notin> set (cl_log c)) (\<lambda>_. sockets {} None False)"
proof -
  let ?S = "sockets {} None False :: 'a client \<Rightarrow> bool"
  have token: "st_triple ?S (if token = None then load_private_token V cfg else st_return token) (\<lambda>_. ?S) (\<lambda>_. ?S)"
    by (intro triple_keep keep.rel_rules sockets_token)
  have pin: "st_triple ?S (client_ask (tv_pin V)) (\<lambda>_. ?S) (\<lambda>_. ?S)"
    by (intro triple_keep sockets_kept)
  have number: "st_triple ?S (st_get (\<lambda>c. st_then (st_modify (\<lambda>c. c\<lparr>cl_next := Suc (cl_next c)\<rparr>)) (st_return (cl_next c, t))))
      (\<lambda>(r, token1) c. ?S c \<and> r < cl_next c \<and> Closed r \<notin> set (cl_log c)) (\<lambda>_. ?S)" for t :: "string option"
    by (auto simp: st_triple_def st_eval sockets_def open_sockets_def less_Suc_eq)
  have lift: "st_triple ?S (st_lift res) (\<lambda>_. ?S) (\<lambda>_. ?S)" for res :: "'x result"
    by (intro triple_lift)
  show ?thesis
    unfolding build_remote_def
    by (intro triple_bind [OF token] triple_if triple_raise triple_bind [OF pin] triple_bind [OF lift] number)
qed

lemma sockets_connect:
  "st_triple (sockets {} None False) (connect_locked V cfg) (\<lambda>_ c. \<exists>r. sockets {} (Some r) False c) (\<lambda>_. sockets {} None False)"
proof -
  let ?S = "sockets {} None False :: 'a client \<Rightarrow> bool" and ?Q = "\<lambda>(_ :: unit) c. \<exists>r. sockets {} (Some r) False c"
  have attempt: "st_triple ?S (st_then (set_attempt t) (client_log [Attempt t])) (\<lambda>_. ?S) (\<lambda>_. ?S)" for t
    by (intro triple_keep keep.rel_rules sockets_kept sockets_kept_log) simp
  let ?L = "\<lambda>r c. sockets {r} None False c \<and> Opened r \<in> set (cl_log c) \<and> Closed r \<notin> set (cl_log c)"
  have listen: "st_triple (\<lambda>c. ?S c \<and> r < cl_next c \<and> Closed r \<notin> set (cl_log c)) (client_await V (\<lambda>_. [Opened r]) (tv_listen V r token1))
      (\<lambda>_. ?L r) (\<lambda>_. sockets {r} None False)" for r token1
    by (rule triple_weaken [OF triple_await [where M = "\<lambda>_. ?L r" and P = "\<lambda>c. ?S c \<and> r < cl_next c \<and> Closed r \<notin> set (cl_log c)"]])
      (auto simp: sockets_def open_sockets_def)
  have up: "st_triple (?L r) (connected V r) ?Q (\<lambda>_. ?S)" for r
    by (auto simp: connected_def st_triple_def st_eval set_remote_def set_failed_def client_clock_def client_ask_def client_log_def
        sockets_def open_sockets_def split: prod.split)
  have down: "st_triple (sockets {r} None False) (attempt_failed V (Some r) e) ?Q (\<lambda>_. ?S)" for r e
    using sockets_failed [of "Some r"] by (simp add: st_triple_def)
  have none: "st_triple ?S (attempt_failed V None e) ?Q (\<lambda>_. ?S)" for e
    using sockets_failed [of None] by (simp add: st_triple_def)
  have tried: "st_triple (\<lambda>c. case x of (r, token1) \<Rightarrow> ?S c \<and> r < cl_next c \<and> Closed r \<notin> set (cl_log c))
      (case x of (r, token1) \<Rightarrow> st_handle (client_await V (\<lambda>_. [Opened r]) (tv_listen V r token1)) (attempt_failed V (Some r)) (\<lambda>_. connected V r))
      ?Q (\<lambda>_. ?S)" for x
    by (cases x) (simp add: triple_handle [OF listen down up])
  have built: "st_triple ?S (build_remote V cfg token)
      (\<lambda>x c. case x of (r, token1) \<Rightarrow> ?S c \<and> r < cl_next c \<and> Closed r \<notin> set (cl_log c)) (\<lambda>_. ?S)" for token
    by (rule triple_weaken [OF sockets_build]) auto
  show ?thesis
    unfolding connect_locked_def
    by (intro triple_bind [OF triple_keep [OF sockets_token]] triple_bind [OF triple_keep [OF sockets_clock]] triple_then [OF attempt]
        triple_handle [OF built none tried])
qed

definition client_ok :: "'h client \<Rightarrow> bool" where
  "client_ok c \<longleftrightarrow> (\<exists>r. sockets {} r True c)"

abbreviation client_up :: "'h client \<Rightarrow> bool" where
  "client_up c \<equiv> \<exists>r. sockets {} (Some r) True c"

lemma ok_cases: "client_ok c \<Longrightarrow> cl_remote c = None \<and> sockets {} None False c \<or> client_up c"
  unfolding client_ok_def by (metis not_None_eq sockets_def sockets_none)

lemma sockets_ensure: "st_triple client_ok (ensure_connected V cfg) (\<lambda>_. client_up) (\<lambda>_. client_ok)"
proof -
  have up: "sockets {} (Some r) False c \<Longrightarrow> client_up c" and ok: "sockets {} None False c \<Longrightarrow> client_ok c" for r and c :: "'a client"
    using sockets_flag [of "{}" _ False c True] by (auto simp: client_ok_def)
  have connect: "st_triple (\<lambda>s. s = c \<and> client_ok s) (st_then (raise_if_cooling_down V cfg) (connect_locked V cfg)) (\<lambda>_. client_up) (\<lambda>_. client_ok)"
    if "cl_remote c = None" for c :: "'a client"
  proof (rule triple_weaken [OF triple_then [OF triple_keep [OF sockets_cooling] sockets_connect]])
    show "sockets {} None False s" if "s = c \<and> client_ok s" for s
      using that \<open>cl_remote c = None\<close> ok_cases [of s] by (auto simp: sockets_def)
  qed (use up ok in blast)+
  have idle: "st_triple (\<lambda>s. s = c \<and> client_ok s) (st_return ()) (\<lambda>_. client_up) (\<lambda>_. client_ok)" if "cl_remote c \<noteq> None" for c :: "'a client"
  proof (rule triple_return)
    show "client_up s" if "s = c \<and> client_ok s" for s using that \<open>cl_remote c \<noteq> None\<close> ok_cases [of s] by auto
  qed
  show ?thesis
    unfolding ensure_connected_def by (intro triple_get triple_if connect idle)
qed

text \<open>An operation of the current socket.\<close>

definition on_socket :: "(nat \<Rightarrow> ('h, unit) cm) \<Rightarrow> bool" where
  "on_socket f \<longleftrightarrow> (\<forall>r. kept (sockets {} (Some r) True) (f r))"

lemma sockets_the_remote:
  assumes "on_socket f" shows "kept (sockets {} (Some r) True) (the_remote f)"
  unfolding st_rel_def the_remote_def
proof (intro allI impI)
  fix c res c' assume run: "st_get (\<lambda>c. st_bind (st_need AttributeError (cl_remote c)) f) c = (res, c')" and c: "sockets {} (Some r) True c"
  then have "f r c = (res, c')" by (cases "f r c"; cases "fst (f r c)") (auto simp: st_eval sockets_def)
  with assms c show "sockets {} (Some r) True c'" unfolding on_socket_def by (blast dest: st_relD)
qed

lemma sockets_retry:
  assumes "on_socket f" shows "st_triple client_ok (send_with_retry V cfg f) (\<lambda>_. client_ok) (\<lambda>_. client_ok)"
proof -
  let ?S = "sockets {} None False :: 'a client \<Rightarrow> bool"
  have weak: "?S c \<Longrightarrow> client_ok c" "client_up c \<Longrightarrow> client_ok c" "sockets {} (Some r) False c \<Longrightarrow> client_up c" for c r
    using sockets_flag [of "{}" _ False c True] by (auto simp: client_ok_def)
  have once: "st_triple (\<lambda>c. \<exists>r. sockets {} (Some r) True c) (the_remote f) (\<lambda>_. client_up) (\<lambda>_. client_up)"
    using sockets_the_remote [OF assms] by (fastforce intro!: triple_keep simp: st_rel_def)
  have reset: "st_triple client_up (set_first_text False) (\<lambda>_ c. \<exists>r. sockets {} r False c) (\<lambda>_. client_ok)"
    unfolding set_first_text_def by (rule triple_modify) (auto simp: sockets_def open_sockets_def)
  have close: "st_triple (\<lambda>c. \<exists>r. sockets {} r False c) (close_locked V) (\<lambda>_. ?S) (\<lambda>_. client_ok)"
    using sockets_close weak(1) by (fastforce simp: st_triple_def split: prod.splits sum.splits)
  have cool: "st_triple ?S (raise_if_cooling_down V cfg) (\<lambda>_. ?S) (\<lambda>_. client_ok)"
    by (rule triple_weaken [OF triple_keep [OF sockets_cooling]]) (use weak(1) in auto)
  have connect: "st_triple ?S (connect_locked V cfg) (\<lambda>_. client_up) (\<lambda>_. client_ok)"
    by (rule triple_weaken [OF sockets_connect]) (use weak in auto)
  have again: "st_triple client_up (the_remote f) (\<lambda>_. client_ok) (\<lambda>_. client_ok)"
    by (rule triple_weaken [OF once]) (use weak in auto)
  show ?thesis
    unfolding send_with_retry_def
    by (intro triple_then [OF sockets_ensure] triple_handle [OF once] triple_if triple_raise triple_return
        triple_then [OF reset] triple_then [OF close] triple_then [OF cool] triple_then [OF connect] again)
      (use weak in auto)
qed

lemma sockets_authorized: "kept (sockets x r f) (client_authorized V checked)"
  unfolding client_authorized_def by (intro keep.rel_rules sockets_kept sockets_kept_log) simp

text \<open>A message that may be sent now, and a text after its broadcast.\<close>

abbreviation socket_up :: "nat \<Rightarrow> 'h client \<Rightarrow> bool" where "socket_up r \<equiv> sockets {} (Some r) True"

abbreviation broadcast_on :: "nat \<Rightarrow> 'h client \<Rightarrow> bool" where
  "broadcast_on r c \<equiv> socket_up r c \<and> Sent r TextReceived True \<in> set (cl_log c)"

lemma sockets_sending:
  assumes "\<And>c. P c \<Longrightarrow> socket_up r c" "kept P (client_authorized V checked)"
    and "\<And>c ok. P c \<Longrightarrow> sendable (set (cl_log c)) (Sent r message ok)"
  shows "st_triple P (guarded_send V checked r message delay)
     (\<lambda>_ c. socket_up r c \<and> Sent r message True \<in> set (cl_log c)) (\<lambda>_. socket_up r)"
  unfolding guarded_send_def send_command_def
proof (rule triple_then [OF triple_weaken [OF triple_keep [OF assms(2)]]], assumption, assumption)
  show "st_triple P (client_await V (\<lambda>res. [Sent r message (res = Inr ())]) (tv_send V r message delay))
     (\<lambda>_ c. socket_up r c \<and> Sent r message True \<in> set (cl_log c)) (\<lambda>_. socket_up r)"
  proof (rule triple_weaken [OF triple_await])
    fix c :: "'a client" and res h evs b
    assume c: "P c" "b \<longrightarrow> cl_first_text c"
    show "socket_up r (c\<lparr>cl_host := h, cl_log := cl_log c @ [Sent r message (res = Inr ())] @ map ImeEvent evs, cl_first_text := b\<rparr>)
      \<and> (res = Inr () \<longrightarrow> Sent r message True \<in> set (cl_log (c\<lparr>cl_host := h, cl_log := cl_log c @ [Sent r message (res = Inr ())] @ map ImeEvent evs, cl_first_text := b\<rparr>)))"
      using assms(1) [OF c(1)] assms(3) [OF c(1)] c(2) by (auto intro!: sockets_log)
  qed auto
qed (use assms(1) in blast)

lemma authorized_broadcast: "kept (broadcast_on r) (client_authorized V checked)"
  using sockets_authorized [of "{}" "Some r" True V checked]
  by (auto simp: st_rel_def client_authorized_def client_ask_def client_log_def st_eval split: if_splits prod.splits)

definition wordless :: "tv_message \<Rightarrow> bool" where "wordless message \<longleftrightarrow> (case message of InputString txt \<Rightarrow> False | _ \<Rightarrow> True)"

lemma sockets_send:
  "wordless message \<Longrightarrow> st_triple (socket_up r) (guarded_send V checked r message delay)
     (\<lambda>_ c. socket_up r c \<and> Sent r message True \<in> set (cl_log c)) (\<lambda>_. socket_up r)"
  by (rule sockets_sending [OF _ sockets_authorized]) (auto simp: sendable_def wordless_def sockets_def split: tv_message.split)

lemma sockets_text:
  "st_triple (broadcast_on r) (guarded_send V checked r (InputString txt) delay) (\<lambda>_. socket_up r) (\<lambda>_. socket_up r)"
  by (rule triple_weaken [OF sockets_sending [OF _ authorized_broadcast]]) (auto simp: sendable_def sockets_def)

lemma on_socket_send: "wordless message \<Longrightarrow> on_socket (\<lambda>r. guarded_send V checked r message delay)"
  unfolding on_socket_def by (intro allI keep_triple triple_weaken [OF sockets_send]) auto

lemma on_socket_text: "on_socket (send_text_once V checked txt)"
  unfolding on_socket_def
proof
  fix r
  have flag: "st_triple (broadcast_on r) (set_first_text True) (\<lambda>_. broadcast_on r) (\<lambda>_. socket_up r)"
    unfolding set_first_text_def by (rule triple_modify) (auto simp: sockets_def open_sockets_def)
  have clear: "kept (socket_up r) (set_first_text False)"
    by (auto simp: set_first_text_def st_rel_def st_modify_def sockets_def open_sockets_def)
  have send: "st_triple (socket_up r) (guarded_send V checked r TextReceived (Some 0)) (\<lambda>_. broadcast_on r) (\<lambda>_. socket_up r)"
    by (rule sockets_send) (simp add: wordless_def)
  have first: "st_triple (socket_up r) (st_get (\<lambda>c. if cl_first_text c then st_return ()
      else st_then (guarded_send V checked r TextReceived (Some 0)) (set_first_text True))) (\<lambda>_. broadcast_on r) (\<lambda>_. socket_up r)"
    by (intro triple_get triple_if triple_return triple_pre [OF triple_then [OF send flag]]) (auto simp: sockets_def)
  have failed: "st_triple (socket_up r) (st_then (if e = AuthorizationRevoked then set_first_text False else st_return ()) (st_raise e))
      (\<lambda>_. socket_up r) (\<lambda>_. socket_up r)" for e
    by (intro triple_keep keep.rel_rules clear)
  show "kept (socket_up r) (send_text_once V checked txt r)"
    unfolding send_text_once_def
    by (intro keep_triple triple_handle [OF triple_then [OF first sockets_text] failed] triple_return)
qed

lemma sockets_clear: "kept client_ok (set_first_text False)"
  by (auto simp: set_first_text_def st_rel_def st_modify_def client_ok_def sockets_def open_sockets_def)

lemma ok_lift: "(\<And>r. kept (sockets {} r True) m) \<Longrightarrow> kept client_ok m"
  unfolding client_ok_def st_rel_def by blast

lemmas ok_ask = ok_lift [OF sockets_kept(1)] and ok_log = ok_lift [OF sockets_kept_log]

lemma ok_event: "kept client_ok (handle_tv_event V ev)"
  unfolding handle_tv_event_def by (intro keep.rel_rules sockets_clear ok_ask ok_log) simp

subsection \<open>Runs of the client\<close>

datatype client_call = Connect | CloseClient | DispatchCommand bool command | Hold bool string rat | TvEvent string

fun client_run :: "'h television \<Rightarrow> client_config \<Rightarrow> client_call \<Rightarrow> ('h, unit) cm" where
  "client_run V cfg Connect = client_connect V cfg"
| "client_run V cfg CloseClient = client_close V"
| "client_run V cfg (DispatchCommand checked c) = dispatch_command V cfg checked c"
| "client_run V cfg (Hold checked key seconds) = hold_key V cfg checked key seconds"
| "client_run V cfg (TvEvent ev) = handle_tv_event V ev"

definition client_calls :: "'h television \<Rightarrow> client_config \<Rightarrow> client_call list \<Rightarrow> 'h client \<Rightarrow> 'h client" where
  "client_calls V cfg calls c = fold (\<lambda>call c. snd (client_run V cfg call c)) calls c"

lemma ok_run: "kept client_ok (client_run V cfg call)"
proof -
  have connect: "kept client_ok (client_connect V cfg)"
    unfolding client_connect_def by (rule keep_triple, rule triple_weaken [OF sockets_ensure]) (auto simp: client_ok_def)
  have send: "kept client_ok (send_with_retry V cfg f)" if "on_socket f" for f
    by (rule keep_triple, rule sockets_retry) (rule that)
  have key: "kept client_ok (client_send_key V cfg checked key cmd delay)" "kept client_ok (hold_key V cfg checked key seconds)"
    "kept client_ok (send_text V cfg checked words)" for checked key cmd delay seconds words
    unfolding client_send_key_def hold_key_def send_text_def by (intro keep.rel_rules send on_socket_send on_socket_text; simp add: wordless_def)+
  have wake: "kept client_ok (wake_tv V cfg checked)" for checked
    unfolding wake_tv_def client_authorized_def by (intro keep.rel_rules ok_ask ok_log) simp_all
  have close: "kept client_ok (client_close V)"
  proof -
    have "st_triple client_ok (set_first_text False) (\<lambda>_ c. \<exists>r. sockets {} r False c) (\<lambda>_. client_ok)"
      unfolding set_first_text_def by (rule triple_modify) (auto simp: client_ok_def sockets_def open_sockets_def)
    moreover have "st_triple (\<lambda>c. \<exists>r. sockets {} r False c) (close_locked V) (\<lambda>_. client_ok) (\<lambda>_. client_ok)"
      using sockets_close [where V = V] sockets_flag [where f = False and f' = True]
      by (fastforce simp: st_triple_def client_ok_def split: prod.splits sum.splits)
    ultimately show ?thesis unfolding client_close_def by (intro keep_triple triple_then)
  qed
  have "kept client_ok (dispatch_command V cfg checked c)" for checked c
    unfolding dispatch_command_def power_off_def by (auto split: action.split option.split intro: key wake keep.rel_return)
  then show ?thesis by (cases call) (simp_all add: connect close key ok_event)
qed

lemma client_calls_ok: "client_ok c \<Longrightarrow> client_ok (client_calls V cfg calls c)"
  unfolding client_calls_def
proof (induction calls arbitrary: c)
  case (Cons call calls)
  have "client_ok (snd (client_run V cfg call c))" using st_relD [OF ok_run] Cons.prems by (metis prod.collapse)
  then show ?case using Cons.IH by simp
qed simp

text \<open>C25: Through any calls, failures, cancellations and events of the television: of all the sockets that connection
  attempts opened, only the current one is left open, every other one was closed; every message was sent on a socket
  that had been opened and not closed, and every text after the text broadcast on that same socket; and when the flag
  of the broadcast is set, the current socket got it.\<close>

theorem client_one_socket:
  "open_sockets (client_calls V cfg calls (new_client h)) \<subseteq> set_option (cl_remote (client_calls V cfg calls (new_client h)))
   \<and> (\<forall>i r message ok. i < length (cl_log (client_calls V cfg calls (new_client h)))
        \<longrightarrow> cl_log (client_calls V cfg calls (new_client h)) ! i = Sent r message ok
        \<longrightarrow> Opened r \<in> set (take i (cl_log (client_calls V cfg calls (new_client h))))
          \<and> Closed r \<notin> set (take i (cl_log (client_calls V cfg calls (new_client h))))
          \<and> (\<forall>txt. message = InputString txt \<longrightarrow> Sent r TextReceived True \<in> set (take i (cl_log (client_calls V cfg calls (new_client h))))))
   \<and> (cl_first_text (client_calls V cfg calls (new_client h)) \<longrightarrow>
        (\<exists>r. cl_remote (client_calls V cfg calls (new_client h)) = Some r
           \<and> Sent r TextReceived True \<in> set (cl_log (client_calls V cfg calls (new_client h)))))"
proof -
  have "client_ok (new_client h)" by (auto simp: client_ok_def sockets_def open_sockets_def new_client_def)
  then have "client_ok (client_calls V cfg calls (new_client h))" by (rule client_calls_ok)
  then obtain x where s: "sockets {} x True (client_calls V cfg calls (new_client h))" by (auto simp: client_ok_def)
  then have sent: "sendable (set (take i (cl_log (client_calls V cfg calls (new_client h))))) (cl_log (client_calls V cfg calls (new_client h)) ! i)"
    if "i < length (cl_log (client_calls V cfg calls (new_client h)))" for i
    using well_sent_nth [OF _ that, of "{}"] by (simp add: sockets_def)
  have found: "Opened r \<in> before \<and> Closed r \<notin> before \<and> (\<forall>txt. message = InputString txt \<longrightarrow> Sent r TextReceived True \<in> before)"
    if "sendable before (Sent r message ok)" for before r message ok
    using that by (auto simp: sendable_def)
  have "\<forall>i r message ok. i < length (cl_log (client_calls V cfg calls (new_client h)))
        \<longrightarrow> cl_log (client_calls V cfg calls (new_client h)) ! i = Sent r message ok
        \<longrightarrow> Opened r \<in> set (take i (cl_log (client_calls V cfg calls (new_client h))))
          \<and> Closed r \<notin> set (take i (cl_log (client_calls V cfg calls (new_client h))))
          \<and> (\<forall>txt. message = InputString txt \<longrightarrow> Sent r TextReceived True \<in> set (take i (cl_log (client_calls V cfg calls (new_client h)))))"
  proof (intro allI impI)
    fix i r message ok
    assume "i < length (cl_log (client_calls V cfg calls (new_client h)))" "cl_log (client_calls V cfg calls (new_client h)) ! i = Sent r message ok"
    then have "sendable (set (take i (cl_log (client_calls V cfg calls (new_client h))))) (Sent r message ok)" using sent [of i] by simp
    then show "Opened r \<in> set (take i (cl_log (client_calls V cfg calls (new_client h))))
          \<and> Closed r \<notin> set (take i (cl_log (client_calls V cfg calls (new_client h))))
          \<and> (\<forall>txt. message = InputString txt \<longrightarrow> Sent r TextReceived True \<in> set (take i (cl_log (client_calls V cfg calls (new_client h)))))"
      by (rule found)
  qed
  then show ?thesis using s by (auto simp: sockets_def)
qed

subsection \<open>A key is delivered at most once\<close>

fun sends :: "tv_event list \<Rightarrow> (nat \<times> tv_message \<times> bool) list" where
  "sends [] = []"
| "sends (Sent r message ok # evs) = (r, message, ok) # sends evs"
| "sends (_ # evs) = sends evs"

lemma sends_append [simp]: "sends (xs @ ys) = sends xs @ sends ys"
  by (induction xs rule: sends.induct) simp_all

lemma sends_events [simp]: "sends (map ImeEvent evs) = []"
  by (induction evs) simp_all

definition silent :: "'h client \<Rightarrow> 'h client \<Rightarrow> bool" where
  "silent c c' \<longleftrightarrow> (\<exists>evs. cl_log c' = cl_log c @ evs \<and> sends evs = [])"

interpretation sl: step_preorder silent
proof
  show "silent c c" for c :: "'h client" by (auto simp: silent_def intro: exI [of _ "[]"])
  show "silent c e" if "silent c d" "silent d e" for c d e :: "'h client" using that by (auto simp: silent_def)
qed

lemma same_log_silent: "cl_log c' = cl_log c \<Longrightarrow> silent c c'"
  by (auto simp: silent_def)

interpretation silent_client: client_parts silent V cfg for V cfg
proof
  show "st_rel silent (client_log [ev])" if "\<not> leaves ev" for ev
    using that unfolding client_log_def by (intro sl.rel_modify) (cases ev; simp add: silent_def leaves_def)
  show "st_rel silent (client_ask (f :: 'a \<Rightarrow> unit \<times> 'a))" for f
    by (auto simp: st_rel_def client_ask_def intro: same_log_silent split: prod.splits)
qed (auto simp: set_first_text_def set_failed_def set_remote_def set_attempt_def intro!: sl.rel_modify same_log_silent)

lemma send_run:
  assumes "guarded_send V checked r message delay c = (res, c')"
  shows "\<exists>evs. cl_log c' = cl_log c @ evs \<and> (res \<noteq> Inr () \<and> sends evs = [] \<or> sends evs = [(r, message, res = Inr ())])"
proof -
  obtain a c1 where auth: "client_authorized V checked c = (a, c1)" by fastforce
  then obtain evs1 where l1: "cl_log c1 = cl_log c @ evs1" "sends evs1 = []"
    by (auto simp: client_authorized_def client_ask_def client_log_def st_eval require_authorized_def split: if_splits prod.splits)
  show ?thesis
  proof (cases a)
    case (Inl e)
    then show ?thesis using assms auth l1 by (auto simp: guarded_send_def st_eval)
  next
    case (Inr u)
    then have run: "client_await V (\<lambda>res. [Sent r message (res = Inr ())]) (tv_send V r message delay) c1 = (res, c')"
      using assms auth by (simp add: guarded_send_def send_command_def st_eval)
    from await_run [of V "\<lambda>res. [Sent r message (res = Inr ())]" "tv_send V r message delay" c1]
    obtain evs where "cl_log c' = cl_log c1 @ [Sent r message (res = Inr ())] @ map ImeEvent evs" using run by auto
    then show ?thesis using l1 by auto
  qed
qed

lemma remote_run:
  assumes "the_remote (\<lambda>r. guarded_send V checked r message delay) c = (res, c')"
  shows "\<exists>evs. cl_log c' = cl_log c @ evs
    \<and> (res \<noteq> Inr () \<and> sends evs = [] \<or> (\<exists>r. cl_remote c = Some r \<and> sends evs = [(r, message, res = Inr ())]))"
proof (cases "cl_remote c")
  case None
  then show ?thesis using assms by (auto simp: the_remote_def st_eval intro!: exI [of _ "[]"])
next
  case (Some r)
  then show ?thesis using assms send_run [of V checked r message delay c res c'] by (auto simp: the_remote_def st_eval)
qed

lemma then_assoc: "st_then a (st_then b k) = st_then (st_then a b) k"
  by (rule ext) (auto simp: st_eval split: prod.split sum.split)

lemma silent_then:
  assumes "st_rel silent m" "st_then m k c = (res, c')"
  obtains e evs where "res = Inl e" "cl_log c' = cl_log c @ evs" "sends evs = []"
  | c1 evs where "cl_log c1 = cl_log c @ evs" "sends evs = []" "k c1 = (res, c')" "m c = (Inr (), c1)"
proof -
  obtain r c1 where m: "m c = (r, c1)" by fastforce
  obtain evs where evs: "cl_log c1 = cl_log c @ evs" "sends evs = []" using st_relD [OF assms(1) m] by (auto simp: silent_def)
  show thesis using m evs assms(2) that by (cases r) (auto simp: st_eval)
qed

text \<open>A send keeps the remote.\<close>

lemma send_remote: "st_rel (\<lambda>c c'. cl_remote c = x \<longrightarrow> cl_remote c' = x) (the_remote (\<lambda>r. guarded_send V checked r message delay))"
proof -
  have ask: "kept (\<lambda>c. cl_remote c = x) (client_ask f)" for f :: "'a \<Rightarrow> 'y \<times> 'a"
    by (auto simp: st_rel_def client_ask_def split: prod.splits)
  have log: "kept (\<lambda>c :: 'a client. cl_remote c = x) (client_log evs)" for evs by (simp add: st_rel_def client_log_def st_modify_def)
  have flag: "kept (\<lambda>c :: 'a client. cl_remote c = x) (set_first_text b)" for b by (simp add: st_rel_def set_first_text_def st_modify_def)
  have event: "kept (\<lambda>c. cl_remote c = x) (handle_tv_event V ev)" for ev
    unfolding handle_tv_event_def by (intro keep.rel_rules ask log flag)
  have await: "kept (\<lambda>c. cl_remote c = x) (client_await V shown_as f)" for shown_as f
    unfolding client_await_def split_beta by (intro keep.rel_rules ask log event)
  show ?thesis
    unfolding the_remote_def guarded_send_def client_authorized_def send_command_def by (intro keep.rel_rules ask log await)
qed

text \<open>A reconnection: the socket is closed, then a new one is opened and becomes the current one.\<close>

definition grown :: "tv_event list \<Rightarrow> 'h client \<Rightarrow> bool" where
  "grown evs c \<longleftrightarrow> (\<exists>new. cl_log c = evs @ new)"

lemma silent_grown: "st_rel silent m \<Longrightarrow> kept (grown evs) m"
  by (auto simp: st_rel_def silent_def grown_def) (metis append_assoc)

lemma await_grown: "kept (grown evs) (client_await V shown_as f)"
  unfolding st_rel_def
proof (intro allI impI)
  fix c res c' assume "client_await V shown_as f c = (res, c')" "grown evs c"
  then show "grown evs c'" using await_run [of V shown_as f c] by (auto simp: grown_def)
qed

definition opened_since :: "tv_event list \<Rightarrow> nat \<Rightarrow> 'h client \<Rightarrow> bool" where
  "opened_since evs r c \<longleftrightarrow> (\<exists>a b. cl_log c = evs @ a @ Opened r # b)"

lemma connect_opens: "st_triple (grown evs) (connect_locked V cfg) (\<lambda>_ c. \<exists>r. cl_remote c = Some r \<and> opened_since evs r c) (\<lambda>_ _. True)"
proof -
  let ?Q = "\<lambda>(_ :: unit) c. \<exists>r. cl_remote c = Some r \<and> opened_since evs r c"
  have never: "st_triple P m Q (\<lambda>_ _. True)" if "\<And>c. fst (m c) \<noteq> Inr ()" for P Q and m :: "('a, unit) cm"
    unfolding st_triple_def
  proof (intro allI impI)
    fix c
    obtain r c' where m: "m c = (r, c')" by fastforce
    then have "r \<noteq> Inr ()" using that [of c] by simp
    then show "case m c of (Inr x, c') \<Rightarrow> Q x c' | (Inl e, c') \<Rightarrow> True" using m by (cases r) auto
  qed
  have failed: "st_triple P (attempt_failed V x e) ?Q (\<lambda>_ _. True)" for P :: "'a client \<Rightarrow> bool" and x e
    by (rule never) (auto simp: attempt_failed_def st_eval split: prod.split sum.split)
  have same: "st_triple (grown evs) m (\<lambda>_. grown evs) (\<lambda>_ _. True)" if "st_rel silent m" for m :: "('a, 'y) cm"
    by (rule triple_weaken [OF triple_keep [OF silent_grown [OF that]]]) auto
  have opened: "opened_since evs r (c\<lparr>cl_host := h, cl_log := cl_log c @ Opened r # map ImeEvent ime, cl_first_text := b\<rparr>)"
    if "grown evs c" for c :: "'a client" and r h ime b
    using that by (auto simp: grown_def opened_since_def) blast
  have listen: "st_triple (grown evs) (client_await V (\<lambda>_. [Opened r]) f) (\<lambda>_. opened_since evs r) (\<lambda>_ _. True)" for r f
    by (rule triple_weaken [OF triple_await [where M = "\<lambda>_. opened_since evs r" and P = "grown evs"]]) (simp_all add: opened)
  have up: "st_triple (opened_since evs r) (connected V r) ?Q (\<lambda>_ _. True)" for r
    by (auto simp: connected_def st_triple_def st_eval set_remote_def set_failed_def client_clock_def client_ask_def client_log_def opened_since_def
        split: prod.split) blast
  have tried: "st_triple (grown evs) (case x of (r, token1) \<Rightarrow>
      st_handle (client_await V (\<lambda>_. [Opened r]) (tv_listen V r token1)) (attempt_failed V (Some r)) (\<lambda>_. connected V r)) ?Q (\<lambda>_ _. True)" for x
    by (cases x) (simp add: triple_handle [OF listen failed up])
  show ?thesis
    unfolding connect_locked_def
    by (intro triple_bind [OF same] triple_then [OF same] triple_handle [OF same failed tried] sl.rel_then silent_client.rel_token
        silent_client.rel_clock silent_client.rel_build silent_client.on_attempt silent_client.on_log) (simp add: leaves_def)
qed

lemma close_grown:
  "st_triple (\<lambda>c. grown evs c \<and> cl_remote c = Some r) (close_locked V) (\<lambda>_ c. \<exists>new. grown (evs @ new @ [Closed r]) c) (\<lambda>_ _. True)"
proof -
  let ?Q = "\<lambda>c. \<exists>new. grown (evs @ new @ [Closed r]) c"
  have "st_triple (grown evs) (client_await V (\<lambda>_. [Closed r]) (tv_close V r)) (\<lambda>_. ?Q) (\<lambda>_. ?Q)"
    by (rule triple_weaken [OF triple_await [where M = "\<lambda>_. ?Q" and P = "grown evs"]]) (auto simp: grown_def; blast)
  then have "st_triple (grown evs) (close_remote_instance V (Some r)) (\<lambda>_. ?Q) (\<lambda>_ _. True)"
    unfolding close_remote_instance_def option.simps
    by (rule triple_handle) (auto intro!: triple_if triple_raise triple_return)
  then show ?thesis
    unfolding close_locked_def set_remote_def by (auto simp: st_triple_def st_eval grown_def split: prod.splits sum.splits)
qed

definition reconnected :: "nat \<Rightarrow> nat \<Rightarrow> tv_event list \<Rightarrow> bool" where
  "reconnected r r' evs \<longleftrightarrow> (\<exists>a b d. evs = a @ Closed r # b @ Opened r' # d)"

abbreviation reconnect :: "'h television \<Rightarrow> client_config \<Rightarrow> ('h, unit) cm" where
  "reconnect V cfg \<equiv> st_then (set_first_text False) (st_then (close_locked V) (st_then (raise_if_cooling_down V cfg) (connect_locked V cfg)))"

lemma reconnect_run:
  assumes "reconnect V cfg c = (Inr (), c')" "cl_remote c = Some r"
  shows "\<exists>r' evs. cl_remote c' = Some r' \<and> cl_log c' = cl_log c @ evs \<and> reconnected r r' evs"
proof -
  obtain c1 where close: "close_locked V (c\<lparr>cl_first_text := False\<rparr>) = (Inr (), c1)"
    and rest: "st_then (raise_if_cooling_down V cfg) (connect_locked V cfg) c1 = (Inr (), c')"
    using assms(1) by (auto simp: st_eval set_first_text_def split: prod.splits sum.splits)
  obtain c2 where cool: "raise_if_cooling_down V cfg c1 = (Inr (), c2)" and connect: "connect_locked V cfg c2 = (Inr (), c')"
    using rest by (auto simp: st_eval split: prod.splits sum.splits)
  have "grown (cl_log c) (c\<lparr>cl_first_text := False\<rparr>)" by (simp add: grown_def)
  then obtain new where "grown (cl_log c @ new @ [Closed r]) c1"
    using tripleD_return [OF close_grown _ close, of "cl_log c" r] assms(2) by auto
  then have "grown (cl_log c @ new @ [Closed r]) c2"
    using st_relD [OF silent_grown [OF silent_client.rel_cooling] cool] by blast
  from tripleD_return [OF connect_opens this connect] show ?thesis
    by (auto simp: opened_since_def reconnected_def) (metis append_Cons append_Nil append_assoc)
qed

text \<open>What a second try adds.\<close>

lemma second_run:
  assumes "st_then (reconnect V cfg) (the_remote (\<lambda>r. guarded_send V checked r message delay)) c = (res, c')"
  shows "\<exists>again second. cl_log c' = cl_log c @ again @ second \<and> sends again = []
    \<and> (res \<noteq> Inr () \<and> sends second = []
       \<or> (\<exists>r'. sends second = [(r', message, res = Inr ())] \<and> (\<forall>r. cl_remote c = Some r \<longrightarrow> reconnected r r' again)))"
proof -
  have "st_rel silent (reconnect V cfg)"
    by (intro sl.rel_then silent_client.on_flag silent_client.rel_close silent_client.rel_cooling silent_client.rel_connect)
  then show ?thesis using assms
  proof (cases rule: silent_then [consumes 2, case_names raised ran])
    case (raised e evs)
    then show ?thesis by (intro exI [of _ evs] exI [of _ "[]"]) simp
  next
    case (ran c1 again)
    from remote_run [OF ran(3)] obtain second where second: "cl_log c' = cl_log c1 @ second"
      "res \<noteq> Inr () \<and> sends second = [] \<or> (\<exists>r'. cl_remote c1 = Some r' \<and> sends second = [(r', message, res = Inr ())])" by blast
    have "\<exists>r'. cl_remote c1 = Some r' \<and> reconnected r r' again" if "cl_remote c = Some r" for r
      using reconnect_run [OF ran(4) that] ran(1) by auto
    then show ?thesis using ran second by (intro exI [of _ again] exI [of _ second]) auto
  qed
qed

text \<open>C26: A key press, whatever the television and the connection do: it is sent at most twice, the second time only
  after the first one failed, its socket was closed and a new socket, the one of the second send, was opened; when the
  call returns, the last send succeeded, and when it raises, none did.\<close>

theorem key_delivered_once:
  assumes "client_send_key V cfg checked key cmd delay c = (res, c')"
  shows "\<exists>evs. cl_log c' = cl_log c @ evs
    \<and> (\<forall>(r, message, ok) \<in> set (sends evs). message = KeyMessage key cmd)
    \<and> (res = Inr () \<longleftrightarrow> sends evs \<noteq> [] \<and> snd (snd (last (sends evs))))
    \<and> (length (sends evs) \<le> 1
       \<or> (\<exists>first again second r r' ok. evs = first @ again @ second \<and> sends first = [(r, KeyMessage key cmd, False)]
            \<and> sends again = [] \<and> reconnected r r' again \<and> sends second = [(r', KeyMessage key cmd, ok)]))"
proof (cases "cmd \<in> {''Click'', ''Press'', ''Release''}")
  case False
  then show ?thesis using assms by (auto simp: client_send_key_def st_eval intro!: exI [of _ "[]"])
next
  case True
  let ?once = "the_remote (\<lambda>r. guarded_send V checked r (KeyMessage key cmd) delay)"
  let ?retry = "st_handle ?once (\<lambda>e. if e \<in> {AuthorizationRevoked, CancelledError} then st_raise e else st_then (reconnect V cfg) ?once) st_return"
  have "st_then (ensure_connected V cfg) ?retry c = (res, c')"
  proof -
    have "send_with_retry V cfg (\<lambda>r. guarded_send V checked r (KeyMessage key cmd) delay) c = (res, c')"
      using assms True by (simp add: client_send_key_def split: if_split_asm)
    then show ?thesis by (simp add: send_with_retry_def then_assoc cong: if_cong)
  qed
  then show ?thesis
  proof (cases rule: silent_then [OF silent_client.rel_ensure, consumes 1, case_names raised ran])
    case (raised e evs)
    then show ?thesis by (intro exI [of _ evs]) simp
  next
    case (ran c1 evs0)
    obtain r1 c2 where first: "?once c1 = (r1, c2)" by fastforce
    from remote_run [OF this] obtain evs1 where evs1: "cl_log c2 = cl_log c1 @ evs1"
      "r1 \<noteq> Inr () \<and> sends evs1 = [] \<or> (\<exists>r. cl_remote c1 = Some r \<and> sends evs1 = [(r, KeyMessage key cmd, r1 = Inr ())])" by blast
    show ?thesis
    proof (cases "r1 = Inr () \<or> r1 = Inl AuthorizationRevoked \<or> r1 = Inl CancelledError")
      case True
      then have "res = r1" "c' = c2" using ran(3) first by (auto simp: st_eval)
      then show ?thesis using ran evs1 by (intro exI [of _ "evs0 @ evs1"]) auto
    next
      case False
      then obtain e where e: "r1 = Inl e" "e \<notin> {AuthorizationRevoked, CancelledError}" by (cases r1) auto
      have "st_then (reconnect V cfg) ?once c2 = (res, c')" using ran(3) first e by (simp add: st_handle_def)
      from second_run [OF this] obtain again second where two: "cl_log c' = cl_log c2 @ again @ second" "sends again = []"
        "res \<noteq> Inr () \<and> sends second = []
         \<or> (\<exists>r'. sends second = [(r', KeyMessage key cmd, res = Inr ())] \<and> (\<forall>r. cl_remote c2 = Some r \<longrightarrow> reconnected r r' again))" by blast
      have same: "cl_remote c1 = Some r \<Longrightarrow> cl_remote c2 = Some r" for r using st_relD [OF send_remote first] by blast
      have "length (sends (evs0 @ evs1 @ again @ second)) \<le> 1
          \<or> (\<exists>first again' second' r r' ok. evs0 @ evs1 @ again @ second = first @ again' @ second'
              \<and> sends first = [(r, KeyMessage key cmd, False)] \<and> sends again' = [] \<and> reconnected r r' again'
              \<and> sends second' = [(r', KeyMessage key cmd, ok)])"
      proof (cases "sends evs1 = [] \<or> sends second = []")
        case False
        then obtain r r' where "cl_remote c1 = Some r" "sends evs1 = [(r, KeyMessage key cmd, False)]"
          "sends second = [(r', KeyMessage key cmd, res = Inr ())]" "reconnected r r' again"
          using evs1 two e same by auto
        then show ?thesis using two(2) ran(2)
          by (intro disjI2 exI [of _ "evs0 @ evs1"] exI [of _ again] exI [of _ second] exI [of _ r] exI [of _ r'] exI [of _ "res = Inr ()"]) simp
      qed (use evs1 two ran(2) in auto)
      then show ?thesis using two ran evs1 e by (intro exI [of _ "evs0 @ evs1 @ again @ second"]) auto
    qed
  qed
qed

subsection \<open>A television\<close>

definition sample_pem :: string where
  "sample_pem = ''-----BEGIN CERTIFICATE-----A-----END CERTIFICATE-----''"

definition sample_tv :: "unit television" where
  "sample_tv = \<lparr>tv_clock = Pair 100, tv_token = Pair (Inl FileNotFound), tv_pin = Pair (Inr sample_pem), tv_listen = (\<lambda>r token. Pair (Inr (), [])),
     tv_close = (\<lambda>r. Pair (Inr (), [])), tv_send = (\<lambda>r message delay. Pair (Inr (), [])), tv_check = Pair (Some True), tv_wake = (\<lambda>mac. Pair (Inr ())),
     tv_ime = (\<lambda>ev. id)\<rparr>"

definition sample_client :: client_config where
  "sample_client = \<lparr>cc_mac = [], cc_has_token = True, cc_has_pin = True, cc_tls = sample_tls, cc_wol = True, cc_min_interval = 3\<rparr>"

definition sample_item :: "nat queued" where
  "sample_item = \<lparr>q_id = 0, q_owner = 7, q_command = key_command SendKey (Some ''KEY_UP'') (FromButton 1), q_generation = None,
     q_completion = None, q_cancelled = False\<rparr>"

definition sample_words :: command where
  "sample_words = (key_command SendText None (FromOther ''rti''))\<lparr>cm_text := Some ''a''\<rparr>"

lemma sample_certificate: "load_trusted_certificate sample_tls (Inr sample_pem) = Inr \<lparr>ct_pem = sample_pem, ct_der = [65], ct_sha256 = ''41''\<rparr>"
  unfolding sample_pem_def by code_simp

lemma sample_connect:
  "connect_locked sample_tv sample_client (new_client ()) = (Inr (), (new_client ())\<lparr>cl_remote := Some 0, cl_last_attempt := Some 100, cl_next := 1,
     cl_log := [Clock 100, Attempt 100, Opened 0, Clock 100]\<rparr>)"
  by (simp add: connect_locked_def load_private_token_def sample_client_def sample_tv_def client_ask_def client_clock_def client_log_def st_eval
      set_attempt_def build_remote_def sample_certificate create_pinned_ssl_context_def client_await_def connected_def set_remote_def set_failed_def
      new_client_def sample_tls_def [THEN arg_cong [where f = ts_loads]])

lemma sample_key:
  "client_send_key sample_tv sample_client True ''KEY_UP'' ''Click'' None (new_client ()) = (Inr (), (new_client ())\<lparr>cl_remote := Some 0,
     cl_last_attempt := Some 100, cl_next := 1, cl_log := [Clock 100, Attempt 100, Opened 0, Clock 100, Checked (Some True),
       Sent 0 (KeyMessage ''KEY_UP'' ''Click'') True]\<rparr>)"
proof -
  have "ensure_connected sample_tv sample_client (new_client ()) = (Inr (), (new_client ())\<lparr>cl_remote := Some 0, cl_last_attempt := Some 100, cl_next := 1,
     cl_log := [Clock 100, Attempt 100, Opened 0, Clock 100]\<rparr>)"
    using sample_connect by (simp add: ensure_connected_def raise_if_cooling_down_def st_eval new_client_def)
  then show ?thesis
    by (simp add: client_send_key_def send_with_retry_def st_eval the_remote_def guarded_send_def client_authorized_def client_ask_def client_log_def
        require_authorized_def send_command_def client_await_def sample_tv_def new_client_def)
qed

text \<open>A television that loses its first connection with the first command.\<close>

definition broken_tv :: "unit television" where
  "broken_tv = sample_tv\<lparr>tv_send := (\<lambda>r message delay. Pair (if r = 0 then Inl ConnectionError else Inr (), []))\<rparr>"

lemma broken_connect:
  "connect_locked broken_tv sample_client c = (Inr (), c\<lparr>cl_remote := Some (cl_next c), cl_last_attempt := Some 100, cl_last_failed := False,
     cl_next := Suc (cl_next c), cl_log := cl_log c @ [Clock 100, Attempt 100, Opened (cl_next c), Clock 100]\<rparr>)"
  by (simp add: connect_locked_def load_private_token_def sample_client_def sample_tv_def broken_tv_def client_ask_def client_clock_def client_log_def st_eval
      set_attempt_def build_remote_def sample_certificate create_pinned_ssl_context_def client_await_def connected_def set_remote_def set_failed_def
      sample_tls_def [THEN arg_cong [where f = ts_loads]])

lemma broken_key:
  "client_send_key broken_tv sample_client True ''KEY_UP'' ''Click'' None (new_client ()) = (Inr (), (new_client ())\<lparr>cl_remote := Some 1,
     cl_last_attempt := Some 100, cl_next := 2, cl_log := [Clock 100, Attempt 100, Opened 0, Clock 100, Checked (Some True),
       Sent 0 (KeyMessage ''KEY_UP'' ''Click'') False, Closed 0, Clock 100, Attempt 100, Opened 1, Clock 100, Checked (Some True),
       Sent 1 (KeyMessage ''KEY_UP'' ''Click'') True]\<rparr>)"
  by (simp add: client_send_key_def send_with_retry_def ensure_connected_def raise_if_cooling_down_def broken_connect st_eval the_remote_def
      guarded_send_def client_authorized_def client_ask_def client_log_def require_authorized_def send_command_def client_await_def
      set_first_text_def close_locked_def close_remote_instance_def set_remote_def broken_tv_def [THEN arg_cong [where f = tv_send]]
      broken_tv_def [THEN arg_cong [where f = tv_check]] broken_tv_def [THEN arg_cong [where f = tv_close]] sample_tv_def new_client_def)

theorem key_delivered_once_witness:
  "sends (cl_log (snd (client_send_key broken_tv sample_client True ''KEY_UP'' ''Click'' None (new_client ()))))
     = [(0, KeyMessage ''KEY_UP'' ''Click'', False), (1, KeyMessage ''KEY_UP'' ''Click'', True)]
   \<and> (\<exists>first again second. cl_log (snd (client_send_key broken_tv sample_client True ''KEY_UP'' ''Click'' None (new_client ()))) = first @ again @ second
        \<and> sends first = [(0, KeyMessage ''KEY_UP'' ''Click'', False)] \<and> reconnected 0 1 again)"
proof -
  let ?log = "cl_log (snd (client_send_key broken_tv sample_client True ''KEY_UP'' ''Click'' None (new_client ())))"
  have two: "sends ?log = [(0, KeyMessage ''KEY_UP'' ''Click'', False), (1, KeyMessage ''KEY_UP'' ''Click'', True)]"
    unfolding broken_key by simp
  have "cl_log (new_client ()) = []" by (simp add: new_client_def)
  with key_delivered_once [OF prod.collapse [symmetric], of broken_tv sample_client True "''KEY_UP''" "''Click''" None "new_client ()"] two
  have "\<exists>first again second r r' ok. ?log = first @ again @ second \<and> sends first = [(r, KeyMessage ''KEY_UP'' ''Click'', False)]
      \<and> sends again = [] \<and> reconnected r r' again \<and> sends second = [(r', KeyMessage ''KEY_UP'' ''Click'', ok)]" by auto
  then obtain first again second r r' ok where parts: "?log = first @ again @ second" "sends first = [(r, KeyMessage ''KEY_UP'' ''Click'', False)]"
    "sends again = []" "reconnected r r' again" "sends second = [(r', KeyMessage ''KEY_UP'' ''Click'', ok)]" by blast
  have "sends ?log = [(r, KeyMessage ''KEY_UP'' ''Click'', False), (r', KeyMessage ''KEY_UP'' ''Click'', ok)]" by (simp add: parts)
  then have "r = 0" "r' = 1" using two by simp_all
  then show ?thesis using two parts by blast
qed

definition tv_lane :: "nat lane" where
  "tv_lane = \<lparr>ln_max = 4, ln_queue = [], ln_owners = [(7, \<lparr>rg_authorize = True, rg_on_unauthorized = True\<rparr>)], ln_wake = False, ln_worker = Dispatching,
     ln_cancel = False, ln_current = Some sample_item, ln_stopping = False, ln_futures = [], ln_next = 1\<rparr>"

theorem dispatch_checks_authorization_witness:
  "leaves (Sent 0 (KeyMessage ''KEY_UP'' ''Click'') True)
   \<and> cl_log (snd (dispatch_item sample_tv sample_client tv_lane sample_item (new_client ()))) ! 4 = Checked (Some True)"
proof -
  have run: "dispatch_item sample_tv sample_client tv_lane sample_item (new_client ()) = (DispatchReturned, (new_client ())\<lparr>cl_remote := Some 0,
     cl_last_attempt := Some 100, cl_next := 1, cl_log := [Clock 100, Attempt 100, Opened 0, Clock 100, Checked (Some True),
       Sent 0 (KeyMessage ''KEY_UP'' ''Click'') True]\<rparr>)"
    using sample_key by (simp add: dispatch_item_def tv_lane_def sample_item_def key_command_def dispatch_command_def lane_outcome_def)
  have "map_of (ln_owners tv_lane) (q_owner sample_item) = Some \<lparr>rg_authorize = True, rg_on_unauthorized = True\<rparr>"
    by (simp add: tv_lane_def sample_item_def)
  from dispatch_checks_authorization [OF run this] show ?thesis
    unfolding run by (simp add: leaves_def new_client_def)
qed

lemma sample_broadcast:
  "client_calls sample_tv sample_client [DispatchCommand True sample_words] (new_client ()) = (new_client ())\<lparr>cl_remote := Some 0, cl_first_text := True,
     cl_last_attempt := Some 100, cl_next := 1, cl_log := [Clock 100, Attempt 100, Opened 0, Clock 100, Checked (Some True), Sent 0 TextReceived True,
       Checked (Some True), Sent 0 (InputString ''a'') True]\<rparr>"
proof -
  have "ensure_connected sample_tv sample_client (new_client ()) = (Inr (), (new_client ())\<lparr>cl_remote := Some 0, cl_last_attempt := Some 100, cl_next := 1,
     cl_log := [Clock 100, Attempt 100, Opened 0, Clock 100]\<rparr>)"
    using sample_connect by (simp add: ensure_connected_def raise_if_cooling_down_def st_eval new_client_def)
  then show ?thesis
    by (simp add: client_calls_def sample_words_def key_command_def dispatch_command_def send_text_def send_text_once_def send_with_retry_def st_eval
        the_remote_def guarded_send_def client_authorized_def client_ask_def client_log_def set_first_text_def
        require_authorized_def send_command_def client_await_def sample_tv_def new_client_def)
qed

theorem client_one_socket_witness:
  "cl_log (client_calls sample_tv sample_client [DispatchCommand True sample_words] (new_client ())) ! 7 = Sent 0 (InputString ''a'') True
   \<and> Sent 0 TextReceived True \<in> set (take 7 (cl_log (client_calls sample_tv sample_client [DispatchCommand True sample_words] (new_client ()))))"
proof -
  let ?log = "cl_log (client_calls sample_tv sample_client [DispatchCommand True sample_words] (new_client ()))"
  have text7: "7 < length ?log" "?log ! 7 = Sent 0 (InputString ''a'') True" by (simp_all add: sample_broadcast)
  then show ?thesis using client_one_socket [of sample_tv sample_client "[DispatchCommand True sample_words]" "()"] by blast
qed

text \<open>
  The broadcast must precede the first text of every session of the television's keyboard. When the
  keyboard reopens while the broadcast is under way, the event's reset of the flag is overwritten, and
  the texts of the new session go without a broadcast.
\<close>

definition reopening_tv :: "unit television" where
  "reopening_tv = sample_tv\<lparr>tv_send := (\<lambda>r message delay. Pair (Inr (), if message = TextReceived then [''ms.remote.imeStart''] else []))\<rparr>"

lemma ime_reset_overwritten:
  assumes "c = (new_client ())\<lparr>cl_remote := Some 0\<rparr>"
  shows "cl_log (client_calls reopening_tv sample_client [DispatchCommand False sample_words, DispatchCommand False sample_words] c)
     = [Sent 0 TextReceived True, ImeEvent ''ms.remote.imeStart'', Sent 0 (InputString ''a'') True, Sent 0 (InputString ''a'') True]"
  by (simp add: assms reopening_tv_def client_calls_def sample_words_def key_command_def dispatch_command_def send_text_def send_text_once_def send_with_retry_def st_eval
        the_remote_def guarded_send_def client_authorized_def client_ask_def client_log_def set_first_text_def ensure_connected_def handle_tv_event_def
        IME_EVENTS_def require_authorized_def send_command_def client_await_def sample_tv_def new_client_def)

end
