(* ===== verification/Spec2Isabelle.thy ===== *)
theory Spec2Isabelle
  imports Framing Repeater Config StateLock Directories Commands Discovery Startup Scenario SamsungSocket
begin

text \<open>
  A model of atvr4samsung, a Python bridge that presents itself to an iPhone as an Apple TV (the
  Companion Link protocol) and turns the remote's buttons, gestures and text into commands for a
  Samsung TV. Paths are relative to \<^verbatim>\<open>src/atvr4samsung/\<close>.

  \<^bold>\<open>How the parts interact.\<close> Bytes of a TCP connection pass the frame parser (theory Framing,
  \<^verbatim>\<open>protocol/framing.py\<close>) and reach \<open>handle_frame\<close> (Connection, the transport
  half of \<^verbatim>\<open>protocol/appletv.py\<close>), which decrypts with the session cipher (Cipher,
  \<^verbatim>\<open>protocol/chacha20.py\<close>), decodes OPACK (Opack, \<^verbatim>\<open>protocol/opack.py\<close>) and hands the
  frame either to the pairing handshake (Auth, \<^verbatim>\<open>protocol/auth.py\<close>, over Tlv8,
  \<^verbatim>\<open>protocol/tlv8.py\<close>) or to the message handlers (Session, \<^verbatim>\<open>companion/server.py\<close> and
  the handlers of \<^verbatim>\<open>appletv.py\<close>; Messages holds what they read from Python values). Touches
  and buttons go through the gesture translator (Gestures, \<^verbatim>\<open>bridge/gestures.py\<close>), the key map
  (Keymap, \<^verbatim>\<open>bridge/keymap.py\<close>) and the relay (Relay, \<^verbatim>\<open>companion/relay.py\<close>); its commands
  enter the one dispatch lane (Dispatch, \<^verbatim>\<open>companion/dispatch.py\<close>) or start the hold repeater
  (Repeater, \<^verbatim>\<open>companion/repeater.py\<close>). Connection budgets and rate limits are those of
  Guardrails (\<^verbatim>\<open>protocol/guardrails.py\<close>). The state directory (Storage and Durability,
  \<^verbatim>\<open>protocol/atomic_io.py\<close>) holds the server identity and the reset checkpoints (PairingReset and
  ServerIdentity, \<^verbatim>\<open>protocol/server_identity.py\<close>, \<^verbatim>\<open>protocol/identity_reset.py\<close>), the
  enrollment window (PairingWindow, \<^verbatim>\<open>pairing_window.py\<close>) and the paired clients
  (PairedClients, \<^verbatim>\<open>protocol/paired_clients.py\<close>), reached by the descriptor walks of Directories and kept apart by the
  lock of StateLock (\<^verbatim>\<open>protocol/pairing_state.py\<close>), one step that may fail in the storage theories. At
  the other end the lane's worker calls the television's client (SamsungClient and SamsungSocket,
  \<^verbatim>\<open>samsung/client.py\<close>), which speaks only to the certificate that was approved (Trust,
  \<^verbatim>\<open>samsung/trust.py\<close>). System puts the server together, all connections over one lane, one
  admission and one device (\<open>serve\<close> and \<open>close_server\<close> of \<^verbatim>\<open>companion/server.py\<close>); Scenario runs it. Around
  it: the configuration (Config, \<^verbatim>\<open>config.py\<close>), the mDNS advertiser (Discovery,
  \<^verbatim>\<open>companion/discovery.py\<close>), the life of the process (Startup, \<open>run\<close> of \<^verbatim>\<open>app.py\<close>), and the commands
  that work on the state directory next to the daemon (Commands; \<open>unpair\<close> is in PairingReset,
  \<open>trust-tv\<close> in Trust).

  \<^bold>\<open>How the code is rendered.\<close> An object is a record, a method a function on it. Where a
  method only updates its object the function is written out; the storage theories use an \<open>io\<close>
  monad over a world of files, the handshake a monad over its peer, the connection and the session
  the combinators of Effects. Exceptions are values of \<open>exn\<close>, a method that may raise returns
  \<open>exn + 'a\<close>, and what it did before raising stays. Coroutines are cut at their \<open>await\<close>s, and
  what the event loop, other connections or other processes do in between is a step relation or an
  argument: \<open>conn_step\<close>, \<open>lane_step\<close>, \<open>repeat_step\<close>, \<open>advert_step\<close>, \<open>sys_step\<close> for the whole server, the moments of
  PairedClients, the interference of Directories. Startup is a run over a map from operations to failures.
  Strings are UTF-8 byte lists, bytes are 8-bit words, \<open>int\<close> is \<open>int\<close>, floats that carry
  times and ratios are exact rationals; where rounding, infinities or NaN can matter they are in the
  model (\<open>pynum\<close>, the doubles of Opack).

  \<^bold>\<open>What is shown.\<close> Codecs: round trips, totality and size bounds, and that framing does not
  depend on how TCP cuts the stream. Handshake and transport: keys are installed only after a
  pair-verify of a stored client, no nonce repeats, a message reaches the application only when it is
  authentic and its sender authorized at that moment, and the connection's invariant survives every
  sequence of events. Session: whatever a client sends, the waiting work of every other dispatch owner
  gets no addition, change or new order (Ownership), and text and volume stay bounded. Relay, lane and repeater: holds alternate, nothing is
  dispatched for an owner that is not registered and authorized, work is first in first out, bounded
  and not lost, clicks stop with their hold. Limiters: the pruned implementations decide as a log of
  all events would, and no window of time exceeds its budget. Storage: a strict write is atomic and
  durable under a power loss at any moment, an unpair or reset can be cut anywhere without
  re-admitting an old client, and an enrollment is stored only under the window it was made for; what
  \<open>pair\<close> prints is durable, what \<open>revoke\<close> reports is final, for a daemon with a full cache too; the walks
  to the directory leak no descriptor but one, a chain found current is the path, and the lock admits one
  transaction at a time. Television: each
  packet of a command follows a fresh authorization, one socket stays open, every text follows the text broadcast
  on its socket, and a key is sent at most twice, the second time on a new socket.
  Server: through every interleaving of connections, tasks, worker and shutdown the budgets hold, each
  waiting command belongs to one encrypted connection that was not torn down, and \<open>close_server\<close> releases everything.
  That this connection is also open rests on Release: a connection closed in the middle of a chunk owns nothing
  when the chunk has been handled, provided that asking the authorization check again does not take a refusal back
  (\<open>refusals_last\<close>; without it a later frame of the chunk may start a session on the closing connection). Process: what
  \<open>run\<close> opened is released whatever raises, the advertised address is the current one, and a
  configuration is refused with an error that the operator sees.

  \<^bold>\<open>Interfaces.\<close> \<open>step_preorder\<close> (Effects) is the relational logic of methods; \<open>frame_relation\<close> and
  \<open>application\<close> (Connection) state what a service must respect for a chunk of frames to respect it,
  \<open>request_relation\<close> and \<open>handler_relation\<close> (Session) the same for the message handlers, without and with the one that begins a
  dispatch session, \<open>bridge_relation\<close> and \<open>message_relation\<close>
  (Ownership) for relations on the bridge alone, \<open>repeat_relation\<close> (System) for the delayed clicks,
  \<open>client_parts\<close> and \<open>client_relation\<close> (SamsungSocket) for the television's client. They are interpreted on
  \<open>tame\<close> and \<open>framed\<close> (the connection's invariant), \<open>releasing\<close> (what a closed connection keeps), \<open>orderly\<close>, \<open>holding\<close>, \<open>resuming\<close> and \<open>bound\<close> (the
  ownership of work and the budgets), \<open>guards\<close> and \<open>silent\<close> (what is sent). \<open>windowed_limiter\<close> (Guardrails) is
  the contract of both limiters, \<open>durable_record\<close> (Durability) that of the three files of the state directory.

  \<^bold>\<open>Bounds and fuel.\<close> Recursion limits of the interpreter are parameters (\<open>ac_depth\<close>, the
  depth arguments of \<open>tlv_parse\<close> and \<open>unpack_obj\<close>): running out is the \<open>RecursionError\<close>
  of the source, and the round trips ask for as much depth as the value has levels. Random draws are
  finite supplies, and \<open>None\<close> says that one was used up (\<open>fresh_pin\<close>, \<open>cmd_pair\<close>); the bounds on retries
  are the code's own. The other loops need no fuel: each ends on a measure (the bytes left, the queue left).

  \<^bold>\<open>Parameters.\<close> X25519, Ed25519, HKDF, SRP, ChaCha20-Poly1305 (\<open>crypto\<close>, \<open>aead\<close>), the plist
  library and rounding to a double (\<open>text_library\<close>), the TLS library (\<open>tls_library\<close>), the television and its
  websocket (\<open>television\<close>), YAML, the hash and the zeroconf registry, the answers of the stores and limiters to the
  handshake (\<open>host\<close>), the faults and interference of the file system. None is given a law, except
  where a property names it as a hypothesis with a witness.

  \<^bold>\<open>Not modelled.\<close> The log redaction (\<^verbatim>\<open>samsung/logging_safety.py\<close>) and \<open>stringify\<close>, which only
  rewrite texts for logs; argument parsing, \<open>init\<close>, \<open>doctor\<close> and \<open>--check\<close> of \<^verbatim>\<open>app.py\<close>, which print, copy and
  probe; the \<open>ctypes\<close> calls for macOS ACLs and the best-effort writes of \<^verbatim>\<open>protocol/atomic_io.py\<close>; the fake handlers of
  \<^verbatim>\<open>protocol/appletv.py\<close> that the bridge overrides; the scripts for releases. Wall-clock time inside a step,
  and a second cancellation during a shutdown that was itself cancelled, have no counterpart either.
\<close>

end
